(* ===== verification/Prelude.thy ===== *)
theory Prelude
  imports Main "HOL-Library.Word" "HOL-Library.AList"
begin

text \<open>
  Prelude of the DAG-BFT development: the machine types the Rust code uses, the
  association lists that stand for its \<open>HashMap\<close>s and \<open>BTreeMap\<close>s, and the
  generic lemmas all components share.

  Unsigned integers of width \<open>w\<close> are natural numbers below \<open>2 ^ w\<close>; the operations
  of the release profile (the one the repository builds and measures), which wrap around,
  are written out as \<open>wadd\<close> and \<open>wsub\<close>, and Rust's \<open>saturating_sub\<close> is the
  subtraction of \<open>nat\<close>.

  A \<open>HashMap\<close> or \<open>BTreeMap\<close> is an association list with distinct keys: it is the map
  together with the order in which the program happens to iterate over it. A statement that
  holds for every such list holds for every iteration order. \<open>AList.update\<close> is
  \<open>insert\<close>, \<open>AList.delete\<close> is \<open>remove\<close>, \<open>filter\<close> is \<open>retain\<close>.

  A computation that can panic returns an \<open>option\<close>: \<open>None\<close> is the panic.
\<close>

named_theorems arith_defs "definitions of machine arithmetic"
named_theorems al_simps "facts on association lists as maps"

subsection \<open>Machine types\<close>

text \<open>
  A 32-byte array (\<open>Digest\<close>, \<open>PublicKey\<close>) is the 256-bit number with those bytes,
  most significant first; the derived \<open>Ord\<close> on arrays, lexicographic, is then the order of
  the numbers.
\<close>

type_synonym byte = "8 word"
type_synonym bytes = "8 word list"
type_synonym digest = "256 word"
type_synonym public_key = "256 word"
type_synonym round = nat
type_synonym stake = nat
type_synonym worker_id = nat
type_synonym executor_id = nat
type_synonym account_id = nat
type_synonym ('k, 'v) hmap = "('k \<times> 'v) list"

definition wadd :: "nat \<Rightarrow> nat \<Rightarrow> nat \<Rightarrow> nat" where
  "wadd w a b = (a + b) mod 2 ^ w"

definition wsub :: "nat \<Rightarrow> nat \<Rightarrow> nat \<Rightarrow> nat" where
  "wsub w a b = (if b \<le> a then a - b else a + 2 ^ w - b)"

definition wmul :: "nat \<Rightarrow> nat \<Rightarrow> nat \<Rightarrow> nat" where
  "wmul w a b = (a * b) mod 2 ^ w"

fun wsum :: "nat \<Rightarrow> nat list \<Rightarrow> nat" where
  "wsum w [] = 0"
| "wsum w (x # xs) = wadd w x (wsum w xs)"

declare wadd_def [arith_defs] wsub_def [arith_defs] wmul_def [arith_defs]

lemma wadd_exact: "a + b < 2 ^ w \<Longrightarrow> wadd w a b = a + b"
  by (simp add: wadd_def)

lemma wsub_exact: "b \<le> a \<Longrightarrow> wsub w a b = a - b"
  by (simp add: wsub_def)

lemma wmul_exact: "a * b < 2 ^ w \<Longrightarrow> wmul w a b = a * b"
  by (simp add: wmul_def)

lemma wadd_less [simp]: "wadd w a b < 2 ^ w"
  by (simp add: wadd_def)

lemma wsum_mod: "wsum w xs = sum_list xs mod 2 ^ w"
  by (induction xs) (simp_all add: wadd_def mod_simps)

lemma wsum_exact: "sum_list xs < 2 ^ w \<Longrightarrow> wsum w xs = sum_list xs"
  by (simp add: wsum_mod)

text \<open>Bytes of a number, least significant first (\<open>to_le_bytes\<close>) and most significant
  first (\<open>to_be_bytes\<close>), and the way back.\<close>

fun le_bytes :: "nat \<Rightarrow> nat \<Rightarrow> bytes" where
  "le_bytes 0 n = []"
| "le_bytes (Suc k) n = word_of_nat (n mod 256) # le_bytes k (n div 256)"

lemma le_bytes_numeral:
  "le_bytes (numeral k) n = word_of_nat (n mod 256) # le_bytes (pred_numeral k) (n div 256)"
  by (simp add: numeral_eq_Suc [of k])

definition be_bytes :: "nat \<Rightarrow> nat \<Rightarrow> bytes" where
  "be_bytes k n = rev (le_bytes k n)"

fun of_le_bytes :: "bytes \<Rightarrow> nat" where
  "of_le_bytes [] = 0"
| "of_le_bytes (b # bs) = unat b + 256 * of_le_bytes bs"

definition of_be_bytes :: "bytes \<Rightarrow> nat" where
  "of_be_bytes bs = of_le_bytes (rev bs)"

definition bytes32 :: "256 word \<Rightarrow> bytes" where
  "bytes32 d = be_bytes 32 (unat d)"

lemma length_le_bytes [simp]: "length (le_bytes k n) = k"
  by (induction k arbitrary: n) simp_all

lemma length_be_bytes [simp]: "length (be_bytes k n) = k"
  by (simp add: be_bytes_def)

lemma length_bytes32 [simp]: "length (bytes32 d) = 32"
  by (simp add: bytes32_def)

lemma of_le_bytes_le_bytes: "n < 256 ^ k \<Longrightarrow> of_le_bytes (le_bytes k n) = n"
proof (induction k arbitrary: n)
  case 0
  then show ?case by simp
next
  case (Suc k)
  have "n div 256 < 256 ^ k"
    using Suc.prems by (simp add: less_mult_imp_div_less mult.commute)
  then have "of_le_bytes (le_bytes k (n div 256)) = n div 256"
    by (rule Suc.IH)
  moreover have "unat (word_of_nat (n mod 256) :: 8 word) = n mod 256"
    by (simp add: unsigned_of_nat take_bit_eq_mod)
  ultimately show ?case by simp
qed

lemma of_be_bytes_be_bytes: "n < 256 ^ k \<Longrightarrow> of_be_bytes (be_bytes k n) = n"
  by (simp add: of_be_bytes_def be_bytes_def of_le_bytes_le_bytes)

lemma of_le_bytes_less: "of_le_bytes bs < 256 ^ length bs"
proof (induction bs)
  case Nil
  then show ?case by simp
next
  case (Cons b bs)
  have "unat b < 256" using unsigned_less [where ?'a = nat and w = b] by simp
  with Cons show ?case by simp
qed

lemma of_be_bytes_less: "of_be_bytes bs < 256 ^ length bs"
  using of_le_bytes_less [of "rev bs"] by (simp add: of_be_bytes_def)

lemma le_bytes_of_le_bytes: "le_bytes (length bs) (of_le_bytes bs) = bs"
proof (induction bs)
  case Nil
  then show ?case by simp
next
  case (Cons b bs)
  have "unat b < 256" using unsigned_less [where ?'a = nat and w = b] by simp
  then have "(unat b + 256 * of_le_bytes bs) div 256 = of_le_bytes bs"
    and "(unat b + 256 * of_le_bytes bs) mod 256 = unat b" by simp_all
  with Cons show ?case by simp
qed

lemma be_bytes_of_be_bytes: "be_bytes (length bs) (of_be_bytes bs) = bs"
  using le_bytes_of_le_bytes [of "rev bs"] by (simp add: be_bytes_def of_be_bytes_def)

lemma le_bytes_inject:
  assumes "le_bytes k m = le_bytes k n" "m < 256 ^ k" "n < 256 ^ k"
  shows "m = n"
  using assms of_le_bytes_le_bytes by metis

lemma bytes32_word_of_be_bytes:
  assumes "length bs = 32"
  shows "bytes32 (word_of_nat (of_be_bytes bs)) = bs"
proof -
  have "of_be_bytes bs < 2 ^ 256" using of_be_bytes_less [of bs] assms by simp
  then have "unat (word_of_nat (of_be_bytes bs) :: 256 word) = of_be_bytes bs"
    by (simp add: unsigned_of_nat take_bit_nat_eq_self)
  then show ?thesis using be_bytes_of_be_bytes [of bs] assms by (simp add: bytes32_def)
qed

lemma bytes32_inject [simp]: "bytes32 a = bytes32 b \<longleftrightarrow> a = b"
proof
  assume "bytes32 a = bytes32 b"
  then have "le_bytes 32 (unat a) = le_bytes 32 (unat b)"
    by (simp add: bytes32_def be_bytes_def)
  moreover have "unat x < 256 ^ 32" for x :: "256 word"
    using unsigned_less [where ?'a = nat and w = x] by simp
  ultimately have "unat a = unat b"
    by (blast intro: le_bytes_inject)
  then show "a = b" by (simp add: word_unat_eq_iff)
qed simp

subsection \<open>Association lists as the maps of the code\<close>

definition get_or :: "'v \<Rightarrow> ('k, 'v) hmap \<Rightarrow> 'k \<Rightarrow> 'v" where
  "get_or d m k = (case map_of m k of None \<Rightarrow> d | Some v \<Rightarrow> v)"

definition keys :: "('k, 'v) hmap \<Rightarrow> 'k list" where
  "keys m = map fst m"

definition vals :: "('k, 'v) hmap \<Rightarrow> 'v list" where
  "vals m = map snd m"

definition mem_key :: "('k, 'v) hmap \<Rightarrow> 'k \<Rightarrow> bool" where
  "mem_key m k = (map_of m k \<noteq> None)"

definition retain :: "('k \<Rightarrow> 'v \<Rightarrow> bool) \<Rightarrow> ('k, 'v) hmap \<Rightarrow> ('k, 'v) hmap" where
  "retain P m = filter (\<lambda>(k, v). P k v) m"

definition set_insert :: "'a \<Rightarrow> 'a list \<Rightarrow> 'a list" where
  "set_insert x xs = (if x \<in> set xs then xs else xs @ [x])"

text \<open>Equality of two maps: the same keys with the same values.\<close>

definition hmap_eq :: "('k, 'v) hmap \<Rightarrow> ('k, 'v) hmap \<Rightarrow> bool" where
  "hmap_eq m n \<longleftrightarrow> list_all (\<lambda>k. map_of m k = map_of n k) (keys m @ keys n)"

text \<open>\<open>entry(k).or_insert(d)\<close> followed by an update of the entry in place.\<close>

definition upsert :: "'v \<Rightarrow> 'k \<Rightarrow> ('v \<Rightarrow> 'v) \<Rightarrow> ('k, 'v) hmap \<Rightarrow> ('k, 'v) hmap" where
  "upsert d k f m = AList.update k (f (get_or d m k)) m"

lemma set_set_insert [simp]: "set (set_insert x xs) = insert x (set xs)"
  by (auto simp: set_insert_def)

lemma distinct_set_insert [simp]: "distinct (set_insert x xs) \<longleftrightarrow> distinct xs"
  by (auto simp: set_insert_def)

lemma set_vals: "set (vals m) = snd ` set m"
  by (simp add: vals_def)

lemma set_keys: "set (keys m) = fst ` set m"
  by (simp add: keys_def)

lemma mem_key_iff [al_simps]: "mem_key m k \<longleftrightarrow> k \<in> fst ` set m"
  by (simp add: mem_key_def map_of_eq_None_iff)

lemma set_delete: "set (AList.delete k m) = {x \<in> set m. fst x \<noteq> k}"
  by (induction m) auto

lemma map_of_update [al_simps]:
  "map_of (AList.update k v m) k' = (if k' = k then Some v else map_of m k')"
  by (simp add: update_conv')

lemma map_of_delete [al_simps]:
  "map_of (AList.delete k m) k' = (if k' = k then None else map_of m k')"
  by (simp add: delete_conv')

lemma get_or_update [al_simps]:
  "get_or d (AList.update k v m) k' = (if k' = k then v else get_or d m k')"
  by (simp add: get_or_def al_simps)

lemma map_of_upsert [al_simps]:
  "map_of (upsert d k f m) k' = (if k' = k then Some (f (get_or d m k)) else map_of m k')"
  by (simp add: upsert_def al_simps)

lemma get_or_upsert [al_simps]:
  "get_or d' (upsert d k f m) k' = (if k' = k then f (get_or d m k) else get_or d' m k')"
  by (simp add: upsert_def al_simps)

lemma distinct_upsert [simp]: "distinct (map fst m) \<Longrightarrow> distinct (map fst (upsert d k f m))"
  by (simp add: upsert_def distinct_update)

lemma hmap_eq_iff: "hmap_eq m n \<longleftrightarrow> map_of m = map_of n"
proof
  assume eq: "hmap_eq m n"
  have "map_of m k = map_of n k" for k
  proof (cases "k \<in> fst ` set m \<union> fst ` set n")
    case True
    then show ?thesis using eq by (auto simp: hmap_eq_def list_all_iff keys_def)
  next
    case False
    then have "map_of m k = None" "map_of n k = None" by (simp_all add: map_of_eq_None_iff)
    then show ?thesis by simp
  qed
  then show "map_of m = map_of n" by (rule ext)
qed (simp add: hmap_eq_def list_all_iff)

lemma map_of_retain [al_simps]:
  assumes "distinct (map fst m)"
  shows "map_of (retain P m) k =
    (case map_of m k of None \<Rightarrow> None | Some v \<Rightarrow> if P k v then Some v else None)"
  using assms
proof (induction m)
  case Nil
  then show ?case by (simp add: retain_def)
next
  case (Cons a m)
  obtain k' v' where a: "a = (k', v')" by (cases a)
  have notin: "map_of m k' = None" using Cons.prems a by (simp add: map_of_eq_None_iff)
  show ?case
    using Cons notin a by (auto simp: retain_def split: option.splits)
qed

lemma map_of_retain_key:
  "map_of (retain (\<lambda>k _. P k) m) k = (if P k then map_of m k else None)"
  by (induction m) (auto simp: retain_def)

lemma set_retain [simp]: "set (retain P m) = {(k, v) \<in> set m. P k v}"
  by (auto simp: retain_def)

lemma distinct_retain [intro]: "distinct (map fst m) \<Longrightarrow> distinct (map fst (retain P m))"
  by (simp add: retain_def distinct_map_filter)

lemma retain_Nil [simp]: "retain P [] = []"
  by (simp add: retain_def)

lemma map_of_SomeI: "distinct (map fst m) \<Longrightarrow> (k, v) \<in> set m \<Longrightarrow> map_of m k = Some v"
  by simp

lemma set_update_subset: "set (AList.update k v m) \<subseteq> insert (k, v) (set m)"
  by (induction m) auto

lemma update_in_set: "(k, v) \<in> set (AList.update k v m)"
  by (induction m) auto

lemma set_update_distinct:
  assumes "distinct (map fst m)"
  shows "set (AList.update k v m) = insert (k, v) {p \<in> set m. fst p \<noteq> k}"
proof -
  have d: "distinct (map fst (AList.update k v m))"
    using assms by (rule distinct_update)
  have "(a, b) \<in> set (AList.update k v m) \<longleftrightarrow> (a = k \<and> b = v) \<or> (a \<noteq> k \<and> (a, b) \<in> set m)" for a b
    using map_of_eq_Some_iff [OF d, of a b] map_of_eq_Some_iff [OF assms, of a b]
    unfolding map_of_update by (auto split: if_splits)
  then show ?thesis by auto
qed

lemma find_SomeD: "find P xs = Some x \<Longrightarrow> x \<in> set xs \<and> P x"
  by (induction xs) (auto split: if_splits)

subsection \<open>Results\<close>

text \<open>\<open>Result\<close> values are sums: \<open>Inl\<close> the error, \<open>Inr\<close> the value.\<close>

definition ensure :: "bool \<Rightarrow> 'e \<Rightarrow> ('e + 'a) \<Rightarrow> ('e + 'a)" where
  "ensure c e k = (if c then k else Inl e)"

definition bind_res :: "('e + 'a) \<Rightarrow> ('a \<Rightarrow> 'e + 'b) \<Rightarrow> ('e + 'b)" where
  "bind_res r f = (case r of Inl e \<Rightarrow> Inl e | Inr a \<Rightarrow> f a)"

lemma ensure_Inr [simp]: "ensure c e k = Inr v \<longleftrightarrow> c \<and> k = Inr v"
  by (simp add: ensure_def)

lemma ensure_Inl: "ensure c e k = Inl e' \<longleftrightarrow> (\<not> c \<and> e = e') \<or> (c \<and> k = Inl e')"
  by (auto simp: ensure_def)

lemma bind_res_Inr [simp]: "bind_res r f = Inr v \<longleftrightarrow> (\<exists>a. r = Inr a \<and> f a = Inr v)"
  by (cases r) (simp_all add: bind_res_def)

lemma bind_res_simps [simp]: "bind_res (Inl e) f = Inl e" "bind_res (Inr a) f = f a"
  by (simp_all add: bind_res_def)

subsection \<open>Sums over distinct lists\<close>

lemma sum_list_distinct_le:
  fixes f :: "'a \<Rightarrow> nat"
  assumes "distinct xs" "set xs \<subseteq> A" "finite A"
  shows "sum_list (map f xs) \<le> sum f A"
proof -
  have "sum_list (map f xs) = sum f (set xs)"
    using assms(1) by (simp add: sum_list_distinct_conv_sum_set)
  also have "\<dots> \<le> sum f A" using assms(2,3) by (simp add: sum_mono2)
  finally show ?thesis .
qed

subsection \<open>Fixed-width encodings\<close>

lemma length_concat_fixed:
  "(\<And>x. length (f x) = n) \<Longrightarrow> length (concat (map f xs)) = n * length xs"
  by (induction xs) simp_all

lemma concat_fixed_inject:
  assumes "\<And>x. length (f x) = n" "length xs = length ys" "concat (map f xs) = concat (map f ys)"
    and "\<And>x y. x \<in> set xs \<Longrightarrow> y \<in> set ys \<Longrightarrow> f x = f y \<Longrightarrow> x = y"
  shows "xs = ys"
  using assms(2-4)
proof (induction xs ys rule: list_induct2)
  case Nil
  then show ?case by simp
next
  case (Cons x xs y ys)
  have "f x = f y \<and> concat (map f xs) = concat (map f ys)"
    using Cons.prems(1) assms(1) by simp
  with Cons show ?case by simp
qed

end
