(* ===== verification/Config.thy ===== *)
theory Config
  imports Prelude
begin

text \<open>
  \<^verbatim>\<open>config/src/lib.rs\<close>: the committee (stakes, addresses, account ranges), its quorum
  and validity thresholds, the look-ups every other component performs on it, and the initial
  partition of the accounts over the executors. Socket addresses are opaque values.
\<close>

type_synonym socket_addr = "string"

datatype config_error =
    NotInCommittee public_key
  | UnknownWorker worker_id
  | UnknownExecutor executor_id

record primary_addresses =
  primary_to_primary :: socket_addr
  worker_to_primary :: socket_addr
  executor_to_primary :: socket_addr

record executor_addresses =
  worker_to_executor :: socket_addr
  executor_to_executor :: socket_addr

record worker_addresses =
  transactions :: socket_addr
  worker_to_worker :: socket_addr
  primary_to_worker :: socket_addr

record authority =
  a_stake :: stake
  a_primary :: primary_addresses
  a_workers :: "(worker_id, worker_addresses) hmap"
  a_executors :: "(executor_id, executor_addresses) hmap"
  a_client_reply :: socket_addr
  capacity_by_bw :: nat

record committee =
  authorities :: "(public_key, authority) hmap"
  latency_matrix :: "(public_key, (public_key, nat) hmap) hmap"
  account_ranges :: "(public_key, nat \<times> nat) hmap"
  client_reply_addresses :: "(nat, socket_addr) hmap"

text \<open>A \<open>BTreeMap\<close> iterates in key order; \<open>wf_committee\<close> is what its type guarantees.\<close>

definition wf_committee :: "committee \<Rightarrow> bool" where
  "wf_committee c \<longleftrightarrow>
     sorted_wrt (<) (keys (authorities c)) \<and> sorted_wrt (<) (keys (account_ranges c))
     \<and> sorted_wrt (<) (keys (latency_matrix c))"

definition home_validator :: "committee \<Rightarrow> account_id \<Rightarrow> public_key option" where
  "home_validator c acct =
     map_option fst (find (\<lambda>(pk, (start, count)). start \<le> acct \<and> acct < wadd 64 start count)
       (account_ranges c))"

definition csize :: "committee \<Rightarrow> nat" where
  "csize c = length (authorities c)"

definition stake :: "committee \<Rightarrow> public_key \<Rightarrow> stake" where
  "stake c name = (case map_of (authorities c) name of None \<Rightarrow> 0 | Some x \<Rightarrow> a_stake x)"

definition others_stake :: "committee \<Rightarrow> public_key \<Rightarrow> (public_key \<times> stake) list" where
  "others_stake c myself =
     map (\<lambda>(name, a). (name, a_stake a)) (filter (\<lambda>(name, _). name \<noteq> myself) (authorities c))"

definition total_votes :: "committee \<Rightarrow> stake" where
  "total_votes c = wsum 32 (map a_stake (vals (authorities c)))"

definition quorum_threshold :: "committee \<Rightarrow> stake" where
  "quorum_threshold c = wadd 32 (wmul 32 2 (total_votes c) div 3) 1"

definition validity_threshold :: "committee \<Rightarrow> stake" where
  "validity_threshold c = wadd 32 (total_votes c) 2 div 3"

definition client_reply :: "committee \<Rightarrow> public_key \<Rightarrow> config_error + socket_addr" where
  "client_reply c to =
     (case map_of (authorities c) to of None \<Rightarrow> Inl (NotInCommittee to)
      | Some x \<Rightarrow> Inr (a_client_reply x))"

definition primary :: "committee \<Rightarrow> public_key \<Rightarrow> config_error + primary_addresses" where
  "primary c to =
     (case map_of (authorities c) to of None \<Rightarrow> Inl (NotInCommittee to)
      | Some x \<Rightarrow> Inr (a_primary x))"

definition others_primaries :: "committee \<Rightarrow> public_key \<Rightarrow> (public_key \<times> primary_addresses) list" where
  "others_primaries c myself =
     map (\<lambda>(name, a). (name, a_primary a)) (filter (\<lambda>(name, _). name \<noteq> myself) (authorities c))"

definition worker :: "committee \<Rightarrow> public_key \<Rightarrow> worker_id \<Rightarrow> config_error + worker_addresses" where
  "worker c to wid =
     (case find (\<lambda>(name, _). name = to) (authorities c) of
        None \<Rightarrow> Inl (NotInCommittee to)
      | Some (_, a) \<Rightarrow>
          (case find (\<lambda>(w, _). w = wid) (a_workers a) of
             None \<Rightarrow> Inl (NotInCommittee to)
           | Some (_, x) \<Rightarrow> Inr x))"

definition our_workers :: "committee \<Rightarrow> public_key \<Rightarrow> config_error + worker_addresses list" where
  "our_workers c myself =
     (case find (\<lambda>(name, _). name = myself) (authorities c) of
        None \<Rightarrow> Inl (NotInCommittee myself)
      | Some (_, a) \<Rightarrow> Inr (vals (a_workers a)))"

definition executor :: "committee \<Rightarrow> public_key \<Rightarrow> executor_id \<Rightarrow> config_error + executor_addresses" where
  "executor c to eid =
     (case find (\<lambda>(name, _). name = to) (authorities c) of
        None \<Rightarrow> Inl (NotInCommittee to)
      | Some (_, a) \<Rightarrow>
          (case find (\<lambda>(e, _). e = eid) (a_executors a) of
             None \<Rightarrow> Inl (UnknownExecutor eid)
           | Some (_, x) \<Rightarrow> Inr x))"

definition client_reply_address :: "committee \<Rightarrow> nat \<Rightarrow> socket_addr option" where
  "client_reply_address c region_id = map_of (client_reply_addresses c) region_id"

definition others_workers ::
    "committee \<Rightarrow> public_key \<Rightarrow> worker_id \<Rightarrow> (public_key \<times> worker_addresses) list" where
  "others_workers c myself wid =
     List.map_filter
       (\<lambda>(name, a). map_option (\<lambda>(_, x). (name, x)) (find (\<lambda>(w, _). w = wid) (a_workers a)))
       (filter (\<lambda>(name, _). name \<noteq> myself) (authorities c))"

subsection \<open>Account partition\<close>

definition compute_worker_for_account :: "nat \<Rightarrow> nat \<Rightarrow> nat \<Rightarrow> nat option" where
  "compute_worker_for_account account num_workers num_accounts =
     (if num_workers = 0 then Some 0
      else let accounts_per_shard =
             wsub 64 (wadd 64 num_accounts num_workers) 1 div num_workers
           in if accounts_per_shard = 0 then None
              else Some (min (account div accounts_per_shard) (num_workers - 1)))"

type_synonym partition = "(account_id, executor_id) hmap"

fun partition_range :: "nat \<Rightarrow> nat \<Rightarrow> nat \<Rightarrow> nat list \<Rightarrow> partition \<Rightarrow> partition option" where
  "partition_range num_executors start count [] p = Some p"
| "partition_range num_executors start count (acct # accts) p =
     (case compute_worker_for_account (acct - start) num_executors count of
        None \<Rightarrow> None
      | Some e \<Rightarrow> partition_range num_executors start count accts (AList.update acct e p))"

fun create_partition_from :: "nat \<Rightarrow> (nat \<times> nat) list \<Rightarrow> partition \<Rightarrow> partition option" where
  "create_partition_from num_executors [] p = Some p"
| "create_partition_from num_executors ((start, count) # rs) p =
     (case partition_range num_executors start count [start..<wadd 64 start count] p of
        None \<Rightarrow> None
      | Some p' \<Rightarrow> create_partition_from num_executors rs p')"

definition create_initial_partition :: "nat \<Rightarrow> (nat \<times> nat) list \<Rightarrow> partition option" where
  "create_initial_partition num_executors validator_ranges =
     create_partition_from num_executors validator_ranges []"

subsection \<open>Thresholds\<close>

definition total_stake :: "committee \<Rightarrow> nat" where
  "total_stake c = (\<Sum>k\<in>set (keys (authorities c)). stake c k)"

definition weight :: "committee \<Rightarrow> public_key set \<Rightarrow> nat" where
  "weight c A = (\<Sum>k\<in>A. stake c k)"

text \<open>The \<open>u32\<close> arithmetic of the thresholds is exact up to this bound.\<close>

definition stake_bounded :: "committee \<Rightarrow> bool" where
  "stake_bounded c \<longleftrightarrow> 2 * total_stake c < 2 ^ 32"

lemma sorted_keys_distinct: "wf_committee c \<Longrightarrow> distinct (keys (authorities c))"
  by (simp add: wf_committee_def strict_sorted_iff)

lemma sum_list_stakes:
  assumes "wf_committee c"
  shows "sum_list (map a_stake (vals (authorities c))) = total_stake c"
proof -
  have d: "distinct (map fst (authorities c))"
    using sorted_keys_distinct [OF assms] by (simp add: keys_def)
  have eq: "map a_stake (vals (authorities c)) = map (stake c) (keys (authorities c))"
    using d by (auto simp: vals_def keys_def stake_def)
  show ?thesis
    using sum_list_distinct_conv_sum_set [of "map fst (authorities c)" "stake c"] d
    unfolding eq total_stake_def keys_def by simp
qed

lemma total_votes_eq:
  assumes "wf_committee c" "stake_bounded c"
  shows "total_votes c = total_stake c"
  using assms by (simp add: total_votes_def wsum_mod sum_list_stakes stake_bounded_def)

lemma quorum_threshold_eq:
  assumes "wf_committee c" "stake_bounded c"
  shows "quorum_threshold c = 2 * total_stake c div 3 + 1"
proof -
  have "2 * total_stake c < 2 ^ 32" using assms(2) by (simp add: stake_bounded_def)
  then show ?thesis
    by (simp add: quorum_threshold_def total_votes_eq [OF assms] wmul_def wadd_def)
qed

lemma validity_threshold_eq:
  assumes "wf_committee c" "stake_bounded c"
  shows "validity_threshold c = (total_stake c + 2) div 3"
proof -
  have "2 * total_stake c < 2 ^ 32" using assms(2) by (simp add: stake_bounded_def)
  then show ?thesis
    by (simp add: validity_threshold_def total_votes_eq [OF assms] wadd_def)
qed

lemma stake_zero_outside: "k \<notin> set (keys (authorities c)) \<Longrightarrow> stake c k = 0"
  by (auto simp: stake_def keys_def split: option.splits dest: map_of_SomeD)
     (metis fst_conv image_eqI map_of_SomeD)

lemma weight_le_total: "finite A \<Longrightarrow> weight c A \<le> total_stake c"
proof -
  assume fin: "finite A"
  let ?K = "set (keys (authorities c))"
  have "weight c A = sum (stake c) (A \<inter> ?K)"
    unfolding weight_def using fin stake_zero_outside
    by (intro sum.mono_neutral_right) auto
  also have "\<dots> \<le> total_stake c"
    unfolding total_stake_def by (intro sum_mono2) auto
  finally show ?thesis .
qed

subsection \<open>Quorum systems\<close>

text \<open>
  The interface the aggregators and the commit rule rely on: a configuration gives each
  member a weight, and has a threshold above two thirds of the total weight.
\<close>

locale weighted_quorum =
  fixes ok :: "'c \<Rightarrow> bool" and w :: "'c \<Rightarrow> 'p \<Rightarrow> nat"
    and total :: "'c \<Rightarrow> nat" and threshold :: "'c \<Rightarrow> nat"
  assumes total_bound: "ok c \<Longrightarrow> finite A \<Longrightarrow> sum (w c) A \<le> total c"
    and threshold_large: "ok c \<Longrightarrow> 2 * total c < 3 * threshold c"
begin

lemma sum_Int_ge:
  assumes "ok c" "finite A" "finite B"
  shows "sum (w c) A + sum (w c) B \<le> total c + sum (w c) (A \<inter> B)"
proof -
  have "sum (w c) A + sum (w c) B = sum (w c) (A \<union> B) + sum (w c) (A \<inter> B)"
    using assms by (simp add: sum.union_inter)
  moreover have "sum (w c) (A \<union> B) \<le> total c" using assms by (intro total_bound) simp_all
  ultimately show ?thesis by simp
qed

lemma quorums_intersect:
  assumes "ok c" "finite A" "finite B"
    and "threshold c \<le> sum (w c) A" "threshold c \<le> sum (w c) B"
  shows "total c < 3 * sum (w c) (A \<inter> B)"
  using sum_Int_ge [OF assms(1-3)] assms(4,5) threshold_large [OF assms(1)] by linarith

text \<open>What is left after a quorum is not a quorum: an aggregator that resets its weight
  and accepts each voter once reaches the threshold at most once.\<close>

lemma rest_below:
  assumes "ok c" "finite A" "finite B" "A \<inter> B = {}" "threshold c \<le> sum (w c) A"
  shows "sum (w c) B < threshold c"
proof -
  have "sum (w c) A + sum (w c) B \<le> total c"
    using sum_Int_ge [OF assms(1-3)] assms(4) by simp
  then show ?thesis using assms(5) threshold_large [OF assms(1)] by linarith
qed

end

definition config_ok :: "committee \<Rightarrow> bool" where
  "config_ok c \<longleftrightarrow> wf_committee c \<and> stake_bounded c"

interpretation cq: weighted_quorum config_ok stake total_stake quorum_threshold
proof unfold_locales
  show "sum (stake c) A \<le> total_stake c" if "config_ok c" "finite A" for c A
    using weight_le_total [OF that(2)] by (simp add: weight_def)
  show "2 * total_stake c < 3 * quorum_threshold c" if "config_ok c" for c
    using that by (simp add: config_ok_def quorum_threshold_eq)
qed

text \<open>
  Two sets of authorities whose stakes both reach the quorum threshold share members with
  at least the validity threshold of stake, so one of them is honest when fewer than that
  misbehave.
\<close>

theorem quorum_intersection:
  assumes "config_ok c" "finite A" "finite B"
    and "quorum_threshold c \<le> weight c A" "quorum_threshold c \<le> weight c B"
  shows "validity_threshold c \<le> weight c (A \<inter> B)"
proof -
  have "total_stake c < 3 * weight c (A \<inter> B)"
    using cq.quorums_intersect [OF assms(1-3)] assms(4,5) by (simp add: weight_def)
  moreover have "validity_threshold c = (total_stake c + 2) div 3"
    using assms(1) by (simp add: config_ok_def validity_threshold_eq)
  ultimately show ?thesis by linarith
qed

definition example_authority :: "stake \<Rightarrow> authority" where
  "example_authority s = \<lparr>a_stake = s,
     a_primary = \<lparr>primary_to_primary = ''p'', worker_to_primary = ''q'', executor_to_primary = ''r''\<rparr>,
     a_workers = [(0, \<lparr>transactions = ''t'', worker_to_worker = ''u'', primary_to_worker = ''v''\<rparr>)],
     a_executors = [(0, \<lparr>worker_to_executor = ''x'', executor_to_executor = ''y''\<rparr>)],
     a_client_reply = ''c'', capacity_by_bw = 100\<rparr>"

text \<open>The committee of the repository's own tests: four authorities of stake one.\<close>

definition committee4 :: committee where
  "committee4 = \<lparr>
     authorities = [(1, example_authority 1), (2, example_authority 1),
                    (3, example_authority 1), (4, example_authority 1)],
     latency_matrix = [], account_ranges = [(1, (0, 10)), (2, (10, 10)), (3, (20, 10)), (4, (30, 10))],
     client_reply_addresses = [(0, ''c'')]\<rparr>"

lemma stake_committee4: "stake committee4 k = (if k \<in> {1, 2, 3, 4} then 1 else 0)"
  by (simp add: stake_def committee4_def example_authority_def)

lemma keys_committee4: "keys (authorities committee4) = [1, 2, 3, 4]"
  by (simp add: keys_def committee4_def)

lemma total_stake_committee4: "total_stake committee4 = 4"
  by (simp add: total_stake_def keys_committee4 stake_committee4)

lemma config_ok_committee4: "config_ok committee4"
  by (simp add: config_ok_def stake_bounded_def total_stake_committee4)
     (simp add: wf_committee_def committee4_def keys_def)

lemma quorum_threshold_committee4: "quorum_threshold committee4 = 3"
  using config_ok_committee4 by (simp add: config_ok_def quorum_threshold_eq total_stake_committee4)

lemma validity_threshold_committee4: "validity_threshold committee4 = 2"
  using config_ok_committee4 by (simp add: config_ok_def validity_threshold_eq total_stake_committee4)

lemma worker_committee4:
  "k \<in> {1, 2, 3, 4} \<Longrightarrow> worker committee4 k 0 =
     Inr \<lparr>transactions = ''t'', worker_to_worker = ''u'', primary_to_worker = ''v''\<rparr>"
  by (auto simp: worker_def committee4_def example_authority_def)

lemmas committee4_simps = stake_committee4 total_stake_committee4 config_ok_committee4
  quorum_threshold_committee4 validity_threshold_committee4

theorem quorum_intersection_witness:
  "validity_threshold committee4 \<le> weight committee4 ({1, 2, 3} \<inter> {2, 3, 4})"
  by (rule quorum_intersection) (simp_all add: committee4_simps weight_def)

text \<open>
  With \<open>N = 3f + 1 + k\<close> votes, \<open>k < 3\<close>, the quorum threshold is \<open>N - f\<close>
  and the validity threshold \<open>f + 1\<close>, as the comments in the code derive.
\<close>

theorem thresholds_in_faults:
  assumes "config_ok c" "total_stake c = 3 * f + 1 + k" "k < 3"
  shows "quorum_threshold c = total_stake c - f \<and> validity_threshold c = f + 1"
proof -
  have q: "quorum_threshold c = 2 * total_stake c div 3 + 1"
    and v: "validity_threshold c = (total_stake c + 2) div 3"
    using assms(1) by (simp_all add: config_ok_def quorum_threshold_eq validity_threshold_eq)
  have "2 * (3 * f + 1 + k) div 3 = 2 * f + (2 + 2 * k) div 3"
    and "(3 * f + 1 + k + 2) div 3 = f + (3 + k) div 3"
    by simp_all
  moreover have "k = 0 \<or> k = 1 \<or> k = 2" using assms(3) by auto
  ultimately show ?thesis unfolding q v assms(2) by auto
qed

theorem thresholds_in_faults_witness:
  "quorum_threshold committee4 = total_stake committee4 - 1 \<and> validity_threshold committee4 = 1 + 1"
  by (rule thresholds_in_faults [where k = 0]) (simp_all add: committee4_simps)

subsection \<open>The initial partition\<close>

lemma compute_worker_Some:
  assumes "0 < n" "0 < count" "count + n < 2 ^ 64"
  shows "compute_worker_for_account a n count = Some (min (a div ((count + n - 1) div n)) (n - 1))"
proof -
  have "(count + n - 1) div n \<noteq> 0" using assms by (simp add: div_eq_0_iff)
  moreover have "wsub 64 (wadd 64 count n) 1 = count + n - 1"
    using assms by (simp add: wadd_exact wsub_exact)
  ultimately show ?thesis using assms by (simp add: compute_worker_for_account_def Let_def)
qed

lemma partition_range_Some:
  assumes "0 < n" "0 < count" "count + n < 2 ^ 64"
  shows "\<exists>p'. partition_range n start count accts p = Some p' \<and>
    (\<forall>a. map_of p' a = (if a \<in> set accts
       then Some (min ((a - start) div ((count + n - 1) div n)) (n - 1)) else map_of p a))"
proof (induction accts arbitrary: p)
  case Nil
  then show ?case by simp
next
  case (Cons x accts)
  let ?e = "min ((x - start) div ((count + n - 1) div n)) (n - 1)"
  obtain p' where "partition_range n start count accts (AList.update x ?e p) = Some p'"
    and "\<forall>a. map_of p' a = (if a \<in> set accts
       then Some (min ((a - start) div ((count + n - 1) div n)) (n - 1))
       else map_of (AList.update x ?e p) a)"
    using Cons by blast
  then show ?case by (auto simp: compute_worker_Some [OF assms] map_of_update)
qed

definition in_range :: "nat \<times> nat \<Rightarrow> account_id \<Rightarrow> bool" where
  "in_range r a \<longleftrightarrow> fst r \<le> a \<and> a < fst r + snd r"

lemma create_partition_from_total:
  assumes "0 < n" and "\<forall>r\<in>set rs. fst r + snd r < 2 ^ 64 \<and> snd r + n < 2 ^ 64"
    and "\<forall>a e. map_of p a = Some e \<longrightarrow> e < n"
  shows "\<exists>p'. create_partition_from n rs p = Some p' \<and>
    (\<forall>a. map_of p' a \<noteq> None \<longleftrightarrow> map_of p a \<noteq> None \<or> (\<exists>r\<in>set rs. in_range r a)) \<and>
    (\<forall>a e. map_of p' a = Some e \<longrightarrow> e < n)"
  using assms(2,3)
proof (induction rs arbitrary: p)
  case Nil
  then show ?case by simp
next
  case (Cons r rs)
  obtain start count where r: "r = (start, count)" by (cases r)
  have w: "wadd 64 start count = start + count" using Cons.prems(1) r by (simp add: wadd_exact)
  obtain p1 where p1: "partition_range n start count [start..<start + count] p = Some p1"
    and dom1: "\<forall>a. map_of p1 a \<noteq> None \<longleftrightarrow> map_of p a \<noteq> None \<or> in_range r a"
    and lt1: "\<forall>a e. map_of p1 a = Some e \<longrightarrow> e < n"
  proof (cases "count = 0")
    case True
    then have "\<not> in_range r a" for a using r by (auto simp: in_range_def)
    with True show ?thesis using that [of p] Cons.prems(2) by simp
  next
    case False
    have "count + n < 2 ^ 64" using Cons.prems(1) r by simp
    from partition_range_Some [OF assms(1) _ this, of start "[start..<start + count]" p] False
    obtain p1 where "partition_range n start count [start..<start + count] p = Some p1"
      and m: "\<forall>a. map_of p1 a = (if a \<in> set [start..<start + count]
        then Some (min ((a - start) div ((count + n - 1) div n)) (n - 1)) else map_of p a)"
      by blast
    have iff: "a \<in> set [start..<start + count] \<longleftrightarrow> in_range r a" for a
      using r by (auto simp: in_range_def)
    have "\<forall>a. map_of p1 a \<noteq> None \<longleftrightarrow> map_of p a \<noteq> None \<or> in_range r a"
      using m unfolding iff by simp
    moreover have "e < n" if "map_of p1 a = Some e" for a e
    proof (cases "in_range r a")
      case True
      with m that have "e = min ((a - start) div ((count + n - 1) div n)) (n - 1)"
        unfolding iff by simp
      then have "e \<le> n - 1" by (simp only: min.cobounded2)
      then show ?thesis using assms(1) by linarith
    next
      case False
      with m that Cons.prems(2) show ?thesis unfolding iff by auto
    qed
    ultimately show ?thesis using that [OF \<open>partition_range n start count _ p = Some p1\<close>] by blast
  qed
  obtain p2 where "create_partition_from n rs p1 = Some p2"
    and "\<forall>a. map_of p2 a \<noteq> None \<longleftrightarrow> map_of p1 a \<noteq> None \<or> (\<exists>r\<in>set rs. in_range r a)"
    and "\<forall>a e. map_of p2 a = Some e \<longrightarrow> e < n"
    using Cons.IH [OF _ lt1] Cons.prems(1) by auto
  then show ?case using p1 dom1 w r by auto
qed

text \<open>
  The initial partition never panics (no division by zero), gives an executor exactly to
  the accounts of the validators' ranges, and every executor it names exists.
\<close>

theorem create_initial_partition_total:
  assumes "0 < n" and "\<forall>r\<in>set rs. fst r + snd r < 2 ^ 64 \<and> snd r + n < 2 ^ 64"
  shows "\<exists>p. create_initial_partition n rs = Some p \<and>
    (\<forall>a. map_of p a \<noteq> None \<longleftrightarrow> (\<exists>r\<in>set rs. in_range r a)) \<and>
    (\<forall>a e. map_of p a = Some e \<longrightarrow> e < n)"
  using create_partition_from_total [OF assms, of "[]"]
  by (simp add: create_initial_partition_def)

theorem create_initial_partition_total_witness:
  "\<exists>p. create_initial_partition 3 [(0, 10), (10, 0), (20, 5)] = Some p \<and>
    (\<forall>a. map_of p a \<noteq> None \<longleftrightarrow> (\<exists>r\<in>set [(0, 10), (10, 0), (20, 5)]. in_range r a)) \<and>
    (\<forall>a e. map_of p a = Some e \<longrightarrow> e < 3)"
  by (rule create_initial_partition_total) simp_all

end
