(* ===== verification/Messages.thy ===== *)
theory Messages
  imports Config
begin

text \<open>
  \<^verbatim>\<open>primary/src/messages.rs\<close> and \<^verbatim>\<open>primary/src/error.rs\<close>: headers, votes and
  certificates, the byte strings their digests hash, and their verification.

  SHA-512 and ed25519 are third-party code: they are the record \<open>crypto\<close>, an argument of
  the definitions that use them. \<open>sha\<close> is the first 32 bytes of the hash, \<open>verify_strict\<close>
  and \<open>dalek_verify_batch\<close> the verification of one signature and of a batch; \<open>sign\<close> is
  what the \<open>SignatureService\<close> of the node returns for a digest.
\<close>

type_synonym signature = "256 word \<times> 256 word"

record crypto =
  sha :: "bytes \<Rightarrow> digest"
  verify_strict :: "digest \<Rightarrow> signature \<Rightarrow> public_key \<Rightarrow> bool"
  dalek_verify_batch :: "digest \<Rightarrow> (public_key \<times> signature) list \<Rightarrow> bool"
  sign :: "digest \<Rightarrow> signature"

datatype dag_error =
    InvalidSignature
  | StoreError
  | SerializationError
  | InvalidHeaderId
  | MalformedHeader digest
  | UnknownAuthority public_key
  | AuthorityReuse public_key
  | UnexpectedVote digest
  | CertificateRequiresQuorum
  | HeaderRequiresQuorum digest
  | TooOld digest round

record header =
  h_author :: public_key
  h_round :: round
  h_payload :: "(digest, worker_id) hmap"
  h_parents :: "digest list"
  h_account_counts :: "(nat, nat) hmap"
  h_avg_queue_delay_ms :: nat
  h_created_at :: nat
  h_id :: digest
  h_signature :: signature

record vote =
  v_id :: digest
  v_round :: round
  v_origin :: public_key
  v_author :: public_key
  v_signature :: signature

record certificate =
  c_header :: header
  c_votes :: "(public_key \<times> signature) list"

definition header_default :: header where
  "header_default = \<lparr>h_author = 0, h_round = 0, h_payload = [], h_parents = [],
     h_account_counts = [], h_avg_queue_delay_ms = 0, h_created_at = 0, h_id = 0,
     h_signature = (0, 0)\<rparr>"

text \<open>
  What the types and widths guarantee: \<open>payload\<close> is a \<open>BTreeMap\<close> and \<open>parents\<close> a
  \<open>BTreeSet\<close>, both iterated in order, and every integer fits its width.
\<close>

definition wf_header :: "header \<Rightarrow> bool" where
  "wf_header h \<longleftrightarrow> h_round h < 2 ^ 64 \<and> h_avg_queue_delay_ms h < 2 ^ 64 \<and> h_created_at h < 2 ^ 64
     \<and> sorted_wrt (<) (keys (h_payload h)) \<and> sorted_wrt (<) (h_parents h)
     \<and> distinct (keys (h_account_counts h))
     \<and> (\<forall>w\<in>set (vals (h_payload h)). w < 2 ^ 32)
     \<and> (\<forall>(a, n)\<in>set (h_account_counts h). a < 2 ^ 32 \<and> n < 2 ^ 16)"

subsection \<open>Header\<close>

definition enc_payload :: "digest \<times> worker_id \<Rightarrow> bytes" where
  "enc_payload = (\<lambda>(x, y). bytes32 x @ le_bytes 4 y)"

definition enc_count :: "nat \<times> nat \<Rightarrow> bytes" where
  "enc_count = (\<lambda>(k, v). le_bytes 4 k @ le_bytes 2 v)"

definition sorted_counts :: "(nat, nat) hmap \<Rightarrow> (nat \<times> nat) list" where
  "sorted_counts m = sort_key fst m"

definition header_preimage :: "header \<Rightarrow> bytes" where
  "header_preimage h =
     bytes32 (h_author h) @ le_bytes 8 (h_round h)
     @ concat (map enc_payload (h_payload h))
     @ concat (map enc_count (sorted_counts (h_account_counts h)))
     @ le_bytes 8 (h_avg_queue_delay_ms h)
     @ concat (map bytes32 (h_parents h))
     @ le_bytes 8 (h_created_at h)"

definition header_digest :: "crypto \<Rightarrow> header \<Rightarrow> digest" where
  "header_digest C h = sha C (header_preimage h)"

definition header_new :: "crypto \<Rightarrow> public_key \<Rightarrow> round \<Rightarrow> (digest, worker_id) hmap \<Rightarrow> digest list
    \<Rightarrow> (nat, nat) hmap \<Rightarrow> nat \<Rightarrow> nat \<Rightarrow> header" where
  "header_new C author rnd payload parents counts avg_qd now =
     (let h = \<lparr>h_author = author, h_round = rnd, h_payload = payload, h_parents = parents,
                h_account_counts = counts, h_avg_queue_delay_ms = avg_qd, h_created_at = now,
                h_id = 0, h_signature = (0, 0)\<rparr>;
          d = header_digest C h
      in h\<lparr>h_id := d, h_signature := sign C d\<rparr>)"

definition all_workers_known :: "committee \<Rightarrow> header \<Rightarrow> bool" where
  "all_workers_known com h \<longleftrightarrow>
     list_all (\<lambda>w. case worker com (h_author h) w of Inl _ \<Rightarrow> False | Inr _ \<Rightarrow> True) (vals (h_payload h))"

definition sig_verify :: "crypto \<Rightarrow> signature \<Rightarrow> digest \<Rightarrow> public_key \<Rightarrow> dag_error + unit" where
  "sig_verify C s d pk = (if verify_strict C d s pk then Inr () else Inl InvalidSignature)"

definition header_verify :: "crypto \<Rightarrow> committee \<Rightarrow> header \<Rightarrow> dag_error + unit" where
  "header_verify C com h =
     ensure (header_digest C h = h_id h) InvalidHeaderId (
     ensure (0 < stake com (h_author h)) (UnknownAuthority (h_author h)) (
     ensure (all_workers_known com h) (MalformedHeader (h_id h)) (
     sig_verify C (h_signature h) (h_id h) (h_author h))))"

subsection \<open>Vote\<close>

definition vote_preimage :: "vote \<Rightarrow> bytes" where
  "vote_preimage v = bytes32 (v_id v) @ le_bytes 8 (v_round v) @ bytes32 (v_origin v)"

definition vote_digest :: "crypto \<Rightarrow> vote \<Rightarrow> digest" where
  "vote_digest C v = sha C (vote_preimage v)"

definition vote_new :: "crypto \<Rightarrow> header \<Rightarrow> public_key \<Rightarrow> vote" where
  "vote_new C h author =
     (let v = \<lparr>v_id = h_id h, v_round = h_round h, v_origin = h_author h, v_author = author,
                v_signature = (0, 0)\<rparr>
      in v\<lparr>v_signature := sign C (vote_digest C v)\<rparr>)"

definition vote_verify :: "crypto \<Rightarrow> committee \<Rightarrow> vote \<Rightarrow> dag_error + unit" where
  "vote_verify C com v =
     ensure (0 < stake com (v_author v)) (UnknownAuthority (v_author v))
       (sig_verify C (v_signature v) (vote_digest C v) (v_author v))"

subsection \<open>Certificate\<close>

definition c_round :: "certificate \<Rightarrow> round" where
  "c_round c = h_round (c_header c)"

definition c_origin :: "certificate \<Rightarrow> public_key" where
  "c_origin c = h_author (c_header c)"

definition cert_preimage :: "certificate \<Rightarrow> bytes" where
  "cert_preimage c = bytes32 (h_id (c_header c)) @ le_bytes 8 (c_round c) @ bytes32 (c_origin c)"

definition cert_digest :: "crypto \<Rightarrow> certificate \<Rightarrow> digest" where
  "cert_digest C c = sha C (cert_preimage c)"

definition cert_eq :: "certificate \<Rightarrow> certificate \<Rightarrow> bool" where
  "cert_eq a b \<longleftrightarrow> h_id (c_header a) = h_id (c_header b) \<and> c_round a = c_round b \<and> c_origin a = c_origin b"

definition genesis :: "committee \<Rightarrow> certificate list" where
  "genesis com =
     map (\<lambda>name. \<lparr>c_header = header_default\<lparr>h_author := name\<rparr>, c_votes = []\<rparr>) (keys (authorities com))"

text \<open>The loop of \<open>Certificate::verify\<close> over the votes; \<open>weight\<close> is a \<open>u32\<close>.\<close>

fun check_votes :: "committee \<Rightarrow> (public_key \<times> signature) list \<Rightarrow> public_key list \<Rightarrow> stake
    \<Rightarrow> dag_error + stake" where
  "check_votes com [] used w = Inr w"
| "check_votes com ((name, _) # vs) used w =
     ensure (name \<notin> set used) (AuthorityReuse name) (
     ensure (0 < stake com name) (UnknownAuthority name) (
     check_votes com vs (set_insert name used) (wadd 32 w (stake com name))))"

definition cert_verify :: "crypto \<Rightarrow> committee \<Rightarrow> certificate \<Rightarrow> dag_error + unit" where
  "cert_verify C com c =
     (if list_ex (\<lambda>g. cert_eq g c) (genesis com) then Inr ()
      else bind_res (header_verify C com (c_header c)) (\<lambda>_.
           bind_res (check_votes com (c_votes c) [] 0) (\<lambda>w.
           ensure (quorum_threshold com \<le> w) CertificateRequiresQuorum (
           if dalek_verify_batch C (cert_digest C c) (c_votes c) then Inr ()
           else Inl InvalidSignature))))"

record migration_notice =
  account_id :: account_id
  new_target :: public_key

record migration_message =
  mm_sender :: public_key
  mm_notices :: "migration_notice list"

definition MIGRATION_CHUNK_SIZE :: nat where
  "MIGRATION_CHUNK_SIZE = 5000"

datatype consensus_output =
    OutCertificate certificate
  | OutMigrations "migration_notice list"

subsection \<open>Verification\<close>

lemma check_votes_Inr:
  assumes "config_ok com" "check_votes com vs used w = Inr w'" "distinct used"
    and "w = weight com (set used)"
  shows "distinct (map fst vs) \<and> set (map fst vs) \<inter> set used = {} \<and>
    (\<forall>n\<in>set (map fst vs). 0 < stake com n) \<and> w' = weight com (set used \<union> set (map fst vs))"
  using assms(2-4)
proof (induction vs arbitrary: used w)
  case Nil
  then show ?case by simp
next
  case (Cons v vs)
  obtain name sig where v: "v = (name, sig)" by (cases v)
  have new: "name \<notin> set used" and pos: "0 < stake com name"
    and rest: "check_votes com vs (set_insert name used) (wadd 32 w (stake com name)) = Inr w'"
    using Cons.prems(1) v by simp_all
  have sum: "weight com (set (set_insert name used)) = w + stake com name"
    using new Cons.prems(3) by (simp add: weight_def)
  have "w + stake com name \<le> total_stake com"
    using weight_le_total [of "set (set_insert name used)" com] sum by simp
  then have w1: "wadd 32 w (stake com name) = weight com (set (set_insert name used))"
    using assms(1) unfolding sum by (simp add: wadd_exact config_ok_def stake_bounded_def)
  have "distinct (set_insert name used)" using Cons.prems(2) by simp
  from Cons.IH [OF rest this w1] show ?case using v new pos by auto
qed

lemma cert_verify_Inr:
  assumes "config_ok com" "cert_verify C com c = Inr ()" "\<not> list_ex (\<lambda>g. cert_eq g c) (genesis com)"
  shows "header_verify C com (c_header c) = Inr ()"
    and "distinct (map fst (c_votes c))"
    and "quorum_threshold com \<le> weight com (set (map fst (c_votes c)))"
    and "dalek_verify_batch C (cert_digest C c) (c_votes c)"
proof -
  obtain w where *: "header_verify C com (c_header c) = Inr ()"
    "check_votes com (c_votes c) [] 0 = Inr w" "quorum_threshold com \<le> w"
    "dalek_verify_batch C (cert_digest C c) (c_votes c)"
    using assms(2,3) by (auto simp: cert_verify_def split: if_splits)
  then show "header_verify C com (c_header c) = Inr ()"
    "dalek_verify_batch C (cert_digest C c) (c_votes c)" by simp_all
  have "distinct (map fst (c_votes c)) \<and> w = weight com (set (map fst (c_votes c)))"
    using check_votes_Inr [OF assms(1) *(2)] by (simp add: weight_def)
  then show "distinct (map fst (c_votes c))"
    "quorum_threshold com \<le> weight com (set (map fst (c_votes c)))" using *(3) by simp_all
qed

text \<open>
  C5: Two certificates that pass verification, neither of them a genesis certificate, share
  voters with at least the validity threshold of stake: a conflicting pair needs that much
  stake to have signed twice.
\<close>

theorem verified_certificates_intersect:
  assumes "config_ok com"
    and "cert_verify C com a = Inr ()" "\<not> list_ex (\<lambda>g. cert_eq g a) (genesis com)"
    and "cert_verify C com b = Inr ()" "\<not> list_ex (\<lambda>g. cert_eq g b) (genesis com)"
  shows "validity_threshold com \<le> weight com (set (map fst (c_votes a)) \<inter> set (map fst (c_votes b)))"
proof -
  have "total_stake com < 3 * weight com (set (map fst (c_votes a)) \<inter> set (map fst (c_votes b)))"
    using cq.quorums_intersect [OF assms(1) finite_set finite_set]
      cert_verify_Inr(3) [OF assms(1-3)] cert_verify_Inr(3) [OF assms(1,4,5)]
    unfolding weight_def by blast
  then show ?thesis using assms(1) by (simp add: config_ok_def validity_threshold_eq)
qed

definition example_crypto :: crypto where
  "example_crypto = \<lparr>sha = (\<lambda>bs. 7), verify_strict = (\<lambda>_ _ _. True),
     dalek_verify_batch = (\<lambda>_ _. True), sign = (\<lambda>d. (d, 0))\<rparr>"

definition example_header :: header where
  "example_header = header_new example_crypto 1 1 [(5, 0)] [11, 12, 13] [(3, 2)] 4 1000"

definition example_cert :: "public_key list \<Rightarrow> certificate" where
  "example_cert ns = \<lparr>c_header = example_header, c_votes = map (\<lambda>n. (n, (0, 0))) ns\<rparr>"

lemma example_cert_verifies:
  "ns \<in> {[1, 2, 3], [2, 3, 4]} \<Longrightarrow> cert_verify example_crypto committee4 (example_cert ns) = Inr ()"
  by (auto simp: cert_verify_def header_verify_def example_cert_def example_header_def header_new_def
      ensure_def sig_verify_def example_crypto_def header_digest_def committee4_simps wadd_def
      all_workers_known_def vals_def worker_committee4 set_insert_def Let_def)

lemma example_cert_not_genesis:
  "\<not> list_ex (\<lambda>g. cert_eq g (example_cert ns)) (genesis committee4)"
  by (simp add: genesis_def keys_committee4 cert_eq_def c_round_def example_cert_def
      example_header_def header_new_def header_default_def Let_def)

theorem verified_certificates_intersect_witness:
  "validity_threshold committee4 \<le>
     weight committee4 (set (map fst (c_votes (example_cert [1, 2, 3])))
       \<inter> set (map fst (c_votes (example_cert [2, 3, 4]))))"
  by (rule verified_certificates_intersect [where C = example_crypto])
     (simp_all add: committee4_simps example_cert_verifies example_cert_not_genesis)

subsection \<open>What the digests commit to\<close>

lemma length_enc_payload: "length (enc_payload x) = 36"
  by (cases x) (simp add: enc_payload_def)

lemma length_enc_count: "length (enc_count x) = 6"
  by (cases x) (simp add: enc_count_def)

lemma enc_payload_inject:
  "snd x < 2 ^ 32 \<Longrightarrow> snd y < 2 ^ 32 \<Longrightarrow> enc_payload x = enc_payload y \<Longrightarrow> x = y"
  by (cases x; cases y) (auto simp: enc_payload_def dest: le_bytes_inject)

lemma enc_count_inject:
  "fst x < 2 ^ 32 \<Longrightarrow> snd x < 2 ^ 16 \<Longrightarrow> fst y < 2 ^ 32 \<Longrightarrow> snd y < 2 ^ 16 \<Longrightarrow>
   enc_count x = enc_count y \<Longrightarrow> x = y"
  by (cases x; cases y) (auto simp: enc_count_def dest: le_bytes_inject)

lemma set_sorted_counts [simp]: "set (sorted_counts m) = set m"
  by (simp add: sorted_counts_def)

lemma length_sorted_counts [simp]: "length (sorted_counts m) = length m"
  by (simp add: sorted_counts_def)

text \<open>
  The bytes a header's digest hashes determine every field of the header, once the
  numbers of its payload entries, account counts and parents are known.
\<close>

theorem header_preimage_inject:
  assumes wf: "wf_header a" "wf_header b" and eq: "header_preimage a = header_preimage b"
    and len: "length (h_payload a) = length (h_payload b)"
      "length (h_account_counts a) = length (h_account_counts b)"
      "length (h_parents a) = length (h_parents b)"
  shows "h_author a = h_author b \<and> h_round a = h_round b \<and> h_payload a = h_payload b
    \<and> sorted_counts (h_account_counts a) = sorted_counts (h_account_counts b)
    \<and> h_avg_queue_delay_ms a = h_avg_queue_delay_ms b \<and> h_parents a = h_parents b
    \<and> h_created_at a = h_created_at b"
proof -
  note fixed = length_concat_fixed [of enc_payload 36, OF length_enc_payload]
    length_concat_fixed [of enc_count 6, OF length_enc_count]
    length_concat_fixed [of bytes32 32, OF length_bytes32]
  have parts: "bytes32 (h_author a) = bytes32 (h_author b)" "le_bytes 8 (h_round a) = le_bytes 8 (h_round b)"
    "concat (map enc_payload (h_payload a)) = concat (map enc_payload (h_payload b))"
    "concat (map enc_count (sorted_counts (h_account_counts a)))
      = concat (map enc_count (sorted_counts (h_account_counts b)))"
    "le_bytes 8 (h_avg_queue_delay_ms a) = le_bytes 8 (h_avg_queue_delay_ms b)"
    "concat (map bytes32 (h_parents a)) = concat (map bytes32 (h_parents b))"
    "le_bytes 8 (h_created_at a) = le_bytes 8 (h_created_at b)"
    using eq len unfolding header_preimage_def by (auto simp: fixed)
  have "h_payload a = h_payload b"
    using wf by (intro concat_fixed_inject [OF length_enc_payload len(1) parts(3)] enc_payload_inject)
      (auto simp: wf_header_def vals_def)
  moreover have "sorted_counts (h_account_counts a) = sorted_counts (h_account_counts b)"
    using wf len(2) by (intro concat_fixed_inject [OF length_enc_count _ parts(4)] enc_count_inject)
      (auto simp: wf_header_def)
  moreover have "h_parents a = h_parents b"
    by (intro concat_fixed_inject [OF length_bytes32 len(3) parts(6)]) simp
  ultimately show ?thesis
    using parts wf by (auto simp: wf_header_def intro: le_bytes_inject)
qed

theorem header_preimage_inject_witness:
  "h_round example_header = h_round (example_header\<lparr>h_account_counts := [(3, 2)]\<rparr>)"
  using header_preimage_inject [of example_header "example_header\<lparr>h_account_counts := [(3, 2)]\<rparr>"]
  by (simp add: wf_header_def header_preimage_def example_header_def header_new_def Let_def
      keys_def vals_def)

text \<open>
  Without the lengths it does not: the fields are concatenated with no separator, and six
  account counts are as long as one payload entry.
\<close>

definition ambiguous_bytes :: bytes where
  "ambiguous_bytes = concat (map (\<lambda>k. [k, 0, 0, 0, 0, 0]) [0, 1, 2, 3, 4]) @ [5, 0]"

definition ambiguous_digest :: digest where
  "ambiguous_digest = word_of_nat (of_be_bytes ambiguous_bytes)"

definition ambiguous_payload :: header where
  "ambiguous_payload = header_default\<lparr>h_payload := [(ambiguous_digest, 0)]\<rparr>"

definition ambiguous_counts :: header where
  "ambiguous_counts =
     header_default\<lparr>h_account_counts := [(0, 0), (1, 0), (2, 0), (3, 0), (4, 0), (5, 0)]\<rparr>"

text \<open>
  Two well-formed headers with different payloads and different account counts can have
  the same digest bytes, so the same header id and signature, whatever the hash function is.
\<close>

theorem header_digest_ambiguous:
  "wf_header ambiguous_payload \<and> wf_header ambiguous_counts
   \<and> h_account_counts ambiguous_payload \<noteq> h_account_counts ambiguous_counts
   \<and> h_payload ambiguous_payload \<noteq> h_payload ambiguous_counts
   \<and> header_digest C ambiguous_payload = header_digest C ambiguous_counts"
proof -
  have "bytes32 ambiguous_digest = ambiguous_bytes"
    unfolding ambiguous_digest_def by (rule bytes32_word_of_be_bytes) (simp add: ambiguous_bytes_def)
  then have "enc_payload (ambiguous_digest, 0)
      = concat (map enc_count [(0, 0), (1, 0), (2, 0), (3, 0), (4, 0), (5, 0)])"
    by (simp add: enc_payload_def ambiguous_bytes_def enc_count_def le_bytes_numeral)
  then have "header_preimage ambiguous_payload = header_preimage ambiguous_counts"
    by (simp add: header_preimage_def ambiguous_payload_def ambiguous_counts_def header_default_def
        sorted_counts_def)
  then show ?thesis
    by (simp add: wf_header_def ambiguous_payload_def ambiguous_counts_def header_default_def
        keys_def vals_def header_digest_def)
qed

text \<open>
  The digest a vote for a header signs is the digest against which the votes of a
  certificate for that header are verified, and equal digest bytes of two certificates mean
  they are equal as the code compares them.
\<close>

theorem vote_and_certificate_digests:
  assumes "c_round c < 2 ^ 64" "c_round d < 2 ^ 64"
  shows "vote_digest C (vote_new C (c_header c) author) = cert_digest C c
    \<and> (cert_preimage c = cert_preimage d \<longleftrightarrow> cert_eq c d)"
  using assms
  by (auto simp: vote_digest_def cert_digest_def vote_preimage_def cert_preimage_def vote_new_def
      Let_def c_round_def c_origin_def cert_eq_def dest: le_bytes_inject)

theorem vote_and_certificate_digests_witness:
  "vote_digest example_crypto (vote_new example_crypto (c_header (example_cert [1, 2, 3])) 2)
     = cert_digest example_crypto (example_cert [1, 2, 3])"
  using vote_and_certificate_digests [of "example_cert [1, 2, 3]" "example_cert [1, 2, 3]" example_crypto 2]
  by (simp add: c_round_def example_cert_def example_header_def header_new_def Let_def)

end
