(* ===== verification/Consensus.thy ===== *)
theory Consensus
  imports Messages
begin

text \<open>
  \<^verbatim>\<open>consensus/src/lib.rs\<close>, the Tusk commit rule: the in-memory dag and its cleanup
  (\<open>State\<close>), the election of leaders, the search for the leaders a leader links to, the
  flattening of the sub-dag of a leader, and the handling of one certificate by
  \<open>Consensus::run\<close>. \<open>None\<close> is a panic (an \<open>expect\<close> that fails, an index out of range).

  The vector \<open>buffer\<close> of \<open>order_dag\<close> is a stack; here its top is the head of the list.
\<close>

type_synonym dag = "(round, (public_key, digest \<times> certificate) hmap) hmap"

record cstate =
  last_committed_round :: round
  last_committed :: "(public_key, round) hmap"
  dag :: dag

definition state_new :: "crypto \<Rightarrow> certificate list \<Rightarrow> cstate" where
  "state_new C gen =
     (let g = fold (\<lambda>x m. AList.update (c_origin x) (cert_digest C x, x) m) gen []
      in \<lparr>last_committed_round = 0,
          last_committed = map (\<lambda>(x, (_, y)). (x, c_round y)) g,
          dag = [(0, g)]\<rparr>)"

definition clean_for :: "nat \<Rightarrow> round \<Rightarrow> public_key \<times> round \<Rightarrow> dag \<Rightarrow> dag" where
  "clean_for gc_depth lcr = (\<lambda>(name, rnd) d.
     filter (\<lambda>(r, auths). auths \<noteq> [] \<and> lcr \<le> wadd 64 r gc_depth)
       (map (\<lambda>(r, auths). (r, filter (\<lambda>(n, _). n \<noteq> name \<or> rnd \<le> r) auths)) d))"

definition commit_round :: "certificate \<Rightarrow> (public_key, round) hmap \<Rightarrow> (public_key, round) hmap" where
  "commit_round c lc =
     AList.update (c_origin c)
       (case map_of lc (c_origin c) of None \<Rightarrow> c_round c | Some r \<Rightarrow> max r (c_round c)) lc"

definition update :: "nat \<Rightarrow> certificate \<Rightarrow> cstate \<Rightarrow> cstate" where
  "update gc_depth c st =
     (let lc = commit_round c (last_committed st);
          lcr = fold max (vals lc) 0
      in \<lparr>last_committed_round = lcr, last_committed = lc,
          dag = fold (clean_for gc_depth lcr) lc (dag st)\<rparr>)"

definition elect :: "committee \<Rightarrow> round \<Rightarrow> public_key" where
  "elect com rnd = sort (keys (authorities com)) ! (rnd mod csize com)"

definition leader_cert :: "committee \<Rightarrow> round \<Rightarrow> dag \<Rightarrow> (digest \<times> certificate) option" where
  "leader_cert com rnd d =
     (case map_of d rnd of None \<Rightarrow> None | Some x \<Rightarrow> map_of x (elect com rnd))"

definition leader :: "committee \<Rightarrow> round \<Rightarrow> dag \<Rightarrow> (digest \<times> certificate) option option" where
  "leader com rnd d = (if csize com = 0 then None else Some (leader_cert com rnd d))"

definition children_of :: "certificate list \<Rightarrow> (public_key, digest \<times> certificate) hmap \<Rightarrow> certificate list" where
  "children_of ps auths =
     map snd (filter (\<lambda>(dg, _). list_ex (\<lambda>x. dg \<in> set (h_parents (c_header x))) ps) (vals auths))"

fun linked_down :: "dag \<Rightarrow> certificate list \<Rightarrow> round list \<Rightarrow> certificate list option" where
  "linked_down d ps [] = Some ps"
| "linked_down d ps (r # rs) =
     (case map_of d r of None \<Rightarrow> None | Some auths \<Rightarrow> linked_down d (children_of ps auths) rs)"

definition linked :: "dag \<Rightarrow> certificate \<Rightarrow> certificate \<Rightarrow> bool option" where
  "linked d ldr prev =
     map_option (list_ex (\<lambda>p. cert_eq p prev))
       (linked_down d [ldr] (rev [c_round prev..<c_round ldr]))"

text \<open>\<open>(lo..=hi).rev().step_by(2)\<close>\<close>

definition rounds_down :: "round \<Rightarrow> round \<Rightarrow> round list" where
  "rounds_down lo hi = (if lo \<le> hi then map (\<lambda>i. hi - 2 * i) [0..<(hi - lo) div 2 + 1] else [])"

fun order_leaders_loop :: "committee \<Rightarrow> dag \<Rightarrow> certificate \<Rightarrow> certificate list \<Rightarrow> round list
    \<Rightarrow> certificate list option" where
  "order_leaders_loop com d ldr to_commit [] = Some to_commit"
| "order_leaders_loop com d ldr to_commit (r # rs) =
     (case leader com r d of
        None \<Rightarrow> None
      | Some None \<Rightarrow> order_leaders_loop com d ldr to_commit rs
      | Some (Some (_, prev)) \<Rightarrow>
          (case linked d ldr prev of
             None \<Rightarrow> None
           | Some True \<Rightarrow> order_leaders_loop com d prev (to_commit @ [prev]) rs
           | Some False \<Rightarrow> order_leaders_loop com d ldr to_commit rs))"

definition order_leaders :: "committee \<Rightarrow> cstate \<Rightarrow> certificate \<Rightarrow> certificate list option" where
  "order_leaders com st ldr =
     order_leaders_loop com (dag st) ldr [ldr]
       (rounds_down (wadd 64 (last_committed_round st) 2) (wsub 64 (c_round ldr) 2))"

subsection \<open>Flattening a sub-dag\<close>

definition find_parent :: "dag \<Rightarrow> certificate \<Rightarrow> digest \<Rightarrow> (digest \<times> certificate) option" where
  "find_parent d x p =
     (case map_of d (wsub 64 (c_round x) 1) of
        None \<Rightarrow> None
      | Some auths \<Rightarrow> find (\<lambda>(dg, _). dg = p) (vals auths))"

definition committed_at :: "cstate \<Rightarrow> certificate \<Rightarrow> bool" where
  "committed_at st c \<longleftrightarrow> map_of (last_committed st) (c_origin c) = Some (c_round c)"

fun push_parents :: "cstate \<Rightarrow> certificate \<Rightarrow> digest list \<Rightarrow> certificate list \<times> digest list
    \<Rightarrow> certificate list \<times> digest list" where
  "push_parents st x [] (buf, seen) = (buf, seen)"
| "push_parents st x (p # ps) (buf, seen) =
     (case find_parent (dag st) x p of
        None \<Rightarrow> push_parents st x ps (buf, seen)
      | Some (dg, c) \<Rightarrow>
          if dg \<in> set seen \<or> committed_at st c then push_parents st x ps (buf, seen)
          else push_parents st x ps (c # buf, dg # seen))"

definition dag_certs :: "dag \<Rightarrow> (digest \<times> certificate) list" where
  "dag_certs d = concat (map (vals \<circ> snd) d)"

definition dag_digests :: "dag \<Rightarrow> digest set" where
  "dag_digests d = fst ` set (dag_certs d)"

lemma finite_dag_digests [simp]: "finite (dag_digests d)"
  by (simp add: dag_digests_def)

lemma find_parent_Some:
  assumes "find_parent d x p = Some (dg, c)"
  shows "dg = p \<and> (dg, c) \<in> set (dag_certs d)
    \<and> (\<exists>auths. map_of d (wsub 64 (c_round x) 1) = Some auths \<and> (dg, c) \<in> set (vals auths))"
proof -
  obtain auths where m: "map_of d (wsub 64 (c_round x) 1) = Some auths"
    and f: "find (\<lambda>(dg, _). dg = p) (vals auths) = Some (dg, c)"
    using assms by (auto simp: find_parent_def split: option.splits)
  have "(dg, c) \<in> set (vals auths) \<and> dg = p"
    using find_SomeD [OF f] by auto
  moreover have "auths \<in> snd ` set d" using map_of_SomeD [OF m] by force
  ultimately show ?thesis using m by (auto simp: dag_certs_def)
qed

lemma push_parents_mono:
  assumes "push_parents st x ps (buf, seen) = (buf', seen')"
  shows "set seen \<subseteq> set seen' \<and>
    ((buf', seen') = (buf, seen) \<or> card (dag_digests (dag st) - set seen') < card (dag_digests (dag st) - set seen))"
  using assms
proof (induction st x ps "(buf, seen)" arbitrary: buf seen rule: push_parents.induct)
  case 1
  then show ?case by simp
next
  case (2 st x p ps buf seen)
  let ?D = "dag_digests (dag st)"
  show ?case
  proof (cases "find_parent (dag st) x p")
    case None
    with 2 show ?thesis by simp
  next
    case (Some dc)
    obtain dg c where dc: "dc = (dg, c)" by (cases dc)
    show ?thesis
    proof (cases "dg \<in> set seen \<or> committed_at st c")
      case True
      with 2 Some dc show ?thesis by simp
    next
      case False
      have "dg \<in> ?D"
        using find_parent_Some [OF Some [unfolded dc]] by (force simp: dag_digests_def)
      then have "card (?D - set (dg # seen)) < card (?D - set seen)"
        using False by (intro psubset_card_mono) auto
      moreover have "set (dg # seen) \<subseteq> set seen' \<and> ((buf', seen') = (c # buf, dg # seen)
          \<or> card (?D - set seen') < card (?D - set (dg # seen)))"
        using 2 Some dc False by auto
      ultimately show ?thesis by auto
    qed
  qed
qed

function order_loop :: "cstate \<Rightarrow> certificate list \<Rightarrow> digest list \<Rightarrow> certificate list \<Rightarrow> certificate list" where
  "order_loop st [] seen ordered = ordered"
| "order_loop st (x # rest) seen ordered =
     (let (buf', seen') = push_parents st x (h_parents (c_header x)) (rest, seen)
      in order_loop st buf' seen' (ordered @ [x]))"
  by pat_completeness auto
termination
proof (relation "measures [\<lambda>(st, buf, seen, ordered). card (dag_digests (dag st) - set seen),
    \<lambda>(st, buf, seen, ordered). length buf]", goal_cases)
  case 1
  then show ?case by simp
next
  case (2 st x rest seen ordered p buf' seen')
  then show ?case
    using push_parents_mono [of st x "h_parents (c_header x)" rest seen buf' seen'] by auto
qed

declare order_loop.simps [simp del]

definition order_dag :: "nat \<Rightarrow> cstate \<Rightarrow> certificate \<Rightarrow> certificate list" where
  "order_dag gc_depth st ldr =
     sort_key c_round
       (filter (\<lambda>x. last_committed_round st \<le> wadd 64 (c_round x) gc_depth)
         (order_loop st [ldr] [] []))"

subsection \<open>Handling one certificate\<close>

definition insert_cert :: "crypto \<Rightarrow> certificate \<Rightarrow> dag \<Rightarrow> dag" where
  "insert_cert C c d =
     AList.update (c_round c)
       (AList.update (c_origin c) (cert_digest C c, c) (get_or [] d (c_round c))) d"

definition support :: "committee \<Rightarrow> digest \<Rightarrow> (public_key, digest \<times> certificate) hmap \<Rightarrow> stake" where
  "support com leader_digest auths =
     wsum 32 (map (\<lambda>(_, x). stake com (c_origin x))
       (filter (\<lambda>(_, x). leader_digest \<in> set (h_parents (c_header x))) (vals auths)))"

fun commit_leaders :: "nat \<Rightarrow> cstate \<Rightarrow> certificate list \<Rightarrow> cstate \<times> certificate list" where
  "commit_leaders gc_depth st [] = (st, [])"
| "commit_leaders gc_depth st (l # ls) =
     (let xs = order_dag gc_depth st l;
          (st', seq) = commit_leaders gc_depth (fold (update gc_depth) xs st) ls
      in (st', xs @ seq))"

definition process_certificate ::
    "crypto \<Rightarrow> committee \<Rightarrow> nat \<Rightarrow> cstate \<Rightarrow> certificate \<Rightarrow> (cstate \<times> certificate list) option" where
  "process_certificate C com gc_depth st0 cert =
     (let st = st0\<lparr>dag := insert_cert C cert (dag st0)\<rparr>;
          r = wsub 64 (c_round cert) 1
      in if r mod 2 \<noteq> 0 \<or> r < 4 then Some (st, [])
         else if r - 2 \<le> last_committed_round st then Some (st, [])
         else (case leader com (r - 2) (dag st) of
             None \<Rightarrow> None
           | Some None \<Rightarrow> Some (st, [])
           | Some (Some (leader_digest, ldr)) \<Rightarrow>
               (case map_of (dag st) (r - 1) of
                  None \<Rightarrow> None
                | Some auths \<Rightarrow>
                    if support com leader_digest auths < validity_threshold com then Some (st, [])
                    else (case order_leaders com st ldr of
                        None \<Rightarrow> None
                      | Some ls \<Rightarrow> Some (commit_leaders gc_depth st (rev ls))))))"

fun run :: "crypto \<Rightarrow> committee \<Rightarrow> nat \<Rightarrow> cstate \<Rightarrow> certificate list \<Rightarrow> (cstate \<times> certificate list) option" where
  "run C com gc_depth st [] = Some (st, [])"
| "run C com gc_depth st (c # cs) =
     (case process_certificate C com gc_depth st c of
        None \<Rightarrow> None
      | Some (st', out) \<Rightarrow>
          (case run C com gc_depth st' cs of
             None \<Rightarrow> None
           | Some (st'', out') \<Rightarrow> Some (st'', out @ out')))"

end
