(* ===== verification/Consensus_Order.thy ===== *)
theory Consensus_Order
  imports Consensus
begin

text \<open>
  Correctness of the flattening of a sub-dag (\<open>order_dag\<close>): the certificates it returns are
  those reachable from the leader through parents that are still in the dag and not the last
  committed ones of their authority, each once, sorted by round.
\<close>

definition dag_wf :: "crypto \<Rightarrow> dag \<Rightarrow> bool" where
  "dag_wf C d \<longleftrightarrow> distinct (map fst d) \<and>
     (\<forall>r auths. (r, auths) \<in> set d \<longrightarrow> r < 2 ^ 64 - 1 \<and> distinct (map fst auths) \<and>
        (\<forall>n dg c. (n, dg, c) \<in> set auths \<longrightarrow> c_round c = r \<and> c_origin c = n \<and> dg = cert_digest C c))"

lemma dag_certs_iff:
  "(dg, c) \<in> set (dag_certs d) \<longleftrightarrow> (\<exists>r auths n. (r, auths) \<in> set d \<and> (n, dg, c) \<in> set auths)"
  by (auto simp: dag_certs_def vals_def) force+

lemma dag_wf_certs:
  assumes "dag_wf C d" "(dg, c) \<in> set (dag_certs d)"
  shows "dg = cert_digest C c" "c_round c < 2 ^ 64 - 1"
    "\<exists>auths. (c_round c, auths) \<in> set d \<and> (c_origin c, dg, c) \<in> set auths"
  using assms unfolding dag_certs_iff dag_wf_def by blast+

text \<open>A dag has at most one certificate for an authority and a round.\<close>

lemma dag_wf_key:
  assumes wf: "dag_wf C d" and c: "(dg, c) \<in> set (dag_certs d)" and c': "(dg', c') \<in> set (dag_certs d)"
    and eq: "c_round c = c_round c'" "c_origin c = c_origin c'"
  shows "c = c'"
proof -
  obtain a where a: "(c_round c, a) \<in> set d" "(c_origin c, dg, c) \<in> set a"
    using dag_wf_certs(3) [OF wf c] by blast
  obtain a' where a': "(c_round c, a') \<in> set d" "(c_origin c, dg', c') \<in> set a'"
    using dag_wf_certs(3) [OF wf c'] eq by auto
  have d: "distinct (map fst d)" using wf by (simp add: dag_wf_def)
  have "a' = a" using map_of_is_SomeI [OF d a(1)] map_of_is_SomeI [OF d a'(1)] by simp
  moreover have "distinct (map fst a)" using wf a(1) by (auto simp: dag_wf_def)
  ultimately show ?thesis
    using map_of_is_SomeI [OF _ a(2)] map_of_is_SomeI [OF _ a'(2)] by simp
qed

text \<open>The abstract sub-dag of a leader.\<close>

inductive sub_dag :: "cstate \<Rightarrow> certificate \<Rightarrow> certificate \<Rightarrow> bool" for st ldr where
  leader: "sub_dag st ldr ldr"
| parent: "sub_dag st ldr x \<Longrightarrow> p \<in> set (h_parents (c_header x)) \<Longrightarrow>
    find_parent (dag st) x p = Some (dg, c) \<Longrightarrow> \<not> committed_at st c \<Longrightarrow> sub_dag st ldr c"

lemma find_parent_round:
  assumes "dag_wf C (dag st)" "find_parent (dag st) x p = Some (dg, c)"
  shows "c_round x = Suc (c_round c)" "(dg, c) \<in> set (dag_certs (dag st))" "dg = cert_digest C c" "dg = p"
proof -
  note f = find_parent_Some [OF assms(2)]
  show in_dag: "(dg, c) \<in> set (dag_certs (dag st))" and "dg = p" using f by blast+
  show "dg = cert_digest C c" using dag_wf_certs(1) [OF assms(1) in_dag] .
  obtain auths where m: "map_of (dag st) (wsub 64 (c_round x) 1) = Some auths" "(dg, c) \<in> set (vals auths)"
    using f by blast
  then have "(wsub 64 (c_round x) 1, auths) \<in> set (dag st)" by (simp add: map_of_SomeD)
  moreover obtain n where "(n, dg, c) \<in> set auths" using m(2) by (auto simp: vals_def)
  ultimately have "c_round c = wsub 64 (c_round x) 1 \<and> wsub 64 (c_round x) 1 < 2 ^ 64 - 1"
    using assms(1) unfolding dag_wf_def by blast
  then show "c_round x = Suc (c_round c)"
    by (cases "1 \<le> c_round x") (simp_all add: wsub_def)
qed

lemma sub_dag_props:
  assumes "dag_wf C (dag st)" "sub_dag st ldr c"
  shows "c = ldr \<or> (c_round c < c_round ldr \<and> (cert_digest C c, c) \<in> set (dag_certs (dag st))
    \<and> \<not> committed_at st c)"
  using assms(2)
proof induction
  case leader
  then show ?case by simp
next
  case (parent x p dg c)
  then show ?case using find_parent_round [OF assms(1) parent.hyps(3)] by auto
qed

lemma sub_dag_round_le:
  "dag_wf C (dag st) \<Longrightarrow> sub_dag st ldr c \<Longrightarrow> c_round c \<le> c_round ldr"
  using sub_dag_props by fastforce

text \<open>The invariant of the depth-first search: \<open>M\<close> is what has been reached so far.\<close>

definition visit_inv :: "crypto \<Rightarrow> cstate \<Rightarrow> certificate \<Rightarrow> certificate list \<Rightarrow> digest list
    \<Rightarrow> certificate set \<Rightarrow> bool" where
  "visit_inv C st ldr buf seen done \<longleftrightarrow>
     (\<forall>c\<in>set buf \<union> done. sub_dag st ldr c) \<and> ldr \<in> set buf \<union> done \<and> distinct buf \<and> set buf \<inter> done = {}
     \<and> set seen = cert_digest C ` (set buf \<union> done - {ldr})"

lemma push_parents_inv:
  assumes wf: "dag_wf C (dag st)" and x: "sub_dag st ldr x"
    and "visit_inv C st ldr buf seen done" and "set ps \<subseteq> set (h_parents (c_header x))"
    and "push_parents st x ps (buf, seen) = (buf', seen')"
  shows "visit_inv C st ldr buf' seen' done \<and> set seen \<subseteq> set seen' \<and>
    (\<forall>p\<in>set ps. \<forall>dg c. find_parent (dag st) x p = Some (dg, c) \<and> \<not> committed_at st c \<longrightarrow> dg \<in> set seen')"
  using assms(3-5)
proof (induction ps arbitrary: buf seen)
  case Nil
  then show ?case by simp
next
  case (Cons p ps)
  show ?case
  proof (cases "find_parent (dag st) x p")
    case None
    with Cons show ?thesis by simp
  next
    case (Some dc)
    obtain dg c where f: "find_parent (dag st) x p = Some (dg, c)" using Some by (cases dc) simp
    show ?thesis
    proof (cases "dg \<in> set seen \<or> committed_at st c")
      case True
      then have "push_parents st x ps (buf, seen) = (buf', seen')" using Cons.prems(3) f by simp
      with Cons.IH [OF Cons.prems(1) _ this] Cons.prems(2) f True show ?thesis by auto
    next
      case False
      note r = find_parent_round [OF wf f]
      have sub: "sub_dag st ldr c"
        using sub_dag.parent [OF x _ f] False Cons.prems(2) by simp
      have ne: "c \<noteq> ldr" using sub_dag_round_le [OF wf x] r(1) by auto
      then have "c \<notin> set buf \<union> done"
        using False r(3) Cons.prems(1) by (auto simp: visit_inv_def)
      then have "visit_inv C st ldr (c # buf) (dg # seen) done"
        using Cons.prems(1) sub ne r(3) by (auto simp: visit_inv_def)
      moreover have "push_parents st x ps (c # buf, dg # seen) = (buf', seen')"
        using Cons.prems(3) f False by simp
      ultimately show ?thesis using Cons.IH [of "c # buf" "dg # seen"] Cons.prems(2) f by auto
    qed
  qed
qed

definition closed_under :: "cstate \<Rightarrow> certificate set \<Rightarrow> digest list \<Rightarrow> bool" where
  "closed_under st A seen \<longleftrightarrow>
     (\<forall>x\<in>A. \<forall>p\<in>set (h_parents (c_header x)). \<forall>dg c.
        find_parent (dag st) x p = Some (dg, c) \<and> \<not> committed_at st c \<longrightarrow> dg \<in> set seen)"

lemma order_loop_inv:
  assumes wf: "dag_wf C (dag st)"
    and "visit_inv C st ldr buf seen (set ordered)" "distinct ordered" "closed_under st (set ordered) seen"
  shows "\<exists>seen'. visit_inv C st ldr [] seen' (set (order_loop st buf seen ordered))
    \<and> distinct (order_loop st buf seen ordered) \<and> closed_under st (set (order_loop st buf seen ordered)) seen'"
  using assms
proof (induction st buf seen ordered rule: order_loop.induct)
  case (1 st seen ordered)
  then show ?case by (auto simp: order_loop.simps)
next
  case (2 st x rest seen ordered)
  obtain buf' seen' where push: "push_parents st x (h_parents (c_header x)) (rest, seen) = (buf', seen')"
    by fastforce
  have x: "sub_dag st ldr x" and new: "x \<notin> set ordered"
    using "2.prems"(2) by (auto simp: visit_inv_def)
  have inv: "visit_inv C st ldr rest seen (set (ordered @ [x]))"
    using "2.prems"(2) by (auto simp: visit_inv_def)
  note step = push_parents_inv [OF "2.prems"(1) x inv subset_refl push]
  have "distinct (ordered @ [x])" using "2.prems"(3) new by simp
  moreover have "closed_under st (set (ordered @ [x])) seen'"
    using "2.prems"(4) step unfolding closed_under_def by auto
  ultimately show ?case
    using "2.IH" [OF push [symmetric] refl] step "2.prems"(1) push
    by (simp add: order_loop.simps)
qed

text \<open>Different certificates of the dag have different digests: no collision of the hash.\<close>

definition collision_free :: "crypto \<Rightarrow> cstate \<Rightarrow> bool" where
  "collision_free C st \<longleftrightarrow>
     (\<forall>(d, a)\<in>set (dag_certs (dag st)). \<forall>(e, b)\<in>set (dag_certs (dag st)). d = e \<longrightarrow> a = b)"

lemma order_loop_sound:
  assumes "dag_wf C (dag st)"
  shows "distinct (order_loop st [ldr] [] [])"
    "ldr \<in> set (order_loop st [ldr] [] [])"
    "x \<in> set (order_loop st [ldr] [] []) \<Longrightarrow> sub_dag st ldr x"
proof -
  have "visit_inv C st ldr [ldr] [] (set [])"
    by (simp add: visit_inv_def sub_dag.leader)
  from order_loop_inv [OF assms this] obtain seen where
    "visit_inv C st ldr [] seen (set (order_loop st [ldr] [] []))" "distinct (order_loop st [ldr] [] [])"
    by (auto simp: closed_under_def)
  then show "distinct (order_loop st [ldr] [] [])" "ldr \<in> set (order_loop st [ldr] [] [])"
    "x \<in> set (order_loop st [ldr] [] []) \<Longrightarrow> sub_dag st ldr x"
    by (simp_all add: visit_inv_def)
qed

lemma order_loop_complete:
  assumes wf: "dag_wf C (dag st)" and "collision_free C st" and "sub_dag st ldr c"
  shows "c \<in> set (order_loop st [ldr] [] [])"
proof -
  let ?out = "set (order_loop st [ldr] [] [])"
  have "visit_inv C st ldr [ldr] [] (set [])"
    by (simp add: visit_inv_def sub_dag.leader)
  from order_loop_inv [OF wf this] obtain seen where
    inv: "visit_inv C st ldr [] seen ?out" and cl: "closed_under st ?out seen"
    by (auto simp: closed_under_def)
  from assms(3) show ?thesis
  proof induction
    case leader
    show ?case using inv by (simp add: visit_inv_def)
  next
    case (parent x p dg c)
    note r = find_parent_round [OF wf parent.hyps(3)]
    have "dg \<in> set seen" using cl parent unfolding closed_under_def by blast
    then obtain c' where c': "c' \<in> ?out" "c' \<noteq> ldr" "dg = cert_digest C c'"
      using inv by (auto simp: visit_inv_def)
    then have "(dg, c') \<in> set (dag_certs (dag st))"
      using sub_dag_props [OF wf order_loop_sound(3) [OF wf c'(1)]] by simp
    then have "c' = c" using assms(2) r(2) unfolding collision_free_def by blast
    then show ?case using c'(1) by simp
  qed
qed

text \<open>
  C2: \<open>order_dag\<close> terminates and returns exactly the certificates of the sub-dag of the
  leader that garbage collection has not reached, each once and in the order of their rounds.
\<close>

theorem order_dag_correct:
  assumes "dag_wf C (dag st)" "collision_free C st"
  shows "set (order_dag gc_depth st ldr) =
      {c. sub_dag st ldr c \<and> last_committed_round st \<le> wadd 64 (c_round c) gc_depth}
    \<and> distinct (order_dag gc_depth st ldr) \<and> sorted (map c_round (order_dag gc_depth st ldr))"
  using order_loop_sound [OF assms(1), where ldr = ldr] order_loop_complete [OF assms]
  by (auto simp: order_dag_def)

end
