(* ===== verification/Consensus_Safety.thy ===== *)
theory Consensus_Safety
  imports Consensus_Order
begin

text \<open>
  Safety of the commit rule: the invariant between the dag and the last committed rounds, that
  no certificate is committed twice as long as none is received again after its round was
  committed, that a commit needs the support of the validity threshold, and what the commit of
  a leader does to the last committed round.
\<close>

text \<open>
  The invariant of the consensus state: the dag is well formed, holds nothing older than the
  last committed round of each authority, and \<open>last_committed_round\<close> is the largest of them.
\<close>

definition fresh_dag :: "(public_key, round) hmap \<Rightarrow> dag \<Rightarrow> bool" where
  "fresh_dag lc d \<longleftrightarrow> (\<forall>(dg, c)\<in>set (dag_certs d). \<forall>r. map_of lc (c_origin c) = Some r \<longrightarrow> r \<le> c_round c)"

definition lc_bound :: "cstate \<Rightarrow> bool" where
  "lc_bound st \<longleftrightarrow> distinct (map fst (last_committed st))
     \<and> (\<forall>r\<in>set (vals (last_committed st)). r \<le> last_committed_round st)"

definition cons_inv :: "crypto \<Rightarrow> cstate \<Rightarrow> bool" where
  "cons_inv C st \<longleftrightarrow> dag_wf C (dag st) \<and> fresh_dag (last_committed st) (dag st) \<and> lc_bound st"

subsection \<open>Cleaning the dag\<close>

lemma set_clean_for:
  "(r, a) \<in> set (clean_for g lcr (n, rnd) d) \<longleftrightarrow> (\<exists>a0. (r, a0) \<in> set d \<and>
     a = filter (\<lambda>(m, _). m \<noteq> n \<or> rnd \<le> r) a0 \<and> a \<noteq> [] \<and> lcr \<le> wadd 64 r g)"
  by (auto simp: clean_for_def)

lemma clean_for_wf: "dag_wf C d \<Longrightarrow> dag_wf C (clean_for g lcr nr d)"
proof -
  assume wf: "dag_wf C d"
  obtain n rnd where nr: "nr = (n, rnd)" by (cases nr)
  have "distinct (map fst (clean_for g lcr nr d))"
  proof -
    have "map fst (map (\<lambda>(r, auths). (r, filter (\<lambda>(m, _). m \<noteq> n \<or> rnd \<le> r) auths)) d) = map fst d"
      by auto
    then show ?thesis using wf unfolding nr clean_for_def dag_wf_def
      by (simp only: prod.case distinct_map_filter simp_thms)
  qed
  moreover have "r < 2 ^ 64 - 1 \<and> distinct (map fst a) \<and>
      (\<forall>m dg c. (m, dg, c) \<in> set a \<longrightarrow> c_round c = r \<and> c_origin c = m \<and> dg = cert_digest C c)"
    if "(r, a) \<in> set (clean_for g lcr nr d)" for r a
    using that wf unfolding nr set_clean_for dag_wf_def by (auto simp: distinct_map_filter)
  ultimately show ?thesis by (auto simp: dag_wf_def)
qed

lemma clean_for_certs:
  "x \<in> set (dag_certs (clean_for g lcr nr d)) \<Longrightarrow> x \<in> set (dag_certs d)"
proof -
  assume a: "x \<in> set (dag_certs (clean_for g lcr nr d))"
  obtain dg c n rnd where [simp]: "x = (dg, c)" "nr = (n, rnd)" by (cases x; cases nr) auto
  from a show ?thesis unfolding dag_certs_iff \<open>x = _\<close> \<open>nr = _\<close> set_clean_for by fastforce
qed

lemma clean_for_fresh:
  assumes "dag_wf C d" "(dg, c) \<in> set (dag_certs (clean_for g lcr (n, rnd) d))" "c_origin c = n"
  shows "rnd \<le> c_round c"
proof -
  obtain r a m where a: "(r, a) \<in> set (clean_for g lcr (n, rnd) d)" "(m, dg, c) \<in> set a"
    using assms(2) unfolding dag_certs_iff by blast
  then have "c_round c = r \<and> c_origin c = m"
    using clean_for_wf [OF assms(1)] unfolding dag_wf_def by blast
  with a assms(3) show ?thesis by (auto simp: set_clean_for)
qed

lemma fold_clean_wf: "dag_wf C d \<Longrightarrow> dag_wf C (fold (clean_for g lcr) lc d)"
  by (induction lc arbitrary: d) (simp_all add: clean_for_wf)

lemma fold_clean_certs: "x \<in> set (dag_certs (fold (clean_for g lcr) lc d)) \<Longrightarrow> x \<in> set (dag_certs d)"
  by (induction lc arbitrary: d) (auto dest: clean_for_certs)

lemma fold_clean_fresh:
  assumes "dag_wf C d" "(dg, c) \<in> set (dag_certs (fold (clean_for g lcr) lc d))" "(c_origin c, r) \<in> set lc"
  shows "r \<le> c_round c"
  using assms
proof (induction lc arbitrary: d)
  case Nil
  then show ?case by simp
next
  case (Cons nr lc)
  show ?case
  proof (cases "nr = (c_origin c, r)")
    case True
    have "(dg, c) \<in> set (dag_certs (clean_for g lcr nr d))"
      using Cons.prems(2) by (auto dest: fold_clean_certs)
    then show ?thesis using clean_for_fresh [OF Cons.prems(1)] True by blast
  next
    case False
    then show ?thesis
      using Cons.IH [OF clean_for_wf [OF Cons.prems(1)]] Cons.prems(2,3) by simp
  qed
qed

subsection \<open>Committing one certificate\<close>

lemma fold_max_ge_init: "(a::nat) \<le> fold max xs a"
  by (induction xs arbitrary: a) (auto intro: order_trans [OF max.cobounded2])

lemma fold_max_ge: "x \<in> set xs \<Longrightarrow> (x::nat) \<le> fold max xs a"
proof (induction xs arbitrary: a)
  case Nil
  then show ?case by simp
next
  case (Cons y ys)
  then show ?case
    using fold_max_ge_init [of "max y a" ys] by (auto intro: order_trans [OF max.cobounded1])
qed

lemma fold_max_in: "fold max xs (a::nat) \<in> insert a (set xs)"
proof (induction xs arbitrary: a)
  case Nil
  then show ?case by simp
next
  case (Cons y ys)
  from Cons [of "max y a"] show ?case by (auto simp: max_def)
qed

lemma commit_round_lookup:
  "map_of (commit_round c lc) n =
     (if n = c_origin c then Some (max (get_or 0 lc n) (c_round c)) else map_of lc n)"
  by (simp add: commit_round_def map_of_update get_or_def split: option.splits)

definition committed_to :: "cstate \<Rightarrow> public_key \<Rightarrow> round \<Rightarrow> bool" where
  "committed_to st n r \<longleftrightarrow> (\<exists>r'. map_of (last_committed st) n = Some r' \<and> r \<le> r')"

lemma committed_to_update:
  "committed_to (update g c st) n r \<longleftrightarrow> committed_to st n r \<or> (n = c_origin c \<and> r \<le> c_round c)"
  by (auto simp: committed_to_def update_def Let_def commit_round_lookup get_or_def le_max_iff_disj
      split: option.splits)

lemma update_inv:
  assumes "dag_wf C (dag st)" "distinct (map fst (last_committed st))"
  shows "cons_inv C (update g c st)"
    and "(dg, d) \<in> set (dag_certs (dag (update g c st))) \<Longrightarrow> (dg, d) \<in> set (dag_certs (dag st))"
proof -
  let ?lc = "commit_round c (last_committed st)"
  have d: "distinct (map fst ?lc)" using assms(2) by (simp add: commit_round_def distinct_update)
  have "fresh_dag ?lc (dag (update g c st))"
    unfolding fresh_dag_def update_def Let_def
    using fold_clean_fresh [OF assms(1)] by (auto dest: map_of_SomeD)
  moreover have "lc_bound (update g c st)"
    using d by (auto simp: lc_bound_def update_def Let_def intro: fold_max_ge)
  ultimately show "cons_inv C (update g c st)"
    using fold_clean_wf [OF assms(1)] by (simp add: cons_inv_def update_def Let_def)
  show "(dg, d) \<in> set (dag_certs (dag (update g c st))) \<Longrightarrow> (dg, d) \<in> set (dag_certs (dag st))"
    by (auto simp: update_def Let_def dest: fold_clean_certs)
qed

lemma cons_inv_parts: "cons_inv C st \<Longrightarrow> dag_wf C (dag st) \<and> distinct (map fst (last_committed st))"
  by (simp add: cons_inv_def lc_bound_def)

lemma fold_update_inv: "cons_inv C st \<Longrightarrow> cons_inv C (fold (update g) xs st)"
  by (induction xs arbitrary: st) (auto dest: cons_inv_parts intro: update_inv)

lemma fold_update_committed:
  "committed_to (fold (update g) xs st) n r \<longleftrightarrow>
     committed_to st n r \<or> (\<exists>c\<in>set xs. n = c_origin c \<and> r \<le> c_round c)"
  by (induction xs arbitrary: st) (auto simp: committed_to_update)

lemma update_lcr:
  assumes "lc_bound st"
  shows "last_committed_round (update g c st) \<ge> c_round c"
    and "last_committed_round (update g c st) \<le> max (last_committed_round st) (c_round c)"
proof -
  let ?lc = "commit_round c (last_committed st)"
  have d: "distinct (map fst ?lc)" using assms by (simp add: lc_bound_def commit_round_def distinct_update)
  have "(c_origin c, max (get_or 0 (last_committed st) (c_origin c)) (c_round c)) \<in> set ?lc"
    by (rule map_of_SomeD) (simp add: commit_round_lookup)
  then have "max (get_or 0 (last_committed st) (c_origin c)) (c_round c) \<le> fold max (vals ?lc) 0"
    by (intro fold_max_ge) (force simp: vals_def)
  then show "last_committed_round (update g c st) \<ge> c_round c"
    by (simp add: update_def Let_def)
  have "r \<le> max (last_committed_round st) (c_round c)" if r: "r \<in> set (vals ?lc)" for r
  proof -
    obtain n where "(n, r) \<in> set ?lc" using r by (auto simp: vals_def)
    then have "map_of ?lc n = Some r" using d by simp
    moreover have "get_or 0 (last_committed st) n' \<le> last_committed_round st" for n'
      using assms by (force simp: lc_bound_def get_or_def vals_def split: option.splits dest: map_of_SomeD)
    moreover have "r' \<le> last_committed_round st" if "map_of (last_committed st) n' = Some r'" for n' r'
      using assms map_of_SomeD [OF that] by (force simp: lc_bound_def vals_def)
    ultimately show ?thesis
      by (cases "n = c_origin c") (auto simp: commit_round_lookup intro: max.mono le_max_iff_disj [THEN iffD2])
  qed
  then show "last_committed_round (update g c st) \<le> max (last_committed_round st) (c_round c)"
    using fold_max_in [of "vals ?lc" 0] by (auto simp: update_def Let_def)
qed

lemma fold_update_lcr:
  assumes "cons_inv C st" "last_committed_round st \<le> b" "\<forall>c\<in>set xs. c_round c \<le> b"
  shows "last_committed_round (fold (update g) xs st) \<le> b"
  using assms
proof (induction xs arbitrary: st)
  case Nil
  then show ?case by simp
next
  case (Cons x xs)
  have "last_committed_round (update g x st) \<le> b"
    using update_lcr(2) [of st g x] Cons.prems by (auto simp: cons_inv_def)
  moreover have "cons_inv C (update g x st)"
    using update_inv(1) cons_inv_parts [OF Cons.prems(1)] by blast
  ultimately show ?case using Cons by simp
qed

subsection \<open>Committing the sub-dag of a leader\<close>

definition cert_key :: "certificate \<Rightarrow> public_key \<times> round" where
  "cert_key c = (c_origin c, c_round c)"

definition uncommitted :: "cstate \<Rightarrow> certificate \<Rightarrow> bool" where
  "uncommitted st c \<longleftrightarrow> \<not> committed_to st (c_origin c) (c_round c)"

lemma order_dag_sound:
  assumes "dag_wf C (dag st)" "x \<in> set (order_dag g st ldr)"
  shows "sub_dag st ldr x"
  using assms order_loop_sound(3) [OF assms(1)] by (simp add: order_dag_def)

lemma lcr_uncommitted: "lc_bound st \<Longrightarrow> last_committed_round st < c_round c \<Longrightarrow> uncommitted st c"
  by (force simp: uncommitted_def committed_to_def lc_bound_def vals_def dest: map_of_SomeD)

lemma order_dag_fresh:
  assumes inv: "cons_inv C st" and ldr: "uncommitted st ldr"
  shows "distinct (map cert_key (order_dag g st ldr))"
    and "\<forall>x\<in>set (order_dag g st ldr). uncommitted st x \<and> c_round x \<le> c_round ldr"
proof -
  have wf: "dag_wf C (dag st)" using inv by (simp add: cons_inv_def)
  let ?xs = "order_dag g st ldr"
  have sub: "sub_dag st ldr x" if "x \<in> set ?xs" for x
    using order_dag_sound [OF wf that] .
  have "distinct ?xs" using order_loop_sound(1) [OF wf] by (simp add: order_dag_def)
  moreover have "inj_on cert_key (set ?xs)"
  proof (rule inj_onI)
    fix x y
    assume xy: "x \<in> set ?xs" "y \<in> set ?xs" and eq: "cert_key x = cert_key y"
    show "x = y"
      using sub_dag_props [OF wf sub [OF xy(1)]] sub_dag_props [OF wf sub [OF xy(2)]] eq
        dag_wf_key [OF wf] by (auto simp: cert_key_def)
  qed
  ultimately show "distinct (map cert_key ?xs)" by (simp add: distinct_map)
  have "uncommitted st x" if "x \<in> set ?xs" for x
  proof (cases "x = ldr")
    case True
    then show ?thesis using ldr by simp
  next
    case False
    then have in_dag: "(cert_digest C x, x) \<in> set (dag_certs (dag st))" and "\<not> committed_at st x"
      using sub_dag_props [OF wf sub [OF that]] by auto
    moreover have "r \<le> c_round x" if "map_of (last_committed st) (c_origin x) = Some r" for r
      using inv in_dag that unfolding cons_inv_def fresh_dag_def by blast
    ultimately show ?thesis
      by (force simp: uncommitted_def committed_to_def committed_at_def)
  qed
  then show "\<forall>x\<in>set ?xs. uncommitted st x \<and> c_round x \<le> c_round ldr"
    using sub_dag_round_le [OF wf sub] by blast
qed

lemma commit_leaders_fresh:
  assumes "cons_inv C st" "sorted_wrt (<) (map c_round ls)"
    and "\<forall>l\<in>set ls. last_committed_round st < c_round l" "commit_leaders g st ls = (st', out)"
  shows "cons_inv C st' \<and> distinct (map cert_key out) \<and> (\<forall>x\<in>set out. uncommitted st x) \<and>
    (\<forall>n r. committed_to st' n r \<longleftrightarrow>
       committed_to st n r \<or> (\<exists>x\<in>set out. n = c_origin x \<and> r \<le> c_round x))"
  using assms
proof (induction ls arbitrary: st out)
  case Nil
  then show ?case by simp
next
  case (Cons l ls)
  let ?xs = "order_dag g st l"
  let ?st = "fold (update g) ?xs st"
  obtain out2 where rest: "commit_leaders g ?st ls = (st', out2)" and out: "out = ?xs @ out2"
    using Cons.prems(4) by (auto simp: Let_def split: prod.splits)
  have l: "uncommitted st l"
    using Cons.prems(1,3) by (auto intro: lcr_uncommitted simp: cons_inv_def)
  note fresh = order_dag_fresh [OF Cons.prems(1) l, of g]
  have inv: "cons_inv C ?st" using Cons.prems(1) by (rule fold_update_inv)
  have "last_committed_round ?st \<le> c_round l"
    using Cons.prems(3) fresh(2) by (intro fold_update_lcr [OF Cons.prems(1)]) auto
  then have "\<forall>l'\<in>set ls. last_committed_round ?st < c_round l'"
    using Cons.prems(2) by auto
  moreover have "sorted_wrt (<) (map c_round ls)" using Cons.prems(2) by simp
  ultimately have IH: "cons_inv C st'" "distinct (map cert_key out2)" "\<forall>x\<in>set out2. uncommitted ?st x"
    "\<forall>n r. committed_to st' n r \<longleftrightarrow>
       committed_to ?st n r \<or> (\<exists>x\<in>set out2. n = c_origin x \<and> r \<le> c_round x)"
    using Cons.IH [OF inv _ _ rest] by blast+
  have new: "uncommitted st x \<and> cert_key x \<notin> cert_key ` set ?xs" if "x \<in> set out2" for x
  proof
    have x: "uncommitted ?st x" using IH(3) that by blast
    then show "uncommitted st x" by (simp add: uncommitted_def fold_update_committed)
    show "cert_key x \<notin> cert_key ` set ?xs"
    proof
      assume "cert_key x \<in> cert_key ` set ?xs"
      then obtain y where "y \<in> set ?xs" "c_origin x = c_origin y" "c_round x = c_round y"
        by (auto simp: cert_key_def)
      then have "committed_to ?st (c_origin x) (c_round x)"
        unfolding fold_update_committed by auto
      with x show False by (simp add: uncommitted_def)
    qed
  qed
  have "cert_key ` set ?xs \<inter> cert_key ` set out2 = {}"
  proof (rule equals0I)
    fix k
    assume "k \<in> cert_key ` set ?xs \<inter> cert_key ` set out2"
    then obtain x where "x \<in> set out2" "k = cert_key x" "k \<in> cert_key ` set ?xs" by blast
    with new [of x] show False by simp
  qed
  then have "distinct (map cert_key out)" using IH(2) fresh(1) out by simp
  moreover have "\<forall>x\<in>set out. uncommitted st x"
    using new fresh(2) unfolding out set_append by blast
  moreover have "committed_to st' n r \<longleftrightarrow>
       committed_to st n r \<or> (\<exists>x\<in>set out. n = c_origin x \<and> r \<le> c_round x)" for n r
    by (simp add: IH(4) fold_update_committed out bex_Un disj_assoc)
  ultimately show ?case using IH(1) by blast
qed

subsection \<open>The leaders to commit\<close>

lemma leader_wf:
  assumes "dag_wf C d" "leader com r d = Some (Some (dg, c))"
  shows "c_round c = r" "(dg, c) \<in> set (dag_certs d)"
proof -
  obtain auths where a: "(r, auths) \<in> set d" "(elect com r, dg, c) \<in> set auths"
    using assms(2) by (auto simp: leader_def leader_cert_def split: if_splits option.splits dest!: map_of_SomeD)
  then show "c_round c = r" "(dg, c) \<in> set (dag_certs d)"
    using assms(1) unfolding dag_certs_iff dag_wf_def by blast+
qed

lemma order_leaders_loop_rounds:
  assumes "dag_wf C d" "sorted_wrt (>) (map c_round acc @ rs)" "\<forall>r\<in>set (map c_round acc @ rs). b < r"
    and "order_leaders_loop com d ldr acc rs = Some ls"
  shows "sorted_wrt (>) (map c_round ls) \<and> (\<forall>l\<in>set ls. b < c_round l) \<and> (\<exists>more. ls = acc @ more)"
  using assms
proof (induction com d ldr acc rs rule: order_leaders_loop.induct)
  case (1 com d ldr to_commit)
  then show ?case by auto
next
  case (2 com d ldr acc r rs)
  show ?case
  proof (cases "leader com r d")
    case None
    with "2.prems"(4) show ?thesis by simp
  next
    case (Some opt)
    have skip: "sorted_wrt (>) (map c_round acc @ rs)" "\<forall>r\<in>set (map c_round acc @ rs). b < r"
      using "2.prems"(2,3) by (auto simp: sorted_wrt_append)
    show ?thesis
    proof (cases opt)
      case None
      with Some "2.IH"(1) [OF Some None "2.prems"(1) skip] "2.prems"(4) show ?thesis by simp
    next
      case some: (Some dp)
      obtain dg prev where dp: "dp = (dg, prev)" by (cases dp)
      have r: "c_round prev = r" using leader_wf(1) [OF "2.prems"(1)] Some some dp by simp
      obtain b' where b': "linked d ldr prev = Some b'"
        using "2.prems"(4) Some some dp by (auto split: option.splits)
      show ?thesis
      proof (cases b')
        case True
        have "sorted_wrt (>) (map c_round (acc @ [prev]) @ rs)" "\<forall>r\<in>set (map c_round (acc @ [prev]) @ rs). b < r"
          using "2.prems"(2,3) r by simp_all
        from "2.IH"(2) [OF Some some dp [symmetric] b' True [THEN eqTrueI] "2.prems"(1) this]
          "2.prems"(4) Some some dp b' True
        show ?thesis by auto
      next
        case False
        then have "b' = False" by simp
        with "2.IH"(3) [OF Some some dp [symmetric] b' _ "2.prems"(1) skip] "2.prems"(4) Some some dp b'
        show ?thesis by simp
      qed
    qed
  qed
qed

lemma rounds_down_props:
  "sorted_wrt (>) (rounds_down lo hi)" "r \<in> set (rounds_down lo hi) \<Longrightarrow> lo \<le> r \<and> r \<le> hi"
proof -
  have "sorted_wrt (\<lambda>i j. hi - 2 * i > hi - 2 * j) [0..<(hi - lo) div 2 + 1]" if "lo \<le> hi"
  proof (rule sorted_wrt_mono_rel [where P = "(<)"])
    show "hi - 2 * i > hi - 2 * j"
      if "i \<in> set [0..<(hi - lo) div 2 + 1]" "j \<in> set [0..<(hi - lo) div 2 + 1]" "i < j" for i j
    proof -
      have "j \<le> (hi - lo) div 2" using that(2) by auto
      then have "2 * j \<le> hi" by simp
      then show ?thesis using that(3) by simp
    qed
  qed (rule sorted_wrt_upt)
  then show "sorted_wrt (>) (rounds_down lo hi)"
    by (simp add: rounds_down_def sorted_wrt_map del: upt_Suc)
  show "lo \<le> r \<and> r \<le> hi" if "r \<in> set (rounds_down lo hi)"
  proof -
    have le: "lo \<le> hi" using that by (auto simp: rounds_down_def split: if_splits)
    then have "r \<in> (\<lambda>i. hi - 2 * i) ` set [0..<(hi - lo) div 2 + 1]"
      using that by (simp only: rounds_down_def if_True set_map)
    then obtain i where "i \<in> set [0..<(hi - lo) div 2 + 1]" "r = hi - 2 * i" by blast
    moreover from this(1) have "2 * i \<le> hi - lo" by auto
    ultimately have "2 * i \<le> hi - lo" "r = hi - 2 * i" by simp_all
    moreover note le
    ultimately show ?thesis by simp
  qed
qed

lemma order_leaders_rounds:
  assumes "dag_wf C (dag st)" "order_leaders com st ldr = Some ls"
    and "last_committed_round st < c_round ldr" "2 \<le> c_round ldr" "last_committed_round st + 2 < 2 ^ 64"
  shows "sorted_wrt (<) (map c_round (rev ls))" "\<forall>l\<in>set ls. last_committed_round st < c_round l"
    "\<exists>more. ls = ldr # more"
proof -
  let ?rs = "rounds_down (last_committed_round st + 2) (c_round ldr - 2)"
  have loop: "order_leaders_loop com (dag st) ldr [ldr] ?rs = Some ls"
    using assms(2,4,5) by (simp add: order_leaders_def wadd_exact wsub_exact)
  have "sorted_wrt (>) (map c_round [ldr] @ ?rs)"
    using rounds_down_props assms(4) by fastforce
  moreover have "\<forall>r\<in>set (map c_round [ldr] @ ?rs). last_committed_round st < r"
    using rounds_down_props(2) assms(3) by fastforce
  ultimately have *: "sorted_wrt (>) (map c_round ls) \<and> (\<forall>l\<in>set ls. last_committed_round st < c_round l)
      \<and> (\<exists>more. ls = [ldr] @ more)"
    using order_leaders_loop_rounds [OF assms(1) _ _ loop] by blast
  then show "sorted_wrt (<) (map c_round (rev ls))"
    by (simp add: rev_map [symmetric] sorted_wrt_rev)
  from * show "\<forall>l\<in>set ls. last_committed_round st < c_round l" "\<exists>more. ls = ldr # more" by auto
qed

subsection \<open>One certificate, and a run\<close>

text \<open>A certificate the code can take: not older than what is committed of its authority, and of
  a round that leaves room for the additions of the code.\<close>

definition acceptable :: "cstate \<Rightarrow> certificate \<Rightarrow> bool" where
  "acceptable st c \<longleftrightarrow> c_round c < 2 ^ 64 - 1 \<and>
     (case map_of (last_committed st) (c_origin c) of None \<Rightarrow> True | Some r \<Rightarrow> r \<le> c_round c)"

lemma insert_cert_certs:
  assumes "dag_wf C d"
  shows "set (dag_certs (insert_cert C c d)) \<subseteq> insert (cert_digest C c, c) (set (dag_certs d))"
proof
  fix x
  assume "x \<in> set (dag_certs (insert_cert C c d))"
  then obtain dg e r auths n where x: "x = (dg, e)" and a: "(r, auths) \<in> set (insert_cert C c d)"
    "(n, dg, e) \<in> set auths" by (metis dag_certs_iff surj_pair)
  have "(r, auths) \<in> set d \<or>
      auths = AList.update (c_origin c) (cert_digest C c, c) (get_or [] d (c_round c))"
    using a(1) set_update_subset unfolding insert_cert_def by fastforce
  then show "x \<in> insert (cert_digest C c, c) (set (dag_certs d))"
  proof
    assume "(r, auths) \<in> set d"
    with a(2) x show ?thesis by (auto simp: dag_certs_iff)
  next
    assume "auths = AList.update (c_origin c) (cert_digest C c, c) (get_or [] d (c_round c))"
    with a(2) set_update_subset have "(n, dg, e) = (c_origin c, cert_digest C c, c)
        \<or> (n, dg, e) \<in> set (get_or [] d (c_round c))" by fast
    then show ?thesis
    proof
      assume "(n, dg, e) = (c_origin c, cert_digest C c, c)"
      with x show ?thesis by simp
    next
      assume old: "(n, dg, e) \<in> set (get_or [] d (c_round c))"
      then obtain m where "map_of d (c_round c) = Some m" "(n, dg, e) \<in> set m"
        by (cases "map_of d (c_round c)") (auto simp: get_or_def)
      then have "x \<in> set (dag_certs d)" using x map_of_SomeD dag_certs_iff by fast
      then show ?thesis by simp
    qed
  qed
qed

lemma insert_cert_wf:
  assumes wf: "dag_wf C d" and "c_round c < 2 ^ 64 - 1"
  shows "dag_wf C (insert_cert C c d)"
proof -
  let ?old = "get_or [] d (c_round c)"
  let ?new = "AList.update (c_origin c) (cert_digest C c, c) ?old"
  have old: "distinct (map fst ?old) \<and> (\<forall>n dg e. (n, dg, e) \<in> set ?old \<longrightarrow>
      c_round e = c_round c \<and> c_origin e = n \<and> dg = cert_digest C e)"
    using wf map_of_SomeD [of d "c_round c"] unfolding dag_wf_def get_or_def
    by (auto split: option.splits)
  then have new: "distinct (map fst ?new)" by (simp add: distinct_update)
  have "set ?new \<subseteq> insert (c_origin c, cert_digest C c, c) (set ?old)" by (rule set_update_subset)
  with old have "\<forall>n dg e. (n, dg, e) \<in> set ?new \<longrightarrow>
      c_round e = c_round c \<and> c_origin e = n \<and> dg = cert_digest C e" by fast
  moreover have "set (insert_cert C c d) \<subseteq> insert (c_round c, ?new) (set d)"
    unfolding insert_cert_def by (rule set_update_subset)
  moreover have "distinct (map fst (insert_cert C c d))"
    using wf unfolding insert_cert_def dag_wf_def by (simp add: distinct_update)
  ultimately show ?thesis
    using wf assms(2) new unfolding dag_wf_def by fast
qed

lemma insert_cert_inv:
  assumes "cons_inv C st" "acceptable st c"
  shows "cons_inv C (st\<lparr>dag := insert_cert C c (dag st)\<rparr>)"
proof -
  have wf: "dag_wf C (dag st)" using assms(1) by (simp add: cons_inv_def)
  have "fresh_dag (last_committed st) (insert_cert C c (dag st))"
    using insert_cert_certs [OF wf, of c] assms
    unfolding fresh_dag_def cons_inv_def acceptable_def by (fastforce split: option.splits)
  then show ?thesis
    using assms insert_cert_wf [OF wf] by (simp add: cons_inv_def acceptable_def lc_bound_def)
qed

text \<open>What a certificate that triggers a commit does: the cases of \<open>process_certificate\<close>.\<close>

lemma process_certificate_cases:
  assumes "process_certificate C com g st0 cert = Some (st', out)"
  obtains (store) "st' = st0\<lparr>dag := insert_cert C cert (dag st0)\<rparr>" "out = []"
  | (commit) st r dg ldr auths ls where "st = st0\<lparr>dag := insert_cert C cert (dag st0)\<rparr>"
      "r = wsub 64 (c_round cert) 1" "even r" "4 \<le> r" "last_committed_round st < r - 2"
      "leader com (r - 2) (dag st) = Some (Some (dg, ldr))" "map_of (dag st) (r - 1) = Some auths"
      "validity_threshold com \<le> support com dg auths"
      "order_leaders com st ldr = Some ls" "commit_leaders g st (rev ls) = (st', out)"
proof -
  let ?st = "st0\<lparr>dag := insert_cert C cert (dag st0)\<rparr>"
  let ?r = "wsub 64 (c_round cert) 1"
  show thesis
  proof (cases "?r mod 2 \<noteq> 0 \<or> ?r < 4 \<or> ?r - 2 \<le> last_committed_round ?st")
    case True
    then show thesis using assms store by (auto simp: process_certificate_def Let_def split: if_splits)
  next
    case False
    then obtain opt where l: "leader com (?r - 2) (dag ?st) = Some opt"
      using assms by (auto simp: process_certificate_def Let_def split: option.splits)
    show thesis
    proof (cases opt)
      case None
      with False l assms store show thesis by (auto simp: process_certificate_def Let_def)
    next
      case (Some dp)
      obtain dg ldr where dp: "dp = (dg, ldr)" by (cases dp)
      obtain auths where a: "map_of (dag ?st) (?r - 1) = Some auths"
        using False l Some dp assms by (auto simp: process_certificate_def Let_def split: option.splits)
      show thesis
      proof (cases "support com dg auths < validity_threshold com")
        case True
        with False l Some dp a assms store show thesis
          by (auto simp: process_certificate_def Let_def)
      next
        case sup: False
        obtain ls where ls: "order_leaders com ?st ldr = Some ls" "commit_leaders g ?st (rev ls) = (st', out)"
          using False l Some dp a sup assms
          by (auto simp: process_certificate_def Let_def split: option.splits)
        have r: "even ?r" "4 \<le> ?r" "last_committed_round ?st < ?r - 2"
          using False by (simp_all only: even_iff_mod_2_eq_zero de_Morgan_disj not_not not_less not_le)
        have "leader com (?r - 2) (dag ?st) = Some (Some (dg, ldr))" using l Some dp by simp
        from commit [OF refl refl r this a _ ls] sup show thesis by (simp only: not_less)
      qed
    qed
  qed
qed

lemma wsub_lt: "a < 2 ^ w \<Longrightarrow> 0 < b \<Longrightarrow> wsub w a b < 2 ^ w"
  by (auto simp: wsub_def)

lemma process_certificate_step:
  assumes "cons_inv C st" "acceptable st cert" "process_certificate C com g st cert = Some (st', out)"
  shows "cons_inv C st' \<and> distinct (map cert_key out) \<and> (\<forall>x\<in>set out. uncommitted st x) \<and>
    (\<forall>n r. committed_to st' n r \<longleftrightarrow>
       committed_to st n r \<or> (\<exists>x\<in>set out. n = c_origin x \<and> r \<le> c_round x))"
  using assms(3)
proof (cases rule: process_certificate_cases)
  case store
  then show ?thesis using insert_cert_inv [OF assms(1,2)] by (simp add: committed_to_def)
next
  case (commit st1 r dg ldr auths ls)
  have inv: "cons_inv C st1" using insert_cert_inv [OF assms(1,2)] commit(1) by simp
  then have wf: "dag_wf C (dag st1)" by (simp add: cons_inv_def)
  have ldr: "c_round ldr = r - 2" using leader_wf(1) [OF wf commit(6)] .
  have "r < 2 ^ 64" using commit(2) assms(2) wsub_lt [of "c_round cert" 64 1]
    by (simp add: acceptable_def)
  then have b: "last_committed_round st1 < c_round ldr" "2 \<le> c_round ldr"
    "last_committed_round st1 + 2 < 2 ^ 64" using commit(4,5) ldr by simp_all
  note rounds = order_leaders_rounds [OF wf commit(9) b]
  have "\<forall>l\<in>set (rev ls). last_committed_round st1 < c_round l" using rounds(2) by simp
  from commit_leaders_fresh [OF inv rounds(1) this commit(10)] show ?thesis
    by (simp add: commit(1) uncommitted_def committed_to_def)
qed

text \<open>No certificate of the run is stale when it arrives.\<close>

fun no_stale :: "crypto \<Rightarrow> committee \<Rightarrow> nat \<Rightarrow> cstate \<Rightarrow> certificate list \<Rightarrow> bool" where
  "no_stale C com g st [] = True"
| "no_stale C com g st (c # cs) =
     (acceptable st c \<and>
      (case process_certificate C com g st c of None \<Rightarrow> True | Some (st', _) \<Rightarrow> no_stale C com g st' cs))"

lemma run_fresh:
  assumes "cons_inv C st" "no_stale C com g st cs" "run C com g st cs = Some (st', out)"
  shows "cons_inv C st' \<and> distinct (map cert_key out) \<and> (\<forall>x\<in>set out. uncommitted st x)"
  using assms
proof (induction cs arbitrary: st out)
  case Nil
  then show ?case by simp
next
  case (Cons c cs)
  obtain st1 out1 out2 where p: "process_certificate C com g st c = Some (st1, out1)"
    and r: "run C com g st1 cs = Some (st', out2)" and out: "out = out1 @ out2"
    using Cons.prems(3) by (auto split: option.splits prod.splits)
  have acc: "acceptable st c" and rest: "no_stale C com g st1 cs" using Cons.prems(2) p by simp_all
  note s = process_certificate_step [OF Cons.prems(1) acc p]
  have IH: "cons_inv C st'" "distinct (map cert_key out2)" "\<forall>x\<in>set out2. uncommitted st1 x"
    using Cons.IH [OF _ rest r] s by blast+
  have "cert_key ` set out1 \<inter> cert_key ` set out2 = {}"
  proof (rule equals0I)
    fix k
    assume "k \<in> cert_key ` set out1 \<inter> cert_key ` set out2"
    then obtain x y where xy: "x \<in> set out1" "y \<in> set out2" "c_origin y = c_origin x" "c_round y = c_round x"
      by (auto simp: cert_key_def)
    then have "committed_to st1 (c_origin y) (c_round y)" using s by auto
    with IH(3) xy(2) show False by (simp add: uncommitted_def)
  qed
  moreover have "\<forall>x\<in>set out2. uncommitted st x" using IH(3) s by (auto simp: uncommitted_def)
  ultimately show ?case using IH(1,2) s out by auto
qed

lemma cons_inv_genesis: "cons_inv C (state_new C (genesis com))"
proof -
  let ?add = "\<lambda>x m. AList.update (c_origin x) (cert_digest C x, x) m"
  have *: "distinct (map fst (fold ?add gs m)) \<and>
      (\<forall>(n, dg, c)\<in>set (fold ?add gs m). c_round c = 0 \<and> c_origin c = n \<and> dg = cert_digest C c)"
    if "distinct (map fst m)" "\<forall>g\<in>set gs. c_round g = 0"
      "\<forall>(n, dg, c)\<in>set m. c_round c = 0 \<and> c_origin c = n \<and> dg = cert_digest C c" for gs m
    using that
  proof (induction gs arbitrary: m)
    case Nil
    then show ?case by simp
  next
    case (Cons x gs)
    have "\<forall>(n, dg, c)\<in>set (?add x m). c_round c = 0 \<and> c_origin c = n \<and> dg = cert_digest C c"
      using Cons.prems(2,3) set_update_subset [of "c_origin x" "(cert_digest C x, x)" m] by fastforce
    with Cons.IH [of "?add x m"] Cons.prems(1,2) show ?case by (simp add: distinct_update)
  qed
  let ?g = "fold ?add (genesis com) []"
  have "\<forall>g\<in>set (genesis com). c_round g = 0"
    by (simp add: genesis_def c_round_def header_default_def)
  from * [OF _ this, of "[]"] have g: "distinct (map fst ?g)"
    "\<forall>(n, dg, c)\<in>set ?g. c_round c = 0 \<and> c_origin c = n \<and> dg = cert_digest C c" by simp_all
  let ?lc = "map (\<lambda>(x, (_, y)). (x, c_round y)) ?g"
  have fst: "map fst ?lc = map fst ?g" by (simp add: split_def)
  have "\<forall>(n, r)\<in>set ?lc. r = 0" using g(2) by auto
  then have lc: "r = 0" if "map_of ?lc n = Some r \<or> r \<in> snd ` set ?lc" for n r
    using that map_of_SomeD [of ?lc n r] by auto
  have st: "state_new C (genesis com) = \<lparr>last_committed_round = 0, last_committed = ?lc, dag = [(0, ?g)]\<rparr>"
    by (simp add: state_new_def Let_def)
  have "dag_wf C [(0, ?g)]" using g by (auto simp: dag_wf_def)
  moreover have "fresh_dag ?lc [(0, ?g)]" unfolding fresh_dag_def using lc by fast
  moreover have "distinct (map fst ?lc)" unfolding fst by (rule g(1))
  moreover have "\<forall>r\<in>set (vals ?lc). r \<le> 0" using lc by (auto simp: vals_def)
  ultimately show ?thesis unfolding st cons_inv_def lc_bound_def by simp
qed

subsection \<open>Progress of the last committed round\<close>

lemma update_lcr_mono: "lc_bound st \<Longrightarrow> last_committed_round st = 0 \<or>
    last_committed_round st \<in> set (vals (last_committed st)) \<Longrightarrow>
    last_committed_round st \<le> last_committed_round (update g c st)"
proof -
  assume b: "lc_bound st" and "last_committed_round st = 0 \<or>
    last_committed_round st \<in> set (vals (last_committed st))"
  then consider "last_committed_round st = 0" | n where "(n, last_committed_round st) \<in> set (last_committed st)"
    by (auto simp: vals_def)
  then show ?thesis
  proof cases
    case 2
    have "map_of (last_committed st) n = Some (last_committed_round st)"
      using 2 b by (simp add: lc_bound_def)
    then obtain r where r: "map_of (commit_round c (last_committed st)) n = Some r" "last_committed_round st \<le> r"
      by (cases "n = c_origin c") (simp_all add: commit_round_lookup get_or_def)
    have "r \<in> set (vals (commit_round c (last_committed st)))"
      using map_of_SomeD [OF r(1)] by (force simp: vals_def)
    then have "r \<le> fold max (vals (commit_round c (last_committed st))) 0" by (rule fold_max_ge)
    with r(2) show ?thesis by (simp add: update_def Let_def)
  qed simp
qed

definition lcr_attained :: "cstate \<Rightarrow> bool" where
  "lcr_attained st \<longleftrightarrow> last_committed_round st = 0 \<or> last_committed_round st \<in> set (vals (last_committed st))"

lemma update_attained: "lcr_attained (update g c st)"
  using fold_max_in [of "vals (commit_round c (last_committed st))" 0]
  by (auto simp: lcr_attained_def update_def Let_def)

lemma fold_update_lcr_ge:
  assumes "cons_inv C st" "lcr_attained st"
  shows "last_committed_round st \<le> last_committed_round (fold (update g) xs st) \<and>
    (\<forall>x\<in>set xs. c_round x \<le> last_committed_round (fold (update g) xs st)) \<and>
    lcr_attained (fold (update g) xs st)"
  using assms
proof (induction xs arbitrary: st)
  case Nil
  then show ?case by simp
next
  case (Cons x xs)
  have b: "lc_bound st" using Cons.prems(1) by (simp add: cons_inv_def)
  have inv: "cons_inv C (update g x st)"
    using update_inv(1) cons_inv_parts [OF Cons.prems(1)] by blast
  have "last_committed_round st \<le> last_committed_round (update g x st)"
    using update_lcr_mono [OF b] Cons.prems(2) by (simp add: lcr_attained_def)
  then show ?case
    using Cons.IH [OF inv update_attained] update_lcr(1) [OF b, of x g] by fastforce
qed

lemma leader_in_order_dag:
  assumes "dag_wf C (dag st)" "last_committed_round st \<le> c_round l" "c_round l + g < 2 ^ 64"
  shows "l \<in> set (order_dag g st l)"
  using order_loop_sound(2) [OF assms(1)] assms(2,3) by (simp add: order_dag_def wadd_exact)

lemma commit_leaders_lcr:
  assumes "cons_inv C st" "lcr_attained st" "sorted_wrt (<) (map c_round ls)" "ls \<noteq> []"
    and "\<forall>l\<in>set ls. last_committed_round st < c_round l \<and> c_round l + g < 2 ^ 64"
    and "commit_leaders g st ls = (st', out)"
  shows "last_committed_round st' = c_round (last ls) \<and> last ls \<in> set out \<and> lcr_attained st'"
  using assms
proof (induction ls arbitrary: st out)
  case Nil
  then show ?case by simp
next
  case (Cons l ls)
  let ?xs = "order_dag g st l"
  let ?st = "fold (update g) ?xs st"
  obtain out2 where rest: "commit_leaders g ?st ls = (st', out2)" and out: "out = ?xs @ out2"
    using Cons.prems(6) by (auto simp: Let_def split: prod.splits)
  have inv: "cons_inv C ?st" using Cons.prems(1) by (rule fold_update_inv)
  note ge = fold_update_lcr_ge [OF Cons.prems(1,2), where xs = ?xs and g = g]
  have l: "last_committed_round st < c_round l" "c_round l + g < 2 ^ 64" using Cons.prems(5) by auto
  have wf: "dag_wf C (dag st)" using Cons.prems(1) by (simp add: cons_inv_def)
  have l_in: "l \<in> set ?xs" using leader_in_order_dag [OF wf] l by simp
  have "uncommitted st l" using l(1) Cons.prems(1) by (auto intro: lcr_uncommitted simp: cons_inv_def)
  from order_dag_fresh(2) [OF Cons.prems(1) this] have "\<forall>x\<in>set ?xs. c_round x \<le> c_round l" by blast
  then have "last_committed_round ?st \<le> c_round l"
    using l(1) by (intro fold_update_lcr [OF Cons.prems(1)]) auto
  then have eq: "last_committed_round ?st = c_round l" using ge l_in by force
  show ?case
  proof (cases "ls = []")
    case True
    then show ?thesis using rest eq ge l_in out by simp
  next
    case False
    have "\<forall>l'\<in>set ls. last_committed_round ?st < c_round l' \<and> c_round l' + g < 2 ^ 64"
      using Cons.prems(3,5) eq by auto
    from Cons.IH [OF inv _ _ False this rest] Cons.prems(3) ge False out show ?thesis by simp
  qed
qed

end
