(* ===== verification/Consensus_Runs.thy ===== *)
theory Consensus_Runs
  imports Consensus_Safety
begin

text \<open>
  The properties of a run of the commit rule, and two runs of it evaluated: one of five rounds
  of a committee of four, and one in which a certificate is received a second time after its
  author's later certificates were committed.
\<close>

subsection \<open>Concrete runs\<close>

text \<open>The digest of a certificate is here the id of its header; a header of round \<open>r\<close> by
  authority \<open>n\<close> has the id \<open>10 * r + n\<close>.\<close>

definition demo_crypto :: crypto where
  "demo_crypto = example_crypto\<lparr>sha := (\<lambda>bs. word_of_nat (of_be_bytes (take 32 bs)))\<rparr>"

lemma demo_digest: "cert_digest demo_crypto c = h_id (c_header c)"
proof -
  have "of_be_bytes (bytes32 x) = unat x" for x :: "256 word"
    using of_be_bytes_be_bytes [of "unat x" 32] unsigned_less [where ?'a = nat and w = x]
    by (simp add: bytes32_def)
  then show ?thesis by (simp add: cert_digest_def demo_crypto_def cert_preimage_def)
qed

definition demo_cert :: "digest \<Rightarrow> round \<Rightarrow> public_key \<Rightarrow> digest list \<Rightarrow> certificate" where
  "demo_cert i r n ps = \<lparr>c_header = header_default\<lparr>h_author := n, h_round := r,
     h_parents := ps, h_id := i\<rparr>, c_votes = []\<rparr>"

lemma demo_cert_simps [simp]:
  "c_round (demo_cert i r n ps) = r" "c_origin (demo_cert i r n ps) = n"
  "h_parents (c_header (demo_cert i r n ps)) = ps" "h_id (c_header (demo_cert i r n ps)) = i"
  "cert_digest demo_crypto (demo_cert i r n ps) = i"
  by (simp_all add: demo_cert_def c_round_def c_origin_def demo_digest)

lemma demo_cert_eq: "cert_eq (demo_cert i r n ps) (demo_cert j s m qs) \<longleftrightarrow> i = j \<and> r = s \<and> n = m"
  by (simp add: cert_eq_def)

lemma genesis4: "genesis committee4 = map (\<lambda>n. demo_cert 0 0 n []) [1, 2, 3, 4]"
  by (simp add: genesis_def keys_committee4 demo_cert_def header_default_def)

lemma elect4: "elect committee4 r = [1, 2, 3, 4] ! (r mod 4)"
proof -
  have "length (authorities committee4) = 4" by (simp add: committee4_def)
  then show ?thesis by (simp add: elect_def csize_def keys_committee4)
qed
lemma csize4: "csize committee4 = 4" by (simp add: csize_def committee4_def)
lemmas run_eval = process_certificate_def Let_def insert_cert_def get_or_def wadd_def wsub_def leader_def
  leader_cert_def elect4 csize4 support_def vals_def order_leaders_def rounds_down_def linked_def children_of_def
  demo_cert_eq order_dag_def order_loop.simps find_parent_def committed_at_def update_def commit_round_def
  clean_for_def state_new_def genesis4 committee4_simps

definition good_run :: "certificate list" where
  "good_run = 
    [demo_cert 11 1 1 [0], demo_cert 12 1 2 [0], demo_cert 13 1 3 [0],
     demo_cert 21 2 1 [11,12,13], demo_cert 22 2 2 [11,12,13], demo_cert 23 2 3 [11,12,13],
     demo_cert 31 3 1 [21,22,23], demo_cert 32 3 2 [21,22,23], demo_cert 33 3 3 [21,22,23],
     demo_cert 41 4 1 [31,32,33], demo_cert 42 4 2 [31,32,33], demo_cert 43 4 3 [31,32,33],
     demo_cert 51 5 1 [41,42,43]]"

text \<open>Authority 4 follows its own chain, which the leaders reference only in round 6; the first
  certificate of authority 2 arrives again after the commit of round 4.\<close>

definition stale_run :: "certificate list" where
  "stale_run =
    [demo_cert 11 1 1 [0], demo_cert 12 1 2 [0], demo_cert 13 1 3 [0], demo_cert 14 1 4 [0],
     demo_cert 21 2 1 [11, 12, 13], demo_cert 22 2 2 [11, 12, 13], demo_cert 23 2 3 [11, 12, 13],
     demo_cert 24 2 4 [11, 12, 14],
     demo_cert 31 3 1 [21, 22, 23], demo_cert 32 3 2 [21, 22, 23], demo_cert 33 3 3 [21, 22, 23],
     demo_cert 34 3 4 [21, 22, 24],
     demo_cert 41 4 1 [31, 32, 33], demo_cert 42 4 2 [31, 32, 33], demo_cert 43 4 3 [31, 32, 33],
     demo_cert 44 4 4 [31, 32, 34],
     demo_cert 51 5 1 [41, 42, 43], demo_cert 52 5 2 [41, 42, 43], demo_cert 53 5 3 [41, 42, 43],
     demo_cert 54 5 4 [41, 42, 44],
     demo_cert 61 6 1 [51, 52, 53], demo_cert 62 6 2 [51, 52, 53], demo_cert 63 6 3 [51, 52, 54],
     demo_cert 71 7 1 [61, 62, 63], demo_cert 72 7 2 [61, 62, 63], demo_cert 73 7 3 [61, 62, 63],
     demo_cert 12 1 2 [0],
     demo_cert 81 8 1 [71, 72, 73], demo_cert 82 8 2 [71, 72, 73], demo_cert 83 8 3 [71, 72, 73],
     demo_cert 91 9 1 [81, 82, 83]]"

abbreviation demo_state :: cstate where
  "demo_state \<equiv> state_new demo_crypto (genesis committee4)"

lemma run_good: "\<exists>st. run demo_crypto committee4 50 demo_state good_run =
    Some (st, [demo_cert 13 1 3 [0], demo_cert 12 1 2 [0], demo_cert 11 1 1 [0], demo_cert 23 2 3 [11, 12, 13]])"
  by (simp add: good_run_def run_eval cong: let_weak_cong prod.case_cong_weak)

lemma no_stale_good: "no_stale demo_crypto committee4 50 demo_state good_run"
  by (simp add: good_run_def run_eval acceptable_def cong: let_weak_cong prod.case_cong_weak)

subsection \<open>Properties of a run\<close>

text \<open>
  C1: From the genesis state, whatever certificates arrive and in whatever order, no two
  certificates that the run outputs have the same author and round, provided that none is
  received after a certificate of its author of a later round was committed.
\<close>

theorem no_double_commit:
  assumes "no_stale C com g (state_new C (genesis com)) cs"
    and "run C com g (state_new C (genesis com)) cs = Some (st', out)"
  shows "distinct (map cert_key out)"
  using run_fresh [OF cons_inv_genesis assms] by blast

theorem no_double_commit_witness:
  "\<exists>st out. run demo_crypto committee4 50 demo_state good_run = Some (st, out) \<and> distinct (map cert_key out)"
proof -
  obtain st out where r: "run demo_crypto committee4 50 demo_state good_run = Some (st, out)"
    using run_good by blast
  with no_double_commit [OF no_stale_good r] show ?thesis by blast
qed

text \<open>
  The hypothesis matters: when a certificate is received again after a later certificate of
  its author was committed, the commit rule can output it a second time.
\<close>

theorem stale_certificate_committed_twice:
  "\<exists>st out. run demo_crypto committee4 50 demo_state stale_run = Some (st, out)
     \<and> demo_cert 12 1 2 [0] \<in> set out \<and> \<not> distinct (map cert_key out)"
  by (simp add: stale_run_def run_eval cert_key_def cong: let_weak_cong prod.case_cong_weak)

text \<open>
  C3: Handling a certificate that is not older than the last committed one of its author, and of a
  round below the largest \<open>u64\<close>, keeps the consensus invariant, outputs only certificates not
  committed before, and afterwards exactly they, and what was committed before, count as
  committed. The run before shows that the condition on its age is needed.
\<close>

theorem process_certificate_invariant:
  assumes "cons_inv C st" "acceptable st cert" "process_certificate C com g st cert = Some (st', out)"
  shows "cons_inv C st' \<and> (\<forall>x\<in>set out. uncommitted st x) \<and>
    (\<forall>n r. committed_to st' n r \<longleftrightarrow>
       committed_to st n r \<or> (\<exists>x\<in>set out. n = c_origin x \<and> r \<le> c_round x))"
  using process_certificate_step [OF assms] by blast

definition good_state :: cstate where
  "good_state = fst (the (run demo_crypto committee4 50 demo_state (butlast good_run)))"

lemma run_good_state: "run demo_crypto committee4 50 demo_state (butlast good_run) = Some (good_state, [])"
  unfolding good_state_def
  by (simp add: good_run_def run_eval cong: let_weak_cong prod.case_cong_weak)

lemma good_state_inv: "cons_inv demo_crypto good_state" "acceptable good_state (last good_run)"
proof -
  have "no_stale demo_crypto committee4 50 demo_state (butlast good_run)"
    by (simp add: good_run_def run_eval acceptable_def cong: let_weak_cong prod.case_cong_weak)
  from run_fresh [OF cons_inv_genesis this run_good_state] show "cons_inv demo_crypto good_state" by blast
  show "acceptable good_state (last good_run)"
    unfolding good_state_def
    by (simp add: good_run_def run_eval acceptable_def cong: let_weak_cong prod.case_cong_weak)
qed

lemma good_state_commits: "\<exists>st. process_certificate demo_crypto committee4 50 good_state (last good_run) =
    Some (st, [demo_cert 13 1 3 [0], demo_cert 12 1 2 [0], demo_cert 11 1 1 [0], demo_cert 23 2 3 [11, 12, 13]])"
  unfolding good_state_def
  by (simp add: good_run_def run_eval cong: let_weak_cong prod.case_cong_weak)

theorem process_certificate_invariant_witness:
  "\<exists>st out. process_certificate demo_crypto committee4 50 good_state (last good_run) = Some (st, out)
     \<and> out \<noteq> [] \<and> cons_inv demo_crypto st"
proof -
  obtain st out where p: "process_certificate demo_crypto committee4 50 good_state (last good_run) = Some (st, out)"
    and "out \<noteq> []" using good_state_commits by blast
  with process_certificate_invariant [OF good_state_inv p] show ?thesis by blast
qed

text \<open>
  C4: A certificate of round \<open>r + 3\<close> that makes the code output something commits the
  elected leader of the even round \<open>r\<close>: it was above the last committed round, the
  certificates of round \<open>r + 1\<close> that have it as a parent hold the validity threshold of
  stake, it is among the output, and \<open>r\<close> becomes the last committed round.
\<close>

theorem commit_needs_support:
  assumes "cons_inv C st" "lcr_attained st" "acceptable st cert" "c_round cert + g < 2 ^ 64"
    and "process_certificate C com g st cert = Some (st', out)" "out \<noteq> []"
  shows "\<exists>r dg ldr auths. c_round cert = r + 3 \<and> even r \<and> last_committed_round st < r
    \<and> c_round ldr = r \<and> leader com r (insert_cert C cert (dag st)) = Some (Some (dg, ldr))
    \<and> map_of (insert_cert C cert (dag st)) (r + 1) = Some auths
    \<and> validity_threshold com \<le> support com dg auths
    \<and> ldr \<in> set out \<and> last_committed_round st' = r"
  using assms(5)
proof (cases rule: process_certificate_cases)
  case store
  with assms(6) show ?thesis by simp
next
  case (commit st1 r dg ldr auths ls)
  have inv: "cons_inv C st1" using insert_cert_inv [OF assms(1,3)] commit(1) by simp
  then have wf: "dag_wf C (dag st1)" by (simp add: cons_inv_def)
  have ldr: "c_round ldr = r - 2" using leader_wf(1) [OF wf commit(6)] .
  have "c_round cert \<noteq> 0"
  proof
    assume "c_round cert = 0"
    then have "r = 2 ^ 64 - 1" using commit(2) by (simp add: wsub_def)
    then show False using commit(3) by simp
  qed
  then have r: "c_round cert = r + 1" using commit(2) by (simp add: wsub_exact)
  have b: "last_committed_round st1 < c_round ldr" "2 \<le> c_round ldr" "last_committed_round st1 + 2 < 2 ^ 64"
    using commit(4,5) ldr r assms(4) by simp_all
  note rounds = order_leaders_rounds [OF wf commit(9) b]
  have le: "c_round l \<le> c_round ldr" if "l \<in> set ls" for l
    using rounds(1,3) that by (fastforce simp: sorted_wrt_append)
  have "\<forall>l\<in>set (rev ls). last_committed_round st1 < c_round l \<and> c_round l + g < 2 ^ 64"
    using rounds(2) le assms(4) ldr r by fastforce
  from commit_leaders_lcr [OF inv _ rounds(1) _ this commit(10)] rounds(3) assms(2) commit(1)
  have "last_committed_round st' = r - 2" "ldr \<in> set out" by (auto simp: lcr_attained_def ldr)
  moreover have "r - 1 = (r - 2) + 1" "c_round cert = (r - 2) + 3" "even (r - 2)"
    using commit(3,4) r by simp_all
  ultimately show ?thesis using commit(1,5-8) ldr by (intro exI [of _ "r - 2"]) auto
qed

theorem commit_needs_support_witness:
  "\<exists>r st'. c_round (last good_run) = r + 3 \<and> last_committed_round st' = r
    \<and> (\<exists>out. process_certificate demo_crypto committee4 50 good_state (last good_run) = Some (st', out))"
proof -
  obtain st out where p: "process_certificate demo_crypto committee4 50 good_state (last good_run) = Some (st, out)"
    and "out \<noteq> []" using good_state_commits by blast
  moreover have "lcr_attained good_state"
    unfolding good_state_def
    by (simp add: good_run_def run_eval lcr_attained_def cong: let_weak_cong prod.case_cong_weak)
  moreover have "c_round (last good_run) + 50 < 2 ^ 64" by (simp add: good_run_def)
  ultimately show ?thesis using commit_needs_support [OF good_state_inv(1) _ good_state_inv(2)] by blast
qed

subsection \<open>A small sub-dag\<close>

definition small_state :: cstate where
  "small_state = \<lparr>last_committed_round = 0, last_committed = [(1, 0)],
     dag = [(1, [(1, 11, demo_cert 11 1 1 []), (2, 12, demo_cert 12 1 2 [])]),
            (2, [(1, 21, demo_cert 21 2 1 [12, 11])])]\<rparr>"

theorem order_dag_correct_witness:
  "set (order_dag 50 small_state (demo_cert 21 2 1 [12, 11])) =
     {demo_cert 21 2 1 [12, 11], demo_cert 11 1 1 [], demo_cert 12 1 2 []}
   \<and> {c. sub_dag small_state (demo_cert 21 2 1 [12, 11]) c \<and> last_committed_round small_state \<le> wadd 64 (c_round c) 50}
     = {demo_cert 21 2 1 [12, 11], demo_cert 11 1 1 [], demo_cert 12 1 2 []}"
proof -
  have wf: "dag_wf demo_crypto (dag small_state)" "collision_free demo_crypto small_state"
    by (auto simp: dag_wf_def small_state_def collision_free_def dag_certs_def vals_def)
  have e: "order_dag 50 small_state (demo_cert 21 2 1 [12, 11]) =
      [demo_cert 11 1 1 [], demo_cert 12 1 2 [], demo_cert 21 2 1 [12, 11]]"
    by (simp add: small_state_def run_eval cong: let_weak_cong prod.case_cong_weak)
  show ?thesis using order_dag_correct [OF wf, of 50 "demo_cert 21 2 1 [12, 11]"] unfolding e by auto
qed
end
