(* ===== verification/Synchronizer.thy ===== *)
theory Synchronizer
  imports Messages
begin

text \<open>
  The messages of the primary (\<^verbatim>\<open>primary/src/primary.rs\<close>) and its synchronizer
  (\<^verbatim>\<open>primary/src/synchronizer.rs\<close>): which parents and batches of a header are missing.

  The serialisation by \<^verbatim>\<open>bincode\<close>, third-party code, is the record \<open>codec\<close>, an argument.
  The store is the map of the values written to it; a look-up is the \<open>Store::read\<close> of the
  theory \<open>Store\<close>. A storage failure, which kills the node, is not modelled here.
\<close>

datatype primary_message =
    PM_Header header
  | PM_Vote vote
  | PM_Certificate certificate
  | PM_CertificatesRequest "digest list" public_key

datatype primary_worker_message =
    Synchronize "digest list" public_key
  | Cleanup round
  | CommittedBatches round "digest list"
  | MigrationNotices "migration_notice list"
  | Execute digest worker_id nat

datatype worker_primary_message =
    OurBatch digest worker_id "(nat, nat) hmap" nat
  | OthersBatch digest worker_id "(nat, nat) hmap"

datatype waiter_message =
    SyncBatches "(digest, worker_id) hmap" header
  | SyncParents "digest list" header

record codec =
  ser_header :: "header \<Rightarrow> bytes"
  ser_certificate :: "certificate \<Rightarrow> bytes"
  de_certificate :: "bytes \<Rightarrow> certificate option"
  ser_counts :: "(nat, nat) hmap \<Rightarrow> bytes"
  de_counts :: "bytes \<Rightarrow> (nat, nat) hmap option"

type_synonym store = "(bytes, bytes) hmap"

definition batch_key :: "digest \<Rightarrow> worker_id \<Rightarrow> bytes" where
  "batch_key d w = bytes32 d @ le_bytes 4 w"

definition syn_genesis :: "crypto \<Rightarrow> committee \<Rightarrow> (digest \<times> certificate) list" where
  "syn_genesis C com = map (\<lambda>x. (cert_digest C x, x)) (genesis com)"

definition missing_batches :: "store \<Rightarrow> header \<Rightarrow> (digest, worker_id) hmap" where
  "missing_batches st h = filter (\<lambda>(d, w). map_of st (batch_key d w) = None) (h_payload h)"

text \<open>The result \<open>Some m\<close> is \<open>true\<close> with the message sent to the header waiter.\<close>

definition missing_payload :: "public_key \<Rightarrow> store \<Rightarrow> header \<Rightarrow> waiter_message option" where
  "missing_payload name st h =
     (if h_author h = name then None
      else let missing = missing_batches st h
           in if missing = [] then None else Some (SyncBatches missing h))"

fun collect_parents :: "codec \<Rightarrow> (digest \<times> certificate) list \<Rightarrow> store \<Rightarrow> digest list
    \<Rightarrow> digest list \<times> certificate list \<Rightarrow> dag_error + digest list \<times> certificate list" where
  "collect_parents K gen st [] acc = Inr acc"
| "collect_parents K gen st (d # ds) (missing, parents) =
     (case find (\<lambda>(x, _). x = d) gen of
        Some (_, g) \<Rightarrow> collect_parents K gen st ds (missing, parents @ [g])
      | None \<Rightarrow>
          (case map_of st (bytes32 d) of
             Some bs \<Rightarrow>
               (case de_certificate K bs of
                  None \<Rightarrow> Inl SerializationError
                | Some c \<Rightarrow> collect_parents K gen st ds (missing, parents @ [c]))
           | None \<Rightarrow> collect_parents K gen st ds (missing @ [d], parents)))"

definition get_parents :: "codec \<Rightarrow> (digest \<times> certificate) list \<Rightarrow> store \<Rightarrow> header
    \<Rightarrow> dag_error + certificate list \<times> waiter_message option" where
  "get_parents K gen st h =
     bind_res (collect_parents K gen st (h_parents h) ([], [])) (\<lambda>(missing, parents).
       if missing = [] then Inr (parents, None)
       else Inr ([], Some (SyncParents missing h)))"

text \<open>\<open>False\<close> is returned after the certificate was sent to the certificate waiter.\<close>

definition deliver_certificate :: "(digest \<times> certificate) list \<Rightarrow> store \<Rightarrow> certificate \<Rightarrow> bool" where
  "deliver_certificate gen st c =
     list_all (\<lambda>d. list_ex (\<lambda>(x, _). x = d) gen \<or> map_of st (bytes32 d) \<noteq> None)
       (h_parents (c_header c))"

subsection \<open>What the answers mean\<close>

definition known_parent :: "codec \<Rightarrow> (digest \<times> certificate) list \<Rightarrow> store \<Rightarrow> digest \<Rightarrow> certificate \<Rightarrow> bool" where
  "known_parent K gen st d c \<longleftrightarrow>
     (case find (\<lambda>(x, _). x = d) gen of
        Some (_, g) \<Rightarrow> c = g
      | None \<Rightarrow> (\<exists>bs. map_of st (bytes32 d) = Some bs \<and> de_certificate K bs = Some c))"

lemma collect_parents_complete:
  assumes "collect_parents K gen st ds (ms, ps) = Inr ([], qs)"
  shows "ms = [] \<and> (\<exists>rs. qs = ps @ rs \<and> list_all2 (known_parent K gen st) ds rs)"
  using assms
proof (induction ds arbitrary: ms ps)
  case Nil
  then show ?case by simp
next
  case (Cons d ds)
  show ?case
  proof (cases "find (\<lambda>(x, _). x = d) gen")
    case (Some g)
    obtain x c where g: "g = (x, c)" by (cases g)
    with Some Cons.prems have "collect_parents K gen st ds (ms, ps @ [c]) = Inr ([], qs)" by simp
    from Cons.IH [OF this] obtain rs where "ms = []" "qs = (ps @ [c]) @ rs"
      "list_all2 (known_parent K gen st) ds rs" by blast
    moreover have "known_parent K gen st d c" using Some g by (simp add: known_parent_def)
    ultimately show ?thesis by (intro conjI exI [of _ "c # rs"]) simp_all
  next
    case None
    show ?thesis
    proof (cases "map_of st (bytes32 d)")
      case None': None
      with None Cons.prems have "collect_parents K gen st ds (ms @ [d], ps) = Inr ([], qs)" by simp
      from Cons.IH [OF this] show ?thesis by simp
    next
      case (Some bs)
      with None Cons.prems obtain c where c: "de_certificate K bs = Some c"
        "collect_parents K gen st ds (ms, ps @ [c]) = Inr ([], qs)"
        by (auto split: option.splits)
      from Cons.IH [OF c(2)] obtain rs where "ms = []" "qs = (ps @ [c]) @ rs"
        "list_all2 (known_parent K gen st) ds rs" by blast
      moreover have "known_parent K gen st d c" using None Some c(1) by (simp add: known_parent_def)
      ultimately show ?thesis by (intro conjI exI [of _ "c # rs"]) simp_all
    qed
  qed
qed

lemma get_parents_complete:
  assumes "get_parents K gen st h = Inr (ps, w)" "ps \<noteq> []"
  shows "w = None \<and> list_all2 (known_parent K gen st) (h_parents h) ps"
proof -
  obtain ms qs where c: "collect_parents K gen st (h_parents h) ([], []) = Inr (ms, qs)"
    using assms(1) by (auto simp: get_parents_def)
  with assms have "ms = []" "qs = ps" "w = None" by (auto simp: get_parents_def split: if_splits)
  with collect_parents_complete [of K gen st "h_parents h" "[]" "[]" ps] c show ?thesis by auto
qed

lemma missing_payload_None:
  assumes "missing_payload name st h = None" "h_author h \<noteq> name"
  shows "\<forall>(d, w)\<in>set (h_payload h). map_of st (batch_key d w) \<noteq> None"
  using assms by (auto simp: missing_payload_def missing_batches_def Let_def filter_empty_conv
      split: if_splits)

end
