(* ===== verification/Aggregators.thy ===== *)
theory Aggregators
  imports Messages
begin

text \<open>
  \<^verbatim>\<open>primary/src/aggregators.rs\<close>: the two aggregators of the core, one that turns votes
  into a certificate and one that turns certificates into the parents of the next header.
  Both count each authority once and reset their weight when they reach the quorum; the locale
  \<open>quorum_counter\<close> is that contract, and both are interpretations of it.
\<close>

record votes_aggregator =
  va_weight :: stake
  va_votes :: "(public_key \<times> signature) list"
  va_used :: "public_key list"

definition votes_aggregator_new :: votes_aggregator where
  "votes_aggregator_new = \<lparr>va_weight = 0, va_votes = [], va_used = []\<rparr>"

definition votes_append :: "committee \<Rightarrow> header \<Rightarrow> votes_aggregator \<Rightarrow> vote
    \<Rightarrow> votes_aggregator \<times> (dag_error + certificate option)" where
  "votes_append com h a v =
     (let author = v_author v in
      if author \<in> set (va_used a) then (a, Inl (AuthorityReuse author))
      else
        let votes = va_votes a @ [(author, v_signature v)];
            w = wadd 32 (va_weight a) (stake com author);
            a' = \<lparr>va_weight = w, va_votes = votes, va_used = set_insert author (va_used a)\<rparr>
        in if quorum_threshold com \<le> w
           then (a'\<lparr>va_weight := 0\<rparr>, Inr (Some \<lparr>c_header = h, c_votes = votes\<rparr>))
           else (a', Inr None))"

record certificates_aggregator =
  ca_weight :: stake
  ca_certificates :: "digest list"
  ca_used :: "public_key list"

definition certificates_aggregator_new :: certificates_aggregator where
  "certificates_aggregator_new = \<lparr>ca_weight = 0, ca_certificates = [], ca_used = []\<rparr>"

definition certificates_append :: "crypto \<Rightarrow> committee \<Rightarrow> certificates_aggregator \<Rightarrow> certificate
    \<Rightarrow> certificates_aggregator \<times> (digest list option)" where
  "certificates_append C com a c =
     (let origin = c_origin c in
      if origin \<in> set (ca_used a) then (a, None)
      else
        let certs = ca_certificates a @ [cert_digest C c];
            w = wadd 32 (ca_weight a) (stake com origin);
            a' = \<lparr>ca_weight = w, ca_certificates = certs, ca_used = set_insert origin (ca_used a)\<rparr>
        in if quorum_threshold com \<le> w
           then (a'\<lparr>ca_weight := 0, ca_certificates := []\<rparr>, Some certs)
           else (a', None))"

subsection \<open>Counting to a quorum once\<close>

fun count_fires :: "('s \<Rightarrow> 'e \<Rightarrow> bool) \<Rightarrow> ('s \<Rightarrow> 'e \<Rightarrow> 's) \<Rightarrow> 's \<Rightarrow> 'e list \<Rightarrow> nat" where
  "count_fires fires add s [] = 0"
| "count_fires fires add s (e # es) =
     (if fires s e then 1 else 0) + count_fires fires add (add s e) es"

locale quorum_counter = weighted_quorum ok w total threshold
  for ok :: "'c \<Rightarrow> bool" and w :: "'c \<Rightarrow> 'p \<Rightarrow> nat"
    and total :: "'c \<Rightarrow> nat" and threshold :: "'c \<Rightarrow> nat" +
  fixes init :: "'s" and seen :: "'s \<Rightarrow> 'p set" and acc :: "'s \<Rightarrow> nat"
    and add :: "'c \<Rightarrow> 's \<Rightarrow> 'e \<Rightarrow> 's" and fires :: "'c \<Rightarrow> 's \<Rightarrow> 'e \<Rightarrow> bool" and voter :: "'e \<Rightarrow> 'p"
  assumes seen_init: "seen init = {}" and acc_init: "acc init = 0"
    and seen_finite: "finite (seen s)"
    and add_seen: "voter e \<in> seen s \<Longrightarrow> add c s e = s \<and> \<not> fires c s e"
    and add_new: "ok c \<Longrightarrow> voter e \<notin> seen s \<Longrightarrow> acc s + w c (voter e) \<le> total c \<Longrightarrow>
      seen (add c s e) = insert (voter e) (seen s) \<and>
      fires c s e = (threshold c \<le> acc s + w c (voter e)) \<and>
      acc (add c s e) = (if threshold c \<le> acc s + w c (voter e) then 0 else acc s + w c (voter e))"
begin

lemma after_quorum:
  assumes "ok c" "seen s = A \<union> B" "A \<inter> B = {}" "threshold c \<le> sum (w c) A" "acc s = sum (w c) B"
  shows "count_fires (fires c) (add c) s es = 0"
  using assms(2-5)
proof (induction es arbitrary: s B)
  case Nil
  then show ?case by simp
next
  case (Cons e es)
  have fin: "finite A" "finite B" using seen_finite [of s] Cons.prems(1) by auto
  show ?case
  proof (cases "voter e \<in> seen s")
    case True
    with add_seen [of e s c] Cons show ?thesis by simp
  next
    case False
    let ?B = "insert (voter e) B"
    have sum: "sum (w c) ?B = acc s + w c (voter e)"
      using False Cons.prems fin by simp
    have disj: "A \<inter> ?B = {}" using False Cons.prems(1,2) by auto
    have below: "sum (w c) ?B < threshold c"
      using rest_below [OF assms(1) fin(1) _ disj Cons.prems(3)] fin by simp
    have "acc s + w c (voter e) \<le> total c"
      using total_bound [OF assms(1), of ?B] fin sum by simp
    from add_new [OF assms(1) False this] below sum
    have "seen (add c s e) = A \<union> ?B" "\<not> fires c s e" "acc (add c s e) = sum (w c) ?B"
      using Cons.prems(1) by auto
    with Cons.IH [OF _ disj Cons.prems(3)] show ?thesis by simp
  qed
qed

lemma before_quorum:
  assumes "ok c" "acc s = sum (w c) (seen s)" "acc s < threshold c"
  shows "count_fires (fires c) (add c) s es =
    (if threshold c \<le> sum (w c) (seen s \<union> voter ` set es) then 1 else 0)"
  using assms(2,3)
proof (induction es arbitrary: s)
  case Nil
  then show ?case by simp
next
  case (Cons e es)
  show ?case
  proof (cases "voter e \<in> seen s")
    case True
    then have "seen s \<union> voter ` set (e # es) = seen s \<union> voter ` set es" by auto
    with True add_seen [of e s c] Cons show ?thesis by simp
  next
    case False
    let ?S = "insert (voter e) (seen s)"
    have sum: "sum (w c) ?S = acc s + w c (voter e)"
      using False Cons.prems(1) seen_finite [of s] by simp
    have "acc s + w c (voter e) \<le> total c"
      using total_bound [OF assms(1), of ?S] seen_finite [of s] sum by simp
    note new = add_new [OF assms(1) False this]
    have union: "seen s \<union> voter ` set (e # es) = ?S \<union> voter ` set es" by auto
    show ?thesis
    proof (cases "threshold c \<le> acc s + w c (voter e)")
      case True
      have "count_fires (fires c) (add c) (add c s e) es = 0"
        using new True sum by (intro after_quorum [OF assms(1), of _ ?S "{}"]) simp_all
      moreover have "sum (w c) ?S \<le> sum (w c) (?S \<union> voter ` set es)"
        using seen_finite [of s] by (intro sum_mono2) auto
      ultimately show ?thesis using new True sum unfolding union by simp
    next
      case False
      then have "acc (add c s e) = sum (w c) (seen (add c s e))" "acc (add c s e) < threshold c"
        using new sum by simp_all
      from Cons.IH [OF this] new False show ?thesis unfolding union by simp
    qed
  qed
qed

text \<open>From the initial state the quorum is announced once if the distinct voters reach it, and
  never otherwise.\<close>

lemma fires_once:
  assumes "ok c"
  shows "count_fires (fires c) (add c) init es =
    (if threshold c \<le> sum (w c) (voter ` set es) then 1 else 0)"
proof -
  have "0 < threshold c" using threshold_large [OF assms] by simp
  then show ?thesis
    using before_quorum [OF assms, of init es] by (simp add: acc_init seen_init)
qed

end

definition votes_fires :: "committee \<Rightarrow> votes_aggregator \<Rightarrow> header \<times> vote \<Rightarrow> bool" where
  "votes_fires com a = (\<lambda>(h, v). \<exists>c. snd (votes_append com h a v) = Inr (Some c))"

definition votes_add :: "committee \<Rightarrow> votes_aggregator \<Rightarrow> header \<times> vote \<Rightarrow> votes_aggregator" where
  "votes_add com a = (\<lambda>(h, v). fst (votes_append com h a v))"

definition certificates_fires :: "crypto \<Rightarrow> committee \<Rightarrow> certificates_aggregator \<Rightarrow> certificate \<Rightarrow> bool" where
  "certificates_fires C com a c = (snd (certificates_append C com a c) \<noteq> None)"

definition certificates_add :: "crypto \<Rightarrow> committee \<Rightarrow> certificates_aggregator \<Rightarrow> certificate
    \<Rightarrow> certificates_aggregator" where
  "certificates_add C com a c = fst (certificates_append C com a c)"

interpretation va: quorum_counter config_ok stake total_stake quorum_threshold
  votes_aggregator_new "\<lambda>a. set (va_used a)" va_weight votes_add votes_fires "\<lambda>(h, v). v_author v"
proof unfold_locales
  fix com :: committee and a :: votes_aggregator and e :: "header \<times> vote"
  obtain h v where e: "e = (h, v)" by (cases e)
  show "set (va_used votes_aggregator_new) = {}" "va_weight votes_aggregator_new = 0"
    by (simp_all add: votes_aggregator_new_def)
  show "finite (set (va_used a))" by simp
  show "votes_add com a e = a \<and> \<not> votes_fires com a e"
    if "(case e of (h, v) \<Rightarrow> v_author v) \<in> set (va_used a)"
    using that by (simp add: e votes_add_def votes_fires_def votes_append_def Let_def)
  assume ok: "config_ok com" and new: "(case e of (h, v) \<Rightarrow> v_author v) \<notin> set (va_used a)"
    and le: "va_weight a + stake com (case e of (h, v) \<Rightarrow> v_author v) \<le> total_stake com"
  from ok le have "wadd 32 (va_weight a) (stake com (v_author v)) = va_weight a + stake com (v_author v)"
    by (simp add: e wadd_exact config_ok_def stake_bounded_def)
  with new show "set (va_used (votes_add com a e)) =
        insert (case e of (h, v) \<Rightarrow> v_author v) (set (va_used a)) \<and>
      votes_fires com a e = (quorum_threshold com \<le>
        va_weight a + stake com (case e of (h, v) \<Rightarrow> v_author v)) \<and>
      va_weight (votes_add com a e) = (if quorum_threshold com \<le>
        va_weight a + stake com (case e of (h, v) \<Rightarrow> v_author v) then 0
        else va_weight a + stake com (case e of (h, v) \<Rightarrow> v_author v))"
    by (simp add: e votes_add_def votes_fires_def votes_append_def Let_def)
qed

interpretation ca: quorum_counter config_ok stake total_stake quorum_threshold
  certificates_aggregator_new "\<lambda>a. set (ca_used a)" ca_weight "certificates_add C"
  "certificates_fires C" c_origin for C
proof unfold_locales
  fix com :: committee and a :: certificates_aggregator and c :: certificate
  show "set (ca_used certificates_aggregator_new) = {}" "ca_weight certificates_aggregator_new = 0"
    by (simp_all add: certificates_aggregator_new_def)
  show "finite (set (ca_used a))" by simp
  show "certificates_add C com a c = a \<and> \<not> certificates_fires C com a c"
    if "c_origin c \<in> set (ca_used a)"
    using that by (simp add: certificates_add_def certificates_fires_def certificates_append_def Let_def)
  assume ok: "config_ok com" and new: "c_origin c \<notin> set (ca_used a)"
    and le: "ca_weight a + stake com (c_origin c) \<le> total_stake com"
  from ok le have "wadd 32 (ca_weight a) (stake com (c_origin c)) = ca_weight a + stake com (c_origin c)"
    by (simp add: wadd_exact config_ok_def stake_bounded_def)
  with new show "set (ca_used (certificates_add C com a c)) = insert (c_origin c) (set (ca_used a)) \<and>
      certificates_fires C com a c = (quorum_threshold com \<le> ca_weight a + stake com (c_origin c)) \<and>
      ca_weight (certificates_add C com a c) =
        (if quorum_threshold com \<le> ca_weight a + stake com (c_origin c) then 0
         else ca_weight a + stake com (c_origin c))"
    by (simp add: certificates_add_def certificates_fires_def certificates_append_def Let_def)
qed

text \<open>
  C6: However votes arrive, with repetitions and from outside the committee, the votes
  aggregator returns exactly one certificate if the distinct voters hold a quorum of the
  stake, and none otherwise.
\<close>

theorem votes_aggregator_once:
  assumes "config_ok com"
  shows "count_fires (votes_fires com) (votes_add com) votes_aggregator_new hvs =
    (if quorum_threshold com \<le> weight com (v_author ` set (map snd hvs)) then 1 else 0)"
  using va.fires_once [OF assms, of hvs]
  by (simp add: weight_def image_image split_def)

definition vote_of :: "public_key \<Rightarrow> vote" where
  "vote_of n = vote_new example_crypto example_header n"

theorem votes_aggregator_once_witness:
  "count_fires (votes_fires committee4) (votes_add committee4) votes_aggregator_new
     (map (\<lambda>n. (example_header, vote_of n)) [1, 1, 2, 9, 3, 4]) = 1"
  using votes_aggregator_once [OF config_ok_committee4,
      of "map (\<lambda>n. (example_header, vote_of n)) [1, 1, 2, 9, 3, 4]"]
  by (simp add: weight_def committee4_simps vote_of_def vote_new_def Let_def)

text \<open>
  The certificates aggregator hands the parents to the proposer exactly once per round, as
  soon as certificates of distinct origins hold a quorum of the stake, and never before.
\<close>

theorem certificates_aggregator_once:
  assumes "config_ok com"
  shows "count_fires (certificates_fires C com) (certificates_add C com) certificates_aggregator_new cs =
    (if quorum_threshold com \<le> weight com (c_origin ` set cs) then 1 else 0)"
  using ca.fires_once [OF assms, of C cs] by (simp add: weight_def)

definition cert_by :: "public_key \<Rightarrow> certificate" where
  "cert_by n = \<lparr>c_header = example_header\<lparr>h_author := n\<rparr>, c_votes = []\<rparr>"

theorem certificates_aggregator_once_witness:
  "count_fires (certificates_fires example_crypto committee4) (certificates_add example_crypto committee4)
     certificates_aggregator_new (map cert_by [1, 1, 2, 9, 3, 4]) = 1"
  using certificates_aggregator_once [OF config_ok_committee4, of example_crypto "map cert_by [1, 1, 2, 9, 3, 4]"]
  by (simp add: weight_def committee4_simps cert_by_def c_origin_def)

subsection \<open>The assembled certificate\<close>

text \<open>The votes of an aggregator are those of the distinct authorities it has used.\<close>

definition va_inv :: "crypto \<Rightarrow> committee \<Rightarrow> header \<Rightarrow> votes_aggregator \<Rightarrow> bool" where
  "va_inv C com h a \<longleftrightarrow>
     map fst (va_votes a) = va_used a \<and> distinct (va_used a)
     \<and> va_weight a = weight com (set (va_used a)) \<and> va_weight a < quorum_threshold com
     \<and> (\<forall>(k, s)\<in>set (va_votes a). 0 < stake com k
          \<and> verify_strict C (cert_digest C \<lparr>c_header = h, c_votes = []\<rparr>) s k)"

text \<open>The votes the core lets through (\<open>sanitize_vote\<close>): for this header, and verified.\<close>

definition vote_for :: "crypto \<Rightarrow> committee \<Rightarrow> header \<Rightarrow> vote \<Rightarrow> bool" where
  "vote_for C com h v \<longleftrightarrow> v_id v = h_id h \<and> v_origin v = h_author h \<and> v_round v = h_round h
     \<and> vote_verify C com v = Inr ()"

lemma vote_for_sig:
  "vote_for C com h v \<Longrightarrow> 0 < stake com (v_author v)
    \<and> verify_strict C (cert_digest C \<lparr>c_header = h, c_votes = vs\<rparr>) (v_signature v) (v_author v)"
  by (auto simp: vote_for_def vote_verify_def sig_verify_def vote_digest_def cert_digest_def
      vote_preimage_def cert_preimage_def c_round_def c_origin_def split: if_splits)

lemma cert_digest_votes: "cert_digest C \<lparr>c_header = h, c_votes = vs\<rparr> = cert_digest C \<lparr>c_header = h, c_votes = ws\<rparr>"
  by (simp add: cert_digest_def cert_preimage_def c_round_def c_origin_def)

lemma check_votes_ok:
  assumes "config_ok com" "distinct (map fst vs)" "set (map fst vs) \<inter> set used = {}"
    and "\<forall>k\<in>set (map fst vs). 0 < stake com k" "w = weight com (set used)"
  shows "check_votes com vs used w = Inr (weight com (set used \<union> set (map fst vs)))"
  using assms(2-5)
proof (induction vs arbitrary: used w)
  case Nil
  then show ?case by simp
next
  case (Cons v vs)
  obtain k s where v: "v = (k, s)" by (cases v)
  have new: "k \<notin> set used" using Cons.prems(2) v by auto
  have w1: "weight com (insert k (set used)) = w + stake com k"
    using new Cons.prems(4) by (simp add: weight_def)
  have "w + stake com k \<le> total_stake com"
    using weight_le_total [of "insert k (set used)" com] w1 by simp
  then have "wadd 32 w (stake com k) = weight com (set (set_insert k used))"
    using assms(1) w1 by (simp add: wadd_exact config_ok_def stake_bounded_def)
  from Cons.IH [OF _ _ _ this] Cons.prems v new show ?case by (auto simp: ensure_def)
qed

lemma va_inv_append:
  assumes "config_ok com" "va_inv C com h a" "vote_for C com h v" "v_author v \<notin> set (va_used a)"
    and "a' = va_used a @ [v_author v]" "w = va_weight a + stake com (v_author v)"
  shows "wadd 32 (va_weight a) (stake com (v_author v)) = w" and "w = weight com (set a')"
    and "distinct a'" and "map fst (va_votes a @ [(v_author v, v_signature v)]) = a'"
    and "\<forall>(k, s)\<in>set (va_votes a @ [(v_author v, v_signature v)]). 0 < stake com k
          \<and> verify_strict C (cert_digest C \<lparr>c_header = h, c_votes = []\<rparr>) s k"
proof -
  show *: "w = weight com (set a')"
    using assms(2,4-6) by (simp add: va_inv_def weight_def)
  have "w \<le> total_stake com" using weight_le_total [of "set a'" com] * by simp
  then show "wadd 32 (va_weight a) (stake com (v_author v)) = w"
    using assms(1,6) by (simp add: wadd_exact config_ok_def stake_bounded_def)
  show "distinct a'" "map fst (va_votes a @ [(v_author v, v_signature v)]) = a'"
    "\<forall>(k, s)\<in>set (va_votes a @ [(v_author v, v_signature v)]). 0 < stake com k
          \<and> verify_strict C (cert_digest C \<lparr>c_header = h, c_votes = []\<rparr>) s k"
    using assms(2-5) vote_for_sig [OF assms(3)] by (auto simp: va_inv_def)
qed

lemma assembled_certificate:
  assumes "config_ok com" "va_inv C com h a" "vote_for C com h v"
    and "votes_append com h a v = (a', Inr (Some c))" "header_verify C com h = Inr ()"
    and batch: "\<forall>d vs. (\<forall>(k, s)\<in>set vs. verify_strict C d s k) \<longrightarrow> dalek_verify_batch C d vs"
  shows "c_header c = h \<and> cert_verify C com c = Inr ()"
proof -
  have new: "v_author v \<notin> set (va_used a)" and q: "quorum_threshold com \<le>
      wadd 32 (va_weight a) (stake com (v_author v))"
    and c: "c = \<lparr>c_header = h, c_votes = va_votes a @ [(v_author v, v_signature v)]\<rparr>"
    using assms(4) by (auto simp: votes_append_def Let_def split: if_splits)
  note inv = va_inv_append [OF assms(1-3) new refl refl]
  have fst: "map fst (c_votes c) = va_used a @ [v_author v]" using inv(4) c by simp
  have pos: "\<forall>k\<in>set (map fst (c_votes c)). 0 < stake com k"
    using inv(5) unfolding c by force
  have "check_votes com (c_votes c) [] 0 = Inr (weight com ({} \<union> set (map fst (c_votes c))))"
    using check_votes_ok [OF assms(1), of "c_votes c" "[]" 0] pos inv(3) fst
    by (simp add: weight_def)
  moreover have "quorum_threshold com \<le> weight com (set (map fst (c_votes c)))"
    using q inv(1,2) fst by simp
  moreover have "dalek_verify_batch C (cert_digest C c) (c_votes c)"
    using inv(5) c cert_digest_votes [of C h "c_votes c" "[]"] by (intro batch [rule_format]) force
  ultimately show ?thesis using assms(5) c by (simp add: cert_verify_def ensure_def)
qed

text \<open>The run of the aggregator over the votes for one header, up to the first certificate.\<close>

fun collect_votes :: "committee \<Rightarrow> header \<Rightarrow> votes_aggregator \<Rightarrow> vote list \<Rightarrow> certificate option" where
  "collect_votes com h a [] = None"
| "collect_votes com h a (v # vs) =
     (case votes_append com h a v of
        (a', Inr (Some c)) \<Rightarrow> Some c
      | (a', _) \<Rightarrow> collect_votes com h a' vs)"

lemma va_inv_step:
  assumes "config_ok com" "va_inv C com h a" "vote_for C com h v"
    and "votes_append com h a v = (a', r)" "\<not> (\<exists>c. r = Inr (Some c))"
  shows "va_inv C com h a' \<and> set (va_used a') = insert (v_author v) (set (va_used a))"
proof (cases "v_author v \<in> set (va_used a)")
  case True
  with assms(2,4) show ?thesis by (auto simp: votes_append_def Let_def)
next
  case False
  note inv = va_inv_append [OF assms(1-3) False refl refl]
  have "wadd 32 (va_weight a) (stake com (v_author v)) < quorum_threshold com"
    and "a' = \<lparr>va_weight = wadd 32 (va_weight a) (stake com (v_author v)),
      va_votes = va_votes a @ [(v_author v, v_signature v)], va_used = va_used a @ [v_author v]\<rparr>"
    using assms(4,5) False by (auto simp: votes_append_def Let_def set_insert_def split: if_splits)
  with inv show ?thesis by (simp add: va_inv_def)
qed

lemma collect_votes_certificate:
  assumes "config_ok com" "va_inv C com h a" "\<forall>v\<in>set vs. vote_for C com h v"
    and "quorum_threshold com \<le> weight com (set (va_used a) \<union> v_author ` set vs)"
    and "header_verify C com h = Inr ()"
    and "\<forall>d vs. (\<forall>(k, s)\<in>set vs. verify_strict C d s k) \<longrightarrow> dalek_verify_batch C d vs"
  shows "\<exists>c. collect_votes com h a vs = Some c \<and> c_header c = h \<and> cert_verify C com c = Inr ()"
  using assms(2-4)
proof (induction vs arbitrary: a)
  case Nil
  then show ?case by (simp add: va_inv_def)
next
  case (Cons v vs)
  obtain a' r where app: "votes_append com h a v = (a', r)" by (cases "votes_append com h a v")
  have v: "vote_for C com h v" using Cons.prems(2) by simp
  show ?case
  proof (cases "\<exists>c. r = Inr (Some c)")
    case True
    then obtain c where r: "r = Inr (Some c)" by blast
    with assembled_certificate [OF assms(1) Cons.prems(1) v _ assms(5,6)] app
    show ?thesis by simp
  next
    case False
    note step = va_inv_step [OF assms(1) Cons.prems(1) v app False]
    have "collect_votes com h a (v # vs) = collect_votes com h a' vs"
      using app False by (auto split: sum.splits option.splits)
    then show ?thesis using Cons.IH [of a'] step Cons.prems(2,3) by simp
  qed
qed

text \<open>
  C7: When the votes that pass the core's checks come from a quorum, the aggregator
  assembles a certificate for the header, and that certificate passes the verification every
  other primary performs on it. The batch verification of ed25519 is assumed to accept a
  batch whose signatures are all valid.
\<close>

theorem assembled_certificate_verifies:
  assumes "config_ok com" "header_verify C com h = Inr ()" "\<forall>v\<in>set vs. vote_for C com h v"
    and "quorum_threshold com \<le> weight com (v_author ` set vs)"
    and "\<forall>d vs. (\<forall>(k, s)\<in>set vs. verify_strict C d s k) \<longrightarrow> dalek_verify_batch C d vs"
  shows "\<exists>c. collect_votes com h votes_aggregator_new vs = Some c \<and> c_header c = h
    \<and> cert_verify C com c = Inr ()"
proof -
  have "va_inv C com h votes_aggregator_new"
    using assms(1) by (simp add: va_inv_def votes_aggregator_new_def weight_def config_ok_def
        quorum_threshold_eq)
  then show ?thesis
    using collect_votes_certificate [OF assms(1) _ assms(3) _ assms(2,5), of votes_aggregator_new] assms(4)
    by (simp add: votes_aggregator_new_def)
qed

lemma header_verify_example: "header_verify example_crypto committee4 example_header = Inr ()"
  using example_cert_verifies [of "[1, 2, 3]"] example_cert_not_genesis [of "[1, 2, 3]"]
  by (auto simp: cert_verify_def example_cert_def split: if_splits)

theorem assembled_certificate_verifies_witness:
  "\<exists>c. collect_votes committee4 example_header votes_aggregator_new (map vote_of [4, 2, 2, 1]) = Some c
    \<and> c_header c = example_header \<and> cert_verify example_crypto committee4 c = Inr ()"
proof (rule assembled_certificate_verifies [OF config_ok_committee4 header_verify_example])
  show "\<forall>v\<in>set (map vote_of [4, 2, 2, 1]). vote_for example_crypto committee4 example_header v"
    by (simp add: vote_for_def vote_of_def vote_new_def Let_def vote_verify_def committee4_simps
        sig_verify_def example_crypto_def)
  show "quorum_threshold committee4 \<le> weight committee4 (v_author ` set (map vote_of [4, 2, 2, 1]))"
    by (simp add: committee4_simps weight_def vote_of_def vote_new_def Let_def)
qed (simp add: example_crypto_def)

end
