(* ===== verification/Core.thy ===== *)
theory Core
  imports Synchronizer Aggregators
begin

text \<open>
  \<^verbatim>\<open>primary/src/core.rs\<close>: the task of the primary that handles headers, votes and
  certificates. Each handler takes and returns the state of the task; what it sends is
  appended to the field \<open>sent\<close>. A handler ends with a result (\<open>Inl\<close> the error the run loop
  logs), or panics.

  The three handlers call one another: our own header is voted for, the vote can complete a
  certificate, and the certificate's header is processed when it is not yet being processed.
  The recursion is given by fuel; \<open>Core_Props\<close> shows that 8 is always enough.

  A cancel handler is the message whose transmission dropping it would cancel. The store only
  changes between two events of the task or by the task itself.
\<close>

datatype core_effect =
    Send socket_addr primary_message
  | ToProposer "digest list" round
  | ToConsensus certificate
  | ToHeaderWaiter waiter_message
  | ToCertificateWaiter certificate

record core_config =
  cc_name :: public_key
  cc_committee :: committee
  cc_crypto :: crypto
  cc_codec :: codec
  cc_gc_depth :: round
  cc_baseline_mode :: bool

record core =
  k_store :: store
  k_gc_round :: round
  last_voted :: "(round, public_key list) hmap"
  processing :: "(round, digest list) hmap"
  current_header :: header
  k_votes :: votes_aggregator
  certificates_aggregators :: "(round, certificates_aggregator) hmap"
  cancel_handlers :: "(round, (socket_addr \<times> primary_message) list) hmap"
  sent :: "core_effect list"

datatype 'a outcome = Done 'a | Panic | Exhausted

type_synonym core_result = "(core \<times> (dag_error + unit)) outcome"

definition core_init :: "store \<Rightarrow> core" where
  "core_init st = \<lparr>k_store = st, k_gc_round = 0, last_voted = [], processing = [],
     current_header = header_default, k_votes = votes_aggregator_new,
     certificates_aggregators = [], cancel_handlers = [], sent = []\<rparr>"

definition cc_genesis :: "core_config \<Rightarrow> (digest \<times> certificate) list" where
  "cc_genesis cfg = syn_genesis (cc_crypto cfg) (cc_committee cfg)"

definition emit :: "core_effect list \<Rightarrow> core \<Rightarrow> core" where
  "emit es s = s\<lparr>sent := sent s @ es\<rparr>"

text \<open>Sending through the reliable sender and keeping the cancel handlers of the round.\<close>

definition send_all :: "round \<Rightarrow> (socket_addr \<times> primary_message) list \<Rightarrow> core \<Rightarrow> core" where
  "send_all r ms s =
     emit (map (\<lambda>(a, m). Send a m) ms)
       (s\<lparr>cancel_handlers := upsert [] r (\<lambda>hs. hs @ ms) (cancel_handlers s)\<rparr>)"

definition to_others :: "core_config \<Rightarrow> primary_message \<Rightarrow> (socket_addr \<times> primary_message) list" where
  "to_others cfg m =
     map (\<lambda>(_, x). (primary_to_primary x, m)) (others_primaries (cc_committee cfg) (cc_name cfg))"

text \<open>The loop over the parents: all from the previous round, and their stake.\<close>

fun parents_stake :: "committee \<Rightarrow> round \<Rightarrow> certificate list \<Rightarrow> stake \<Rightarrow> stake option" where
  "parents_stake com r [] w = Some w"
| "parents_stake com r (x # xs) w =
     (if wadd 64 (c_round x) 1 = r
      then parents_stake com r xs (wadd 32 w (stake com (c_origin x)))
      else None)"

definition add_counts :: "(nat, nat) hmap \<Rightarrow> (nat, nat) hmap \<Rightarrow> (nat, nat) hmap" where
  "add_counts counts acc = fold (\<lambda>(a, n). upsert 0 a (\<lambda>x. wadd 16 x n)) counts acc"

definition expected_counts :: "codec \<Rightarrow> store \<Rightarrow> (digest, worker_id) hmap \<Rightarrow> (nat, nat) hmap" where
  "expected_counts K st payload =
     fold (\<lambda>(d, w) acc.
         case map_of st (batch_key d w) of
           None \<Rightarrow> acc
         | Some bs \<Rightarrow> (case de_counts K bs of None \<Rightarrow> acc | Some counts \<Rightarrow> add_counts counts acc))
       payload []"

definition counts_checked :: "core_config \<Rightarrow> store \<Rightarrow> header \<Rightarrow> bool" where
  "counts_checked cfg st h \<longleftrightarrow>
     (h_author h \<noteq> cc_name cfg \<and> \<not> cc_baseline_mode cfg \<longrightarrow>
        hmap_eq (expected_counts (cc_codec cfg) st (h_payload h)) (h_account_counts h))"

definition is_processing :: "core \<Rightarrow> header \<Rightarrow> bool" where
  "is_processing s h = (h_id h \<in> set (get_or [] (processing s) (h_round h)))"

definition mark_processing :: "header \<Rightarrow> core \<Rightarrow> core" where
  "mark_processing h s = s\<lparr>processing := upsert [] (h_round h) (set_insert (h_id h)) (processing s)\<rparr>"

definition write_store :: "bytes \<Rightarrow> bytes \<Rightarrow> core \<Rightarrow> core" where
  "write_store k v s = s\<lparr>k_store := AList.update k v (k_store s)\<rparr>"

text \<open>
  The part of \<open>process_header\<close> up to the vote: \<open>Inl\<close> is an early return, \<open>Inr\<close> the state in
  which the header is stored.
\<close>

definition check_header :: "core_config \<Rightarrow> core \<Rightarrow> header \<Rightarrow> core \<times> (dag_error + unit) + core" where
  "check_header cfg s0 h =
     (let s = mark_processing h s0;
          com = cc_committee cfg
      in case get_parents (cc_codec cfg) (cc_genesis cfg) (k_store s) h of
           Inl e \<Rightarrow> Inl (s, Inl e)
         | Inr (parents, wait) \<Rightarrow>
             (if parents = []
              then Inl (emit (case wait of None \<Rightarrow> [] | Some m \<Rightarrow> [ToHeaderWaiter m]) s, Inr ())
              else case parents_stake com (h_round h) parents 0 of
                     None \<Rightarrow> Inl (s, Inl (MalformedHeader (h_id h)))
                   | Some w \<Rightarrow>
                       if \<not> quorum_threshold com \<le> w then Inl (s, Inl (HeaderRequiresQuorum (h_id h)))
                       else (case missing_payload (cc_name cfg) (k_store s) h of
                          Some m \<Rightarrow> Inl (emit [ToHeaderWaiter m] s, Inr ())
                        | None \<Rightarrow>
                            if \<not> counts_checked cfg (k_store s) h
                            then Inl (s, Inl (MalformedHeader (h_id h)))
                            else Inr (write_store (bytes32 (h_id h)) (ser_header (cc_codec cfg) h) s))))"

definition add_voted :: "header \<Rightarrow> core \<Rightarrow> core" where
  "add_voted h s = s\<lparr>last_voted := upsert [] (h_round h) (set_insert (h_author h)) (last_voted s)\<rparr>"

definition already_voted :: "core \<Rightarrow> header \<Rightarrow> bool" where
  "already_voted s h \<longleftrightarrow> h_author h \<in> set (get_or [] (last_voted s) (h_round h))"

text \<open>The end of \<open>process_certificate\<close>: the certificate is stored, aggregated and sent on.\<close>

definition aggregator_of :: "core \<Rightarrow> certificate \<Rightarrow> certificates_aggregator" where
  "aggregator_of s c = get_or certificates_aggregator_new (certificates_aggregators s) (c_round c)"

definition proposer_effect :: "round \<Rightarrow> digest list option \<Rightarrow> core_effect list" where
  "proposer_effect r ps = (case ps of None \<Rightarrow> [] | Some parents \<Rightarrow> [ToProposer parents r])"

definition accept_certificate :: "core_config \<Rightarrow> core \<Rightarrow> certificate \<Rightarrow> core" where
  "accept_certificate cfg s c =
     (let C = cc_crypto cfg;
          s1 = write_store (bytes32 (cert_digest C c)) (ser_certificate (cc_codec cfg) c) s;
          (ca, ps) = certificates_append C (cc_committee cfg) (aggregator_of s1 c) c
      in emit (proposer_effect (c_round c) ps @ [ToConsensus c])
           (s1\<lparr>certificates_aggregators := AList.update (c_round c) ca (certificates_aggregators s1)\<rparr>))"

fun process_header :: "nat \<Rightarrow> core_config \<Rightarrow> core \<Rightarrow> header \<Rightarrow> core_result"
and process_vote :: "nat \<Rightarrow> core_config \<Rightarrow> core \<Rightarrow> vote \<Rightarrow> core_result"
and process_certificate :: "nat \<Rightarrow> core_config \<Rightarrow> core \<Rightarrow> certificate \<Rightarrow> core_result" where
  "process_header 0 cfg s h = Exhausted"
| "process_header (Suc n) cfg s0 h =
     (case check_header cfg s0 h of
        Inl r \<Rightarrow> Done r
      | Inr s1 \<Rightarrow>
          (let s = add_voted h s1 in
           if already_voted s1 h then Done (s, Inr ())
           else
             let v = vote_new (cc_crypto cfg) h (cc_name cfg) in
             if v_origin v = cc_name cfg
             then (case process_vote n cfg s v of
                     Done (s', Inr _) \<Rightarrow> Done (s', Inr ())
                   | Done (s', Inl e) \<Rightarrow> Panic
                   | Panic \<Rightarrow> Panic
                   | Exhausted \<Rightarrow> Exhausted)
             else (case primary (cc_committee cfg) (h_author h) of
                     Inl _ \<Rightarrow> Panic
                   | Inr a \<Rightarrow>
                       Done (send_all (h_round h) [(primary_to_primary a, PM_Vote v)] s, Inr ()))))"
| "process_vote 0 cfg s v = Exhausted"
| "process_vote (Suc n) cfg s v =
     (let (va, r) = votes_append (cc_committee cfg) (current_header s) (k_votes s) v;
          s1 = s\<lparr>k_votes := va\<rparr>
      in case r of
           Inl e \<Rightarrow> Done (s1, Inl e)
         | Inr None \<Rightarrow> Done (s1, Inr ())
         | Inr (Some c) \<Rightarrow>
             (case process_certificate n cfg (send_all (c_round c) (to_others cfg (PM_Certificate c)) s1) c of
                Done (s', Inr _) \<Rightarrow> Done (s', Inr ())
              | Done (s', Inl e) \<Rightarrow> Panic
              | Panic \<Rightarrow> Panic
              | Exhausted \<Rightarrow> Exhausted))"
| "process_certificate 0 cfg s c = Exhausted"
| "process_certificate (Suc n) cfg s0 c =
     (case (if is_processing s0 (c_header c) then Done (s0, Inr ())
            else process_header n cfg s0 (c_header c)) of
        Done (s, Inl e) \<Rightarrow> Done (s, Inl e)
      | Done (s, Inr _) \<Rightarrow>
          (if \<not> deliver_certificate (cc_genesis cfg) (k_store s) c
           then Done (emit [ToCertificateWaiter c] s, Inr ())
           else Done (accept_certificate cfg s c, Inr ()))
      | Panic \<Rightarrow> Panic
      | Exhausted \<Rightarrow> Exhausted)"

declare process_header.simps [simp del] process_vote.simps [simp del] process_certificate.simps [simp del]

definition process_own_header :: "nat \<Rightarrow> core_config \<Rightarrow> core \<Rightarrow> header \<Rightarrow> core_result" where
  "process_own_header n cfg s h =
     process_header n cfg
       (send_all (h_round h) (to_others cfg (PM_Header h))
          (s\<lparr>current_header := h, k_votes := votes_aggregator_new\<rparr>)) h"

definition sanitize_header :: "core_config \<Rightarrow> core \<Rightarrow> header \<Rightarrow> dag_error + unit" where
  "sanitize_header cfg s h =
     ensure (k_gc_round s \<le> h_round h) (TooOld (h_id h) (h_round h))
       (header_verify (cc_crypto cfg) (cc_committee cfg) h)"

definition sanitize_vote :: "core_config \<Rightarrow> core \<Rightarrow> vote \<Rightarrow> dag_error + unit" where
  "sanitize_vote cfg s v =
     (let h = current_header s in
      ensure (h_round h = v_round v) (TooOld (vote_digest (cc_crypto cfg) v) (v_round v)) (
      ensure (v_id v = h_id h \<and> v_origin v = h_author h \<and> v_round v = h_round h)
        (UnexpectedVote (v_id v)) (
      vote_verify (cc_crypto cfg) (cc_committee cfg) v)))"

definition sanitize_certificate :: "core_config \<Rightarrow> core \<Rightarrow> certificate \<Rightarrow> dag_error + unit" where
  "sanitize_certificate cfg s c =
     ensure (k_gc_round s \<le> c_round c) (TooOld (cert_digest (cc_crypto cfg) c) (c_round c))
       (cert_verify (cc_crypto cfg) (cc_committee cfg) c)"

datatype core_event =
    FromPrimaries primary_message
  | FromHeaderWaiter header
  | FromCertificateWaiter certificate
  | FromProposer header

definition core_fuel :: nat where
  "core_fuel = 8"

fun handle_event :: "core_config \<Rightarrow> core \<Rightarrow> core_event \<Rightarrow> core_result" where
  "handle_event cfg s (FromPrimaries (PM_Header h)) =
     (case sanitize_header cfg s h of Inr _ \<Rightarrow> process_header core_fuel cfg s h | Inl e \<Rightarrow> Done (s, Inl e))"
| "handle_event cfg s (FromPrimaries (PM_Vote v)) =
     (case sanitize_vote cfg s v of Inr _ \<Rightarrow> process_vote core_fuel cfg s v | Inl e \<Rightarrow> Done (s, Inl e))"
| "handle_event cfg s (FromPrimaries (PM_Certificate c)) =
     (case sanitize_certificate cfg s c of
        Inr _ \<Rightarrow> process_certificate core_fuel cfg s c | Inl e \<Rightarrow> Done (s, Inl e))"
| "handle_event cfg s (FromPrimaries (PM_CertificatesRequest ds r)) = Panic"
| "handle_event cfg s (FromHeaderWaiter h) = process_header core_fuel cfg s h"
| "handle_event cfg s (FromCertificateWaiter c) = process_certificate core_fuel cfg s c"
| "handle_event cfg s (FromProposer h) = process_own_header core_fuel cfg s h"

text \<open>The clean-up that ends an iteration, for the consensus round loaded there.\<close>

definition core_cleanup :: "core_config \<Rightarrow> round \<Rightarrow> core \<Rightarrow> core" where
  "core_cleanup cfg r s =
     (if cc_gc_depth cfg < r
      then let g = r - cc_gc_depth cfg
           in s\<lparr>last_voted := retain (\<lambda>k _. g \<le> k) (last_voted s),
                processing := retain (\<lambda>k _. g \<le> k) (processing s),
                certificates_aggregators := retain (\<lambda>k _. g \<le> k) (certificates_aggregators s),
                cancel_handlers := retain (\<lambda>k _. g \<le> k) (cancel_handlers s),
                k_gc_round := g\<rparr>
      else s)"

definition core_step :: "core_config \<Rightarrow> core \<Rightarrow> core_event \<Rightarrow> round \<Rightarrow> core outcome" where
  "core_step cfg s ev r =
     (case handle_event cfg s ev of
        Done (s', Inl StoreError) \<Rightarrow> Panic
      | Done (s', _) \<Rightarrow> Done (core_cleanup cfg r s')
      | Panic \<Rightarrow> Panic
      | Exhausted \<Rightarrow> Exhausted)"

text \<open>Between two events other tasks may write to the store (\<open>env\<close>).\<close>

fun core_run :: "core_config \<Rightarrow> core \<Rightarrow> ((bytes \<times> bytes) list \<times> core_event \<times> round) list \<Rightarrow> core outcome" where
  "core_run cfg s [] = Done s"
| "core_run cfg s ((env, ev, r) # es) =
     (case core_step cfg (fold (\<lambda>(k, v). write_store k v) env s) ev r of
        Done s' \<Rightarrow> core_run cfg s' es
      | Panic \<Rightarrow> Panic
      | Exhausted \<Rightarrow> Exhausted)"

end
