(* ===== verification/Core_Props.thy ===== *)
theory Core_Props
  imports Core
begin

text \<open>
  What the core of the primary guarantees: the fuel of its handlers is enough, it votes for at
  most one header of an author and a round, and only for headers that it checked.
\<close>

subsection \<open>Frame lemmas\<close>

definition votes_in :: "core_effect list \<Rightarrow> vote list" where
  "votes_in es = List.map_filter (\<lambda>e. case e of Send _ (PM_Vote v) \<Rightarrow> Some v | _ \<Rightarrow> None) es"

lemma votes_in_simps [simp]:
  "votes_in [] = []" "votes_in (a @ b) = votes_in a @ votes_in b"
  "votes_in (ToProposer ps r # es) = votes_in es" "votes_in (ToConsensus c # es) = votes_in es"
  "votes_in (ToHeaderWaiter m # es) = votes_in es" "votes_in (ToCertificateWaiter c # es) = votes_in es"
  "votes_in (Send x (PM_Vote v) # es) = v # votes_in es"
  by (simp_all add: votes_in_def List.map_filter_def)

lemma votes_in_broadcast [simp]:
  "\<forall>v. m \<noteq> PM_Vote v \<Longrightarrow> votes_in (map (\<lambda>(a, m). Send a m) (to_others cfg m)) = []"
  by (cases m) (simp_all add: votes_in_def to_others_def List.map_filter_def filter_empty_conv split_def)

named_theorems core_frame "what the state-changing steps leave alone"

lemma emit_frame [core_frame]:
  "k_store (emit es s) = k_store s" "k_gc_round (emit es s) = k_gc_round s"
  "last_voted (emit es s) = last_voted s" "processing (emit es s) = processing s"
  "current_header (emit es s) = current_header s" "k_votes (emit es s) = k_votes s"
  "certificates_aggregators (emit es s) = certificates_aggregators s"
  "sent (emit es s) = sent s @ es"
  by (simp_all add: emit_def)

lemma send_all_frame [core_frame]:
  "k_store (send_all r ms s) = k_store s" "k_gc_round (send_all r ms s) = k_gc_round s"
  "last_voted (send_all r ms s) = last_voted s" "processing (send_all r ms s) = processing s"
  "current_header (send_all r ms s) = current_header s" "k_votes (send_all r ms s) = k_votes s"
  "certificates_aggregators (send_all r ms s) = certificates_aggregators s"
  "sent (send_all r ms s) = sent s @ map (\<lambda>(a, m). Send a m) ms"
  by (simp_all add: send_all_def core_frame)

lemma mark_processing_frame [core_frame]:
  "k_store (mark_processing h s) = k_store s" "k_gc_round (mark_processing h s) = k_gc_round s"
  "last_voted (mark_processing h s) = last_voted s" "sent (mark_processing h s) = sent s"
  "current_header (mark_processing h s) = current_header s" "k_votes (mark_processing h s) = k_votes s"
  by (simp_all add: mark_processing_def)

lemma write_store_frame [core_frame]:
  "k_gc_round (write_store k v s) = k_gc_round s" "last_voted (write_store k v s) = last_voted s"
  "processing (write_store k v s) = processing s" "sent (write_store k v s) = sent s"
  "current_header (write_store k v s) = current_header s" "k_votes (write_store k v s) = k_votes s"
  "map_of (k_store (write_store k v s)) = (map_of (k_store s))(k \<mapsto> v)"
  by (simp_all add: write_store_def fun_eq_iff al_simps)

lemma add_voted_frame [core_frame]:
  "k_store (add_voted h s) = k_store s" "k_gc_round (add_voted h s) = k_gc_round s"
  "processing (add_voted h s) = processing s" "sent (add_voted h s) = sent s"
  "current_header (add_voted h s) = current_header s" "k_votes (add_voted h s) = k_votes s"
  by (simp_all add: add_voted_def)

lemma add_voted_voted:
  "set (get_or [] (last_voted (add_voted h s)) r) =
     (if r = h_round h then insert (h_author h) (set (get_or [] (last_voted s) r))
      else set (get_or [] (last_voted s) r))"
  by (simp add: add_voted_def al_simps)

definition same_votes :: "core \<Rightarrow> core \<Rightarrow> bool" where
  "same_votes s s' \<longleftrightarrow> k_gc_round s' = k_gc_round s \<and> last_voted s' = last_voted s
     \<and> current_header s' = current_header s \<and> votes_in (sent s') = votes_in (sent s)
     \<and> k_votes s' = k_votes s"

lemma check_header_cases:
  assumes "check_header cfg s h = x"
  obtains (stop) s' r where "x = Inl (s', r)" "same_votes s s'"
  | (pass) s' where "x = Inr s'" "same_votes s s'" "h_parents h \<noteq> []"
proof -
  let ?m = "mark_processing h s"
  have gp: "h_parents h \<noteq> []"
    if "get_parents (cc_codec cfg) (cc_genesis cfg) (k_store ?m) h = Inr (ps, w)" "ps \<noteq> []" for ps w
    using get_parents_complete [OF that] that(2) by auto
  show ?thesis
    using assms stop pass gp
    by (auto simp: check_header_def Let_def same_votes_def core_frame split: sum.splits option.splits if_splits prod.splits)
qed

subsection \<open>One vote for an author and a round\<close>

definition vote_key :: "vote \<Rightarrow> round \<times> public_key" where
  "vote_key v = (v_round v, v_origin v)"

definition voted_for :: "core \<Rightarrow> round \<times> public_key \<Rightarrow> bool" where
  "voted_for s k \<longleftrightarrow> fst k < k_gc_round s \<or> snd k \<in> set (get_or [] (last_voted s) (fst k))"

definition vote_inv :: "core_config \<Rightarrow> core \<Rightarrow> bool" where
  "vote_inv cfg s \<longleftrightarrow> distinct (map vote_key (votes_in (sent s)))
     \<and> (\<forall>v\<in>set (votes_in (sent s)). voted_for s (vote_key v))
     \<and> (h_author (current_header s) = cc_name cfg \<or> h_parents (current_header s) = [])"

text \<open>A header the handlers may safely be given: our own, one that is never voted for, or one
  that is not garbage collected.\<close>

definition votable :: "core_config \<Rightarrow> core \<Rightarrow> header \<Rightarrow> bool" where
  "votable cfg s h \<longleftrightarrow> h_author h = cc_name cfg \<or> h_parents h = [] \<or> k_gc_round s \<le> h_round h"

definition keeps :: "core_config \<Rightarrow> core \<Rightarrow> core \<Rightarrow> bool" where
  "keeps cfg s s' \<longleftrightarrow> k_gc_round s' = k_gc_round s \<and> current_header s' = current_header s
     \<and> (vote_inv cfg s \<longrightarrow> vote_inv cfg s')"

lemma keeps_refl [simp]: "keeps cfg s s"
  by (simp add: keeps_def)

lemma keeps_trans: "keeps cfg a b \<Longrightarrow> keeps cfg b c \<Longrightarrow> keeps cfg a c"
  by (simp add: keeps_def)

lemma same_votes_keeps: "same_votes s s' \<Longrightarrow> keeps cfg s s'"
  by (simp add: same_votes_def keeps_def vote_inv_def voted_for_def)

lemma add_voted_keeps: "keeps cfg s (add_voted h s)"
  by (auto simp: keeps_def vote_inv_def voted_for_def core_frame add_voted_voted)

lemma frame_keeps:
  "votes_in es = [] \<Longrightarrow> keeps cfg s (emit es s)"
  "keeps cfg s (write_store k v s)"
  "keeps cfg s (s\<lparr>k_votes := a\<rparr>)" "keeps cfg s (s\<lparr>certificates_aggregators := m\<rparr>)"
  "votes_in (map (\<lambda>(a, m). Send a m) ms) = [] \<Longrightarrow> keeps cfg s (send_all r ms s)"
  by (simp_all add: keeps_def vote_inv_def voted_for_def core_frame)

lemma send_vote_keeps:
  assumes "\<not> already_voted s h" "k_gc_round s \<le> h_round h"
  shows "keeps cfg s (send_all (h_round h) [(a, PM_Vote (vote_new C h n))] (add_voted h s))"
proof -
  have k: "vote_key (vote_new C h n) = (h_round h, h_author h)"
    by (simp add: vote_key_def vote_new_def Let_def)
  have "\<not> voted_for s (vote_key (vote_new C h n))"
    using assms by (simp add: k voted_for_def already_voted_def)
  then have "vote_inv cfg s \<Longrightarrow> vote_key (vote_new C h n) \<notin> vote_key ` set (votes_in (sent s))"
    by (auto simp: vote_inv_def)
  then show ?thesis using k
    by (auto simp: keeps_def vote_inv_def voted_for_def core_frame add_voted_voted)
qed

lemma votes_append_header:
  "votes_append com h a v = (a', Inr (Some c)) \<Longrightarrow> c_header c = h"
  by (auto simp: votes_append_def Let_def split: if_splits)

lemma votable_current:
  "vote_inv cfg s \<Longrightarrow> votable cfg s (current_header s)"
  by (auto simp: vote_inv_def votable_def)

lemma votable_keeps: "keeps cfg s s' \<Longrightarrow> votable cfg s' h = votable cfg s h"
  by (simp add: keeps_def votable_def)

lemma process_header_own_cases:
  assumes "process_header (Suc n) cfg s h = Done (s', r)"
  obtains (stop) "check_header cfg s h = Inl (s', r)"
  | (again) s1 where "check_header cfg s h = Inr s1" "already_voted s1 h" "s' = add_voted h s1" "r = Inr ()"
  | (own) s1 where "check_header cfg s h = Inr s1" "h_author h = cc_name cfg" "r = Inr ()"
      "process_vote n cfg (add_voted h s1) (vote_new (cc_crypto cfg) h (cc_name cfg)) = Done (s', Inr ())"
  | (foreign) s1 a where "check_header cfg s h = Inr s1" "h_author h \<noteq> cc_name cfg" "\<not> already_voted s1 h"
      "primary (cc_committee cfg) (h_author h) = Inr a" "r = Inr ()"
      "s' = send_all (h_round h) [(primary_to_primary a, PM_Vote (vote_new (cc_crypto cfg) h (cc_name cfg)))]
         (add_voted h s1)"
proof (cases "check_header cfg s h")
  case (Inl x)
  then show ?thesis using assms stop by (simp add: process_header.simps(2))
next
  case (Inr s1)
  note eq = assms [unfolded process_header.simps(2) Inr sum.case Let_def]
  show ?thesis
  proof (cases "already_voted s1 h")
    case True
    then show ?thesis using eq again [OF Inr True] by simp
  next
    case False
    note eq' = eq [unfolded if_not_P [OF False]]
    have o: "v_origin (vote_new (cc_crypto cfg) h (cc_name cfg)) = h_author h"
      by (simp add: vote_new_def Let_def)
    show ?thesis
    proof (cases "h_author h = cc_name cfg")
      case True
      have "process_vote n cfg (add_voted h s1) (vote_new (cc_crypto cfg) h (cc_name cfg)) = Done (s', Inr ())
          \<and> r = Inr ()"
        using eq' True o by (simp split: outcome.splits prod.splits sum.splits)
      then show ?thesis using own [OF Inr True] by simp
    next
      case ne: False
      obtain a where "primary (cc_committee cfg) (h_author h) = Inr a" "r = Inr ()"
        "s' = send_all (h_round h) [(primary_to_primary a, PM_Vote (vote_new (cc_crypto cfg) h (cc_name cfg)))]
         (add_voted h s1)"
        using eq' ne o by (auto split: sum.splits)
      then show ?thesis using foreign [OF Inr ne False] by simp
    qed
  qed
qed

lemma process_vote_cases:
  assumes "process_vote (Suc n) cfg s v = Done (s', r)"
  obtains (err) a e where "votes_append (cc_committee cfg) (current_header s) (k_votes s) v = (a, Inl e)"
      "s' = s\<lparr>k_votes := a\<rparr>" "r = Inl e"
  | (wait) a where "votes_append (cc_committee cfg) (current_header s) (k_votes s) v = (a, Inr None)"
      "s' = s\<lparr>k_votes := a\<rparr>" "r = Inr ()"
  | (quorum) a c where "votes_append (cc_committee cfg) (current_header s) (k_votes s) v = (a, Inr (Some c))"
      "process_certificate n cfg (send_all (c_round c) (to_others cfg (PM_Certificate c)) (s\<lparr>k_votes := a\<rparr>)) c
        = Done (s', Inr ())" "r = Inr ()"
proof -
  obtain a x where ap: "votes_append (cc_committee cfg) (current_header s) (k_votes s) v = (a, x)"
    by (cases "votes_append (cc_committee cfg) (current_header s) (k_votes s) v")
  note eq = assms [unfolded process_vote.simps(2) ap Let_def prod.case]
  show ?thesis
  proof (cases x)
    case (Inl e)
    with eq ap err show ?thesis by simp
  next
    case (Inr y)
    show ?thesis
    proof (cases y)
      case None
      with eq ap Inr wait show ?thesis by simp
    next
      case (Some c)
      have "process_certificate n cfg (send_all (c_round c) (to_others cfg (PM_Certificate c)) (s\<lparr>k_votes := a\<rparr>)) c
          = Done (s', Inr ()) \<and> r = Inr ()"
        using eq unfolding Inr Some by (simp split: outcome.splits prod.splits sum.splits)
      then show ?thesis using quorum [of a c] ap Inr Some by simp
    qed
  qed
qed

definition inner_header :: "nat \<Rightarrow> core_config \<Rightarrow> core \<Rightarrow> certificate \<Rightarrow> core_result" where
  "inner_header n cfg s c = (if is_processing s (c_header c) then Done (s, Inr ())
     else process_header n cfg s (c_header c))"

lemma core_certificate_cases:
  assumes "process_certificate (Suc n) cfg s c = Done (s', r)"
  obtains (err) e where "inner_header n cfg s c = Done (s', Inl e)" "r = Inl e"
  | (wait) s1 where "inner_header n cfg s c = Done (s1, Inr ())"
      "\<not> deliver_certificate (cc_genesis cfg) (k_store s1) c"
      "s' = emit [ToCertificateWaiter c] s1" "r = Inr ()"
  | (accept) s1 where "inner_header n cfg s c = Done (s1, Inr ())"
      "deliver_certificate (cc_genesis cfg) (k_store s1) c"
      "s' = accept_certificate cfg s1 c" "r = Inr ()"
proof -
  note eq = assms [unfolded process_certificate.simps(2) inner_header_def [symmetric]]
  show ?thesis
  proof (cases "inner_header n cfg s c")
    case (Done x)
    obtain s1 r1 where x: "x = (s1, r1)" by (cases x)
    show ?thesis
    proof (cases r1)
      case (Inl e)
      with eq Done x have "s' = s1" "r = Inl e" by simp_all
      with Done x Inl err show ?thesis by simp
    next
      case (Inr u)
      show ?thesis
      proof (cases "deliver_certificate (cc_genesis cfg) (k_store s1) c")
        case True
        with eq Done x Inr have "s' = accept_certificate cfg s1 c" "r = Inr ()" by simp_all
        with True Done x Inr accept [of s1] show ?thesis by simp
      next
        case False
        with eq Done x Inr have "s' = emit [ToCertificateWaiter c] s1" "r = Inr ()" by simp_all
        with False Done x Inr wait [of s1] show ?thesis by simp
      qed
    qed
  qed (use eq in simp_all)
qed

lemma accept_certificate_frame [core_frame]:
  "k_gc_round (accept_certificate cfg s c) = k_gc_round s"
  "last_voted (accept_certificate cfg s c) = last_voted s"
  "current_header (accept_certificate cfg s c) = current_header s"
  "k_votes (accept_certificate cfg s c) = k_votes s"
  "map_of (k_store (accept_certificate cfg s c)) =
     (map_of (k_store s))(bytes32 (cert_digest (cc_crypto cfg) c) \<mapsto> ser_certificate (cc_codec cfg) c)"
  "votes_in (sent (accept_certificate cfg s c)) = votes_in (sent s)"
  by (simp_all add: accept_certificate_def Let_def split_def core_frame proposer_effect_def split: option.splits)

lemma accept_keeps: "keeps cfg s (accept_certificate cfg s c)"
  by (simp add: keeps_def vote_inv_def voted_for_def core_frame)

lemma handlers_keep:
  "process_header n cfg s h = Done (s', r) \<Longrightarrow> vote_inv cfg s \<Longrightarrow> votable cfg s h \<Longrightarrow> keeps cfg s s'"
  "process_vote n cfg s v = Done (s', r) \<Longrightarrow> vote_inv cfg s \<Longrightarrow> keeps cfg s s'"
  "process_certificate n cfg s c = Done (s', r) \<Longrightarrow> vote_inv cfg s \<Longrightarrow> votable cfg s (c_header c)
     \<Longrightarrow> keeps cfg s s'"
proof (induction n arbitrary: s h v c s' r)
  case 0
  {
    case 1 then show ?case by (simp add: process_header.simps)
  next
    case 2 then show ?case by (simp add: process_vote.simps)
  next
    case 3 then show ?case by (simp add: process_certificate.simps)
  }
next
  case (Suc n)
  {
    case 1
    from 1(1) show ?case
    proof (cases rule: process_header_own_cases)
      case stop
      then show ?thesis by (cases rule: check_header_cases) (auto intro: same_votes_keeps)
    next
      case (again s1)
      from again(1) have "keeps cfg s s1"
        by (cases rule: check_header_cases) (auto intro: same_votes_keeps)
      then show ?thesis using add_voted_keeps again(3) by (blast intro: keeps_trans)
    next
      case (own s1)
      from own(1) have k: "keeps cfg s s1"
        by (cases rule: check_header_cases) (auto intro: same_votes_keeps)
      have k': "keeps cfg s (add_voted h s1)" using keeps_trans [OF k add_voted_keeps] .
      then have "vote_inv cfg (add_voted h s1)" using 1(2) by (simp add: keeps_def)
      from keeps_trans [OF k' Suc.IH(2) [OF own(4) this]] show ?thesis .
    next
      case (foreign s1 a)
      from foreign(1) have k: "keeps cfg s s1" and ps: "h_parents h \<noteq> []"
        by (cases rule: check_header_cases; auto intro: same_votes_keeps)+
      have "k_gc_round s1 \<le> h_round h"
        using 1(3) foreign(2) ps k by (simp add: votable_def keeps_def)
      from keeps_trans [OF k send_vote_keeps [OF foreign(3) this]] show ?thesis
        using foreign(6) by simp
    qed
  next
    case 2
    from 2(1) show ?case
    proof (cases rule: process_vote_cases)
      case (quorum a c)
      let ?s2 = "send_all (c_round c) (to_others cfg (PM_Certificate c)) (s\<lparr>k_votes := a\<rparr>)"
      have k2: "keeps cfg s ?s2" by (rule keeps_trans [OF frame_keeps(3) frame_keeps(5)]) simp
      have inv2: "vote_inv cfg ?s2" using k2 2(2) by (simp add: keeps_def)
      have "c_header c = current_header ?s2"
        using quorum(1) votes_append_header by (auto simp: core_frame)
      then have "votable cfg ?s2 (c_header c)" using votable_current [OF inv2] by simp
      from keeps_trans [OF k2 Suc.IH(3) [OF quorum(2) inv2 this]] show ?thesis .
    qed (simp_all add: frame_keeps)
  next
    case 3
    have inner: "keeps cfg s s1" if "inner_header n cfg s c = Done (s1, r1)" for s1 r1
      using that Suc.IH(1) [OF _ 3(2,3)] by (auto simp: inner_header_def split: if_splits)
    from 3(1) show ?case
    proof (cases rule: core_certificate_cases)
      case (err e)
      then show ?thesis using inner by blast
    next
      case (wait s1)
      have "keeps cfg s1 s'" unfolding wait(3) by (rule frame_keeps(1)) simp
      with inner [OF wait(1)] show ?thesis by (rule keeps_trans)
    next
      case (accept s1)
      from inner [OF accept(1)] accept_keeps show ?thesis unfolding accept(3) by (rule keeps_trans)
    qed
  }
qed

text \<open>The clean-up keeps the invariant when the consensus round did not go back.\<close>

lemma core_cleanup_gc_round:
  assumes "k_gc_round s = r0 - cc_gc_depth cfg" "r0 \<le> r"
  shows "k_gc_round (core_cleanup cfg r s) = r - cc_gc_depth cfg"
  using assms by (simp add: core_cleanup_def Let_def)

lemma core_cleanup_frame [core_frame]:
  "sent (core_cleanup cfg r s) = sent s" "current_header (core_cleanup cfg r s) = current_header s"
  "k_store (core_cleanup cfg r s) = k_store s"
  by (simp_all add: core_cleanup_def Let_def)

lemma core_cleanup_inv:
  assumes "vote_inv cfg s" "k_gc_round s = r0 - cc_gc_depth cfg" "r0 \<le> r"
  shows "vote_inv cfg (core_cleanup cfg r s)"
proof -
  have "voted_for (core_cleanup cfg r s) k" if "voted_for s k" for k
  proof (cases "fst k < r - cc_gc_depth cfg")
    case True
    then show ?thesis using core_cleanup_gc_round [OF assms(2,3)] by (simp add: voted_for_def)
  next
    case False
    then have "get_or [] (last_voted (core_cleanup cfg r s)) (fst k) = get_or [] (last_voted s) (fst k)"
      by (simp add: core_cleanup_def Let_def get_or_def map_of_retain_key)
    moreover have "\<not> fst k < k_gc_round s" using False assms(2,3) by linarith
    ultimately show ?thesis using that by (simp add: voted_for_def)
  qed
  then show ?thesis using assms(1) by (auto simp: vote_inv_def core_frame)
qed

definition event_ok :: "core_config \<Rightarrow> core \<Rightarrow> core_event \<Rightarrow> bool" where
  "event_ok cfg s ev \<longleftrightarrow>
     (case ev of
        FromPrimaries m \<Rightarrow> True
      | FromHeaderWaiter h \<Rightarrow> votable cfg s h
      | FromCertificateWaiter c \<Rightarrow> votable cfg s (c_header c)
      | FromProposer h \<Rightarrow> h_author h = cc_name cfg)"

lemma own_header_keeps:
  assumes "process_own_header n cfg s h = Done (s', r)" "vote_inv cfg s" "h_author h = cc_name cfg"
  shows "vote_inv cfg s' \<and> k_gc_round s' = k_gc_round s"
proof -
  let ?s = "send_all (h_round h) (to_others cfg (PM_Header h))
      (s\<lparr>current_header := h, k_votes := votes_aggregator_new\<rparr>)"
  have "vote_inv cfg ?s" using assms(2,3) by (simp add: vote_inv_def voted_for_def core_frame)
  moreover have "process_header n cfg ?s h = Done (s', r)"
    using assms(1) by (simp add: process_own_header_def)
  moreover have "votable cfg ?s h" using assms(3) by (simp add: votable_def)
  ultimately have "keeps cfg ?s s'" "vote_inv cfg ?s" using handlers_keep(1) by blast+
  then show ?thesis by (simp add: keeps_def core_frame)
qed

lemma handle_event_keeps:
  assumes "handle_event cfg s ev = Done (s', r)" "vote_inv cfg s" "event_ok cfg s ev"
  shows "vote_inv cfg s' \<and> k_gc_round s' = k_gc_round s"
proof (cases ev)
  case (FromPrimaries m)
  have "keeps cfg s s'"
  proof (cases m)
    case (PM_Header h)
    have "s' = s \<or> (process_header core_fuel cfg s h = Done (s', r) \<and> k_gc_round s \<le> h_round h)"
      using assms(1) FromPrimaries PM_Header
      by (auto simp: sanitize_header_def ensure_def split: sum.splits if_splits)
    then show ?thesis using handlers_keep(1) [OF _ assms(2)] by (auto simp: votable_def)
  next
    case (PM_Vote v)
    have "s' = s \<or> process_vote core_fuel cfg s v = Done (s', r)"
      using assms(1) FromPrimaries PM_Vote by (auto split: sum.splits)
    then show ?thesis using handlers_keep(2) [OF _ assms(2)] by auto
  next
    case (PM_Certificate c)
    have "s' = s \<or> (process_certificate core_fuel cfg s c = Done (s', r) \<and> k_gc_round s \<le> h_round (c_header c))"
      using assms(1) FromPrimaries PM_Certificate
      by (auto simp: sanitize_certificate_def ensure_def c_round_def split: sum.splits if_splits)
    then show ?thesis using handlers_keep(3) [OF _ assms(2)] by (auto simp: votable_def)
  next
    case (PM_CertificatesRequest ds x)
    with assms(1) FromPrimaries show ?thesis by simp
  qed
  with assms(2) show ?thesis by (simp add: keeps_def)
next
  case (FromHeaderWaiter h)
  with assms handlers_keep(1) [of core_fuel cfg s h s' r] show ?thesis
    by (simp add: event_ok_def keeps_def)
next
  case (FromCertificateWaiter c)
  with assms handlers_keep(3) [of core_fuel cfg s c s' r] show ?thesis
    by (simp add: event_ok_def keeps_def)
next
  case (FromProposer h)
  with assms own_header_keeps [of core_fuel cfg s h s' r] show ?thesis
    by (simp add: event_ok_def)
qed

lemma core_step_keeps:
  assumes "core_step cfg s ev r = Done s'" "vote_inv cfg s" "event_ok cfg s ev"
    and "k_gc_round s = r0 - cc_gc_depth cfg" "r0 \<le> r"
  shows "vote_inv cfg s' \<and> k_gc_round s' = r - cc_gc_depth cfg"
proof -
  obtain s1 x where h: "handle_event cfg s ev = Done (s1, x)" and s': "s' = core_cleanup cfg r s1"
    using assms(1) by (auto simp: core_step_def split: outcome.splits prod.splits sum.splits dag_error.splits)
  from handle_event_keeps [OF h assms(2,3)] assms(4)
  have "vote_inv cfg s1" "k_gc_round s1 = r0 - cc_gc_depth cfg" by simp_all
  then show ?thesis
    unfolding s' using core_cleanup_inv core_cleanup_gc_round assms(5) by blast
qed

definition env_writes :: "(bytes \<times> bytes) list \<Rightarrow> core \<Rightarrow> core" where
  "env_writes env s = fold (\<lambda>(k, v). write_store k v) env s"

lemma env_writes_frame [core_frame]:
  "k_gc_round (env_writes env s) = k_gc_round s" "last_voted (env_writes env s) = last_voted s"
  "processing (env_writes env s) = processing s" "sent (env_writes env s) = sent s"
  "current_header (env_writes env s) = current_header s" "k_votes (env_writes env s) = k_votes s"
  by (induction env arbitrary: s) (auto simp: env_writes_def core_frame)

text \<open>No header or certificate is looped back after its round was garbage collected, and the
  proposer's headers are our own.\<close>

fun loopback_fresh :: "core_config \<Rightarrow> core \<Rightarrow> ((bytes \<times> bytes) list \<times> core_event \<times> round) list \<Rightarrow> bool" where
  "loopback_fresh cfg s [] = True"
| "loopback_fresh cfg s ((env, ev, r) # es) =
     (event_ok cfg (env_writes env s) ev \<and>
      (case core_step cfg (env_writes env s) ev r of Done s' \<Rightarrow> loopback_fresh cfg s' es | _ \<Rightarrow> True))"

lemma core_run_keeps:
  assumes "core_run cfg s es = Done s'" "loopback_fresh cfg s es" "vote_inv cfg s"
    and "k_gc_round s = r0 - cc_gc_depth cfg" "sorted (r0 # map (\<lambda>(_, _, r). r) es)"
  shows "vote_inv cfg s'"
  using assms
proof (induction es arbitrary: s r0)
  case Nil
  then show ?case by simp
next
  case (Cons e es)
  obtain env ev r where e: "e = (env, ev, r)" by (cases e)
  let ?s = "env_writes env s"
  obtain s1 where st: "core_step cfg ?s ev r = Done s1" and rest: "core_run cfg s1 es = Done s'"
    using Cons.prems(1) e by (auto simp: env_writes_def split: outcome.splits)
  have "vote_inv cfg ?s" "k_gc_round ?s = r0 - cc_gc_depth cfg" "event_ok cfg ?s ev" "r0 \<le> r"
    using Cons.prems(2-5) e by (simp_all add: vote_inv_def voted_for_def core_frame)
  from core_step_keeps [OF st this(1,3,2,4)]
  have "vote_inv cfg s1" "k_gc_round s1 = r - cc_gc_depth cfg" by simp_all
  with rest Cons.prems(2,5) e st show ?case by (intro Cons.IH [of s1 r]) simp_all
qed

text \<open>
  C8: Over any sequence of events the core sends at most one vote for the headers of one
  author and round, if the consensus round never goes back and nothing is looped back after its
  round was garbage collected.
\<close>

theorem core_votes_once:
  assumes "core_run cfg (core_init st) es = Done s'" "loopback_fresh cfg (core_init st) es"
    and "sorted (map (\<lambda>(_, _, r). r) es)"
  shows "distinct (map (\<lambda>v. (v_round v, v_origin v)) (votes_in (sent s')))"
proof -
  have "vote_inv cfg (core_init st)"
    by (simp add: vote_inv_def core_init_def header_default_def)
  moreover have "k_gc_round (core_init st) = 0 - cc_gc_depth cfg" by (simp add: core_init_def)
  ultimately have "vote_inv cfg s'"
    using core_run_keeps [OF assms(1,2), of 0] assms(3) by simp
  moreover have "vote_key = (\<lambda>v. (v_round v, v_origin v))" by (rule ext) (simp add: vote_key_def)
  ultimately show ?thesis by (simp add: vote_inv_def)
qed

subsection \<open>Votes are for checked headers\<close>

lemma parents_stake_Some:
  "parents_stake com r ps w = Some w' \<Longrightarrow> w < 2 ^ 32 \<Longrightarrow>
     (\<forall>p\<in>set ps. wadd 64 (c_round p) 1 = r) \<and> w' = wadd 32 w (wsum 32 (map (\<lambda>p. stake com (c_origin p)) ps))"
proof (induction ps arbitrary: w)
  case Nil
  then show ?case by (simp add: wadd_def)
next
  case (Cons p ps)
  from Cons.IH [of "wadd 32 w (stake com (c_origin p))"] Cons.prems show ?case
    by (auto simp: wadd_def mod_simps add.assoc split: if_splits)
qed

text \<open>
  C9: A vote that the core sends is for a header it has stored, whose parents it all has: they
  are of the previous round and hold a quorum of stake; it has the whole payload, and outside
  the baseline mode the header's account counts are the sums of the counts of its batches. It
  had not voted for the author in that round, and it sends this one vote.
\<close>

theorem vote_only_checked_headers:
  assumes "process_header n cfg s h = Done (s', r)" "h_author h \<noteq> cc_name cfg"
    and "votes_in (sent s') \<noteq> votes_in (sent s)"
  shows "\<exists>ps. list_all2 (known_parent (cc_codec cfg) (cc_genesis cfg) (k_store s)) (h_parents h) ps
    \<and> (\<forall>p\<in>set ps. wadd 64 (c_round p) 1 = h_round h)
    \<and> quorum_threshold (cc_committee cfg) \<le> wsum 32 (map (\<lambda>p. stake (cc_committee cfg) (c_origin p)) ps)
    \<and> (\<forall>(d, w)\<in>set (h_payload h). map_of (k_store s) (batch_key d w) \<noteq> None)
    \<and> (cc_baseline_mode cfg \<or> map_of (expected_counts (cc_codec cfg) (k_store s) (h_payload h))
         = map_of (h_account_counts h))
    \<and> map_of (k_store s') (bytes32 (h_id h)) = Some (ser_header (cc_codec cfg) h)
    \<and> h_author h \<notin> set (get_or [] (last_voted s) (h_round h))
    \<and> votes_in (sent s') = votes_in (sent s) @ [vote_new (cc_crypto cfg) h (cc_name cfg)]"
proof -
  obtain m where n: "n = Suc m" using assms(1) by (cases n) (simp_all add: process_header.simps(1))
  from assms(1) [unfolded n] show ?thesis
  proof (cases rule: process_header_own_cases)
    case stop
    then have "votes_in (sent s') = votes_in (sent s)"
      by (cases rule: check_header_cases) (auto simp: same_votes_def)
    with assms(3) show ?thesis by simp
  next
    case (again s1)
    then have "votes_in (sent s') = votes_in (sent s)"
      by (cases rule: check_header_cases) (auto simp: same_votes_def core_frame)
    with assms(3) show ?thesis by simp
  next
    case (own s1)
    with assms(2) show ?thesis by simp
  next
    case (foreign s1 a)
    let ?m = "mark_processing h s" and ?com = "cc_committee cfg"
    from foreign(1) obtain ps w where gp: "get_parents (cc_codec cfg) (cc_genesis cfg) (k_store ?m) h = Inr (ps, w)"
      and ne: "ps \<noteq> []" and st: "\<exists>x. parents_stake ?com (h_round h) ps 0 = Some x \<and> quorum_threshold ?com \<le> x"
      and mp: "missing_payload (cc_name cfg) (k_store ?m) h = None" and cc: "counts_checked cfg (k_store ?m) h"
      and s1: "s1 = write_store (bytes32 (h_id h)) (ser_header (cc_codec cfg) h) ?m"
      by (auto simp: check_header_def Let_def split: sum.splits prod.splits if_splits option.splits)
    from get_parents_complete [OF gp ne]
    have known: "list_all2 (known_parent (cc_codec cfg) (cc_genesis cfg) (k_store s)) (h_parents h) ps"
      by (simp add: core_frame)
    have rounds: "\<forall>p\<in>set ps. wadd 64 (c_round p) 1 = h_round h"
      and quorum: "quorum_threshold ?com \<le> wsum 32 (map (\<lambda>p. stake ?com (c_origin p)) ps)"
      using st parents_stake_Some [of ?com "h_round h" ps 0] by (auto simp: wadd_def wsum_mod)
    have payload: "\<forall>(d, w)\<in>set (h_payload h). map_of (k_store s) (batch_key d w) \<noteq> None"
      using missing_payload_None [OF mp] foreign(2) by (simp add: core_frame)
    have counts: "cc_baseline_mode cfg \<or> map_of (expected_counts (cc_codec cfg) (k_store s) (h_payload h))
         = map_of (h_account_counts h)"
      using cc foreign(2) by (auto simp: counts_checked_def hmap_eq_iff core_frame)
    have new: "h_author h \<notin> set (get_or [] (last_voted s) (h_round h))"
      using foreign(3) s1 by (simp add: already_voted_def core_frame)
    have stored: "map_of (k_store s') (bytes32 (h_id h)) = Some (ser_header (cc_codec cfg) h)"
      and sent: "votes_in (sent s') = votes_in (sent s) @ [vote_new (cc_crypto cfg) h (cc_name cfg)]"
      by (simp_all add: foreign(6) s1 core_frame)
    show ?thesis
      by (intro exI [of _ ps] conjI known rounds quorum payload counts stored new sent)
  qed
qed

subsection \<open>The fuel is enough\<close>

definition own_vote_used :: "core_config \<Rightarrow> core \<Rightarrow> bool" where
  "own_vote_used cfg s \<longleftrightarrow> cc_name cfg \<in> set (va_used (k_votes s))"

lemma own_vote_used_frame [core_frame]:
  "own_vote_used cfg (send_all r ms s) = own_vote_used cfg s"
  "own_vote_used cfg (add_voted h s) = own_vote_used cfg s"
  by (simp_all add: own_vote_used_def core_frame)

lemma check_header_used:
  "check_header cfg s h = Inr s1 \<Longrightarrow> own_vote_used cfg s1 = own_vote_used cfg s"
  by (erule check_header_cases) (auto simp: same_votes_def own_vote_used_def)

lemma vote_again_ends:
  assumes "own_vote_used cfg s" "v_author v = cc_name cfg"
  shows "process_vote (Suc n) cfg s v \<noteq> Exhausted"
  using assms by (simp add: process_vote.simps(2) votes_append_def Let_def own_vote_used_def)

lemma vote_new_author [simp]: "v_author (vote_new C h n) = n"
  by (simp add: vote_new_def Let_def)

lemma header_ends:
  assumes "\<And>s1. own_vote_used cfg s1 = own_vote_used cfg s \<Longrightarrow>
    process_vote n cfg s1 (vote_new (cc_crypto cfg) h (cc_name cfg)) \<noteq> Exhausted"
  shows "process_header (Suc n) cfg s h \<noteq> Exhausted"
proof (cases "check_header cfg s h")
  case (Inr s1)
  have "process_vote n cfg (add_voted h s1) (vote_new (cc_crypto cfg) h (cc_name cfg)) \<noteq> Exhausted"
    using check_header_used [OF Inr] by (intro assms) (simp add: core_frame)
  then show ?thesis
    using Inr by (auto simp: process_header.simps(2) Let_def split: outcome.splits prod.splits sum.splits)
qed (simp add: process_header.simps(2))

lemma certificate_ends:
  assumes "process_header n cfg s (c_header c) \<noteq> Exhausted"
  shows "process_certificate (Suc n) cfg s c \<noteq> Exhausted"
  using assms by (auto simp: process_certificate.simps(2) split: outcome.splits prod.splits sum.splits)

lemma vote_ends:
  assumes "\<And>s1 c. v_author v = cc_name cfg \<longrightarrow> own_vote_used cfg s1 \<Longrightarrow> process_certificate n cfg s1 c \<noteq> Exhausted"
  shows "process_vote (Suc n) cfg s v \<noteq> Exhausted"
proof -
  obtain a x where ap: "votes_append (cc_committee cfg) (current_header s) (k_votes s) v = (a, x)"
    by (cases "votes_append (cc_committee cfg) (current_header s) (k_votes s) v")
  have "x = Inr (Some c) \<Longrightarrow> v_author v \<in> set (va_used a)" for c
    using ap by (auto simp: votes_append_def Let_def split: if_splits)
  then have "process_certificate n cfg (send_all (c_round c) (to_others cfg (PM_Certificate c)) (s\<lparr>k_votes := a\<rparr>)) c
      \<noteq> Exhausted" if "x = Inr (Some c)" for c
    using that by (intro assms) (auto simp: core_frame own_vote_used_def)
  then show ?thesis
    using ap by (auto simp: process_vote.simps(2) Let_def split: outcome.splits prod.splits sum.splits option.splits)
qed

lemma fuel_used:
  "own_vote_used cfg s \<Longrightarrow> process_header (Suc (Suc n)) cfg s h \<noteq> Exhausted"
  "own_vote_used cfg s \<Longrightarrow> process_certificate (Suc (Suc (Suc n))) cfg s c \<noteq> Exhausted"
proof -
  show h: "process_header (Suc (Suc n)) cfg s h \<noteq> Exhausted" if "own_vote_used cfg s" for h
    using that by (intro header_ends vote_again_ends) simp_all
  show "process_certificate (Suc (Suc (Suc n))) cfg s c \<noteq> Exhausted" if "own_vote_used cfg s"
    using h [OF that] by (rule certificate_ends)
qed

lemma fuel_own_vote:
  "v_author v = cc_name cfg \<Longrightarrow> process_vote (Suc (Suc (Suc (Suc n)))) cfg s v \<noteq> Exhausted"
  by (intro vote_ends fuel_used) simp

lemma fuel_header: "process_header (Suc (Suc (Suc (Suc (Suc n))))) cfg s h \<noteq> Exhausted"
  by (intro header_ends fuel_own_vote) simp

lemma fuel_certificate: "process_certificate (Suc (Suc (Suc (Suc (Suc (Suc n)))))) cfg s c \<noteq> Exhausted"
  by (rule certificate_ends, rule fuel_header)

lemma fuel_vote: "process_vote (Suc (Suc (Suc (Suc (Suc (Suc (Suc n))))))) cfg s v \<noteq> Exhausted"
  by (rule vote_ends, rule fuel_certificate)

lemma fuel_mono:
  "process_header n cfg s h \<noteq> Exhausted \<Longrightarrow> process_header (Suc n) cfg s h = process_header n cfg s h"
  "process_vote n cfg s v \<noteq> Exhausted \<Longrightarrow> process_vote (Suc n) cfg s v = process_vote n cfg s v"
  "process_certificate n cfg s c \<noteq> Exhausted \<Longrightarrow>
     process_certificate (Suc n) cfg s c = process_certificate n cfg s c"
proof (induction n arbitrary: s h v c)
  case 0
  {
    case 1 then show ?case by (simp add: process_header.simps)
  next
    case 2 then show ?case by (simp add: process_vote.simps)
  next
    case 3 then show ?case by (simp add: process_certificate.simps)
  }
next
  case (Suc n)
  {
    case 1
    show ?case
    proof (cases "check_header cfg s h")
      case (Inr s1)
      let ?v = "vote_new (cc_crypto cfg) h (cc_name cfg)"
      have "process_vote n cfg (add_voted h s1) ?v \<noteq> Exhausted
          \<or> already_voted s1 h \<or> v_origin ?v \<noteq> cc_name cfg"
        using 1 Inr by (auto simp: process_header.simps(2) Let_def)
      with Suc.IH(2) have "process_vote (Suc n) cfg (add_voted h s1) ?v = process_vote n cfg (add_voted h s1) ?v
          \<or> already_voted s1 h \<or> v_origin ?v \<noteq> cc_name cfg" by blast
      then show ?thesis
        unfolding process_header.simps(2) [of "Suc n"] process_header.simps(2) [of n] Inr sum.case Let_def
        by (elim disjE) simp_all
    qed (simp add: process_header.simps(2))
  next
    case 2
    obtain a x where ap: "votes_append (cc_committee cfg) (current_header s) (k_votes s) v = (a, x)"
      by (cases "votes_append (cc_committee cfg) (current_header s) (k_votes s) v")
    have "process_certificate n cfg (send_all (c_round c) (to_others cfg (PM_Certificate c)) (s\<lparr>k_votes := a\<rparr>)) c
        \<noteq> Exhausted" if "x = Inr (Some c)" for c
      using 2 ap that by (auto simp: process_vote.simps(2))
    with Suc.IH(3) show ?case
      using ap unfolding process_vote.simps(2) [of "Suc n"] process_vote.simps(2) [of n]
      by (simp add: Let_def split: sum.splits option.splits)
  next
    case 3
    have "is_processing s (c_header c) \<or> process_header n cfg s (c_header c) \<noteq> Exhausted"
      using 3 by (auto simp: process_certificate.simps(2))
    with Suc.IH(1) have "is_processing s (c_header c) \<or>
        process_header (Suc n) cfg s (c_header c) = process_header n cfg s (c_header c)" by blast
    then show ?case
      unfolding process_certificate.simps(2) [of "Suc n"] process_certificate.simps(2) [of n]
      by (elim disjE) simp_all
  }
qed

lemma fuel_enough:
  "process_header (core_fuel + k) cfg s h = process_header core_fuel cfg s h"
  "process_vote (core_fuel + k) cfg s v = process_vote core_fuel cfg s v"
  "process_certificate (core_fuel + k) cfg s c = process_certificate core_fuel cfg s c"
  "process_header core_fuel cfg s h \<noteq> Exhausted" "process_vote core_fuel cfg s v \<noteq> Exhausted"
  "process_certificate core_fuel cfg s c \<noteq> Exhausted"
proof -
  have f: "core_fuel + k = Suc (Suc (Suc (Suc (Suc (Suc (Suc (Suc k)))))))" for k
    by (simp add: core_fuel_def)
  have all: "process_header (core_fuel + k) cfg s h \<noteq> Exhausted"
    "process_vote (core_fuel + k) cfg s v \<noteq> Exhausted"
    "process_certificate (core_fuel + k) cfg s c \<noteq> Exhausted" for k
    unfolding f by (rule fuel_header fuel_vote fuel_certificate)+
  show "process_header core_fuel cfg s h \<noteq> Exhausted" "process_vote core_fuel cfg s v \<noteq> Exhausted"
    "process_certificate core_fuel cfg s c \<noteq> Exhausted"
    using all [of 0] by simp_all
  show "process_header (core_fuel + k) cfg s h = process_header core_fuel cfg s h"
    "process_vote (core_fuel + k) cfg s v = process_vote core_fuel cfg s v"
    "process_certificate (core_fuel + k) cfg s c = process_certificate core_fuel cfg s c"
    by (induction k; simp add: fuel_mono(1) [OF all(1)] fuel_mono(2) [OF all(2)] fuel_mono(3) [OF all(3)])+
qed

text \<open>
  C11: The mutual recursion of the handlers ends: whatever the event and the state, the fuel
  that the model gives them is not used up, and more fuel gives the same result.
\<close>

theorem core_handlers_terminate:
  "handle_event cfg s ev \<noteq> Exhausted
   \<and> process_header (core_fuel + k) cfg s h = process_header core_fuel cfg s h
   \<and> process_vote (core_fuel + k) cfg s v = process_vote core_fuel cfg s v
   \<and> process_certificate (core_fuel + k) cfg s c = process_certificate core_fuel cfg s c"
proof -
  have "handle_event cfg s ev \<noteq> Exhausted"
    by (cases "(cfg, s, ev)" rule: handle_event.cases)
      (auto simp: fuel_enough process_own_header_def split: sum.splits)
  with fuel_enough show ?thesis by blast
qed

end
