(* ===== verification/Core_Causal.thy ===== *)
theory Core_Causal
  imports Core_Props
begin

text \<open>
  What the core hands to consensus: a certificate only after its parents.
\<close>

definition certs_in :: "core_effect list \<Rightarrow> certificate list" where
  "certs_in es = List.map_filter (\<lambda>e. case e of ToConsensus c \<Rightarrow> Some c | _ \<Rightarrow> None) es"

lemma certs_in_simps [simp]:
  "certs_in [] = []" "certs_in (a @ b) = certs_in a @ certs_in b"
  "certs_in (ToProposer ps r # es) = certs_in es" "certs_in (ToConsensus c # es) = c # certs_in es"
  "certs_in (ToHeaderWaiter m # es) = certs_in es" "certs_in (ToCertificateWaiter c # es) = certs_in es"
  "certs_in (Send x pm # es) = certs_in es"
  by (simp_all add: certs_in_def List.map_filter_def)

lemma certs_in_sends [simp]: "certs_in (map (\<lambda>(a, m). Send a m) ms) = []"
  by (simp add: certs_in_def List.map_filter_def filter_empty_conv split_def)

text \<open>After \<open>cs0\<close> come certificates of which every parent is in \<open>G\<close> or the digest of an earlier certificate.\<close>

definition causal :: "certificate list \<Rightarrow> digest set \<Rightarrow> crypto \<Rightarrow> certificate list \<Rightarrow> bool" where
  "causal cs0 G C cs \<longleftrightarrow> (\<exists>new. cs = cs0 @ new \<and> (\<forall>i<length new. \<forall>p\<in>set (h_parents (c_header (new ! i))).
     p \<in> G \<or> p \<in> cert_digest C ` set (cs0 @ take i new)))"

lemma causal_refl [simp]: "causal cs0 G C cs0"
  by (simp add: causal_def)

lemma causal_snoc:
  assumes "causal cs0 G C cs" "\<forall>p\<in>set (h_parents (c_header c)). p \<in> G \<or> p \<in> cert_digest C ` set cs"
  shows "causal cs0 G C (cs @ [c])"
proof -
  obtain new where new: "cs = cs0 @ new" "\<forall>i<length new. \<forall>p\<in>set (h_parents (c_header (new ! i))).
     p \<in> G \<or> p \<in> cert_digest C ` set (cs0 @ take i new)"
    using assms(1) unfolding causal_def by blast
  have "p \<in> G \<or> p \<in> cert_digest C ` set (cs0 @ take i (new @ [c]))"
    if "i < length (new @ [c])" "p \<in> set (h_parents (c_header ((new @ [c]) ! i)))" for i p
  proof (cases "i < length new")
    case True
    then show ?thesis using new(2) that(2) by (simp add: nth_append)
  next
    case False
    then have "i = length new" using that(1) by simp
    then show ?thesis using assms(2) that(2) new(1) by simp
  qed
  then show ?thesis unfolding causal_def new(1) by (intro exI [of _ "new @ [c]"]) simp
qed

definition causal_inv :: "core_config \<Rightarrow> certificate list \<Rightarrow> header set \<Rightarrow> core \<Rightarrow> bool" where
  "causal_inv cfg cs0 H s \<longleftrightarrow>
     (\<forall>p. map_of (k_store s) (bytes32 p) \<noteq> None \<longrightarrow>
        p \<in> cert_digest (cc_crypto cfg) ` set (certs_in (sent s)) \<or> p \<in> h_id ` H)
     \<and> causal cs0 (fst ` set (cc_genesis cfg) \<union> h_id ` H) (cc_crypto cfg) (certs_in (sent s))
     \<and> (current_header s \<in> H \<or> h_parents (current_header s) = [])"

text \<open>Steps that change neither the store nor what consensus got.\<close>

definition same_delivered :: "core \<Rightarrow> core \<Rightarrow> bool" where
  "same_delivered s s' \<longleftrightarrow> k_store s' = k_store s \<and> certs_in (sent s') = certs_in (sent s)
     \<and> current_header s' = current_header s"

lemma same_delivered_inv: "same_delivered s s' \<Longrightarrow> causal_inv cfg cs0 H s \<Longrightarrow> causal_inv cfg cs0 H s'"
  by (simp add: same_delivered_def causal_inv_def)

lemma same_delivered_frame:
  "same_delivered s (s\<lparr>k_votes := a\<rparr>)" "same_delivered s (add_voted h s)"
  "certs_in es = [] \<Longrightarrow> same_delivered s (emit es s)" "same_delivered s (send_all r ms s)"
  "same_delivered s (core_cleanup cfg r s)"
  by (simp_all add: same_delivered_def core_frame)

lemma check_header_causal:
  assumes "causal_inv cfg cs0 H s" "h \<in> H \<or> h_parents h = []"
  shows "check_header cfg s h = Inl (s', r) \<Longrightarrow> causal_inv cfg cs0 H s'"
    and "check_header cfg s h = Inr s' \<Longrightarrow> causal_inv cfg cs0 H s'"
proof -
  show "causal_inv cfg cs0 H s'" if "check_header cfg s h = Inl (s', r)"
  proof (rule same_delivered_inv [OF _ assms(1)])
    show "same_delivered s s'"
      using that by (auto simp: check_header_def Let_def same_delivered_def core_frame
          split: sum.splits option.splits if_splits prod.splits)
  qed
  show "causal_inv cfg cs0 H s'" if c: "check_header cfg s h = Inr s'"
  proof -
    have "h \<in> H" using c assms(2) by (cases rule: check_header_cases) auto
    moreover have "map_of (k_store s') = (map_of (k_store s))(bytes32 (h_id h) \<mapsto> ser_header (cc_codec cfg) h)"
      "sent s' = sent s" "current_header s' = current_header s"
      using c by (auto simp: check_header_def Let_def core_frame
          split: sum.splits option.splits if_splits prod.splits)
    ultimately show ?thesis using assms(1) by (auto simp: causal_inv_def split: if_splits)
  qed
qed

lemma accept_certificate_causal:
  assumes "causal_inv cfg cs0 H s" "deliver_certificate (cc_genesis cfg) (k_store s) c"
  shows "causal_inv cfg cs0 H (accept_certificate cfg s c)"
proof -
  let ?s = "accept_certificate cfg s c" and ?C = "cc_crypto cfg"
  have certs: "certs_in (sent ?s) = certs_in (sent s) @ [c]"
    by (simp add: accept_certificate_def Let_def split_def core_frame proposer_effect_def split: option.splits)
  have "\<forall>p\<in>set (h_parents (c_header c)). p \<in> fst ` set (cc_genesis cfg) \<union> h_id ` H
      \<or> p \<in> cert_digest ?C ` set (certs_in (sent s))"
  proof
    fix p assume "p \<in> set (h_parents (c_header c))"
    with assms(2) have "p \<in> fst ` set (cc_genesis cfg) \<or> map_of (k_store s) (bytes32 p) \<noteq> None"
      by (force simp: deliver_certificate_def list_all_iff list_ex_iff)
    with assms(1) show "p \<in> fst ` set (cc_genesis cfg) \<union> h_id ` H
      \<or> p \<in> cert_digest ?C ` set (certs_in (sent s))"
      unfolding causal_inv_def by blast
  qed
  then have "causal cs0 (fst ` set (cc_genesis cfg) \<union> h_id ` H) ?C (certs_in (sent ?s))"
    unfolding certs using assms(1) by (intro causal_snoc) (simp_all add: causal_inv_def)
  then show ?thesis
    using assms(1) by (auto simp: causal_inv_def certs core_frame split: if_splits)
qed

lemma handlers_causal:
  "process_header n cfg s h = Done (s', r) \<Longrightarrow> causal_inv cfg cs0 H s \<Longrightarrow> h \<in> H \<or> h_parents h = []
     \<Longrightarrow> causal_inv cfg cs0 H s'"
  "process_vote n cfg s v = Done (s', r) \<Longrightarrow> causal_inv cfg cs0 H s \<Longrightarrow> causal_inv cfg cs0 H s'"
  "process_certificate n cfg s c = Done (s', r) \<Longrightarrow> causal_inv cfg cs0 H s
     \<Longrightarrow> c_header c \<in> H \<or> h_parents (c_header c) = [] \<Longrightarrow> causal_inv cfg cs0 H s'"
proof (induction n arbitrary: s h v c s' r)
  case 0
  {
    case 1 then show ?case by (simp add: process_header.simps)
  next
    case 2 then show ?case by (simp add: process_vote.simps)
  next
    case 3 then show ?case by (simp add: process_certificate.simps)
  }
next
  case (Suc n)
  {
    case 1
    have voted: "causal_inv cfg cs0 H (add_voted h s1)" if "check_header cfg s h = Inr s1" for s1
      using check_header_causal(2) [OF 1(2,3) that] same_delivered_frame(2) by (blast intro: same_delivered_inv)
    from 1(1) show ?case
    proof (cases rule: process_header_own_cases)
      case stop
      then show ?thesis using check_header_causal(1) [OF 1(2,3)] by blast
    next
      case (again s1)
      then show ?thesis using voted by simp
    next
      case (own s1)
      from Suc.IH(2) [OF own(4) voted [OF own(1)]] show ?thesis .
    next
      case (foreign s1 a)
      show ?thesis unfolding foreign(6)
        using same_delivered_frame(4) voted [OF foreign(1)] by (rule same_delivered_inv)
    qed
  next
    case 2
    from 2(1) show ?case
    proof (cases rule: process_vote_cases)
      case (quorum a c)
      let ?s1 = "s\<lparr>k_votes := a\<rparr>"
      let ?s2 = "send_all (c_round c) (to_others cfg (PM_Certificate c)) ?s1"
      have "causal_inv cfg cs0 H ?s1" using same_delivered_frame(1) 2(2) by (rule same_delivered_inv)
      with same_delivered_frame(4) have inv: "causal_inv cfg cs0 H ?s2" by (rule same_delivered_inv)
      have "c_header c = current_header ?s2"
        using quorum(1) votes_append_header by (auto simp: core_frame)
      then have "c_header c \<in> H \<or> h_parents (c_header c) = []" using inv by (simp add: causal_inv_def)
      from Suc.IH(3) [OF quorum(2) inv this] show ?thesis .
    qed (use same_delivered_inv [OF same_delivered_frame(1) 2(2)] in simp_all)
  next
    case 3
    have inner: "causal_inv cfg cs0 H s1" if "inner_header n cfg s c = Done (s1, r1)" for s1 r1
      using that Suc.IH(1) [OF _ 3(2,3)] 3(2) by (auto simp: inner_header_def split: if_splits)
    from 3(1) show ?case
    proof (cases rule: core_certificate_cases)
      case (err e)
      then show ?thesis using inner by blast
    next
      case (wait s1)
      show ?thesis unfolding wait(3)
        using same_delivered_frame(3) inner [OF wait(1)] by (rule same_delivered_inv) simp
    next
      case (accept s1)
      then show ?thesis using accept_certificate_causal [OF inner [OF accept(1)]] by simp
    qed
  }
qed

text \<open>The headers that an event brings, alone or in a certificate; those of the network pass the verification.\<close>

fun accepted_headers :: "core_config \<Rightarrow> core_event \<Rightarrow> header set" where
  "accepted_headers cfg (FromPrimaries (PM_Header h)) =
     (if header_verify (cc_crypto cfg) (cc_committee cfg) h = Inr () then {h} else {})"
| "accepted_headers cfg (FromPrimaries (PM_Certificate c)) =
     (if cert_verify (cc_crypto cfg) (cc_committee cfg) c = Inr () then {c_header c} else {})"
| "accepted_headers cfg (FromPrimaries m) = {}"
| "accepted_headers cfg (FromHeaderWaiter h) = {h}"
| "accepted_headers cfg (FromCertificateWaiter c) = {c_header c}"
| "accepted_headers cfg (FromProposer h) = {h}"

lemma sanitized:
  "sanitize_header cfg s h = Inr u \<Longrightarrow> header_verify (cc_crypto cfg) (cc_committee cfg) h = Inr ()"
  "sanitize_certificate cfg s c = Inr u \<Longrightarrow> cert_verify (cc_crypto cfg) (cc_committee cfg) c = Inr ()"
  by (auto simp: sanitize_header_def sanitize_certificate_def ensure_def split: if_splits)

lemma handle_event_causal:
  assumes "handle_event cfg s ev = Done (s', r)" "causal_inv cfg cs0 H s" "accepted_headers cfg ev \<subseteq> H"
  shows "causal_inv cfg cs0 H s'"
proof (cases ev)
  case (FromPrimaries m)
  then show ?thesis
    using assms handlers_causal [of core_fuel cfg s _ s' r cs0 H] by (cases m) (auto split: sum.splits dest!: sanitized)
next
  case (FromProposer h)
  let ?s = "send_all (h_round h) (to_others cfg (PM_Header h))
      (s\<lparr>current_header := h, k_votes := votes_aggregator_new\<rparr>)"
  have "causal_inv cfg cs0 H ?s"
    using assms(2,3) FromProposer by (simp add: causal_inv_def core_frame)
  then show ?thesis
    using assms(1,3) FromProposer handlers_causal(1) [of core_fuel cfg ?s h s' r cs0 H]
    by (simp add: process_own_header_def)
qed (use assms handlers_causal [of core_fuel cfg s _ s' r cs0 H] in auto)

lemma core_run_causal:
  assumes "core_run cfg s es = Done s'" "causal_inv cfg cs0 H s"
    and "\<forall>(env, ev, r)\<in>set es. accepted_headers cfg ev \<subseteq> H \<and> (\<forall>(k, v)\<in>set env. length k \<noteq> 32)"
  shows "causal_inv cfg cs0 H s'"
  using assms
proof (induction es arbitrary: s)
  case Nil
  then show ?case by simp
next
  case (Cons e es)
  obtain env ev r where e: "e = (env, ev, r)" by (cases e)
  have keep: "causal_inv cfg cs0 H (env_writes env s)"
    if "\<forall>(k, v)\<in>set env. length k \<noteq> 32" "causal_inv cfg cs0 H s" for env s
    using that
  proof (induction env arbitrary: s)
    case Nil
    then show ?case by (simp add: env_writes_def)
  next
    case (Cons kv env)
    obtain k v where kv: "kv = (k, v)" by (cases kv)
    have "causal_inv cfg cs0 H (write_store k v s)"
      using Cons.prems kv by (auto simp: causal_inv_def core_frame split: if_splits)
    then show ?case using Cons kv by (simp add: env_writes_def)
  qed
  let ?s = "env_writes env s"
  obtain s1 where st: "core_step cfg ?s ev r = Done s1" and rest: "core_run cfg s1 es = Done s'"
    using Cons.prems(1) e by (auto simp: env_writes_def split: outcome.splits)
  obtain s0 x where h: "handle_event cfg ?s ev = Done (s0, x)" and s1: "s1 = core_cleanup cfg r s0"
    using st by (auto simp: core_step_def split: outcome.splits prod.splits sum.splits dag_error.splits)
  have "causal_inv cfg cs0 H ?s" using keep Cons.prems(2,3) e by auto
  then have "causal_inv cfg cs0 H s0" using handle_event_causal [OF h] Cons.prems(3) e by auto
  with same_delivered_frame(5) have "causal_inv cfg cs0 H s1" unfolding s1 by (rule same_delivered_inv)
  with rest Cons.prems(3) show ?case by (intro Cons.IH) auto
qed

text \<open>
  C10: Starting from a store that holds no certificates or headers, and whatever batches other
  tasks record in it, the core sends a certificate to consensus only after its parents: at every step of every run, each
  parent of a certificate that the step sends is a genesis certificate, a certificate sent to consensus before, or
  the id of a header that has reached the core by then and was verified if it came from the network. The last case is
  there because the store has headers and certificates under keys of the same form, and the core looks only for
  the key; such a digest is the hash of a header, not of a certificate.
\<close>

theorem consensus_gets_parents_first:
  assumes "core_run cfg (core_init st) es = Done s" "core_step cfg (env_writes env s) ev r = Done s'"
    and "\<forall>k. length k = 32 \<longrightarrow> map_of st k = None"
    and "\<forall>(env, ev, r)\<in>set (es @ [(env, ev, r)]). \<forall>(k, v)\<in>set env. length k \<noteq> 32"
  shows "causal (certs_in (sent s))
    (fst ` set (cc_genesis cfg) \<union> h_id ` (\<Union>(env, ev, r)\<in>set (es @ [(env, ev, r)]). accepted_headers cfg ev))
    (cc_crypto cfg) (certs_in (sent s'))"
proof -
  define H where "H = (\<Union>(env, ev, r)\<in>set (es @ [(env, ev, r)]). accepted_headers cfg ev)"
  have init: "causal_inv cfg [] H (core_init st)"
    using assms(3) by (simp add: causal_inv_def core_init_def header_default_def)
  have "\<forall>x\<in>set (es @ [(env, ev, r)]). case x of (env, ev, r) \<Rightarrow> accepted_headers cfg ev \<subseteq> H"
    unfolding H_def by blast
  then have "\<forall>(env, ev, r)\<in>set (es @ [(env, ev, r)]). accepted_headers cfg ev \<subseteq> H \<and> (\<forall>(k, v)\<in>set env. length k \<noteq> 32)"
    using assms(4) by fast
  then have before: "\<forall>(env, ev, r)\<in>set es. accepted_headers cfg ev \<subseteq> H \<and> (\<forall>(k, v)\<in>set env. length k \<noteq> 32)"
    and now: "\<forall>(env, ev, r)\<in>set [(env, ev, r)]. accepted_headers cfg ev \<subseteq> H \<and> (\<forall>(k, v)\<in>set env. length k \<noteq> 32)"
    by simp_all
  have inv: "causal_inv cfg (certs_in (sent s)) H s"
    using core_run_causal [OF assms(1) init before] by (simp add: causal_inv_def)
  have "core_run cfg s [(env, ev, r)] = Done s'" using assms(2) by (simp add: env_writes_def)
  from core_run_causal [OF this inv now] have "causal_inv cfg (certs_in (sent s)) H s'" .
  then show ?thesis by (simp add: causal_inv_def H_def)
qed

end
