(* ===== verification/Core_Runs.thy ===== *)
theory Core_Runs
  imports Core_Causal
begin

text \<open>
  Concrete runs of the core: witnesses of its properties, and a run in which a header that is
  looped back late is voted for a second time.
\<close>

text \<open>The digest of a certificate is here the sum of its header's id and its author.\<close>

definition sum_crypto :: crypto where
  "sum_crypto = example_crypto\<lparr>sha := (\<lambda>bs. word_of_nat (of_be_bytes (take 32 bs))
     + word_of_nat (of_be_bytes (drop (length bs - 32) bs)))\<rparr>"

lemma sum_digest: "cert_digest sum_crypto c = h_id (c_header c) + c_origin c"
proof -
  have "of_be_bytes (bytes32 x) = unat x" for x :: "256 word"
    using of_be_bytes_be_bytes [of "unat x" 32] unsigned_less [where ?'a = nat and w = x]
    by (simp add: bytes32_def)
  then show ?thesis by (simp add: cert_digest_def sum_crypto_def cert_preimage_def)
qed

definition core_header :: "digest \<Rightarrow> round \<Rightarrow> public_key \<Rightarrow> digest list \<Rightarrow> header" where
  "core_header i r n ps = header_default\<lparr>h_author := n, h_round := r, h_parents := ps, h_id := i\<rparr>"

definition core_cert :: "digest \<Rightarrow> round \<Rightarrow> public_key \<Rightarrow> digest list \<Rightarrow> certificate" where
  "core_cert i r n ps = \<lparr>c_header = core_header i r n ps, c_votes = []\<rparr>"

lemma core_header_simps [simp]:
  "h_author (core_header i r n ps) = n" "h_round (core_header i r n ps) = r"
  "h_parents (core_header i r n ps) = ps" "h_id (core_header i r n ps) = i"
  "h_payload (core_header i r n ps) = []" "h_account_counts (core_header i r n ps) = []"
  "c_header (core_cert i r n ps) = core_header i r n ps"
  "c_round (core_cert i r n ps) = r" "c_origin (core_cert i r n ps) = n"
  "cert_digest sum_crypto (core_cert i r n ps) = i + n"
  by (simp_all add: core_header_def core_cert_def header_default_def c_round_def c_origin_def sum_digest)

text \<open>A codec for the certificates of the runs.\<close>

definition core_certs :: "certificate list" where
  "core_certs = [core_cert 100 1 2 [1, 2, 3], core_cert 200 1 3 [1, 2, 3], core_cert 300 1 4 [1, 2, 3]]"

definition core_codec :: codec where
  "core_codec = \<lparr>ser_header = (\<lambda>h. [0]), ser_certificate = (\<lambda>c. bytes32 (h_id (c_header c))),
     de_certificate = (\<lambda>bs. find (\<lambda>c. bytes32 (h_id (c_header c)) = bs) core_certs),
     ser_counts = (\<lambda>m. []), de_counts = (\<lambda>bs. None)\<rparr>"

definition core_cfg :: core_config where
  "core_cfg = \<lparr>cc_name = 1, cc_committee = committee4, cc_crypto = sum_crypto, cc_codec = core_codec,
     cc_gc_depth = 1, cc_baseline_mode = False\<rparr>"

lemma core_cfg_simps [simp]:
  "cc_name core_cfg = 1" "cc_committee core_cfg = committee4" "cc_crypto core_cfg = sum_crypto"
  "cc_codec core_cfg = core_codec" "cc_gc_depth core_cfg = 1" "cc_baseline_mode core_cfg = False"
  by (simp_all add: core_cfg_def)

lemma cc_genesis_core_cfg: "cc_genesis core_cfg = map (\<lambda>n. (n, core_cert 0 0 n [])) [1, 2, 3, 4]"
  by (simp add: cc_genesis_def syn_genesis_def genesis_def keys_committee4 sum_digest c_origin_def)
     (simp add: core_cert_def core_header_def header_default_def)

lemma primary_committee4: "n \<in> {1, 2, 3, 4} \<Longrightarrow> primary committee4 n = Inr (a_primary (example_authority 1))"
  by (auto simp: primary_def committee4_def)

lemma fuel_Suc: "core_fuel = Suc (Suc (Suc (Suc (Suc (Suc (Suc (Suc 0)))))))"
  by (simp add: core_fuel_def)

lemmas core_eval = core_step_def fuel_Suc process_header.simps process_vote.simps process_certificate.simps
  check_header_def Let_def get_parents_def cc_genesis_core_cfg wadd_def committee4_simps missing_payload_def
  missing_batches_def counts_checked_def expected_counts_def hmap_eq_def keys_def core_frame
  already_voted_def get_or_def add_voted_def mark_processing_def upsert_def set_insert_def write_store_def
  core_init_def core_cleanup_def retain_def vote_new_def primary_committee4 send_all_def emit_def
  is_processing_def deliver_certificate_def accept_certificate_def aggregator_of_def proposer_effect_def
  certificates_append_def certificates_aggregator_new_def core_codec_def core_certs_def

subsection \<open>Voting\<close>

text \<open>Two headers of authority 2 for round 1 arrive before the round is garbage collected.\<close>

definition early_run :: "((bytes \<times> bytes) list \<times> core_event \<times> round) list" where
  "early_run = [([], FromHeaderWaiter (core_header 100 1 2 [1, 2, 3]), 0),
     ([], FromHeaderWaiter (core_header 101 1 2 [1, 2, 3]), 3)]"

theorem core_votes_once_witness:
  "\<exists>s. core_run core_cfg (core_init []) early_run = Done s
     \<and> votes_in (sent s) = [vote_new sum_crypto (core_header 100 1 2 [1, 2, 3]) 1]
     \<and> distinct (map (\<lambda>v. (v_round v, v_origin v)) (votes_in (sent s)))"
proof -
  obtain s where r: "core_run core_cfg (core_init []) early_run = Done s"
    and v: "votes_in (sent s) = [vote_new sum_crypto (core_header 100 1 2 [1, 2, 3]) 1]"
    by (simp add: early_run_def core_eval cong: let_weak_cong)
  have "loopback_fresh core_cfg (core_init []) early_run"
    by (simp add: early_run_def core_eval event_ok_def votable_def env_writes_def cong: let_weak_cong)
  from core_votes_once [OF r this] r v show ?thesis by (simp add: early_run_def)
qed

definition late_run :: "((bytes \<times> bytes) list \<times> core_event \<times> round) list" where
  "late_run = early_run @ [([], FromHeaderWaiter (core_header 102 1 2 [1, 2, 3]), 3)]"

text \<open>
  The hypothesis on what is looped back matters: a header that the header waiter returns
  after the record of its round was garbage collected is voted for although another header of
  its author and round was, because only headers from the network are checked against the
  garbage collected round.
\<close>

theorem late_loopback_double_vote:
  "\<exists>s. core_run core_cfg (core_init []) late_run = Done s
    \<and> votes_in (sent s) = [vote_new sum_crypto (core_header 100 1 2 [1, 2, 3]) 1,
        vote_new sum_crypto (core_header 102 1 2 [1, 2, 3]) 1]"
  by (simp add: late_run_def early_run_def core_eval cong: let_weak_cong)

theorem vote_only_checked_headers_witness:
  "\<exists>s. process_header core_fuel core_cfg (core_init []) (core_header 100 1 2 [1, 2, 3]) = Done (s, Inr ())
     \<and> (\<exists>ps. list_all2 (known_parent core_codec (cc_genesis core_cfg) []) [1, 2, 3] ps
        \<and> quorum_threshold committee4 \<le> wsum 32 (map (\<lambda>p. stake committee4 (c_origin p)) ps))"
proof -
  let ?h = "core_header 100 1 2 [1, 2, 3]"
  obtain s where p: "process_header core_fuel core_cfg (core_init []) ?h = Done (s, Inr ())"
    and v: "votes_in (sent s) = [vote_new sum_crypto ?h 1]"
    by (simp add: core_eval cong: let_weak_cong)
  have "votes_in (sent s) \<noteq> votes_in (sent (core_init []))" using v by (simp add: core_init_def)
  then obtain ps where ps: "list_all2 (known_parent core_codec (cc_genesis core_cfg) []) [1, 2, 3] ps"
    "quorum_threshold committee4 \<le> wsum 32 (map (\<lambda>p. stake committee4 (c_origin p)) ps)"
    using vote_only_checked_headers [OF p] by (auto simp: core_init_def)
  with p show ?thesis by blast
qed

subsection \<open>Delivery\<close>

lemma batch_key_neq [simp]: "batch_key d w \<noteq> bytes32 x" "bytes32 x \<noteq> batch_key d w"
  by (auto simp: batch_key_def dest: arg_cong [where f = length])

definition deliver_run :: "((bytes \<times> bytes) list \<times> core_event \<times> round) list" where
  "deliver_run = map (\<lambda>c. ([(batch_key 5 0, [])], FromCertificateWaiter c, 0)) core_certs"

lemma deliver_run_result:
  "\<exists>s s'. core_run core_cfg (core_init []) deliver_run = Done s \<and> certs_in (sent s) = core_certs
    \<and> core_step core_cfg (env_writes [(batch_key 5 0, [])] s) (FromCertificateWaiter (core_cert 400 2 2 [102, 203, 304])) 0 = Done s'
    \<and> certs_in (sent s') = core_certs @ [core_cert 400 2 2 [102, 203, 304]]"
  by (simp add: deliver_run_def env_writes_def core_eval cong: let_weak_cong)

text \<open>
  The step of the witness sends a certificate of round 2 after three of round 1 that are its parents.
\<close>

theorem consensus_gets_parents_first_witness:
  "\<exists>s s'. core_run core_cfg (core_init []) deliver_run = Done s
    \<and> core_step core_cfg (env_writes [(batch_key 5 0, [])] s) (FromCertificateWaiter (core_cert 400 2 2 [102, 203, 304])) 0 = Done s'
    \<and> certs_in (sent s') = certs_in (sent s) @ [core_cert 400 2 2 [102, 203, 304]]
    \<and> causal (certs_in (sent s)) (fst ` set (cc_genesis core_cfg) \<union> {100, 200, 300, 400}) sum_crypto (certs_in (sent s'))"
proof -
  let ?env = "[(batch_key 5 0, [])]" and ?ev = "FromCertificateWaiter (core_cert 400 2 2 [102, 203, 304])"
  obtain s s' where r: "core_run core_cfg (core_init []) deliver_run = Done s"
    "core_step core_cfg (env_writes ?env s) ?ev 0 = Done s'"
    and c: "certs_in (sent s) = core_certs" "certs_in (sent s') = core_certs @ [core_cert 400 2 2 [102, 203, 304]]"
    using deliver_run_result by blast
  have keys: "\<forall>(env, ev, r)\<in>set (deliver_run @ [(?env, ?ev, 0)]). \<forall>(k, v)\<in>set env. length k \<noteq> 32"
    by (simp add: deliver_run_def batch_key_def)
  have "(\<Union>(env, ev, r)\<in>set (deliver_run @ [(?env, ?ev, 0)]). accepted_headers core_cfg ev)
      = c_header ` set (core_certs @ [core_cert 400 2 2 [102, 203, 304]])"
    by (auto simp: deliver_run_def)
  moreover have "h_id ` c_header ` set (core_certs @ [core_cert 400 2 2 [102, 203, 304]]) = {100, 200, 300, 400}"
    by (auto simp: core_certs_def)
  ultimately have "causal (certs_in (sent s)) (fst ` set (cc_genesis core_cfg) \<union> {100, 200, 300, 400}) sum_crypto (certs_in (sent s'))"
    using consensus_gets_parents_first [OF r _ keys] by simp
  moreover have "certs_in (sent s') = certs_in (sent s) @ [core_cert 400 2 2 [102, 203, 304]]" by (simp add: c)
  ultimately show ?thesis using r by blast
qed

end
