(* ===== verification/Proposer.thy ===== *)
theory Proposer
  imports Core "HOL-Library.Multiset"
begin

text \<open>
  \<^verbatim>\<open>primary/src/proposer.rs\<close>: the task that collects the digests of our workers' batches and
  proposes a header when it has the parents of a round. An iteration of its loop first proposes,
  when the conditions hold, and then handles one event of the \<open>select\<close>. Whether the timer has
  expired and the time that stamps a new header are inputs of the iteration.
\<close>

record proposer =
  p_round :: round
  last_parents :: "digest list"
  digests :: "(digest \<times> worker_id) list"
  payload_size :: nat
  p_account_counts :: "(nat, nat) hmap"
  qd_sum :: nat
  qd_count :: nat

datatype proposer_event =
    Parents "digest list" round
  | OurDigest digest worker_id "(nat, nat) hmap" nat
  | Timer

text \<open>Collecting pairs into a \<open>BTreeMap\<close> and elements into a \<open>BTreeSet\<close>.\<close>

definition btree_map :: "('k::linorder \<times> 'v) list \<Rightarrow> ('k, 'v) hmap" where
  "btree_map ps = sort_key fst (fold (\<lambda>(k, v). AList.update k v) ps [])"

definition btree_set :: "'a::linorder list \<Rightarrow> 'a list" where
  "btree_set xs = sort (remdups xs)"

definition proposer_init :: "crypto \<Rightarrow> committee \<Rightarrow> proposer" where
  "proposer_init C com = \<lparr>p_round = 1, last_parents = map (cert_digest C) (genesis com), digests = [],
     payload_size = 0, p_account_counts = [], qd_sum = 0, qd_count = 0\<rparr>"

definition make_header :: "crypto \<Rightarrow> public_key \<Rightarrow> nat \<Rightarrow> proposer \<Rightarrow> proposer \<times> header" where
  "make_header C name now p =
     (let avg = (if 0 < qd_count p then qd_sum p div qd_count p else 0)
      in (p\<lparr>p_account_counts := [], qd_sum := 0, qd_count := 0, digests := [], last_parents := []\<rparr>,
          header_new C name (p_round p) (btree_map (digests p)) (btree_set (last_parents p))
            (p_account_counts p) avg now))"

definition try_propose :: "crypto \<Rightarrow> public_key \<Rightarrow> nat \<Rightarrow> bool \<Rightarrow> nat \<Rightarrow> proposer \<Rightarrow> proposer \<times> header option" where
  "try_propose C name header_size timer_expired now p =
     (if (timer_expired \<or> header_size \<le> payload_size p) \<and> last_parents p \<noteq> []
      then let (p', h) = make_header C name now p in (p'\<lparr>payload_size := 0\<rparr>, Some h)
      else (p, None))"

fun proposer_handle :: "proposer_event \<Rightarrow> proposer \<Rightarrow> proposer" where
  "proposer_handle (Parents parents r) p =
     (if r < p_round p then p else p\<lparr>p_round := wadd 64 r 1, last_parents := parents\<rparr>)"
| "proposer_handle (OurDigest d w counts qd) p =
     p\<lparr>payload_size := wadd 64 (payload_size p) 32, qd_sum := wadd 64 (qd_sum p) qd,
       qd_count := wadd 64 (qd_count p) 1, digests := digests p @ [(d, w)],
       p_account_counts := add_counts counts (p_account_counts p)\<rparr>"
| "proposer_handle Timer p = p"

fun proposer_run :: "crypto \<Rightarrow> public_key \<Rightarrow> nat \<Rightarrow> proposer \<Rightarrow> (bool \<times> nat \<times> proposer_event) list
    \<Rightarrow> proposer \<times> header list" where
  "proposer_run C name hs p [] = (p, [])"
| "proposer_run C name hs p ((expired, now, ev) # es) =
     (let (p1, h) = try_propose C name hs expired now p;
          (p2, out) = proposer_run C name hs (proposer_handle ev p1) es
      in (p2, (case h of None \<Rightarrow> [] | Some x \<Rightarrow> [x]) @ out))"

subsection \<open>One header for a round\<close>

lemma header_new_fields [simp]:
  "h_author (header_new C a r pl ps cs q now) = a" "h_round (header_new C a r pl ps cs q now) = r"
  "h_payload (header_new C a r pl ps cs q now) = pl" "h_parents (header_new C a r pl ps cs q now) = ps"
  "h_account_counts (header_new C a r pl ps cs q now) = cs"
  "h_avg_queue_delay_ms (header_new C a r pl ps cs q now) = q"
  by (simp_all add: header_new_def Let_def)

lemma try_propose_cases:
  assumes "try_propose C name hs expired now p = (p', x)"
  obtains (none) "p' = p" "x = None"
  | (header) h where "x = Some h" "h = snd (make_header C name now p)" "last_parents p \<noteq> []"
      "p' = fst (make_header C name now p)\<lparr>payload_size := 0\<rparr>"
proof (cases "(expired \<or> hs \<le> payload_size p) \<and> last_parents p \<noteq> []")
  case True
  then have "x = Some (snd (make_header C name now p))"
    "p' = fst (make_header C name now p)\<lparr>payload_size := 0\<rparr>"
    using assms by (auto simp: try_propose_def Let_def split_def)
  with True header show ?thesis by blast
next
  case False
  then have "p' = p" "x = None" using assms by (auto simp: try_propose_def)
  with none show ?thesis by blast
qed

text \<open>The lowest round of which a header may still be proposed.\<close>

definition next_round :: "proposer \<Rightarrow> round" where
  "next_round p = (if last_parents p = [] then Suc (p_round p) else p_round p)"

fun rounds_small :: "(bool \<times> nat \<times> proposer_event) list \<Rightarrow> bool" where
  "rounds_small [] = True"
| "rounds_small ((_, _, Parents ps r) # es) = (r < 2 ^ 64 - 1 \<and> rounds_small es)"
| "rounds_small (_ # es) = rounds_small es"

lemma proposer_handle_next_round:
  assumes "rounds_small ((x, y, ev) # es)"
  shows "next_round p \<le> next_round (proposer_handle ev p)"
  using assms by (cases ev) (auto simp: next_round_def wadd_exact)

lemma proposer_run_rounds:
  assumes "rounds_small es" "proposer_run C name hs p es = (p', out)"
  shows "sorted_wrt (<) (map h_round out) \<and> (\<forall>h\<in>set out. next_round p \<le> h_round h \<and> h_author h = name)"
  using assms
proof (induction es arbitrary: p p' out)
  case Nil
  then show ?case by simp
next
  case (Cons e es)
  obtain expired now ev where e: "e = (expired, now, ev)" by (cases e)
  obtain p1 x where tp: "try_propose C name hs expired now p = (p1, x)"
    by (cases "try_propose C name hs expired now p")
  obtain p2 out' where run: "proposer_run C name hs (proposer_handle ev p1) es = (p2, out')"
    by (cases "proposer_run C name hs (proposer_handle ev p1) es")
  have out: "out = (case x of None \<Rightarrow> [] | Some h \<Rightarrow> [h]) @ out'"
    using Cons.prems(2) e tp run by simp
  have small: "rounds_small es" using Cons.prems(1) e by (cases ev) auto
  from Cons.IH [OF small run]
  have sorted: "sorted_wrt (<) (map h_round out')"
    and above: "\<forall>h\<in>set out'. next_round (proposer_handle ev p1) \<le> h_round h \<and> h_author h = name" by auto
  have mono: "next_round p1 \<le> next_round (proposer_handle ev p1)"
    using Cons.prems(1) e by (intro proposer_handle_next_round) simp
  from tp show ?case
  proof (cases rule: try_propose_cases)
    case none
    then show ?thesis using sorted above mono out by fastforce
  next
    case (header h)
    have h: "h_round h = p_round p" "h_author h = name" "next_round p = p_round p"
      using header(2,3) by (simp_all add: make_header_def Let_def next_round_def)
    have "next_round p1 = Suc (p_round p)"
      using header(4) by (simp add: make_header_def Let_def next_round_def)
    then have "\<forall>h'\<in>set out'. p_round p < h_round h'" using above mono by fastforce
    then show ?thesis using sorted above h header(1) out by fastforce
  qed
qed

text \<open>
  C15: The proposer never equivocates: the rounds of the headers it makes increase strictly,
  whatever events it receives, so it makes at most one header for a round; all have our name.
\<close>

theorem proposer_rounds_increase:
  assumes "rounds_small es"
  shows "sorted_wrt (<) (map h_round (snd (proposer_run C name hs p es)))
    \<and> (\<forall>h\<in>set (snd (proposer_run C name hs p es)). h_author h = name)"
  using proposer_run_rounds [OF assms, of C name hs p] by (cases "proposer_run C name hs p es") auto

theorem proposer_rounds_increase_witness:
  "map h_round (snd (proposer_run example_crypto 1 32 (proposer_init example_crypto committee4)
     [(False, 0, OurDigest 5 0 [(3, 2)] 4), (True, 10, Timer), (True, 20, Parents [7] 1), (True, 30, Timer)]))
     = [1, 2]
   \<and> sorted_wrt (<) (map h_round (snd (proposer_run example_crypto 1 32 (proposer_init example_crypto committee4)
     [(False, 0, OurDigest 5 0 [(3, 2)] 4), (True, 10, Timer), (True, 20, Parents [7] 1), (True, 30, Timer)])))"
  using proposer_rounds_increase [of "[(False, 0, OurDigest 5 0 [(3, 2)] 4), (True, 10, Timer),
      (True, 20, Parents [7] 1), (True, 30, Timer)]" example_crypto 1 32 "proposer_init example_crypto committee4"]
  by (simp add: proposer_init_def try_propose_def make_header_def genesis_def keys_committee4 Let_def wadd_def)

subsection \<open>What a header contains\<close>

type_synonym our_batch = "digest \<times> worker_id \<times> (nat, nat) hmap \<times> nat"

fun received :: "(bool \<times> nat \<times> proposer_event) list \<Rightarrow> our_batch list" where
  "received [] = []"
| "received ((_, _, OurDigest d w c q) # es) = (d, w, c, q) # received es"
| "received (_ # es) = received es"

definition batch_ids :: "our_batch list \<Rightarrow> (digest \<times> worker_id) list" where
  "batch_ids B = map (\<lambda>(d, w, _). (d, w)) B"

definition batch_counts :: "our_batch list \<Rightarrow> (nat, nat) hmap" where
  "batch_counts B = fold (\<lambda>(_, _, c, _). add_counts c) B []"

definition batch_delays :: "our_batch list \<Rightarrow> nat list" where
  "batch_delays B = map (\<lambda>(_, _, _, q). q) B"

definition holds_batches :: "proposer \<Rightarrow> our_batch list \<Rightarrow> bool" where
  "holds_batches p B \<longleftrightarrow> digests p = batch_ids B \<and> p_account_counts p = batch_counts B
     \<and> qd_sum p = sum_list (batch_delays B) mod 2 ^ 64 \<and> qd_count p = length B mod 2 ^ 64"

definition header_of_batches :: "header \<Rightarrow> our_batch list \<Rightarrow> bool" where
  "header_of_batches h B \<longleftrightarrow> h_payload h = btree_map (batch_ids B) \<and> h_account_counts h = batch_counts B
     \<and> h_avg_queue_delay_ms h = (if length B mod 2 ^ 64 = 0 then 0
          else (sum_list (batch_delays B) mod 2 ^ 64) div (length B mod 2 ^ 64))"

lemma batches_snoc:
  "batch_ids (B @ [(d, w, c, q)]) = batch_ids B @ [(d, w)]"
  "batch_counts (B @ [(d, w, c, q)]) = add_counts c (batch_counts B)"
  "batch_delays (B @ [(d, w, c, q)]) = batch_delays B @ [q]"
  by (simp_all add: batch_ids_def batch_counts_def batch_delays_def)

lemma holds_batches_Nil: "holds_batches p [] \<longleftrightarrow>
    digests p = [] \<and> p_account_counts p = [] \<and> qd_sum p = 0 \<and> qd_count p = 0"
  by (auto simp: holds_batches_def batch_ids_def batch_counts_def batch_delays_def)

lemma make_header_batches:
  assumes "holds_batches p B"
  shows "header_of_batches (snd (make_header C name now p)) B"
    and "holds_batches (fst (make_header C name now p)\<lparr>payload_size := 0\<rparr>) []"
proof -
  show "header_of_batches (snd (make_header C name now p)) B"
    using assms by (auto simp: make_header_def Let_def header_of_batches_def holds_batches_def)
  show "holds_batches (fst (make_header C name now p)\<lparr>payload_size := 0\<rparr>) []"
    by (simp add: make_header_def Let_def holds_batches_Nil)
qed

lemma proposer_handle_batches:
  assumes "holds_batches p B"
  shows "holds_batches (proposer_handle ev p) (B @ received [(x, y, ev)])"
  using assms by (cases ev) (auto simp: holds_batches_def batches_snoc wadd_def mod_simps add.commute)

lemma received_Cons: "received (e # es) = received [e] @ received es"
  by (cases "[e]" rule: received.cases) auto

lemma proposer_run_batches:
  assumes "holds_batches p B"
  shows "\<exists>segs rest. concat segs @ rest = B @ received es
    \<and> list_all2 header_of_batches (snd (proposer_run C name hs p es)) segs
    \<and> holds_batches (fst (proposer_run C name hs p es)) rest"
  using assms
proof (induction es arbitrary: p B)
  case Nil
  then show ?case by (intro exI [of _ "[]"] exI [of _ B]) simp
next
  case (Cons e es)
  obtain expired now ev where e: "e = (expired, now, ev)" by (cases e)
  obtain p1 x where tp: "try_propose C name hs expired now p = (p1, x)"
    by (cases "try_propose C name hs expired now p")
  let ?run = "proposer_run C name hs (proposer_handle ev p1) es"
  have run: "snd (proposer_run C name hs p (e # es)) = (case x of None \<Rightarrow> [] | Some h \<Rightarrow> [h]) @ snd ?run"
    "fst (proposer_run C name hs p (e # es)) = fst ?run"
    using e tp by (simp_all add: Let_def split_def)
  from tp show ?case
  proof (cases rule: try_propose_cases)
    case none
    then obtain segs rest where "concat segs @ rest = (B @ received [e]) @ received es"
      "list_all2 header_of_batches (snd ?run) segs" "holds_batches (fst ?run) rest"
      using Cons.IH [OF proposer_handle_batches [OF Cons.prems, of ev expired now]] e by auto
    then show ?thesis unfolding run using none received_Cons [of e es]
      by (intro exI [of _ segs] exI [of _ rest]) simp
  next
    case (header h)
    have "holds_batches p1 []" unfolding header(4) by (rule make_header_batches(2) [OF Cons.prems])
    from Cons.IH [OF proposer_handle_batches [OF this, of ev expired now]]
    obtain segs rest where segs: "concat segs @ rest = received [e] @ received es"
      "list_all2 header_of_batches (snd ?run) segs" "holds_batches (fst ?run) rest" using e by auto
    have "header_of_batches h B" unfolding header(2) by (rule make_header_batches(1) [OF Cons.prems])
    then show ?thesis unfolding run using header(1) segs received_Cons [of e es]
      by (intro exI [of _ "B # segs"] exI [of _ rest]) simp
  qed
qed

lemma holds_batches_init: "holds_batches (proposer_init C com) []"
  by (simp add: holds_batches_Nil proposer_init_def)

subsection \<open>Counting the transactions of an account\<close>

definition cnt :: "(nat, nat) hmap \<Rightarrow> nat \<Rightarrow> nat" where
  "cnt c a = sum_list (map snd (filter (\<lambda>(k, _). k = a) c))"

lemma cnt_Cons: "cnt ((k, n) # c) a = (if k = a then n else 0) + cnt c a"
  by (simp add: cnt_def)

lemma cnt_zero: "a \<notin> fst ` set c \<Longrightarrow> cnt c a = 0"
  by (induction c) (auto simp: cnt_def)

lemma map_of_add_counts:
  "map_of (add_counts c acc) a =
     (if a \<in> fst ` set c then Some ((get_or 0 acc a + cnt c a) mod 2 ^ 16) else map_of acc a)"
proof (induction c arbitrary: acc)
  case Nil
  then show ?case by (simp add: add_counts_def)
next
  case (Cons kn c)
  obtain k n where kn: "kn = (k, n)" by (cases kn)
  let ?acc = "upsert 0 k (\<lambda>x. wadd 16 x n) acc"
  have "map_of (add_counts (kn # c) acc) a = map_of (add_counts c ?acc) a"
    using kn by (simp add: add_counts_def)
  also have "\<dots> = (if a \<in> fst ` set c then Some ((get_or 0 ?acc a + cnt c a) mod 2 ^ 16) else map_of ?acc a)"
    by (rule Cons.IH)
  also have "\<dots> = (if a \<in> fst ` set (kn # c) then Some ((get_or 0 acc a + cnt (kn # c) a) mod 2 ^ 16)
      else map_of acc a)"
  proof (cases "a \<in> fst ` set c")
    case True
    then show ?thesis using kn by (auto simp: al_simps cnt_Cons wadd_def mod_simps add.assoc)
  next
    case False
    then show ?thesis using kn cnt_zero [OF False] by (auto simp: al_simps cnt_Cons wadd_def)
  qed
  finally show ?case .
qed

lemma map_of_fold_counts:
  "map_of (fold add_counts cs []) a =
     (if \<exists>c\<in>set cs. a \<in> fst ` set c then Some (sum_list (map (\<lambda>c. cnt c a) cs) mod 2 ^ 16) else None)"
proof (induction cs rule: rev_induct)
  case Nil
  then show ?case by simp
next
  case (snoc c cs)
  show ?case
  proof (cases "\<exists>c\<in>set cs. a \<in> fst ` set c")
    case True
    then have "get_or 0 (fold add_counts cs []) a = sum_list (map (\<lambda>c. cnt c a) cs) mod 2 ^ 16"
      using snoc.IH by (simp add: get_or_def)
    then show ?thesis
      using True snoc.IH by (auto simp: map_of_add_counts mod_simps cnt_zero)
  next
    case False
    then have zero: "map (\<lambda>c. cnt c a) cs = map (\<lambda>c. 0) cs" by (auto simp: cnt_zero)
    have g: "get_or 0 (fold add_counts cs []) a = 0" "map_of (fold add_counts cs []) a = None"
      using snoc.IH False by (simp_all add: get_or_def)
    show ?thesis using False g by (auto simp: map_of_add_counts zero)
  qed
qed

text \<open>
  C16: Every batch that our workers report ends up in exactly one header, in the order of
  arrival, or is still waiting: the received batches are the concatenation of segments, one for
  each header, and of the rest. A header's payload, account counts and average queue delay are
  those of its segment alone.
\<close>

theorem proposer_includes_batches_once:
  "\<exists>segs rest. concat segs @ rest = received es
    \<and> list_all2 header_of_batches (snd (proposer_run C name hs (proposer_init C com) es)) segs
    \<and> holds_batches (fst (proposer_run C name hs (proposer_init C com) es)) rest"
  using proposer_run_batches [OF holds_batches_init] by simp

lemma update_new: "k \<notin> fst ` set m \<Longrightarrow> AList.update k v m = m @ [(k, v)]"
  by (induction m) auto

lemma fold_update_distinct:
  "distinct (map fst (acc @ ps)) \<Longrightarrow> fold (\<lambda>(k, v). AList.update k v) ps acc = acc @ ps"
proof (induction ps arbitrary: acc)
  case Nil
  then show ?case by simp
next
  case (Cons p ps)
  obtain k v where p: "p = (k, v)" by (cases p)
  have "k \<notin> fst ` set acc" using Cons.prems p by auto
  then show ?case using Cons.IH [of "acc @ [p]"] Cons.prems p by (simp add: update_new)
qed

lemma mset_btree_map: "distinct (map fst ps) \<Longrightarrow> mset (btree_map ps) = mset ps"
  using fold_update_distinct [of "[]" ps] by (simp add: btree_map_def)

lemma expected_counts_found:
  assumes "\<forall>x\<in>set payload. \<exists>bs. map_of st (case x of (d, w) \<Rightarrow> batch_key d w) = Some bs \<and> de_counts K bs = Some (f x)"
  shows "expected_counts K st payload = fold add_counts (map f payload) []"
proof -
  have "fold (\<lambda>(d, w) acc. case map_of st (batch_key d w) of None \<Rightarrow> acc
       | Some bs \<Rightarrow> (case de_counts K bs of None \<Rightarrow> acc | Some counts \<Rightarrow> add_counts counts acc)) payload acc
     = fold add_counts (map f payload) acc" for acc
    using assms by (induction payload arbitrary: acc) fastforce+
  then show ?thesis by (simp add: expected_counts_def)
qed

text \<open>
  When the batches of a header are different, and a peer has recorded for each of them the
  counts that our worker reported, in any order, the counts that the peer computes from its
  store are those of the header.
\<close>

lemma honest_counts_accepted:
  assumes "header_of_batches h B" "distinct (map fst B)"
    and "\<forall>(d, w, c, q)\<in>set B. \<exists>bs c'. map_of (k_store s) (batch_key d w) = Some bs
      \<and> de_counts (cc_codec cfg) bs = Some c' \<and> mset c' = mset c"
  shows "counts_checked cfg (k_store s) h"
proof -
  let ?K = "cc_codec cfg" and ?st = "k_store s"
  define f where "f x = the (de_counts ?K (the (map_of ?st (case x of (d, w) \<Rightarrow> batch_key d w))))" for x
  have d: "distinct (map fst (batch_ids B))"
    using assms(2) by (simp add: batch_ids_def comp_def split_def)
  have payload: "mset (h_payload h) = mset (batch_ids B)"
    using assms(1) mset_btree_map [OF d] by (simp add: header_of_batches_def)
  have f: "mset (f (d, w)) = mset c" "\<exists>bs. map_of ?st (batch_key d w) = Some bs \<and> de_counts ?K bs = Some (f (d, w))"
    if "(d, w, c, q) \<in> set B" for d w c q
    using assms(3) that by (fastforce simp: f_def)+
  have cnt_mset: "cnt c' a = cnt c a \<and> fst ` set c' = fst ` set c" if "mset c' = mset c" for c c' a
  proof -
    have "mset (map snd (filter (\<lambda>(k, _). k = a) c')) = mset (map snd (filter (\<lambda>(k, _). k = a) c))"
      using that by simp
    then have "cnt c' a = cnt c a" unfolding cnt_def by (metis sum_mset_sum_list)
    then show ?thesis using mset_eq_setD [OF that] by simp
  qed
  have all: "\<forall>x\<in>set (h_payload h). \<exists>bs. map_of ?st (case x of (d, w) \<Rightarrow> batch_key d w) = Some bs
      \<and> de_counts ?K bs = Some (f x)"
  proof
    fix x assume "x \<in> set (h_payload h)"
    then have "x \<in> set (batch_ids B)" using mset_eq_setD [OF payload] by simp
    then show "\<exists>bs. map_of ?st (case x of (d, w) \<Rightarrow> batch_key d w) = Some bs \<and> de_counts ?K bs = Some (f x)"
      using f(2) by (auto simp: batch_ids_def)
  qed
  have "map_of (fold add_counts (map f (h_payload h)) []) a = map_of (batch_counts B) a" for a
  proof -
    have "mset (map (\<lambda>x. cnt (f x) a) (h_payload h)) = mset (map (\<lambda>x. cnt (f x) a) (batch_ids B))"
      using payload by simp
    then have "sum_list (map (\<lambda>x. cnt (f x) a) (h_payload h)) = sum_list (map (\<lambda>x. cnt (f x) a) (batch_ids B))"
      by (metis sum_mset_sum_list)
    also have "map (\<lambda>x. cnt (f x) a) (batch_ids B) = map (\<lambda>(d, w, c, q). cnt c a) B"
      unfolding batch_ids_def map_map comp_def
      by (rule map_cong [OF refl]) (auto intro: conjunct1 [OF cnt_mset [OF f(1)]])
    finally have sum: "sum_list (map (\<lambda>x. cnt (f x) a) (h_payload h)) = sum_list (map (\<lambda>(d, w, c, q). cnt c a) B)" .
    have ex: "(\<exists>x\<in>set (h_payload h). a \<in> fst ` set (f x)) \<longleftrightarrow> (\<exists>(d, w, c, q)\<in>set B. a \<in> fst ` set c)"
    proof -
      have P: "set (h_payload h) = (\<lambda>(d, w, _). (d, w)) ` set B"
        using mset_eq_setD [OF payload] by (simp add: batch_ids_def)
      have "(case b of (d, w, c, q) \<Rightarrow> a \<in> fst ` set c) = (a \<in> fst ` set (f (case b of (d, w, _) \<Rightarrow> (d, w))))"
        if "b \<in> set B" for b
      proof -
        obtain d w c q where b: "b = (d, w, c, q)" by (cases b)
        have "fst ` set (f (d, w)) = fst ` set c"
          using cnt_mset [OF f(1)] that unfolding b by blast
        then show ?thesis by (simp add: b)
      qed
      then show ?thesis unfolding P by (simp add: Bex_def [symmetric] cong: bex_cong)
    qed
    have B: "batch_counts B = fold add_counts (map (\<lambda>(d, w, c, q). c) B) []"
      by (simp add: batch_counts_def fold_map comp_def split_def)
    show ?thesis
      unfolding B map_of_fold_counts using sum ex by (simp add: comp_def split_def)
  qed
  then have "map_of (expected_counts ?K ?st (h_payload h)) = map_of (h_account_counts h)"
    unfolding expected_counts_found [OF all] using assms(1) by (auto simp: header_of_batches_def)
  then show ?thesis by (simp add: counts_checked_def hmap_eq_iff)
qed

end
