(* ===== verification/Primary_Tasks.thy ===== *)
theory Primary_Tasks
  imports Proposer
begin

text \<open>
  The other tasks of the primary: the dispatchers of network messages
  (\<^verbatim>\<open>primary/src/primary.rs\<close>), the payload receiver, the helper that answers certificate
  requests, the garbage collector and the certificate waiter.
\<close>

subsection \<open>Dispatch of network messages\<close>

datatype primary_dispatch =
    ToCore primary_message
  | ToHelper "digest list" public_key

fun dispatch_primary :: "primary_message \<Rightarrow> primary_dispatch" where
  "dispatch_primary (PM_CertificatesRequest missing requestor) = ToHelper missing requestor"
| "dispatch_primary request = ToCore request"

datatype worker_dispatch =
    ToProposerTask proposer_event
  | ToPayloadReceiver digest worker_id "(nat, nat) hmap"

fun dispatch_worker :: "worker_primary_message \<Rightarrow> worker_dispatch" where
  "dispatch_worker (OurBatch d w counts qd) = ToProposerTask (OurDigest d w counts qd)"
| "dispatch_worker (OthersBatch d w counts) = ToPayloadReceiver d w counts"

text \<open>The panic of the core on a certificate request is out of reach of the network.\<close>

lemma dispatch_primary_core:
  "dispatch_primary m = ToCore m' \<Longrightarrow> m' = m \<and> (\<forall>ds r. m' \<noteq> PM_CertificatesRequest ds r)"
  by (cases m) auto

subsection \<open>Payload receiver\<close>

definition receive_payload :: "codec \<Rightarrow> digest \<times> worker_id \<times> (nat, nat) hmap \<Rightarrow> store \<Rightarrow> store" where
  "receive_payload K = (\<lambda>(d, w, counts) st. AList.update (batch_key d w) (ser_counts K counts) st)"

lemma batch_key_inject:
  assumes "batch_key d w = batch_key d' w'" "w < 2 ^ 32" "w' < 2 ^ 32"
  shows "d = d' \<and> w = w'"
proof -
  have "bytes32 d = bytes32 d'" "le_bytes 4 w = le_bytes 4 w'"
    using assms(1) by (simp_all add: batch_key_def append_eq_append_conv)
  then show ?thesis using assms(2,3) by (auto dest: le_bytes_inject)
qed

lemma receive_payloads_lookup:
  assumes "distinct (map fst B)" "\<forall>(d, w, c, q)\<in>set B. w < 2 ^ 32" "(d, w, c, q) \<in> set B"
  shows "map_of (fold (\<lambda>(d, w, c, q). receive_payload K (d, w, c)) B st) (batch_key d w) = Some (ser_counts K c)"
  using assms
proof (induction B arbitrary: st)
  case Nil
  then show ?case by simp
next
  case (Cons b B)
  obtain d' w' c' q' where b: "b = (d', w', c', q')" by (cases b)
  let ?st = "receive_payload K (d', w', c') st"
  have keep: "map_of (fold (\<lambda>(d, w, c, q). receive_payload K (d, w, c)) B st) k = map_of st k"
    if "\<forall>(d, w, c, q)\<in>set B. batch_key d w \<noteq> k" for B st k
    using that by (induction B arbitrary: st) (auto simp: receive_payload_def al_simps)
  show ?case
  proof (cases "(d, w, c, q) = b")
    case True
    have "batch_key d'' w'' \<noteq> batch_key d w" if x: "(d'', w'', c'', q'') \<in> set B" for d'' w'' c'' q''
    proof
      assume "batch_key d'' w'' = batch_key d w"
      moreover have "w'' < 2 ^ 32" "w < 2 ^ 32" using Cons.prems(2,3) x by auto
      ultimately have "d'' = d" using batch_key_inject by blast
      moreover have "fst (d'', w'', c'', q'') \<in> fst ` set B" using x by (rule imageI)
      ultimately show False using Cons.prems(1) b True by simp
    qed
    then have "\<forall>(d'', w'', c'', q'')\<in>set B. batch_key d'' w'' \<noteq> batch_key d w" by blast
    then show ?thesis using keep [of B "batch_key d w" ?st] b True
      by (simp add: receive_payload_def al_simps)
  next
    case False
    then show ?thesis using Cons.IH [of ?st] Cons.prems b by auto
  qed
qed

lemma set_btree_map: "distinct (map fst ps) \<Longrightarrow> set (btree_map ps) = set ps"
  using mset_eq_setD [OF mset_btree_map] .

text \<open>
  When a peer's payload receiver got the batches of a header that the proposer made of different
  batches, the peer misses no payload of it and accepts its account counts.
\<close>

lemma honest_header_accepted:
  assumes "header_of_batches h B" "distinct (map fst B)" "\<forall>(d, w, c, q)\<in>set B. w < 2 ^ 32"
    and "\<forall>(d, w, c, q)\<in>set B. de_counts (cc_codec cfg) (ser_counts (cc_codec cfg) c) = Some c"
    and "st' = fold (\<lambda>(d, w, c, q). receive_payload (cc_codec cfg) (d, w, c)) B st"
  shows "missing_payload (cc_name cfg) st' h = None \<and> counts_checked cfg st' h"
proof
  note found = receive_payloads_lookup [OF assms(2,3), of _ _ _ _ "cc_codec cfg" st, folded assms(5)]
  have d: "distinct (map fst (batch_ids B))"
    using assms(2) by (simp add: batch_ids_def comp_def split_def)
  have "set (h_payload h) = set (batch_ids B)"
    using assms(1) set_btree_map [OF d] by (simp add: header_of_batches_def)
  then have "\<forall>(d, w)\<in>set (h_payload h). map_of st' (batch_key d w) \<noteq> None"
    using found by (auto simp: batch_ids_def)
  then show "missing_payload (cc_name cfg) st' h = None"
    by (auto simp: missing_payload_def missing_batches_def filter_empty_conv Let_def)
  have "\<forall>(d, w, c, q)\<in>set B. \<exists>bs c'. map_of (k_store (core_init st')) (batch_key d w) = Some bs
      \<and> de_counts (cc_codec cfg) bs = Some c' \<and> mset c' = mset c"
    using found assms(4) by (fastforce simp: core_init_def)
  from honest_counts_accepted [OF assms(1,2) this] show "counts_checked cfg st' h"
    by (simp add: core_init_def)
qed

definition counts_codec :: codec where
  "counts_codec = \<lparr>ser_header = (\<lambda>h. []), ser_certificate = (\<lambda>c. []), de_certificate = (\<lambda>bs. None),
     ser_counts = (\<lambda>m. if m = [(3, 2), (7, 1)] then [1] else [2]),
     de_counts = (\<lambda>bs. if bs = [1] then Some [(3, 2), (7, 1)] else Some [(3, 5)])\<rparr>"

definition counts_cfg :: core_config where
  "counts_cfg = \<lparr>cc_name = 1, cc_committee = committee4, cc_crypto = example_crypto,
     cc_codec = counts_codec, cc_gc_depth = 1, cc_baseline_mode = False\<rparr>"

subsection \<open>Helper\<close>

text \<open>The replies to a request; \<open>None\<close> is the panic on data that is not a certificate.\<close>

fun helper_replies :: "codec \<Rightarrow> store \<Rightarrow> socket_addr \<Rightarrow> digest list \<Rightarrow> (socket_addr \<times> primary_message) list option" where
  "helper_replies K st a [] = Some []"
| "helper_replies K st a (d # ds) =
     (case map_of st (bytes32 d) of
        None \<Rightarrow> helper_replies K st a ds
      | Some bs \<Rightarrow>
          (case de_certificate K bs of
             None \<Rightarrow> None
           | Some c \<Rightarrow> map_option ((#) (a, PM_Certificate c)) (helper_replies K st a ds)))"

definition helper_handle :: "codec \<Rightarrow> committee \<Rightarrow> store \<Rightarrow> digest list \<Rightarrow> public_key
    \<Rightarrow> (socket_addr \<times> primary_message) list option" where
  "helper_handle K com st ds origin =
     (case primary com origin of
        Inl _ \<Rightarrow> Some []
      | Inr x \<Rightarrow> helper_replies K st (primary_to_primary x) ds)"

lemma helper_replies_known:
  assumes "\<forall>d\<in>set ds. case map_of st (bytes32 d) of None \<Rightarrow> True | Some bs \<Rightarrow> de_certificate K bs \<noteq> None"
  shows "\<exists>out. helper_replies K st a ds = Some out \<and>
    map snd out = map PM_Certificate (List.map_filter (\<lambda>d. Option.bind (map_of st (bytes32 d)) (de_certificate K)) ds)"
  using assms by (induction ds) (auto simp: List.map_filter_simps split: option.splits)

text \<open>
  A peer that asks for a header id crashes the helper: headers are stored under their id
  next to the certificates, and if what was stored as a header does not parse as a certificate
  (a certificate is a header followed by its votes), the helper panics after a header was
  stored and before any other value is written under its id.
\<close>

theorem helper_panics_on_header_id:
  assumes "check_header cfg s h = Inr s'" "primary com origin = Inr x"
    and "de_certificate (cc_codec cfg) (ser_header (cc_codec cfg) h) = None"
  shows "helper_handle (cc_codec cfg) com (k_store s') [h_id h] origin = None"
proof -
  have "map_of (k_store s') (bytes32 (h_id h)) = Some (ser_header (cc_codec cfg) h)"
    using assms(1) by (auto simp: check_header_def Let_def write_store_def al_simps
        split: sum.splits option.splits if_splits prod.splits)
  with assms(2,3) show ?thesis by (simp add: helper_handle_def)
qed

subsection \<open>Garbage collector\<close>

text \<open>The last committed round, and the new value of \<open>consensus_round\<close> with the message to our
  workers.\<close>

definition gc_handle :: "round \<Rightarrow> certificate \<Rightarrow> round \<times> (round \<times> primary_worker_message) option" where
  "gc_handle lcr c =
     (let r = c_round c in if lcr < r then (r, Some (r, Cleanup r)) else (lcr, None))"

fun gc_run :: "round \<Rightarrow> certificate list \<Rightarrow> round list" where
  "gc_run lcr [] = []"
| "gc_run lcr (c # cs) =
     (let (lcr', out) = gc_handle lcr c
      in (case out of None \<Rightarrow> [] | Some (r, _) \<Rightarrow> [r]) @ gc_run lcr' cs)"

lemma gc_run_increasing: "sorted_wrt (<) (lcr # gc_run lcr cs)"
proof (induction cs arbitrary: lcr)
  case Nil
  then show ?case by simp
next
  case (Cons c cs)
  show ?case using Cons.IH [of "c_round c"] Cons.IH [of lcr] by (auto simp: gc_handle_def Let_def)
qed

text \<open>
  The consensus round that the garbage collector publishes only increases, whatever
  certificates consensus feeds back, and its last value is the highest round among them.
\<close>

theorem consensus_round_increases:
  "sorted_wrt (<) (gc_run 0 cs) \<and>
   List.last (0 # gc_run 0 cs) = fold (\<lambda>c m. max m (c_round c)) cs 0"
proof -
  have "List.last (r # gc_run r cs) = fold (\<lambda>c m. max m (c_round c)) cs r" for r
  proof (induction cs arbitrary: r)
    case Nil
    then show ?case by simp
  next
    case (Cons c cs)
    show ?case
      using Cons.IH [of "c_round c"] Cons.IH [of r] by (auto simp: gc_handle_def Let_def max_def)
  qed
  then show ?thesis using gc_run_increasing [of 0 cs] by simp
qed

subsection \<open>Certificate waiter\<close>

text \<open>The pool of certificates with the keys they wait for.\<close>

type_synonym cert_pool = "(bytes list \<times> certificate) list"

definition cw_add :: "certificate \<Rightarrow> cert_pool \<Rightarrow> cert_pool" where
  "cw_add c pool = pool @ [(map bytes32 (h_parents (c_header c)), c)]"

definition cw_ready :: "store \<Rightarrow> bytes list \<times> certificate \<Rightarrow> bool" where
  "cw_ready st = (\<lambda>(ks, c). list_all (\<lambda>k. map_of st k \<noteq> None) ks)"

text \<open>The next waiter that completes, in the order of the pool; its certificate goes to the core.\<close>

fun cw_next :: "store \<Rightarrow> cert_pool \<Rightarrow> cert_pool \<times> certificate option" where
  "cw_next st [] = ([], None)"
| "cw_next st (w # ws) =
     (if cw_ready st w then (ws, Some (snd w))
      else let (ws', c) = cw_next st ws in (w # ws', c))"

lemma cw_next_delivers:
  assumes "\<forall>(ks, c)\<in>set pool. ks = map bytes32 (h_parents (c_header c))" "cw_next st pool = (pool', Some c)"
  shows "deliver_certificate gen st c \<and> mset (map snd pool) = add_mset c (mset (map snd pool'))"
  using assms
proof (induction pool arbitrary: pool')
  case Nil
  then show ?case by simp
next
  case (Cons w ws)
  show ?case
  proof (cases "cw_ready st w")
    case True
    then show ?thesis using Cons.prems
      by (auto simp: cw_ready_def deliver_certificate_def list_all_iff)
  next
    case False
    obtain ws' x where "cw_next st ws = (ws', x)" by (cases "cw_next st ws")
    then show ?thesis using Cons False by auto
  qed
qed

end
