(* ===== verification/Primary_Runs.thy ===== *)
theory Primary_Runs
  imports Core_Runs Primary_Tasks
begin

text \<open>A concrete run of the helper after the core stored a header.\<close>

theorem helper_panics_on_header_id_witness:
  "\<exists>s'. check_header core_cfg (core_init []) (core_header 100 1 2 [1, 2, 3]) = Inr s'
     \<and> helper_handle core_codec committee4 (k_store s') [100] 3 = None"
proof -
  obtain s' where c: "check_header core_cfg (core_init []) (core_header 100 1 2 [1, 2, 3]) = Inr s'"
    by (simp add: core_eval cong: let_weak_cong)
  have "de_certificate core_codec (ser_header core_codec (core_header 100 1 2 [1, 2, 3])) = None"
  proof -
    have "bytes32 x \<noteq> [0]" for x by (auto dest: arg_cong [where f = length])
    then show ?thesis by (simp add: core_codec_def core_certs_def)
  qed
  from helper_panics_on_header_id [OF c, of committee4 3] this c show ?thesis
    by (auto simp: primary_committee4)
qed

end
