(* ===== verification/Header_Waiter.thy ===== *)
theory Header_Waiter
  imports Synchronizer
begin

text \<open>
  \<^verbatim>\<open>primary/src/header_waiter.rs\<close>: the task that keeps the headers whose parents or batches
  are missing, asks other nodes for them, and loops a header back when it has them all.

  The pool of futures is the field \<open>pool\<close>: each waits for keys of the store and carries a
  header. Its cancel channel is a number, and the map \<open>pending\<close> holds the other end: a future
  is cancelled exactly when its number is not in \<open>pending\<close> any more, because dropping the
  sender wakes the receiver just like a message does. \<open>None\<close> is a panic.
\<close>

datatype waiter_effect =
    ToWorker socket_addr primary_worker_message
  | ToPrimary socket_addr primary_message
  | LuckyBroadcast "socket_addr list" primary_message nat
  | LoopBack header

record header_waiter =
  parent_requests :: "(digest, round \<times> nat) hmap"
  batch_requests :: "(digest, round) hmap"
  pending :: "(digest, round \<times> nat \<times> bool) hmap"
  pool :: "(nat \<times> bytes list \<times> header) list"
  next_channel :: nat

record waiter_config =
  wc_name :: public_key
  wc_committee :: committee
  wc_gc_depth :: round
  wc_sync_retry_delay :: nat
  wc_sync_retry_nodes :: nat

definition waiter_init :: header_waiter where
  "waiter_init = \<lparr>parent_requests = [], batch_requests = [], pending = [], pool = [], next_channel = 0\<rparr>"

text \<open>The header enters the pool of futures; both kinds of synchronisation record \<open>false\<close>.\<close>

definition suspend :: "bytes list \<Rightarrow> header \<Rightarrow> header_waiter \<Rightarrow> header_waiter" where
  "suspend wait_for h s =
     s\<lparr>pending := AList.update (h_id h) (h_round h, next_channel s, False) (pending s),
       pool := pool s @ [(next_channel s, wait_for, h)],
       next_channel := Suc (next_channel s)\<rparr>"

text \<open>The loops that keep only what was not requested before.\<close>

fun new_batches :: "round \<Rightarrow> (digest \<times> worker_id) list \<Rightarrow> (digest, round) hmap
    \<Rightarrow> (worker_id, digest list) hmap \<Rightarrow> (digest, round) hmap \<times> (worker_id, digest list) hmap" where
  "new_batches r [] reqs sync = (reqs, sync)"
| "new_batches r ((d, w) # ms) reqs sync =
     (if mem_key reqs d then new_batches r ms reqs sync
      else new_batches r ms (AList.update d r reqs) (upsert [] w (\<lambda>ds. ds @ [d]) sync))"

fun new_parents :: "round \<Rightarrow> nat \<Rightarrow> digest list \<Rightarrow> (digest, round \<times> nat) hmap \<Rightarrow> digest list
    \<Rightarrow> (digest, round \<times> nat) hmap \<times> digest list" where
  "new_parents r now [] reqs sync = (reqs, sync)"
| "new_parents r now (d # ds) reqs sync =
     (if mem_key reqs d then new_parents r now ds reqs sync
      else new_parents r now ds (AList.update d (r, now) reqs) (sync @ [d]))"

fun sync_messages :: "waiter_config \<Rightarrow> public_key \<Rightarrow> (worker_id, digest list) hmap \<Rightarrow> waiter_effect list option" where
  "sync_messages cfg author [] = Some []"
| "sync_messages cfg author ((w, ds) # ws) =
     (case worker (wc_committee cfg) (wc_name cfg) w of
        Inl _ \<Rightarrow> None
      | Inr a \<Rightarrow> map_option ((#) (ToWorker (primary_to_worker a) (Synchronize ds author)))
                  (sync_messages cfg author ws))"

text \<open>A message of the synchronizer at time \<open>now\<close>; a header already waiting is ignored.\<close>

fun waiter_sync :: "waiter_config \<Rightarrow> nat \<Rightarrow> waiter_message \<Rightarrow> header_waiter
    \<Rightarrow> (header_waiter \<times> waiter_effect list) option" where
  "waiter_sync cfg now (SyncBatches missing h) s =
     (if mem_key (pending s) (h_id h) then Some (s, [])
      else
        let s1 = suspend (map (\<lambda>(d, w). batch_key d w) missing) h s;
            (reqs, sync) = new_batches (h_round h) missing (batch_requests s1) []
        in map_option (\<lambda>out. (s1\<lparr>batch_requests := reqs\<rparr>, out)) (sync_messages cfg (h_author h) sync))"
| "waiter_sync cfg now (SyncParents missing h) s =
     (if mem_key (pending s) (h_id h) then Some (s, [])
      else
        let s1 = suspend (map bytes32 missing) h s;
            (reqs, sync) = new_parents (h_round h) now missing (parent_requests s1) [];
            s2 = s1\<lparr>parent_requests := reqs\<rparr>
        in if sync = [] then Some (s2, [])
           else case primary (wc_committee cfg) (h_author h) of
                  Inl _ \<Rightarrow> None
                | Inr a \<Rightarrow> Some (s2, [ToPrimary (primary_to_primary a)
                             (PM_CertificatesRequest sync (wc_name cfg))]))"

text \<open>Which results the futures of the pool can give.\<close>

definition channels :: "header_waiter \<Rightarrow> nat list" where
  "channels s = map (\<lambda>(_, t, _). t) (vals (pending s))"

definition waiter_ready :: "store \<Rightarrow> nat \<times> bytes list \<times> header \<Rightarrow> bool" where
  "waiter_ready st = (\<lambda>(t, ks, h). list_all (\<lambda>k. map_of st k \<noteq> None) ks)"

definition waiter_cancelled :: "header_waiter \<Rightarrow> nat \<times> bytes list \<times> header \<Rightarrow> bool" where
  "waiter_cancelled s = (\<lambda>(t, ks, h). t \<notin> set (channels s))"

text \<open>The future at a position of the pool completes: with its header, or cancelled.\<close>

definition waiter_complete :: "nat \<Rightarrow> header_waiter \<Rightarrow> header_waiter \<times> waiter_effect list" where
  "waiter_complete i s =
     (let (t, ks, h) = pool s ! i
      in (s\<lparr>pool := take i (pool s) @ drop (Suc i) (pool s),
            pending := AList.delete (h_id h) (pending s),
            batch_requests := fold AList.delete (keys (h_payload h)) (batch_requests s),
            parent_requests := fold AList.delete (h_parents h) (parent_requests s)\<rparr>,
          [LoopBack h]))"

definition waiter_drop :: "nat \<Rightarrow> header_waiter \<Rightarrow> header_waiter" where
  "waiter_drop i s = s\<lparr>pool := take i (pool s) @ drop (Suc i) (pool s)\<rparr>"

definition waiter_timer :: "waiter_config \<Rightarrow> nat \<Rightarrow> header_waiter \<Rightarrow> waiter_effect list" where
  "waiter_timer cfg now s =
     (let retry = map fst (filter (\<lambda>(d, r, t). t + wc_sync_retry_delay cfg < now) (parent_requests s))
      in [LuckyBroadcast (map (\<lambda>(_, x). primary_to_primary x)
            (others_primaries (wc_committee cfg) (wc_name cfg)))
            (PM_CertificatesRequest retry (wc_name cfg)) (wc_sync_retry_nodes cfg)])"

definition waiter_cleanup :: "waiter_config \<Rightarrow> round \<Rightarrow> header_waiter \<Rightarrow> header_waiter" where
  "waiter_cleanup cfg r s =
     (if wc_gc_depth cfg < r
      then let gc = r - wc_gc_depth cfg
           in s\<lparr>pending := retain (\<lambda>_ (x, _, is_batch_sync). gc < x \<or> is_batch_sync) (pending s),
                parent_requests := retain (\<lambda>_ (x, _). gc < x) (parent_requests s)\<rparr>
      else s)"

text \<open>One iteration of the loop as a step relation: \<open>r\<close> is the consensus round that the
  clean-up loads; a synchronisation of a header already waiting skips the clean-up.\<close>

inductive waiter_step :: "waiter_config \<Rightarrow> store \<Rightarrow> header_waiter \<Rightarrow> waiter_effect list \<Rightarrow> header_waiter \<Rightarrow> bool"
  for cfg st where
  sync: "waiter_sync cfg now m s = Some (s', out) \<Longrightarrow> s' \<noteq> s \<Longrightarrow>
    waiter_step cfg st s out (waiter_cleanup cfg r s')"
| known: "waiter_sync cfg now m s = Some (s, out) \<Longrightarrow> waiter_step cfg st s out s"
| complete: "i < length (pool s) \<Longrightarrow> waiter_ready st (pool s ! i) \<Longrightarrow> waiter_complete i s = (s', out) \<Longrightarrow>
    waiter_step cfg st s out (waiter_cleanup cfg r s')"
| cancel: "i < length (pool s) \<Longrightarrow> waiter_cancelled s (pool s ! i) \<Longrightarrow>
    waiter_step cfg st s [] (waiter_cleanup cfg r (waiter_drop i s))"
| timer: "waiter_step cfg st s (waiter_timer cfg now s) (waiter_cleanup cfg r s)"

inductive waiter_reach :: "waiter_config \<Rightarrow> header_waiter \<Rightarrow> bool" for cfg where
  init: "waiter_reach cfg waiter_init"
| step: "waiter_reach cfg s \<Longrightarrow> waiter_step cfg st s out s' \<Longrightarrow> waiter_reach cfg s'"

inductive_cases waiter_stepE: "waiter_step cfg st s out s'"

subsection \<open>Every waiting header has its future\<close>

definition waiter_inv :: "header_waiter \<Rightarrow> bool" where
  "waiter_inv s \<longleftrightarrow> distinct (map fst (pending s)) \<and> distinct (map fst (pool s))
     \<and> (\<forall>(t, ks, h)\<in>set (pool s). t < next_channel s)
     \<and> (\<forall>(d, r, t, b)\<in>set (pending s). \<not> b \<and> (\<exists>ks h. (t, ks, h) \<in> set (pool s) \<and> h_id h = d \<and> h_round h = r))"

lemma waiter_inv_init: "waiter_inv waiter_init"
  by (simp add: waiter_inv_def waiter_init_def)

lemma suspend_inv:
  assumes "waiter_inv s" "\<not> mem_key (pending s) (h_id h)"
  shows "waiter_inv (suspend ks h s)"
proof -
  have new: "next_channel s \<notin> fst ` set (pool s)" using assms(1) by (auto simp: waiter_inv_def)
  have p: "set (AList.update (h_id h) (h_round h, next_channel s, False) (pending s))
      \<subseteq> insert (h_id h, h_round h, next_channel s, False) (set (pending s))"
    by (rule set_update_subset)
  show ?thesis
    using assms(1) new p
    by (auto simp: waiter_inv_def suspend_def distinct_update less_Suc_eq) blast+
qed

lemma waiter_inv_requests:
  "waiter_inv (s\<lparr>batch_requests := b\<rparr>) = waiter_inv s" "waiter_inv (s\<lparr>parent_requests := p\<rparr>) = waiter_inv s"
  by (simp_all add: waiter_inv_def)

lemma waiter_sync_inv:
  assumes "waiter_sync cfg now m s = Some (s', out)" "waiter_inv s"
  shows "waiter_inv s'"
  using assms suspend_inv
  by (cases m) (auto simp: Let_def split_def waiter_inv_requests split: if_splits sum.splits)

lemma pool_remove:
  assumes "i < length xs" "distinct (map fst xs)"
  shows "distinct (map fst (take i xs @ drop (Suc i) xs))"
    and "set (take i xs @ drop (Suc i) xs) = {x \<in> set xs. fst x \<noteq> fst (xs ! i)}"
proof -
  have xs: "xs = take i xs @ xs ! i # drop (Suc i) xs" using assms(1) by (rule id_take_nth_drop)
  have d: "distinct (map fst (take i xs @ xs ! i # drop (Suc i) xs))" using assms(2) xs by simp
  then show "distinct (map fst (take i xs @ drop (Suc i) xs))" by auto
  have "set xs = set (take i xs @ xs ! i # drop (Suc i) xs)" using xs by simp
  then show "set (take i xs @ drop (Suc i) xs) = {x \<in> set xs. fst x \<noteq> fst (xs ! i)}"
    using d by (auto simp: image_iff)
qed

lemma waiter_complete_inv:
  assumes "waiter_inv s" "i < length (pool s)" "waiter_complete i s = (s', out)"
  shows "waiter_inv s'"
proof -
  obtain t ks h where e: "pool s ! i = (t, ks, h)" by (cases "pool s ! i")
  have d: "distinct (map fst (pool s))" using assms(1) by (simp add: waiter_inv_def)
  note rem = pool_remove [OF assms(2) d]
  have mem: "(t, ks, h) \<in> set (pool s)" using e assms(2) nth_mem by fastforce
  have uniq: "ks' = ks \<and> h' = h" if "(t, ks', h') \<in> set (pool s)" for ks' h'
    using map_of_is_SomeI [OF d that] map_of_is_SomeI [OF d mem] by simp
  have s': "pool s' = take i (pool s) @ drop (Suc i) (pool s)" "pending s' = AList.delete (h_id h) (pending s)"
    "next_channel s' = next_channel s"
    using assms(3) e by (auto simp: waiter_complete_def)
  have p: "set (pending s') = {x \<in> set (pending s). fst x \<noteq> h_id h}"
    unfolding s'(2) by (rule set_delete)
  have "\<exists>ks' h'. (t', ks', h') \<in> set (pool s') \<and> h_id h' = dg \<and> h_round h' = r"
    if x: "(dg, r, t', b) \<in> set (pending s')" for dg r t' b
  proof -
    have "(dg, r, t', b) \<in> set (pending s)" "dg \<noteq> h_id h" using x unfolding p by auto
    then obtain ks' h' where w: "(t', ks', h') \<in> set (pool s)" "h_id h' = dg" "h_round h' = r"
      using assms(1) unfolding waiter_inv_def by blast
    then have "t' \<noteq> t" using uniq \<open>dg \<noteq> h_id h\<close> by blast
    then show ?thesis using w unfolding s'(1) rem(2) e by auto
  qed
  moreover have "distinct (map fst (pending s'))"
    using assms(1) unfolding s'(2) by (simp add: waiter_inv_def distinct_delete)
  moreover have "\<forall>(t, ks, h)\<in>set (pool s'). t < next_channel s'"
    using assms(1) unfolding s'(1,3) rem(2) by (auto simp: waiter_inv_def)
  moreover have "\<forall>(dg, r, t, b)\<in>set (pending s'). \<not> b"
    using assms(1) unfolding p waiter_inv_def by blast
  ultimately show ?thesis
    using rem(1) unfolding waiter_inv_def s'(1) by blast
qed

lemma waiter_drop_inv:
  assumes "waiter_inv s" "i < length (pool s)" "waiter_cancelled s (pool s ! i)"
  shows "waiter_inv (waiter_drop i s)"
proof -
  have d: "distinct (map fst (pool s))" using assms(1) by (simp add: waiter_inv_def)
  note rem = pool_remove [OF assms(2) d]
  have gone: "t \<noteq> fst (pool s ! i)" if "(dg, r, t, b) \<in> set (pending s)" for dg r t b
  proof
    assume "t = fst (pool s ! i)"
    moreover have "(\<lambda>(_, t, _). t) (r, t, b) \<in> set (channels s)"
      using that unfolding channels_def vals_def by (force simp: image_iff)
    ultimately show False using assms(3) by (simp add: waiter_cancelled_def split_def)
  qed
  have s': "pool (waiter_drop i s) = take i (pool s) @ drop (Suc i) (pool s)"
    "pending (waiter_drop i s) = pending s" "next_channel (waiter_drop i s) = next_channel s"
    by (simp_all add: waiter_drop_def)
  have "\<exists>ks' h'. (t', ks', h') \<in> set (pool (waiter_drop i s)) \<and> h_id h' = dg \<and> h_round h' = r"
    if x: "(dg, r, t', b) \<in> set (pending (waiter_drop i s))" for dg r t' b
  proof -
    have x': "(dg, r, t', b) \<in> set (pending s)" using x unfolding s'(2) .
    obtain ks' h' where w: "(t', ks', h') \<in> set (pool s)" "h_id h' = dg" "h_round h' = r"
      using assms(1) x' unfolding waiter_inv_def by blast
    then show ?thesis using gone [OF x'] unfolding s'(1) rem(2) by auto
  qed
  moreover have "\<forall>(t, ks, h)\<in>set (pool (waiter_drop i s)). t < next_channel (waiter_drop i s)"
    using assms(1) unfolding s'(1,3) rem(2) by (auto simp: waiter_inv_def)
  moreover have "\<forall>(dg, r, t, b)\<in>set (pending (waiter_drop i s)). \<not> b"
    using assms(1) unfolding s'(2) waiter_inv_def by blast
  moreover have "distinct (map fst (pending (waiter_drop i s)))"
    using assms(1) unfolding s'(2) waiter_inv_def by blast
  ultimately show ?thesis
    using rem(1) unfolding waiter_inv_def s'(1) by blast
qed

lemma waiter_cleanup_inv: "waiter_inv s \<Longrightarrow> waiter_inv (waiter_cleanup cfg r s)"
  by (auto simp: waiter_inv_def waiter_cleanup_def Let_def)

lemma waiter_step_inv: "waiter_step cfg st s out s' \<Longrightarrow> waiter_inv s \<Longrightarrow> waiter_inv s'"
  by (induction rule: waiter_step.induct)
    (auto intro: waiter_cleanup_inv waiter_sync_inv waiter_complete_inv waiter_drop_inv)

lemma waiter_reach_inv: "waiter_reach cfg s \<Longrightarrow> waiter_inv s"
  by (induction rule: waiter_reach.induct) (auto intro: waiter_inv_init waiter_step_inv)

text \<open>
  C22: No suspended header is lost, and none comes back too early: in every reachable state each
  pending header has its future in the pool, which loops the header back to the core in a single
  step as soon as the store has all the keys it waits for; and a header is only looped back by a
  future all of whose keys are in the store.
\<close>

theorem pending_header_loops_back:
  assumes "waiter_reach cfg s"
  shows "(\<forall>(d, r, t, b)\<in>set (pending s). \<exists>ks h. (t, ks, h) \<in> set (pool s) \<and> h_id h = d \<and> h_round h = r \<and>
      (waiter_ready st (t, ks, h) \<longrightarrow> (\<exists>s'. waiter_step cfg st s [LoopBack h] s' \<and> \<not> mem_key (pending s') d)))
    \<and> (\<forall>out s' h. waiter_step cfg st s out s' \<longrightarrow> LoopBack h \<in> set out \<longrightarrow>
      (\<exists>t ks. (t, ks, h) \<in> set (pool s) \<and> waiter_ready st (t, ks, h)))"
proof (intro conjI)
  have inv: "waiter_inv s" using assms by (rule waiter_reach_inv)
  have "\<exists>ks h. (t, ks, h) \<in> set (pool s) \<and> h_id h = d \<and> h_round h = r \<and>
      (waiter_ready st (t, ks, h) \<longrightarrow> (\<exists>s'. waiter_step cfg st s [LoopBack h] s' \<and> \<not> mem_key (pending s') d))"
    if p: "(d, r, t, b) \<in> set (pending s)" for d r t b
  proof -
    obtain ks h where w: "(t, ks, h) \<in> set (pool s)" "h_id h = d" "h_round h = r"
      using inv p unfolding waiter_inv_def by blast
    then obtain i where i: "i < length (pool s)" "pool s ! i = (t, ks, h)" by (auto simp: in_set_conv_nth)
    define s1 where "s1 = fst (waiter_complete i s)"
    have c: "waiter_complete i s = (s1, [LoopBack h])" using i(2) by (simp add: s1_def waiter_complete_def)
    have "waiter_step cfg st s [LoopBack h] (waiter_cleanup cfg 0 s1)" if "waiter_ready st (t, ks, h)"
      using waiter_step.complete [OF i(1) _ c] that i(2) by simp
    moreover have "\<not> mem_key (pending (waiter_cleanup cfg 0 s1)) d"
      using w(2) i(2) by (simp add: s1_def waiter_complete_def waiter_cleanup_def mem_key_def al_simps)
    ultimately show ?thesis using w by blast
  qed
  then show "\<forall>(d, r, t, b)\<in>set (pending s). \<exists>ks h. (t, ks, h) \<in> set (pool s) \<and> h_id h = d \<and> h_round h = r \<and>
      (waiter_ready st (t, ks, h) \<longrightarrow> (\<exists>s'. waiter_step cfg st s [LoopBack h] s' \<and> \<not> mem_key (pending s') d))"
    by blast
next
  have no: "LoopBack h \<notin> set out" if "waiter_sync cfg now m s = Some (s', out)" for now m s' out h
  proof -
    have "LoopBack h \<notin> set out" if "sync_messages cfg a ws = Some out" for a ws out
      using that
    proof (induction ws arbitrary: out)
      case Nil
      then show ?case by simp
    next
      case (Cons w ws)
      then show ?case by (cases w) (auto split: sum.splits)
    qed
    then show ?thesis
      using that by (cases m) (auto simp: Let_def split_def split: if_splits sum.splits)
  qed
  show "\<forall>out s' h. waiter_step cfg st s out s' \<longrightarrow> LoopBack h \<in> set out \<longrightarrow>
      (\<exists>t ks. (t, ks, h) \<in> set (pool s) \<and> waiter_ready st (t, ks, h))"
  proof (intro allI impI)
    fix out s' h
    assume "waiter_step cfg st s out s'" "LoopBack h \<in> set out"
    then show "\<exists>t ks. (t, ks, h) \<in> set (pool s) \<and> waiter_ready st (t, ks, h)"
    proof (cases rule: waiter_step.cases)
      case (complete i s1 r)
      obtain t ks h' where w: "pool s ! i = (t, ks, h')" by (cases "pool s ! i")
      then have "h' = h"
        using complete(4) \<open>LoopBack h \<in> set out\<close> by (auto simp: waiter_complete_def)
      then show ?thesis using w complete(2,3) nth_mem by metis
    qed (auto simp: no waiter_timer_def Let_def)
  qed
qed

definition example_waiter :: waiter_config where
  "example_waiter = \<lparr>wc_name = 1, wc_committee = committee4, wc_gc_depth = 50, wc_sync_retry_delay = 5000,
     wc_sync_retry_nodes = 3\<rparr>"

definition suspended :: header_waiter where
  "suspended = fst (the (waiter_sync example_waiter 7 (SyncBatches [(5, 0)] example_header) waiter_init))"

lemma suspended: "waiter_sync example_waiter 7 (SyncBatches [(5, 0)] example_header) waiter_init =
    Some (suspended, [ToWorker ''v'' (Synchronize [5] 1)])"
  "pending suspended = [(7, 1, 0, False)]" "pool suspended = [(0, [batch_key 5 0], example_header)]"
proof -
  have h: "h_id example_header = 7" "h_round example_header = 1" "h_author example_header = 1"
    by (simp_all add: example_header_def header_new_def header_digest_def example_crypto_def Let_def)
  show sync: "waiter_sync example_waiter 7 (SyncBatches [(5, 0)] example_header) waiter_init =
    Some (suspended, [ToWorker ''v'' (Synchronize [5] 1)])"
    "pending suspended = [(7, 1, 0, False)]" "pool suspended = [(0, [batch_key 5 0], example_header)]"
    by (simp_all add: suspended_def waiter_init_def mem_key_def suspend_def upsert_def get_or_def h
        example_waiter_def worker_committee4)
qed

lemma suspended_reach: "waiter_reach example_waiter suspended"
proof (rule waiter_reach.step [OF waiter_reach.init])
  have "pending suspended \<noteq> pending waiter_init" by (simp add: suspended waiter_init_def)
  then have "suspended \<noteq> waiter_init" by metis
  from waiter_step.sync [OF suspended(1) this, of "[]" 0]
  show "waiter_step example_waiter [] waiter_init [ToWorker ''v'' (Synchronize [5] 1)] suspended"
    by (simp add: waiter_cleanup_def)
qed

theorem pending_header_loops_back_witness:
  "\<exists>s'. waiter_step example_waiter [(batch_key 5 0, [1])] suspended [LoopBack example_header] s'
     \<and> \<not> mem_key (pending s') 7"
  using pending_header_loops_back [OF suspended_reach, of "[(batch_key 5 0, [1])]"]
  by (auto simp: suspended waiter_ready_def)

text \<open>
  A batch synchronisation is cancelled by garbage collection like a parent
  synchronisation, although the comments say it never is: when a header with missing batches is
  suspended and the clean-up finds its round garbage collected, the header is not pending any
  more and its future is cancelled.
\<close>

theorem batch_sync_cancelled:
  assumes "waiter_reach cfg s" "\<not> mem_key (pending s) (h_id h)"
    and "waiter_sync cfg now (SyncBatches missing h) s = Some (s', out)"
    and "wc_gc_depth cfg < r" "h_round h \<le> r - wc_gc_depth cfg"
  shows "\<not> mem_key (pending (waiter_cleanup cfg r s')) (h_id h)
    \<and> last (pool (waiter_cleanup cfg r s')) = (next_channel s, map (\<lambda>(d, w). batch_key d w) missing, h)
    \<and> waiter_cancelled (waiter_cleanup cfg r s') (last (pool (waiter_cleanup cfg r s')))"
proof -
  have inv: "waiter_inv s" using assms(1) by (rule waiter_reach_inv)
  have p: "pending s' = AList.update (h_id h) (h_round h, next_channel s, False) (pending s)"
    "pool s' = pool s @ [(next_channel s, map (\<lambda>(d, w). batch_key d w) missing, h)]"
    using assms(2,3) by (auto simp: Let_def split_def suspend_def)
  have d: "distinct (map fst (pending s'))" "distinct (map fst (pending s))"
    using waiter_sync_inv [OF assms(3) inv] inv by (auto simp: waiter_inv_def)
  let ?c = "waiter_cleanup cfg r s'"
  have pc: "pending ?c = retain (\<lambda>_ (x, _, b). r - wc_gc_depth cfg < x \<or> b) (pending s')"
    "pool ?c = pool s'"
    using assms(4) by (simp_all add: waiter_cleanup_def Let_def)
  have gone: "\<not> mem_key (pending ?c) (h_id h)"
    using assms(5) map_of_retain [OF d(1), of _ "h_id h"] by (simp add: mem_key_def pc(1) p(1) al_simps)
  have "t \<noteq> next_channel s" if x: "(dg, x, t, b) \<in> set (pending ?c)" for dg x t b
  proof -
    have "dg \<in> fst ` set (pending ?c)" using imageI [OF x, of fst] by simp
    then have "dg \<noteq> h_id h" using gone unfolding mem_key_iff by metis
    then have "(dg, x, t, b) \<in> set (pending s)"
      using x set_update_distinct [OF d(2), of "h_id h"] by (auto simp: pc(1) p(1))
    then obtain ks h' where "(t, ks, h') \<in> set (pool s)" using inv unfolding waiter_inv_def by blast
    then show ?thesis using inv unfolding waiter_inv_def by fastforce
  qed
  then have "\<forall>p\<in>set (pending ?c). fst (snd (snd p)) \<noteq> next_channel s" by (metis prod.collapse)
  then have "next_channel s \<notin> set (channels ?c)" by (auto simp: channels_def vals_def)
  with gone show ?thesis by (simp add: pc(2) p(2) waiter_cancelled_def)
qed

theorem batch_sync_cancelled_witness:
  "waiter_cancelled (waiter_cleanup example_waiter 60 suspended) (0, [batch_key 5 0], example_header)"
proof -
  have h: "h_round example_header = 1" by (simp add: example_header_def header_new_def Let_def)
  have c: "pool (waiter_cleanup example_waiter 60 suspended) = [(0, [batch_key 5 0], example_header)]"
    by (simp add: waiter_cleanup_def Let_def suspended)
  have "waiter_reach example_waiter waiter_init" by (rule waiter_reach.init)
  from batch_sync_cancelled [OF this _ suspended(1), of 60] show ?thesis
    unfolding c by (simp add: waiter_init_def mem_key_def h example_waiter_def)
qed

end
