(* ===== verification/Store.thy ===== *)
theory Store
  imports Prelude
begin

text \<open>
  \<^verbatim>\<open>store/src/lib.rs\<close>: the two command loops of the key-value store, the one over a
  \<open>HashMap\<close> (\<open>mem_step\<close>) and the one over RocksDB (\<open>rocks_step\<close>). RocksDB is third-party
  code: its \<open>put\<close> and \<open>get\<close> are the record \<open>rocks\<close>, an argument. A one-shot sender is its
  number; a step returns the replies it sends. The methods of \<open>Store\<close> send one command each
  and wait for its reply.

  The locale \<open>command_loop\<close> is what the clients of the store rely on.
\<close>

datatype command =
    Write bytes bytes
  | Read bytes nat
  | NotifyRead bytes nat
  | Delete bytes

text \<open>\<open>rocksdb::Error\<close> is its message.\<close>

type_synonym store_error = string
type_synonym reply = "nat \<times> (store_error + bytes option)"

record store_state =
  data :: "(bytes, bytes) hmap"
  obligations :: "(bytes, nat list) hmap"

definition mem_empty :: store_state where
  "mem_empty = \<lparr>data = [], obligations = []\<rparr>"

text \<open>\<open>obligations.remove(&key)\<close> and the loop that pops and answers the senders.\<close>

definition answer_waiting :: "(bytes, nat list) hmap \<Rightarrow> bytes \<Rightarrow> bytes
    \<Rightarrow> (bytes, nat list) hmap \<times> reply list" where
  "answer_waiting obl key value =
     (case map_of obl key of
        None \<Rightarrow> (obl, [])
      | Some senders \<Rightarrow> (AList.delete key obl, map (\<lambda>s. (s, Inr (Some value))) senders))"

definition add_waiting :: "(bytes, nat list) hmap \<Rightarrow> bytes \<Rightarrow> nat \<Rightarrow> (bytes, nat list) hmap" where
  "add_waiting obl key sender = AList.update key (get_or [] obl key @ [sender]) obl"

fun mem_step :: "store_state \<Rightarrow> command \<Rightarrow> store_state \<times> reply list" where
  "mem_step s (Write key value) =
     (let (obl, out) = answer_waiting (obligations s) key value
      in (\<lparr>data = AList.update key value (data s), obligations = obl\<rparr>, out))"
| "mem_step s (Read key sender) = (s, [(sender, Inr (map_of (data s) key))])"
| "mem_step s (NotifyRead key sender) =
     (case map_of (data s) key of
        Some value \<Rightarrow> (s, [(sender, Inr (Some value))])
      | None \<Rightarrow> (s\<lparr>obligations := add_waiting (obligations s) key sender\<rparr>, []))"
| "mem_step s (Delete key) = (s\<lparr>data := AList.delete key (data s)\<rparr>, [])"

record 'd rocks =
  rk_put :: "'d \<Rightarrow> bytes \<Rightarrow> bytes \<Rightarrow> 'd"
  rk_get :: "'d \<Rightarrow> bytes \<Rightarrow> store_error + bytes option"

fun rocks_step :: "'d rocks \<Rightarrow> 'd \<times> (bytes, nat list) hmap \<Rightarrow> command
    \<Rightarrow> ('d \<times> (bytes, nat list) hmap) \<times> reply list" where
  "rocks_step R (db, obl) (Write key value) =
     (let (obl', out) = answer_waiting obl key value in ((rk_put R db key value, obl'), out))"
| "rocks_step R (db, obl) (Read key sender) = ((db, obl), [(sender, rk_get R db key)])"
| "rocks_step R (db, obl) (NotifyRead key sender) =
     (case rk_get R db key of
        Inr None \<Rightarrow> ((db, add_waiting obl key sender), [])
      | response \<Rightarrow> ((db, obl), [(sender, response)]))"
| "rocks_step R (db, obl) (Delete key) = ((db, obl), [])"

fun run_commands :: "('s \<Rightarrow> command \<Rightarrow> 's \<times> reply list) \<Rightarrow> 's \<Rightarrow> command list
    \<Rightarrow> 's \<times> reply list" where
  "run_commands step s [] = (s, [])"
| "run_commands step s (c # cs) =
     (let (s1, out) = step s c; (s2, out') = run_commands step s1 cs in (s2, out @ out'))"

subsection \<open>The contract of a command loop\<close>

fun senders :: "command list \<Rightarrow> nat set" where
  "senders [] = {}"
| "senders (Read k w # cs) = insert w (senders cs)"
| "senders (NotifyRead k w # cs) = insert w (senders cs)"
| "senders (Write k v # cs) = senders cs"
| "senders (Delete k # cs) = senders cs"

fun first_write :: "bytes \<Rightarrow> command list \<Rightarrow> bytes option" where
  "first_write k [] = None"
| "first_write k (Write k' v # cs) = (if k' = k then Some v else first_write k cs)"
| "first_write k (_ # cs) = first_write k cs"

definition replies_to :: "nat \<Rightarrow> reply list \<Rightarrow> (store_error + bytes option) list" where
  "replies_to w out = map snd (filter (\<lambda>(s, _). s = w) out)"

lemma replies_to_append [simp]: "replies_to w (a @ b) = replies_to w a @ replies_to w b"
  by (simp add: replies_to_def)

lemma replies_to_Nil [simp]: "replies_to w [] = []"
  by (simp add: replies_to_def)

lemma replies_to_answers:
  "replies_to w (map (\<lambda>s. (s, r)) ws) = replicate (count_list ws w) r"
  by (induction ws) (simp_all add: replies_to_def)

locale command_loop =
  fixes step :: "'s \<Rightarrow> command \<Rightarrow> 's \<times> reply list"
    and look :: "'s \<Rightarrow> bytes \<Rightarrow> bytes option" and waits :: "'s \<Rightarrow> bytes \<Rightarrow> nat list"
  assumes on_write: "step s (Write k v) = (s', out) \<Longrightarrow> look s' = (look s)(k \<mapsto> v) \<and>
      waits s' = (waits s)(k := []) \<and> out = map (\<lambda>w. (w, Inr (Some v))) (waits s k)"
    and on_read: "step s (Read k w) = (s', out) \<Longrightarrow> look s' = look s \<and> waits s' = waits s \<and>
      out = [(w, Inr (look s k))]"
    and on_notify_known: "step s (NotifyRead k w) = (s', out) \<Longrightarrow> look s k = Some v \<Longrightarrow>
      look s' = look s \<and> waits s' = waits s \<and> out = [(w, Inr (Some v))]"
    and on_notify_wait: "step s (NotifyRead k w) = (s', out) \<Longrightarrow> look s k = None \<Longrightarrow>
      look s' = look s \<and> waits s' = (waits s)(k := waits s k @ [w]) \<and> out = []"
    and on_delete: "step s (Delete k) = (s', out) \<Longrightarrow> waits s' = waits s \<and> out = [] \<and>
      (look s' = look s \<or> look s' = (look s)(k := None))"
begin

lemma unanswered:
  assumes "\<forall>k'. w \<notin> set (waits s k')" "w \<notin> senders cs"
  shows "replies_to w (snd (run_commands step s cs)) = []"
  using assms
proof (induction cs arbitrary: s)
  case Nil
  then show ?case by simp
next
  case (Cons c cs)
  obtain s1 out where st: "step s c = (s1, out)" by (cases "step s c")
  have "(\<forall>k'. w \<notin> set (waits s1 k')) \<and> replies_to w out = []"
  proof (cases c)
    case (Write k v)
    then show ?thesis using on_write [of s k v s1 out] st Cons.prems
      by (auto simp: replies_to_answers count_list_0_iff)
  next
    case (Read k v)
    then show ?thesis using on_read [of s k v s1 out] st Cons.prems by (auto simp: replies_to_def)
  next
    case (NotifyRead k v)
    then show ?thesis using on_notify_known [of s k v s1 out] on_notify_wait [of s k v s1 out] st Cons.prems
      by (cases "look s k") (auto simp: replies_to_def)
  next
    case (Delete k)
    then show ?thesis using on_delete [of s k s1 out] st Cons.prems by auto
  qed
  moreover have "w \<notin> senders cs" using Cons.prems(2) by (cases c) auto
  ultimately show ?case using Cons.IH [of s1] st by (simp add: split_def Let_def)
qed

lemma pending_answered:
  assumes "look s k = None" "count_list (waits s k) w = 1" "\<forall>k'. k' \<noteq> k \<longrightarrow> w \<notin> set (waits s k')"
    and "w \<notin> senders cs"
  shows "replies_to w (snd (run_commands step s cs)) =
    (case first_write k cs of None \<Rightarrow> [] | Some v \<Rightarrow> [Inr (Some v)])"
  using assms
proof (induction cs arbitrary: s)
  case Nil
  then show ?case by simp
next
  case (Cons c cs)
  obtain s1 out where st: "step s c = (s1, out)" by (cases "step s c")
  have out: "snd (run_commands step s (c # cs)) = out @ snd (run_commands step s1 cs)"
    using st by (simp add: split_def Let_def)
  have fresh: "w \<notin> senders cs" using Cons.prems(4) by (cases c) auto
  show ?case
  proof (cases c)
    case (Write k' v)
    note wr = on_write [of s k' v s1 out] st Write
    show ?thesis
    proof (cases "k' = k")
      case True
      have "replies_to w out = [Inr (Some v)]"
        using wr True Cons.prems(2) by (simp add: replies_to_answers)
      moreover have "replies_to w (snd (run_commands step s1 cs)) = []"
        using wr True Cons.prems(3) fresh by (intro unanswered) auto
      ultimately show ?thesis using out Write True by simp
    next
      case False
      have "replies_to w out = []"
        using wr False Cons.prems(3) by (simp add: replies_to_answers count_list_0_iff)
      moreover have "replies_to w (snd (run_commands step s1 cs)) =
          (case first_write k cs of None \<Rightarrow> [] | Some v \<Rightarrow> [Inr (Some v)])"
        using wr False Cons.prems fresh by (intro Cons.IH) auto
      ultimately show ?thesis using out Write False by simp
    qed
  next
    case (Read k' w')
    then show ?thesis using on_read [of s k' w' s1 out] st Cons.IH [of s1] Cons.prems out
      by (auto simp: replies_to_def)
  next
    case (NotifyRead k' w')
    have ne: "w' \<noteq> w" using Cons.prems(4) NotifyRead by auto
    have "replies_to w out = [] \<and> look s1 k = None \<and> count_list (waits s1 k) w = 1
        \<and> (\<forall>k'. k' \<noteq> k \<longrightarrow> w \<notin> set (waits s1 k'))"
      using on_notify_known [of s k' w' s1 out] on_notify_wait [of s k' w' s1 out] st Cons.prems ne NotifyRead
      by (cases "look s k'") (auto simp: replies_to_def)
    then show ?thesis using Cons.IH [of s1] fresh out NotifyRead by simp
  next
    case (Delete k')
    then show ?thesis using on_delete [of s k' s1 out] st Cons.IH [of s1] Cons.prems out fresh by auto
  qed
qed

lemma notify_read_answered:
  assumes "\<forall>k. w \<notin> set (waits s k)" "w \<notin> senders cs"
  shows "replies_to w (snd (run_commands step s (NotifyRead k w # cs))) =
    (case (case look s k of None \<Rightarrow> first_write k cs | v \<Rightarrow> v) of None \<Rightarrow> [] | v \<Rightarrow> [Inr v])"
proof -
  obtain s1 out where st: "step s (NotifyRead k w) = (s1, out)" by (cases "step s (NotifyRead k w)")
  show ?thesis
  proof (cases "look s k")
    case None
    have "replies_to w (snd (run_commands step s1 cs)) =
        (case first_write k cs of None \<Rightarrow> [] | Some v \<Rightarrow> [Inr (Some v)])"
      using on_notify_wait [OF st None] None assms
      by (intro pending_answered) (auto simp: count_list_0_iff)
    then show ?thesis using on_notify_wait [OF st None] None st
      by (simp add: split_def Let_def split: option.splits)
  next
    case (Some v)
    have "replies_to w (snd (run_commands step s1 cs)) = []"
      using on_notify_known [OF st Some] assms by (intro unanswered) auto
    then show ?thesis using on_notify_known [OF st Some] Some st
      by (simp add: split_def Let_def replies_to_def)
  qed
qed

lemma read_after_write:
  assumes "\<forall>c\<in>set cs. \<forall>v. c \<noteq> Write k v \<and> c \<noteq> Delete k"
  shows "snd (step (fst (run_commands step s (Write k v # cs))) (Read k w)) = [(w, Inr (Some v))]"
proof -
  have keep: "look (fst (run_commands step s cs)) k = look s k" for s
    using assms
  proof (induction cs arbitrary: s)
    case Nil
    then show ?case by simp
  next
    case (Cons c cs)
    obtain s1 out where st: "step s c = (s1, out)" by (cases "step s c")
    have "look s1 k = look s k"
    proof (cases c)
      case (Write k' v)
      then show ?thesis using on_write [of s k' v s1 out] st Cons.prems by auto
    next
      case (Read k' v)
      then show ?thesis using on_read [of s k' v s1 out] st by auto
    next
      case (NotifyRead k' v)
      then show ?thesis using on_notify_known [of s k' v s1 out] on_notify_wait [of s k' v s1 out] st
        by (cases "look s k'") auto
    next
      case (Delete k')
      then show ?thesis using on_delete [of s k' s1 out] st Cons.prems by auto
    qed
    moreover have "look (fst (run_commands step s1 cs)) k = look s1 k"
      using Cons by simp
    ultimately show ?case using st by (simp add: split_def Let_def)
  qed
  obtain s1 out where st: "step s (Write k v) = (s1, out)" by (cases "step s (Write k v)")
  let ?s = "fst (run_commands step s (Write k v # cs))"
  have "look ?s k = Some v"
    using keep [of s1] on_write [OF st] st by (simp add: split_def Let_def)
  then show ?thesis using on_read [of ?s k w] by (cases "step ?s (Read k w)") auto
qed

end

subsection \<open>The two loops satisfy it\<close>

lemma answer_waiting_obl:
  "get_or [] (fst (answer_waiting obl k v)) = (get_or [] obl)(k := [])"
  by (auto simp: answer_waiting_def get_or_def fun_eq_iff al_simps split: option.splits)

lemma answer_waiting_out:
  "snd (answer_waiting obl k v) = map (\<lambda>w. (w, Inr (Some v))) (get_or [] obl k)"
  by (simp add: answer_waiting_def get_or_def split: option.splits)

lemma add_waiting_eq:
  "get_or [] (add_waiting obl k w) = (get_or [] obl)(k := get_or [] obl k @ [w])"
  by (auto simp: add_waiting_def al_simps)

interpretation mem: command_loop mem_step "\<lambda>s. map_of (data s)" "\<lambda>s. get_or [] (obligations s)"
  by unfold_locales
    (auto simp: Let_def split_def fun_eq_iff al_simps add_waiting_eq answer_waiting_obl
      answer_waiting_out split: option.splits)

text \<open>
  C23: The in-memory store answers every \<open>notify_read\<close> exactly once: at once when the key has
  a value, and otherwise, whatever other commands come in between, with the value of the first
  write of that key; without such a write it never answers.
\<close>

theorem notify_read_answered_once:
  assumes "\<forall>k. w \<notin> set (get_or [] (obligations s) k)" "w \<notin> senders cs"
  shows "replies_to w (snd (run_commands mem_step s (NotifyRead k w # cs))) =
    (case (case map_of (data s) k of None \<Rightarrow> first_write k cs | v \<Rightarrow> v) of
       None \<Rightarrow> [] | v \<Rightarrow> [Inr v])"
  using mem.notify_read_answered [of w s cs k] assms by auto

theorem notify_read_answered_once_witness:
  "replies_to 7 (snd (run_commands mem_step mem_empty
     (NotifyRead [1] 7 # [Read [1] 8, Write [2] [5], Delete [1], Write [1] [9], Write [1] [6]])))
     = [Inr (Some [9])]"
  using notify_read_answered_once [of 7 mem_empty "[Read [1] 8, Write [2] [5], Delete [1], Write [1] [9], Write [1] [6]]" "[1]"]
  by (simp add: mem_empty_def get_or_def)

text \<open>
  A read of the in-memory store after a write of the key returns the value written, if no
  other write or delete of the key came in between.
\<close>

theorem store_read_after_write:
  assumes "\<forall>c\<in>set cs. \<forall>v. c \<noteq> Write k v \<and> c \<noteq> Delete k"
  shows "snd (mem_step (fst (run_commands mem_step s (Write k v # cs))) (Read k w)) = [(w, Inr (Some v))]"
  by (rule mem.read_after_write [OF assms])

theorem store_read_after_write_witness:
  "snd (mem_step (fst (run_commands mem_step mem_empty (Write [1] [9] # [Write [2] [5], Delete [2]])))
     (Read [1] 3)) = [(3, Inr (Some [9]))]"
  by (rule store_read_after_write) simp

text \<open>
  The two loops agree as long as nothing is deleted, over a database that returns what was put
  and reports no error.
\<close>

definition rocks_sound :: "'d rocks \<Rightarrow> bool" where
  "rocks_sound R \<longleftrightarrow> (\<forall>db k v k'. rk_get R (rk_put R db k v) k' =
     (if k' = k then Inr (Some v) else rk_get R db k'))"

definition same_store :: "'d rocks \<Rightarrow> 'd \<times> (bytes, nat list) hmap \<Rightarrow> store_state \<Rightarrow> bool" where
  "same_store R r s \<longleftrightarrow> snd r = obligations s \<and> (\<forall>k. rk_get R (fst r) k = Inr (map_of (data s) k))"

lemma rocks_simulates:
  assumes "rocks_sound R" "same_store R r s" "\<forall>k. c \<noteq> Delete k"
  shows "snd (rocks_step R r c) = snd (mem_step s c) \<and>
    same_store R (fst (rocks_step R r c)) (fst (mem_step s c))"
proof -
  obtain db obl where r: "r = (db, obl)" by (cases r)
  then show ?thesis
    using assms by (cases c)
      (auto simp: same_store_def rocks_sound_def Let_def split_def al_simps split: option.splits)
qed

lemma rocks_run_simulates:
  assumes "rocks_sound R" "same_store R r s" "\<forall>c\<in>set cs. \<forall>k. c \<noteq> Delete k"
  shows "snd (run_commands (rocks_step R) r cs) = snd (run_commands mem_step s cs)"
  using assms(2,3)
proof (induction cs arbitrary: r s)
  case Nil
  then show ?case by simp
next
  case (Cons c cs)
  from rocks_simulates [OF assms(1) Cons.prems(1), of c] Cons.prems(2)
  have step: "snd (rocks_step R r c) = snd (mem_step s c)"
    "same_store R (fst (rocks_step R r c)) (fst (mem_step s c))" by simp_all
  from Cons.IH [OF step(2)] Cons.prems(2) show ?case
    by (simp add: split_def Let_def step(1))
qed

text \<open>
  C24: Over a sound database the RocksDB loop and the in-memory loop send the same replies
  for every sequence of writes, reads and notify-reads.
\<close>

theorem store_loops_agree:
  assumes "rocks_sound R" "\<forall>k. rk_get R db k = Inr None" "\<forall>c\<in>set cs. \<forall>k. c \<noteq> Delete k"
  shows "snd (run_commands (rocks_step R) (db, []) cs) = snd (run_commands mem_step mem_empty cs)"
  using rocks_run_simulates [OF assms(1) _ assms(3), of "(db, [])" mem_empty] assms(2)
  by (simp add: same_store_def mem_empty_def)

definition list_rocks :: "(bytes, bytes) hmap rocks" where
  "list_rocks = \<lparr>rk_put = (\<lambda>db k v. (k, v) # db), rk_get = (\<lambda>db k. Inr (map_of db k))\<rparr>"

theorem store_loops_agree_witness:
  "snd (run_commands (rocks_step list_rocks) ([], []) [NotifyRead [1] 7, Write [1] [9], Read [1] 8])
     = snd (run_commands mem_step mem_empty [NotifyRead [1] 7, Write [1] [9], Read [1] 8])
   \<and> snd (run_commands mem_step mem_empty [NotifyRead [1] 7, Write [1] [9], Read [1] 8])
     = [(7, Inr (Some [9])), (8, Inr (Some [9]))]"
proof (rule conjI, rule store_loops_agree)
  show "rocks_sound list_rocks" by (simp add: rocks_sound_def list_rocks_def)
qed (simp_all add: list_rocks_def mem_empty_def answer_waiting_def add_waiting_def get_or_def Let_def)

end
