(* ===== verification/F64.thy ===== *)
theory F64
  imports Complex_Main "HOL-Library.Log_Nat"
begin

text \<open>
  Rust's \<open>f64\<close>: IEEE 754 binary64 with rounding to nearest, ties to even. A finite value is
  the rational number it denotes. The sign of a zero is not kept: it shows only in a division
  by zero, and the code modelled here divides by zero nowhere.
\<close>

datatype f64 = NaN | Inf bool | Fin rat

definition pow2 :: "int \<Rightarrow> rat" where
  "pow2 e = (if 0 \<le> e then 2 ^ nat e else 1 / 2 ^ nat (- e))"

text \<open>Rounding to an integer, ties to even.\<close>

definition rne :: "rat \<Rightarrow> int" where
  "rne q = (let f = \<lfloor>q\<rfloor>; d = q - of_int f in
     if d < 1 / 2 then f else if 1 / 2 < d then f + 1 else if even f then f else f + 1)"

text \<open>The exponent \<open>e\<close> with \<open>2\<^sup>e \<le> |x| < 2\<^sup>e\<^sup>+\<^sup>1\<close> of a number other than zero.\<close>

definition ilog2 :: "rat \<Rightarrow> int" where
  "ilog2 x = (let (n, d) = quotient_of \<bar>x\<bar>;
                  e = int (floorlog 2 (nat n)) - int (floorlog 2 (nat d))
              in if pow2 e \<le> \<bar>x\<bar> then e else e - 1)"

definition round64 :: "rat \<Rightarrow> f64" where
  "round64 x =
     (if x = 0 then Fin 0
      else let e = max (ilog2 x - 52) (- 1074);
               r = of_int (rne (x / pow2 e)) * pow2 e
           in if pow2 1024 \<le> \<bar>r\<bar> then Inf (x < 0) else Fin r)"

definition f_of_nat :: "nat \<Rightarrow> f64" where
  "f_of_nat n = round64 (of_nat n)"

fun f_neg :: "f64 \<Rightarrow> f64" where
  "f_neg NaN = NaN"
| "f_neg (Inf s) = Inf (\<not> s)"
| "f_neg (Fin a) = Fin (- a)"

fun f_add :: "f64 \<Rightarrow> f64 \<Rightarrow> f64" where
  "f_add (Fin a) (Fin b) = round64 (a + b)"
| "f_add (Inf s) (Inf t) = (if s = t then Inf s else NaN)"
| "f_add (Inf s) (Fin b) = Inf s"
| "f_add (Fin a) (Inf t) = Inf t"
| "f_add _ _ = NaN"

definition f_sub :: "f64 \<Rightarrow> f64 \<Rightarrow> f64" where
  "f_sub a b = f_add a (f_neg b)"

fun f_mul :: "f64 \<Rightarrow> f64 \<Rightarrow> f64" where
  "f_mul (Fin a) (Fin b) = round64 (a * b)"
| "f_mul (Inf s) (Inf t) = Inf (s \<noteq> t)"
| "f_mul (Inf s) (Fin b) = (if b = 0 then NaN else Inf (s \<noteq> (b < 0)))"
| "f_mul (Fin a) (Inf t) = (if a = 0 then NaN else Inf (t \<noteq> (a < 0)))"
| "f_mul _ _ = NaN"

fun f_div :: "f64 \<Rightarrow> f64 \<Rightarrow> f64" where
  "f_div (Fin a) (Fin b) = (if b = 0 then if a = 0 then NaN else Inf (a < 0) else round64 (a / b))"
| "f_div (Inf s) (Fin b) = Inf (s \<noteq> (b < 0))"
| "f_div (Fin a) (Inf t) = Fin 0"
| "f_div _ _ = NaN"

fun f_le :: "f64 \<Rightarrow> f64 \<Rightarrow> bool" where
  "f_le (Fin a) (Fin b) = (a \<le> b)"
| "f_le (Inf s) (Inf t) = (s \<or> \<not> t)"
| "f_le (Inf s) (Fin b) = s"
| "f_le (Fin a) (Inf t) = (\<not> t)"
| "f_le _ _ = False"

definition f_lt :: "f64 \<Rightarrow> f64 \<Rightarrow> bool" where
  "f_lt a b \<longleftrightarrow> f_le a b \<and> \<not> f_le b a"

definition f_max :: "f64 \<Rightarrow> f64 \<Rightarrow> f64" where
  "f_max a b = (if a = NaN then b else if b = NaN then a else if f_le a b then b else a)"

definition f_min :: "f64 \<Rightarrow> f64 \<Rightarrow> f64" where
  "f_min a b = (if a = NaN then b else if b = NaN then a else if f_le a b then a else b)"

subsection \<open>Laws\<close>

lemma pow2_pos [simp]: "0 < pow2 e"
  by (simp add: pow2_def)

lemma pow2_add: "pow2 (a + b) = pow2 a * pow2 b"
proof (cases "0 \<le> a"; cases "0 \<le> b"; cases "0 \<le> a + b")
qed (auto simp: pow2_def nat_add_distrib power_add field_simps simp flip: power_add nat_add_distrib)

lemma rne_of_int [simp]: "rne (of_int n) = n"
  by (simp add: rne_def)

lemma rne_nonneg: "0 \<le> q \<Longrightarrow> 0 \<le> rne q"
  by (auto simp: rne_def Let_def)

lemma round64_0 [simp]: "round64 0 = Fin 0"
  by (simp add: round64_def)

lemma f_le_refl: "a \<noteq> NaN \<Longrightarrow> f_le a a"
  by (cases a) auto

lemma f_le_total: "a \<noteq> NaN \<Longrightarrow> b \<noteq> NaN \<Longrightarrow> f_le a b \<or> f_le b a"
  by (cases a; cases b) auto

lemma f_le_trans: "f_le a b \<Longrightarrow> f_le b c \<Longrightarrow> f_le a c"
  by (cases a; cases b; cases c) auto

lemma f_le_NaN [simp]: "\<not> f_le NaN a" "\<not> f_le a NaN"
  by (cases a; simp)+

lemma round64_nonneg: "0 \<le> x \<Longrightarrow> f_le (Fin 0) (round64 x)"
  by (auto simp: round64_def Let_def rne_nonneg zero_le_mult_iff zero_le_divide_iff less_imp_le)

lemma round64_not_NaN [simp]: "round64 x \<noteq> NaN"
  by (simp add: round64_def Let_def)

text \<open>A difference is not negative when the subtrahend is not greater.\<close>

lemma f_sub_nonneg: "f_le b a \<Longrightarrow> a \<noteq> b \<or> a = Fin x \<Longrightarrow> f_le (Fin 0) (f_sub a b)"
  by (cases a; cases b) (auto simp: f_sub_def round64_nonneg)

subsection \<open>Exact results\<close>

lemma pow2_diff: "pow2 (int a - int b) = 2 ^ a / 2 ^ b"
proof -
  have "pow2 (int a) = pow2 (int a - int b) * pow2 (int b)"
    by (simp flip: pow2_add)
  then show ?thesis by (simp add: pow2_def field_simps)
qed

lemma pow2_less: "a < b \<Longrightarrow> pow2 a < pow2 b"
proof -
  assume "a < b"
  then obtain n where b: "b = a + int (Suc n)" using zless_iff_Suc_zadd by blast
  have "pow2 (int (Suc n)) = 2 ^ Suc n" by (simp add: pow2_def nat_add_distrib)
  moreover have "(1::rat) < 2 ^ Suc n" by (rule one_less_power) simp_all
  ultimately have "1 < pow2 (int (Suc n))" by simp
  then show ?thesis unfolding b pow2_add by simp
qed

lemma pow2_less_iff: "pow2 a < pow2 b \<longleftrightarrow> a < b"
  using pow2_less [of a b] pow2_less [of b a] by (cases a b rule: linorder_cases) auto

lemma ilog2_le:
  assumes "x \<noteq> 0"
  shows "pow2 (ilog2 x) \<le> \<bar>x\<bar>"
proof -
  obtain n d where q: "quotient_of \<bar>x\<bar> = (n, d)" by (cases "quotient_of \<bar>x\<bar>")
  have d: "0 < d" using quotient_of_denom_pos [OF q] .
  have x: "\<bar>x\<bar> = of_int n / of_int d" using quotient_of_div [OF q] .
  then have n: "0 < n" using assms d by (metis of_int_0_less_iff zero_less_abs_iff zero_less_divide_iff order.asym)
  let ?L = "floorlog 2 (nat n)" and ?M = "floorlog 2 (nat d)"
  have lo: "2 ^ (?L - 1) \<le> nat n" and "0 < ?L"
    using floorlog_bounds [of "nat n" 2] n by (auto simp: floorlog_def)
  have hi: "nat d \<le> 2 ^ ?M" using floorlog_bounds [of "nat d" 2] d by auto
  have "of_nat (2 ^ (?L - 1)) \<le> (of_nat (nat n) :: rat)" "(of_nat (nat d) :: rat) \<le> of_nat (2 ^ ?M)"
    using lo hi by (simp_all only: of_nat_le_iff)
  then have b: "(2::rat) ^ (?L - 1) \<le> of_int n" "of_int d \<le> (2::rat) ^ ?M"
    unfolding of_nat_nat [OF less_imp_le [OF n]] of_nat_nat [OF less_imp_le [OF d]]
    by (simp_all only: of_nat_power of_nat_numeral)
  have "pow2 (int ?L - int ?M - 1) = 2 ^ (?L - 1) / 2 ^ ?M"
    using \<open>0 < ?L\<close> pow2_diff [of "?L - 1" ?M] by (simp add: of_nat_diff algebra_simps)
  also have "\<dots> \<le> of_int n / of_int d" using b d less_imp_le [OF n] by (intro frac_le) auto
  finally have "pow2 (int ?L - int ?M - 1) \<le> \<bar>x\<bar>" unfolding x .
  then show ?thesis by (auto simp: ilog2_def q Let_def)
qed

text \<open>A number with at most 53 significant bits is its own rounding.\<close>

lemma round64_exact:
  assumes x: "x = of_int m * pow2 k" and m: "\<bar>m\<bar> < 2 ^ 53" and k: "-1074 \<le> k" "k \<le> 970"
  shows "round64 x = Fin x"
proof (cases "x = 0")
  case False
  have ax: "\<bar>x\<bar> = of_int \<bar>m\<bar> * pow2 k" by (simp add: x abs_mult less_imp_le)
  have "(of_int \<bar>m\<bar> :: rat) < of_int (2 ^ 53)" using m by (simp only: of_int_less_iff)
  then have "of_int \<bar>m\<bar> < pow2 53" by (simp add: pow2_def)
  then have lt: "\<bar>x\<bar> < pow2 (53 + k)" unfolding ax pow2_add by simp
  then have "pow2 (ilog2 x) < pow2 (53 + k)" using ilog2_le [OF False] by linarith
  then have le: "ilog2 x - 52 \<le> k" by (simp add: pow2_less_iff)
  let ?e = "max (ilog2 x - 52) (-1074)"
  have e: "?e \<le> k" using le k(1) by simp
  have "pow2 k = pow2 (k - ?e) * pow2 ?e" by (simp flip: pow2_add)
  then have "x = of_int m * pow2 (k - ?e) * pow2 ?e" unfolding x by simp
  then have "x / pow2 ?e = of_int m * pow2 (k - ?e)"
    using pow2_pos [of ?e] by (metis nonzero_eq_divide_eq less_irrefl)
  also have "\<dots> = of_int (m * 2 ^ nat (k - ?e))" using e by (simp add: pow2_def)
  finally have r: "of_int (rne (x / pow2 ?e)) * pow2 ?e = x"
    using pow2_pos [of ?e] by (metis rne_of_int nonzero_eq_divide_eq less_irrefl)
  have "pow2 (53 + k) \<le> pow2 1024" using k(2) pow2_less_iff [of 1024 "53 + k"] by linarith
  then have "\<not> pow2 1024 \<le> \<bar>x\<bar>" using lt by linarith
  then show ?thesis using False r by (simp add: round64_def Let_def)
qed simp

lemma round64_int: "\<bar>m\<bar> < 2 ^ 53 \<Longrightarrow> round64 (of_int m) = Fin (of_int m)"
  using round64_exact [of "of_int m" m 0] by (simp add: pow2_def)

lemma f_of_nat_exact: "n < 2 ^ 53 \<Longrightarrow> f_of_nat n = Fin (of_nat n)"
  using round64_int [of "int n"] by (simp add: f_of_nat_def)

lemma f_of_nat_nonneg: "f_le (Fin 0) (f_of_nat n)"
  by (simp add: f_of_nat_def round64_nonneg)

lemma round64_numeral [simp]:
  "numeral n < (2 ^ 53 :: int) \<Longrightarrow> round64 (numeral n) = Fin (numeral n)"
  "numeral n < (2 ^ 53 :: int) \<Longrightarrow> round64 (- numeral n) = Fin (- numeral n)"
  "round64 1 = Fin 1" "round64 (- 1) = Fin (- 1)"
  using round64_int [of "numeral n"] round64_int [of "- numeral n"] round64_int [of 1] round64_int [of "-1"]
  by simp_all

subsection \<open>The rounding error\<close>

lemma rne_error: "\<bar>of_int (rne q) - q\<bar> \<le> 1 / 2"
proof -
  have "of_int \<lfloor>q\<rfloor> \<le> q" "q < of_int \<lfloor>q\<rfloor> + 1" by linarith+
  then show ?thesis by (auto simp: rne_def Let_def abs_le_iff)
qed

text \<open>Away from underflow and overflow, the relative error is at most one in \<open>2\<^sup>5\<^sup>3\<close>.\<close>

lemma round64_near:
  assumes "pow2 (- 1000) \<le> \<bar>x\<bar>" "\<bar>x\<bar> \<le> pow2 1000"
  shows "\<exists>r. round64 x = Fin r \<and> \<bar>r - x\<bar> \<le> \<bar>x\<bar> / 2 ^ 53"
proof -
  have x: "x \<noteq> 0"
  proof
    assume "x = 0"
    then show False using assms(1) pow2_pos [of "- 1000"] by (simp del: pow2_pos)
  qed
  let ?e = "max (ilog2 x - 52) (- 1074)"
  let ?r = "of_int (rne (x / pow2 ?e)) * pow2 ?e"
  have shift: "pow2 (k - 52) = pow2 k / 2 ^ 52" for k
    using pow2_add [of "k - 52" 52] by (simp add: pow2_def [of 52])
  have "pow2 ?e \<le> \<bar>x\<bar> / 2 ^ 52"
  proof (cases "ilog2 x - 52 \<le> - 1074")
    case True
    then have "pow2 ?e = pow2 (- 1074)" by simp
    also have "\<dots> \<le> pow2 (- 1000 - 52)" using pow2_less [of "- 1074" "- 1052"] by simp
    also have "\<dots> \<le> \<bar>x\<bar> / 2 ^ 52" unfolding shift using assms(1) by (rule divide_right_mono) simp
    finally show ?thesis .
  next
    case False
    then have "pow2 ?e = pow2 (ilog2 x) / 2 ^ 52" by (simp add: shift)
    then show ?thesis using ilog2_le [OF x] by (simp add: divide_right_mono)
  qed
  moreover have "?r - x = (of_int (rne (x / pow2 ?e)) - x / pow2 ?e) * pow2 ?e"
    using less_imp_neq [OF pow2_pos [of ?e]] by (simp add: left_diff_distrib)
  then have "\<bar>?r - x\<bar> = \<bar>of_int (rne (x / pow2 ?e)) - x / pow2 ?e\<bar> * pow2 ?e"
    using less_imp_le [OF pow2_pos [of ?e]] by (simp only: abs_mult abs_of_nonneg)
  then have "\<bar>?r - x\<bar> \<le> 1 / 2 * pow2 ?e"
    using rne_error [of "x / pow2 ?e"] less_imp_le [OF pow2_pos [of ?e]] by (metis mult_right_mono)
  ultimately have close: "\<bar>?r - x\<bar> \<le> \<bar>x\<bar> / 2 ^ 53" by simp
  have "\<bar>x\<bar> / 2 ^ 53 \<le> \<bar>x\<bar>" by (simp add: divide_le_eq)
  with close have "\<bar>?r\<bar> \<le> 2 * \<bar>x\<bar>" by linarith
  also have "\<dots> \<le> pow2 1001" using assms(2) pow2_add [of 1 1000] by (simp add: pow2_def)
  also have "\<dots> < pow2 1024" by (rule pow2_less) simp
  finally have "\<not> pow2 1024 \<le> \<bar>?r\<bar>" by simp
  then have "round64 x = Fin ?r" using x by (simp add: round64_def Let_def)
  with close show ?thesis by blast
qed

lemma round64_close:
  assumes "pow2 (- 1000) \<le> \<bar>x\<bar>" "\<bar>x\<bar> \<le> pow2 1000"
  shows "\<exists>r. round64 x = Fin r \<and> \<bar>r - x\<bar> \<le> \<bar>x\<bar> / 2"
proof -
  have "\<bar>x\<bar> / 2 ^ 53 \<le> \<bar>x\<bar> / 2" by (rule divide_left_mono) simp_all
  then show ?thesis using round64_near [OF assms] by fastforce
qed

text \<open>A value from \<open>2\<^sup>-\<^sup>k\<close> to \<open>2\<^sup>k\<close>, or zero.\<close>

definition pos_range64 :: "nat \<Rightarrow> f64 \<Rightarrow> bool" where
  "pos_range64 k x \<longleftrightarrow> (\<exists>q. x = Fin q \<and> 1 / 2 ^ k \<le> q \<and> q \<le> 2 ^ k)"

definition in_range64 :: "nat \<Rightarrow> f64 \<Rightarrow> bool" where
  "in_range64 k x \<longleftrightarrow> (\<exists>q. x = Fin q \<and> (q = 0 \<or> (1 / 2 ^ k \<le> q \<and> q \<le> 2 ^ k)))"

lemma in_range64_iff: "in_range64 k x \<longleftrightarrow> x = Fin 0 \<or> pos_range64 k x"
  by (auto simp: in_range64_def pos_range64_def)

lemma pos_range64_nonzero: "pos_range64 k x \<Longrightarrow> x \<noteq> Fin 0"
  by (auto simp: pos_range64_def)

lemma pos_range64_round:
  assumes q: "1 / 2 ^ k \<le> q" "q \<le> 2 ^ k" and "k < 1000"
  shows "pos_range64 (Suc k) (round64 q)"
proof -
  have "(0::rat) < 1 / 2 ^ k" by simp
  with q(1) have pos: "0 < q" by linarith
  have "pow2 (int k) \<le> pow2 1000" "pow2 (- 1000) \<le> pow2 (- int k)"
    using assms(3) pow2_less_iff [of 1000 "int k"] pow2_less_iff [of "- int k" "- 1000"] by linarith+
  then have "pow2 (- 1000) \<le> 1 / 2 ^ k" "2 ^ k \<le> pow2 1000"
    using pow2_diff [of 0 k] pow2_diff [of k 0] by simp_all
  then obtain r where r: "round64 q = Fin r" "\<bar>r - q\<bar> \<le> q / 2"
    using round64_close [of q] q pos by auto
  then have b: "q / 2 \<le> r" "r \<le> 2 * q" using pos by linarith+
  have "(1 / 2 ^ Suc k :: rat) \<le> q / 2" using q(1) by simp
  moreover have "2 * q \<le> 2 ^ Suc k" using q(2) by simp
  ultimately have "1 / 2 ^ Suc k \<le> r" "r \<le> 2 ^ Suc k" using b by (blast intro: order_trans)+
  then show ?thesis using r(1) by (simp add: pos_range64_def)
qed

lemma in_range64_round:
  assumes "q = 0 \<or> (1 / 2 ^ k \<le> q \<and> q \<le> 2 ^ k)" "k < 1000"
  shows "in_range64 (Suc k) (round64 q)"
  using assms pos_range64_round by (auto simp: in_range64_iff)

lemma in_range64_mono: "in_range64 j x \<Longrightarrow> j \<le> k \<Longrightarrow> in_range64 k x"
proof -
  assume r: "in_range64 j x" and "j \<le> k"
  then have "(2::rat) ^ j \<le> 2 ^ k" "1 / (2::rat) ^ k \<le> 1 / 2 ^ j"
    by (simp_all add: power_increasing frac_le)
  moreover obtain q where "x = Fin q" "q = 0 \<or> (1 / 2 ^ j \<le> q \<and> q \<le> 2 ^ j)"
    using r by (auto simp: in_range64_def)
  ultimately show ?thesis unfolding in_range64_def by (intro exI [of _ q]) linarith
qed

lemma pos_range64_of_nat:
  assumes "0 < n" "n < 2 ^ k" "k < 1000"
  shows "pos_range64 (Suc k) (f_of_nat n)"
proof -
  have "1 \<le> (of_nat n :: rat)" using assms(1) by simp
  moreover have "1 / 2 ^ k \<le> (1 :: rat)" by simp
  ultimately have "1 / 2 ^ k \<le> (of_nat n :: rat)" by linarith
  moreover have "(of_nat n :: rat) \<le> of_nat (2 ^ k)" using assms(2) by (simp only: of_nat_le_iff)
  then have "(of_nat n :: rat) \<le> 2 ^ k" by simp
  ultimately show ?thesis unfolding f_of_nat_def using assms(3) by (rule pos_range64_round)
qed

lemma in_range64_of_nat: "n < 2 ^ k \<Longrightarrow> k < 1000 \<Longrightarrow> in_range64 (Suc k) (f_of_nat n)"
  using pos_range64_of_nat [of n k] by (cases "n = 0") (simp_all add: in_range64_iff f_of_nat_def)

lemma in_range64_mul:
  assumes "in_range64 j x" "in_range64 k y" "j + k < 1000"
  shows "in_range64 (Suc (j + k)) (f_mul x y)"
proof -
  obtain a b where ab: "x = Fin a" "y = Fin b" "a = 0 \<or> (1 / 2 ^ j \<le> a \<and> a \<le> 2 ^ j)"
    "b = 0 \<or> (1 / 2 ^ k \<le> b \<and> b \<le> 2 ^ k)" using assms(1,2) by (auto simp: in_range64_def)
  have "a * b = 0 \<or> (1 / 2 ^ (j + k) \<le> a * b \<and> a * b \<le> 2 ^ (j + k))"
  proof (cases "a = 0 \<or> b = 0")
    case False
    then have "1 / 2 ^ j \<le> a" "a \<le> 2 ^ j" "1 / 2 ^ k \<le> b" "b \<le> 2 ^ k" using ab by auto
    moreover have "(0::rat) < 1 / 2 ^ j" "(0::rat) < 1 / 2 ^ k" by simp_all
    ultimately have "0 \<le> a" "0 \<le> b" by linarith+
    then have "(1 / 2 ^ j) * (1 / 2 ^ k) \<le> a * b" "a * b \<le> 2 ^ j * 2 ^ k"
      using \<open>1 / 2 ^ j \<le> a\<close> \<open>a \<le> 2 ^ j\<close> \<open>1 / 2 ^ k \<le> b\<close> \<open>b \<le> 2 ^ k\<close> by (intro mult_mono; simp)+
    then show ?thesis by (simp add: power_add)
  qed auto
  then show ?thesis using ab(1,2) in_range64_round [OF _ assms(3)] by simp
qed

lemma pos_range64_div:
  assumes "pos_range64 j x" "pos_range64 k y" "j + k < 1000"
  shows "pos_range64 (Suc (j + k)) (f_div x y)"
proof -
  obtain a b where ab: "x = Fin a" "y = Fin b" and a: "1 / 2 ^ j \<le> a" "a \<le> 2 ^ j"
    and b: "1 / 2 ^ k \<le> b" "b \<le> 2 ^ k" using assms(1,2) by (auto simp: pos_range64_def)
  have "(0::rat) < 1 / 2 ^ j" "(0::rat) < 1 / 2 ^ k" by simp_all
  then have pos: "0 \<le> a" "0 < b" using a(1) b(1) by linarith+
  have "(1 / 2 ^ j) / 2 ^ k \<le> a / b" using a(1) b(2) pos by (intro frac_le) auto
  moreover have "a / b \<le> 2 ^ j / (1 / 2 ^ k)" using a(2) b(1) by (intro frac_le) auto
  ultimately have "1 / 2 ^ (j + k) \<le> a / b" "a / b \<le> 2 ^ (j + k)" by (simp_all add: power_add)
  then show ?thesis using ab pos(2) pos_range64_round [OF _ _ assms(3)] by simp
qed

lemma in_range64_div:
  assumes "in_range64 j x" "pos_range64 k y" "j + k < 1000"
  shows "in_range64 (Suc (j + k)) (f_div x y)"
proof (cases "x = Fin 0")
  case True
  then show ?thesis using assms(2) by (auto simp: pos_range64_def in_range64_iff)
next
  case False
  then show ?thesis using assms pos_range64_div [of j x k y] by (auto simp: in_range64_iff)
qed

lemma in_range64_finite: "in_range64 k x \<Longrightarrow> x \<noteq> Inf s"
  by (auto simp: in_range64_def)

end
