(* ===== verification/Load_Tracking.thy ===== *)
theory Load_Tracking
  imports Messages F64
begin

text \<open>
  \<^verbatim>\<open>consensus/src/lib.rs\<close>, the trackers of the load balancer: the throughput and the queue
  delay of each validator, and the transactions of each account, over a window of rounds.
  \<open>None\<close> is a panic.
\<close>

definition TRACKING_WINDOW :: round where "TRACKING_WINDOW = 30"
definition REROUTE_INTERVAL :: round where "REROUTE_INTERVAL = 60"

record throughput_tracker =
  t_rounds :: "(round, (public_key, nat \<times> nat) hmap) hmap"
  quorum_stats :: "(round, (public_key, nat) hmap) hmap"
  window_rounds :: round

definition throughput_new :: "round \<Rightarrow> throughput_tracker" where
  "throughput_new w = \<lparr>t_rounds = [], quorum_stats = [], window_rounds = w\<rparr>"

definition throughput_record :: "certificate \<Rightarrow> throughput_tracker \<Rightarrow> throughput_tracker" where
  "throughput_record c t =
     (let h = c_header c;
          tx_count = wsum 64 (vals (h_account_counts h))
      in t\<lparr>t_rounds := upsert [] (c_round c) (AList.update (c_origin c) (h_created_at h, tx_count)) (t_rounds t),
           quorum_stats := upsert [] (c_round c) (AList.update (c_origin c) (h_avg_queue_delay_ms h))
             (quorum_stats t)\<rparr>)"

definition throughput_evict :: "round \<Rightarrow> throughput_tracker \<Rightarrow> throughput_tracker" where
  "throughput_evict m t = t\<lparr>t_rounds := retain (\<lambda>r _. m \<le> r) (t_rounds t),
     quorum_stats := retain (\<lambda>r _. m \<le> r) (quorum_stats t)\<rparr>"

text \<open>\<open>stable_round.saturating_sub(window)\<close>, and the rounds of a map between it and
  \<open>stable_round\<close> (\<open>sr\<close>).\<close>

definition in_window :: "round \<Rightarrow> round \<Rightarrow> round \<Rightarrow> bool" where
  "in_window window sr r \<longleftrightarrow> \<not> (r < sr - window \<or> sr < r)"

definition windowed :: "round \<Rightarrow> round \<Rightarrow> (round, 'v) hmap \<Rightarrow> 'v list" where
  "windowed window sr m = map snd (filter (\<lambda>(r, _). in_window window sr r) m)"

definition get_avg_queue_delays :: "throughput_tracker \<Rightarrow> round \<Rightarrow> (public_key, nat list) hmap" where
  "get_avg_queue_delays t sr =
     fold (fold (\<lambda>(pk, delay). upsert [] pk (\<lambda>ds. ds @ [delay])))
       (windowed (window_rounds t) sr (quorum_stats t)) []"

definition avg_queue_delay :: "throughput_tracker \<Rightarrow> round \<Rightarrow> (public_key, f64) hmap" where
  "avg_queue_delay t sr =
     map (\<lambda>(pk, ms). (pk, f_div (f_of_nat (wsum 64 ms)) (f_of_nat (length ms))))
       (filter (\<lambda>(_, ms). ms \<noteq> []) (get_avg_queue_delays t sr))"

definition median_ts :: "(public_key, nat \<times> nat) hmap \<Rightarrow> nat option" where
  "median_ts validators =
     (let ts = sort (map fst (vals validators)); n = length ts
      in if n = 0 then None
         else if n mod 2 = 1 then Some (ts ! (n div 2))
         else Some (wadd 64 (ts ! (n div 2 - 1)) (ts ! (n div 2)) div 2))"

text \<open>\<open>Some None\<close> is the \<open>None\<close> of the code.\<close>

definition round_timestamp_ms :: "throughput_tracker \<Rightarrow> round \<Rightarrow> nat option option" where
  "round_timestamp_ms t r =
     (case map_of (t_rounds t) r of None \<Rightarrow> Some None | Some v \<Rightarrow> map_option Some (median_ts v))"

definition tps_totals :: "throughput_tracker \<Rightarrow> round \<Rightarrow> (public_key, nat) hmap" where
  "tps_totals t sr =
     fold (fold (\<lambda>(pk, _, n). upsert 0 pk (\<lambda>x. wadd 64 x n)))
       (windowed (window_rounds t) sr (t_rounds t)) []"

definition min_round_in_window :: "throughput_tracker \<Rightarrow> round \<Rightarrow> round option" where
  "min_round_in_window t sr =
     (case filter (in_window (window_rounds t) sr) (keys (t_rounds t)) of
        [] \<Rightarrow> None
      | r # rs \<Rightarrow> Some (fold min rs r))"

definition get_tps :: "throughput_tracker \<Rightarrow> round \<Rightarrow> (public_key, f64) hmap option option" where
  "get_tps t sr =
     (let totals = tps_totals t sr
      in if totals = [] then Some None
         else Option.bind (min_round_in_window t sr) (\<lambda>first.
              Option.bind (Option.bind (map_of (t_rounds t) first) median_ts) (\<lambda>start_ts.
              Option.bind (Option.bind (map_of (t_rounds t) sr) median_ts) (\<lambda>end_ts.
                let duration_ms = end_ts - start_ts
                in if duration_ms = 0 then Some None
                   else let secs = f_div (f_of_nat duration_ms) (f_of_nat 1000)
                        in Some (Some (map (\<lambda>(pk, n). (pk, f_div (f_of_nat n) secs)) totals))))))"

record account_tracker =
  at_dag :: "(round, (public_key, (nat, nat) hmap \<times> nat) hmap) hmap"
  max_round_seen :: round

definition account_tracker_new :: account_tracker where
  "account_tracker_new = \<lparr>at_dag = [], max_round_seen = 0\<rparr>"

definition account_record :: "certificate \<Rightarrow> account_tracker \<Rightarrow> account_tracker" where
  "account_record c t = t\<lparr>max_round_seen := max (max_round_seen t) (c_round c),
     at_dag := upsert [] (c_round c)
       (AList.update (c_origin c) (h_account_counts (c_header c), h_created_at (c_header c))) (at_dag t)\<rparr>"

definition per_validator_account_counts ::
    "account_tracker \<Rightarrow> round \<Rightarrow> round \<Rightarrow> (public_key, (nat, nat) hmap) hmap" where
  "per_validator_account_counts t sr window =
     fold (fold (\<lambda>(pk, counts, _). upsert [] pk
              (fold (\<lambda>(acct, n). upsert 0 acct (\<lambda>x. wadd 64 x n)) counts)))
       (windowed window sr (at_dag t)) []"

definition account_evict :: "round \<Rightarrow> account_tracker \<Rightarrow> account_tracker" where
  "account_evict m t = t\<lparr>at_dag := retain (\<lambda>r _. m \<le> r) (at_dag t)\<rparr>"

subsection \<open>Eviction\<close>

text \<open>The rounds evicted are never in a later window.\<close>

lemma windowed_retain:
  assumes "m \<le> sr - window"
  shows "windowed window sr (retain (\<lambda>r _. m \<le> r) xs) = windowed window sr xs"
  using assms by (induction xs) (auto simp: windowed_def retain_def in_window_def)

lemma map_of_evict: "m \<le> r \<Longrightarrow> map_of (retain (\<lambda>r _. m \<le> r) xs) r = map_of xs r"
  by (simp add: map_of_retain_key)

lemma min_round_evict:
  assumes "m \<le> sr - window_rounds t"
  shows "min_round_in_window (throughput_evict m t) sr = min_round_in_window t sr"
proof -
  have "filter (in_window w sr) (keys (retain (\<lambda>r _. m \<le> r) xs)) = filter (in_window w sr) (keys xs)"
    if "m \<le> sr - w" for w and xs :: "(round, (public_key, nat \<times> nat) hmap) hmap"
    using that by (induction xs) (auto simp: keys_def retain_def in_window_def)
  then show ?thesis using assms by (simp add: min_round_in_window_def throughput_evict_def)
qed

lemma min_round_in_window_ge: "min_round_in_window t sr = Some r \<Longrightarrow> sr - window_rounds t \<le> r"
proof -
  have "\<forall>r\<in>set (r # rs). m \<le> r \<Longrightarrow> m \<le> fold min rs r" for m r :: nat and rs
    by (induction rs arbitrary: r) auto
  moreover assume "min_round_in_window t sr = Some r"
  then obtain x xs where f: "filter (in_window (window_rounds t) sr) (keys (t_rounds t)) = x # xs"
    and r: "r = fold min xs x" by (auto simp: min_round_in_window_def split: list.splits)
  moreover have "\<forall>y\<in>set (x # xs). sr - window_rounds t \<le> y"
    unfolding f [symmetric] by (auto simp: in_window_def)
  ultimately show ?thesis by blast
qed

lemma get_tps_evict:
  assumes "m \<le> sr - window_rounds t"
  shows "get_tps (throughput_evict m t) sr = get_tps t sr"
proof -
  have totals: "tps_totals (throughput_evict m t) sr = tps_totals t sr"
    by (simp add: windowed_retain [OF assms] tps_totals_def throughput_evict_def)
  have at: "map_of (t_rounds (throughput_evict m t)) r = map_of (t_rounds t) r"
    if "sr - window_rounds t \<le> r" for r
    using that assms by (simp add: throughput_evict_def map_of_evict)
  show ?thesis
    unfolding get_tps_def totals min_round_evict [OF assms]
    using at min_round_in_window_ge
    by (cases "min_round_in_window t sr") (simp_all add: Let_def)
qed

lemma avg_queue_delay_evict:
  assumes "m \<le> sr - window_rounds t"
  shows "avg_queue_delay (throughput_evict m t) sr = avg_queue_delay t sr"
  by (simp add: windowed_retain [OF assms] avg_queue_delay_def get_avg_queue_delays_def throughput_evict_def)

lemma account_counts_evict:
  assumes "m \<le> sr - window"
  shows "per_validator_account_counts (account_evict m t) sr window = per_validator_account_counts t sr window"
  by (simp add: windowed_retain [OF assms] per_validator_account_counts_def account_evict_def)

end
