(* ===== verification/Rerouting.thy ===== *)
theory Rerouting
  imports Load_Tracking
begin

text \<open>
  \<^verbatim>\<open>consensus/src/lib.rs\<close>, \<open>compute_rerouting\<close>: which accounts of overloaded validators
  (donors) move to which validators with spare capacity (receivers). A set of accounts is the
  list of its elements in the order in which the program iterates over it. \<open>None\<close> is a panic.
\<close>

definition MIN_DONOR_QD_MS :: f64 where "MIN_DONOR_QD_MS = Fin 30"
definition SHED_CAP_MULTIPLIER :: f64 where "SHED_CAP_MULTIPLIER = Fin 4"

type_synonym assignments = "nat list list"

record reroute_input =
  rr_tps :: "(public_key, f64) hmap"
  rr_capacities :: "(public_key, nat) hmap"
  rr_avg_qd :: "(public_key, f64) hmap"
  rr_latency :: "(nat, (public_key, nat) hmap) hmap"
  rr_counts :: "(public_key, (nat, nat) hmap) hmap"
  rr_keys :: "public_key list"
  rr_f :: nat
  rr_last_migrated :: "(nat, round) hmap"
  rr_round :: round
  rr_prev_qd :: "(public_key, f64) hmap"
  rr_delta_t :: f64

text \<open>Rust's stable \<open>sort_by\<close>, for the strict order of the comparison.\<close>

fun insert_by :: "('a \<Rightarrow> 'a \<Rightarrow> bool) \<Rightarrow> 'a \<Rightarrow> 'a list \<Rightarrow> 'a list" where
  "insert_by lt x [] = [x]"
| "insert_by lt x (y # ys) = (if lt y x then y # insert_by lt x ys else x # y # ys)"

definition sort_by :: "('a \<Rightarrow> 'a \<Rightarrow> bool) \<Rightarrow> 'a list \<Rightarrow> 'a list" where
  "sort_by lt xs = foldr (insert_by lt) xs []"

text \<open>\<open>partial_cmp(..).unwrap()\<close> panics as soon as a NaN is compared.\<close>

definition comparable :: "f64 list \<Rightarrow> bool" where
  "comparable xs \<longleftrightarrow> length xs < 2 \<or> NaN \<notin> set xs"

definition thresh_delay :: "(public_key, f64) hmap \<Rightarrow> f64 option" where
  "thresh_delay avg =
     (let ds = sort_by f_lt (vals avg)
      in if \<not> comparable (vals avg) \<or> ds = [] then None else Some (ds ! (length ds div 2)))"

definition is_donor :: "(public_key, f64) hmap \<Rightarrow> f64 \<Rightarrow> public_key \<Rightarrow> bool" where
  "is_donor avg thresh pk =
     (let qd = get_or (Fin 0) avg pk
      in f_le MIN_DONOR_QD_MS qd \<and> f_lt (f_mul (Fin 2) thresh) qd)"

text \<open>Donors by descending delay, then by key.\<close>

definition donors_of :: "reroute_input \<Rightarrow> f64 \<Rightarrow> public_key list" where
  "donors_of E thresh =
     sort_by (\<lambda>a b. let x = get_or (Fin 0) (rr_avg_qd E) a; y = get_or (Fin 0) (rr_avg_qd E) b
                in f_lt y x \<or> (\<not> f_lt x y \<and> a < b))
       (filter (is_donor (rr_avg_qd E) thresh) (rr_keys E))"

definition capacity_of :: "reroute_input \<Rightarrow> public_key \<Rightarrow> f64" where
  "capacity_of E pk = f_of_nat (get_or 0 (rr_capacities E) pk)"

definition tps_of :: "reroute_input \<Rightarrow> public_key \<Rightarrow> f64" where
  "tps_of E pk = get_or (Fin 0) (rr_tps E) pk"

definition spare_of :: "reroute_input \<Rightarrow> (public_key, f64) hmap" where
  "spare_of E = map (\<lambda>pk. (pk, f_sub (capacity_of E pk) (tps_of E pk))) (rr_keys E)"

definition receivers_of :: "reroute_input \<Rightarrow> f64 \<Rightarrow> public_key list" where
  "receivers_of E thresh =
     filter (\<lambda>pk. \<not> is_donor (rr_avg_qd E) thresh pk \<and> f_lt (Fin 0) (get_or NaN (spare_of E) pk)
               \<and> mem_key (rr_tps E) pk) (rr_keys E)"

definition index_of :: "'a list \<Rightarrow> 'a \<Rightarrow> nat" where
  "index_of xs x = length (takeWhile (\<lambda>y. y \<noteq> x) xs)"

subsection \<open>One donor\<close>

definition estimated_excess :: "reroute_input \<Rightarrow> public_key \<Rightarrow> f64" where
  "estimated_excess E pk =
     (let delta_w = f_div (f_sub (get_or (Fin 0) (rr_avg_qd E) pk) (get_or (Fin 0) (rr_prev_qd E) pk)) (Fin 1000)
      in if f_lt (Fin 0) (rr_delta_t E) then f_div (f_mul (tps_of E pk) delta_w) (rr_delta_t E) else Fin 0)"

definition structural_excess :: "reroute_input \<Rightarrow> public_key \<Rightarrow> f64" where
  "structural_excess E pk = f_max (f_sub (tps_of E pk) (capacity_of E pk)) (Fin 0)"

definition shed_target :: "reroute_input \<Rightarrow> public_key \<Rightarrow> f64" where
  "shed_target E pk =
     f_min (f_max (estimated_excess E pk) (structural_excess E pk))
       (f_mul (structural_excess E pk) SHED_CAP_MULTIPLIER)"

definition incoming_scale :: "reroute_input \<Rightarrow> public_key \<Rightarrow> f64" where
  "incoming_scale E pk =
     f_div (f_add (tps_of E pk) (f_max (estimated_excess E pk) (Fin 0))) (tps_of E pk)"

definition acct_cap_load :: "reroute_input \<Rightarrow> public_key \<Rightarrow> nat list \<Rightarrow> nat \<Rightarrow> f64" where
  "acct_cap_load E pk accts acct =
     (let counts = get_or [] (rr_counts E) pk;
          total = wsum 64 (map (get_or 0 counts) accts)
      in if 0 < total
         then f_div (f_mul (tps_of E pk) (f_of_nat (get_or 0 counts acct))) (f_of_nat total)
         else Fin 0)"

definition cooling :: "reroute_input \<Rightarrow> nat \<Rightarrow> bool" where
  "cooling E acct =
     (case map_of (rr_last_migrated E) acct of
        None \<Rightarrow> False
      | Some r \<Rightarrow> rr_round E - r < REROUTE_INTERVAL * 2)"

definition latency_to :: "reroute_input \<Rightarrow> nat \<Rightarrow> public_key \<Rightarrow> nat" where
  "latency_to E acct pk =
     (case map_of (rr_latency E) acct of None \<Rightarrow> 2 ^ 64 - 1 | Some l \<Rightarrow> get_or (2 ^ 64 - 1) l pk)"

definition best_receiver :: "reroute_input \<Rightarrow> public_key list \<Rightarrow> (public_key, f64) hmap \<Rightarrow> nat \<Rightarrow> f64
    \<Rightarrow> public_key option" where
  "best_receiver E receivers spare acct load =
     (case filter (\<lambda>r. f_le load (get_or NaN spare r)) receivers of
        [] \<Rightarrow> None
      | r # rs \<Rightarrow>
          Some (fold (\<lambda>y x. if latency_to E acct y < latency_to E acct x \<or>
                       (latency_to E acct y = latency_to E acct x \<and>
                        f_lt (get_or NaN spare x) (get_or NaN spare y))
                    then y else x) rs r))"

record reroute_state =
  rs_migrations :: "migration_notice list"
  rs_assignments :: assignments
  rs_spare :: "(public_key, f64) hmap"

text \<open>An account leaves the set at one index and enters the set at another.\<close>

definition move_account :: "nat \<Rightarrow> nat \<Rightarrow> nat \<Rightarrow> assignments \<Rightarrow> assignments" where
  "move_account acct i j as =
     (let as' = as[i := removeAll acct (as ! i)] in as'[j := set_insert acct (as' ! j)])"

text \<open>The loop over the donor's accounts, heaviest first.\<close>

fun migrate_accounts :: "reroute_input \<Rightarrow> public_key list \<Rightarrow> nat \<Rightarrow> f64 \<Rightarrow> f64 \<Rightarrow> (nat \<Rightarrow> f64)
    \<Rightarrow> nat list \<Rightarrow> f64 \<Rightarrow> reroute_state \<Rightarrow> reroute_state option" where
  "migrate_accounts E receivers idx target scale load [] shed st = Some st"
| "migrate_accounts E receivers idx target scale load (acct # accts) shed st =
     (if f_le target shed then Some st
      else if cooling E acct then migrate_accounts E receivers idx target scale load accts shed st
      else if f_le (load acct) (Fin 0) then Some st
      else case best_receiver E receivers (rs_spare st) acct (load acct) of
             None \<Rightarrow> migrate_accounts E receivers idx target scale load accts shed st
           | Some r \<Rightarrow>
               (let j = index_of (rr_keys E) r
                in if length (rs_assignments st) \<le> j then None
                   else migrate_accounts E receivers idx target scale load accts
                     (f_add shed (f_mul (load acct) scale))
                     \<lparr>rs_migrations = rs_migrations st @ [\<lparr>account_id = acct, new_target = r\<rparr>],
                      rs_assignments = move_account acct idx j (rs_assignments st),
                      rs_spare = AList.update r (f_sub (get_or NaN (rs_spare st) r) (load acct)) (rs_spare st)\<rparr>))"

definition reroute_donor :: "reroute_input \<Rightarrow> public_key list \<Rightarrow> public_key \<Rightarrow> reroute_state \<Rightarrow> reroute_state option" where
  "reroute_donor E receivers donor st =
     (let idx = index_of (rr_keys E) donor
      in if length (rs_assignments st) \<le> idx then None
         else if f_le (tps_of E donor) (Fin 0) then Some st
         else let accts = rs_assignments st ! idx
              in if accts = [] then Some st
                 else if f_le (shed_target E donor) (Fin 0) then Some st
                 else let load = acct_cap_load E donor accts
                      in if \<not> comparable (map load accts) then None
                         else migrate_accounts E receivers idx (shed_target E donor) (incoming_scale E donor) load
                           (sort_by (\<lambda>a b. f_lt (load b) (load a) \<or> (\<not> f_lt (load a) (load b) \<and> a < b)) accts)
                           (Fin 0) st)"

fun reroute_donors :: "reroute_input \<Rightarrow> public_key list \<Rightarrow> public_key list \<Rightarrow> reroute_state \<Rightarrow> reroute_state option" where
  "reroute_donors E receivers [] st = Some st"
| "reroute_donors E receivers (d # ds) st =
     Option.bind (reroute_donor E receivers d st) (reroute_donors E receivers ds)"

definition compute_rerouting :: "reroute_input \<Rightarrow> assignments \<Rightarrow> (migration_notice list \<times> assignments) option" where
  "compute_rerouting E as =
     (if length (rr_avg_qd E) < 2 * rr_f E then Some ([], as)
      else if length as < length (rr_keys E) then None
      else case thresh_delay (rr_avg_qd E) of
             None \<Rightarrow> None
           | Some thresh \<Rightarrow>
               (let donors = donors_of E thresh; receivers = receivers_of E thresh
                in if donors = [] \<or> receivers = [] then Some ([], as)
                   else map_option (\<lambda>st. (rs_migrations st, rs_assignments st))
                     (reroute_donors E receivers donors
                        \<lparr>rs_migrations = [], rs_assignments = as, rs_spare = spare_of E\<rparr>)))"

end
