(* ===== verification/Rerouting_Props.thy ===== *)
theory Rerouting_Props
  imports Rerouting "HOL-Library.Multiset"
begin

text \<open>
  What a rerouting decision guarantees: accounts only move, none is lost or duplicated; they
  move from donors to receivers, which stay within their spare capacity.
\<close>

subsection \<open>Sorting and selecting\<close>

lemma set_insert_by [simp]: "set (insert_by lt x xs) = insert x (set xs)"
  by (induction xs) auto

lemma set_sort_by [simp]: "set (sort_by lt xs) = set xs"
  by (induction xs) (simp_all add: sort_by_def)

lemma mset_insert_by: "mset (insert_by lt x xs) = add_mset x (mset xs)"
  by (induction xs) auto

lemma mset_sort_by: "mset (sort_by lt xs) = mset xs"
  by (induction xs) (simp_all add: sort_by_def mset_insert_by)

lemma distinct_sort_by [simp]: "distinct (sort_by lt xs) = distinct xs"
  using mset_eq_imp_distinct_iff [OF mset_sort_by] .

lemma best_receiver_Some:
  assumes "best_receiver E receivers spare acct load = Some r"
  shows "r \<in> set receivers" "f_le load (get_or NaN spare r)"
proof -
  obtain x xs where f: "filter (\<lambda>r. f_le load (get_or NaN spare r)) receivers = x # xs"
    and r: "r = fold (\<lambda>y x. if latency_to E acct y < latency_to E acct x \<or>
                       (latency_to E acct y = latency_to E acct x \<and>
                        f_lt (get_or NaN spare x) (get_or NaN spare y))
                    then y else x) xs x"
    using assms by (auto simp: best_receiver_def split: list.splits)
  have keep: "fold (\<lambda>y x. if P y x then y else x) ys y \<in> set (y # ys)" for P and y :: public_key and ys
    by (induction ys arbitrary: y) auto
  have "r \<in> set (filter (\<lambda>r. f_le load (get_or NaN spare r)) receivers)"
    unfolding f r by (rule keep)
  then show "r \<in> set receivers" "f_le load (get_or NaN spare r)" by auto
qed

lemma index_of_nth: "x \<in> set xs \<Longrightarrow> index_of xs x < length xs \<and> xs ! index_of xs x = x"
  by (induction xs) (auto simp: index_of_def)

lemma index_of_inject: "x \<in> set xs \<Longrightarrow> y \<in> set xs \<Longrightarrow> index_of xs x = index_of xs y \<Longrightarrow> x = y"
  using index_of_nth by metis

subsection \<open>Who owns an account\<close>

definition owns :: "assignments \<Rightarrow> nat \<Rightarrow> nat \<Rightarrow> bool" where
  "owns as i a \<longleftrightarrow> i < length as \<and> a \<in> set (as ! i)"

text \<open>Every account is in one set, once.\<close>

definition exclusive :: "assignments \<Rightarrow> bool" where
  "exclusive as \<longleftrightarrow> (\<forall>xs\<in>set as. distinct xs) \<and> (\<forall>i j a. owns as i a \<longrightarrow> owns as j a \<longrightarrow> i = j)"

lemma length_move [simp]: "length (move_account a i j as) = length as"
  by (simp add: move_account_def Let_def)

lemma owns_move:
  assumes "i < length as" "j < length as" "i \<noteq> j"
  shows "owns (move_account a i j as) k b \<longleftrightarrow> (if b = a then k = j \<or> (k \<noteq> i \<and> owns as k a) else owns as k b)"
  using assms by (auto simp: owns_def move_account_def Let_def nth_list_update)

lemma exclusive_move:
  assumes "exclusive as" "i \<noteq> j" "owns as i a" "j < length as"
  shows "exclusive (move_account a i j as)"
proof -
  have i: "i < length as" using assms(3) by (simp add: owns_def)
  have d: "distinct xs" if "xs \<in> set (move_account a i j as)" for xs
  proof -
    obtain k where k: "k < length as" "xs = move_account a i j as ! k"
      using \<open>xs \<in> set _\<close> by (auto simp: in_set_conv_nth)
    have "distinct (as ! k)" if "k < length as" for k using assms(1) that by (simp add: exclusive_def)
    then show ?thesis using k i assms(4)
      by (auto simp: move_account_def Let_def nth_list_update distinct_removeAll)
  qed
  have "k = l" if "owns (move_account a i j as) k b" "owns (move_account a i j as) l b" for k l b
    using that assms(1,3) unfolding owns_move [OF i assms(4,2)] exclusive_def
    by (metis (no_types, lifting))
  with d show ?thesis unfolding exclusive_def by blast
qed

subsection \<open>The invariant of the loops\<close>

text \<open>\<open>D\<close> are the donors, \<open>R\<close> the receivers, \<open>as\<close> the assignment before.\<close>

definition reroute_inv :: "reroute_input \<Rightarrow> assignments \<Rightarrow> public_key set \<Rightarrow> public_key set \<Rightarrow> reroute_state \<Rightarrow> bool" where
  "reroute_inv E as D R st \<longleftrightarrow>
     exclusive (rs_assignments st) \<and> length (rs_assignments st) = length as
     \<and> (\<forall>a. (\<exists>i. owns (rs_assignments st) i a) \<longleftrightarrow> (\<exists>i. owns as i a))
     \<and> distinct (map account_id (rs_migrations st))
     \<and> (\<forall>m\<in>set (rs_migrations st). new_target m \<in> R
          \<and> owns (rs_assignments st) (index_of (rr_keys E) (new_target m)) (account_id m)
          \<and> \<not> cooling E (account_id m)
          \<and> (\<exists>d\<in>D. owns as (index_of (rr_keys E) d) (account_id m) \<and> \<not> f_le (shed_target E d) (Fin 0)))
     \<and> (\<forall>a. a \<notin> account_id ` set (rs_migrations st) \<longrightarrow> (\<forall>i. owns (rs_assignments st) i a = owns as i a))
     \<and> (\<forall>r\<in>R. f_le (Fin 0) (get_or NaN (rs_spare st) r))"

lemma reroute_inv_migrate:
  assumes inv: "reroute_inv E as D R st" and d: "d \<in> D" "\<not> f_le (shed_target E d) (Fin 0)" and r: "r \<in> R"
    and keys: "D \<subseteq> set (rr_keys E)" "R \<subseteq> set (rr_keys E)" "D \<inter> R = {}"
    and own: "owns (rs_assignments st) (index_of (rr_keys E) d) a" and cool: "\<not> cooling E a"
    and load: "f_le l (get_or NaN (rs_spare st) r)" "f_le (Fin 0) l" "l \<noteq> Inf False"
    and j: "index_of (rr_keys E) r < length (rs_assignments st)"
  shows "reroute_inv E as D R
    \<lparr>rs_migrations = rs_migrations st @ [\<lparr>account_id = a, new_target = r\<rparr>],
     rs_assignments = move_account a (index_of (rr_keys E) d) (index_of (rr_keys E) r) (rs_assignments st),
     rs_spare = AList.update r (f_sub (get_or NaN (rs_spare st) r) l) (rs_spare st)\<rparr>"
proof -
  let ?i = "index_of (rr_keys E) d" and ?j = "index_of (rr_keys E) r" and ?as = "rs_assignments st"
  have apart: "index_of (rr_keys E) x \<noteq> ?i" if "x \<in> R" for x
  proof
    assume "index_of (rr_keys E) x = ?i"
    moreover have "x \<in> set (rr_keys E)" "d \<in> set (rr_keys E)" using that d(1) keys(1,2) by auto
    ultimately have "x = d" using index_of_inject [of x "rr_keys E" d] by simp
    then show False using that d(1) keys(3) by blast
  qed
  have ij: "?i \<noteq> ?j" using apart [OF r] by metis
  have i: "?i < length ?as" using own by (simp add: owns_def)
  note mv = owns_move [OF i j ij]
  have ex: "exclusive ?as" using inv by (simp add: reroute_inv_def)
  have new: "a \<notin> account_id ` set (rs_migrations st)"
  proof
    assume "a \<in> account_id ` set (rs_migrations st)"
    then obtain m where m: "m \<in> set (rs_migrations st)" "account_id m = a" by blast
    then have "owns ?as (index_of (rr_keys E) (new_target m)) a" "new_target m \<in> R"
      using inv unfolding reroute_inv_def by blast+
    then have "index_of (rr_keys E) (new_target m) = ?i" using own ex unfolding exclusive_def by blast
    then show False using apart [OF \<open>new_target m \<in> R\<close>] by metis
  qed
  have was: "owns as ?i a" using inv new own unfolding reroute_inv_def by blast
  have dist: "distinct (map account_id (rs_migrations st @ [\<lparr>account_id = a, new_target = r\<rparr>]))"
    using inv new by (simp add: reroute_inv_def)
  have all: "(\<exists>k. owns (move_account a ?i ?j ?as) k b) \<longleftrightarrow> (\<exists>k. owns as k b)" for b
  proof (cases "b = a")
    case True
    then show ?thesis using was by (auto simp: mv)
  next
    case False
    then have "owns (move_account a ?i ?j ?as) k b = owns ?as k b" for k by (simp add: mv)
    then show ?thesis using inv by (simp add: reroute_inv_def)
  qed
  have ms: "new_target m \<in> R
      \<and> owns (move_account a ?i ?j ?as) (index_of (rr_keys E) (new_target m)) (account_id m)
      \<and> \<not> cooling E (account_id m)
      \<and> (\<exists>d\<in>D. owns as (index_of (rr_keys E) d) (account_id m) \<and> \<not> f_le (shed_target E d) (Fin 0))"
    if m: "m \<in> set (rs_migrations st @ [\<lparr>account_id = a, new_target = r\<rparr>])" for m
  proof (cases "m \<in> set (rs_migrations st)")
    case True
    then have "account_id m \<noteq> a" using new by blast
    then show ?thesis using inv True unfolding reroute_inv_def mv by simp
  next
    case False
    then have "m = \<lparr>account_id = a, new_target = r\<rparr>" using m by simp
    then show ?thesis using r was d cool by (auto simp: mv)
  qed
  have others: "owns (move_account a ?i ?j ?as) k b = owns as k b"
    if "b \<notin> account_id ` set (rs_migrations st @ [\<lparr>account_id = a, new_target = r\<rparr>])" for b k
    using that inv unfolding mv reroute_inv_def by simp
  have "f_le (Fin 0) (f_sub (get_or NaN (rs_spare st) r) l)"
    using load by (cases l; cases "get_or NaN (rs_spare st) r") (auto simp: f_sub_def round64_nonneg)
  then have spare: "f_le (Fin 0) (get_or NaN (AList.update r (f_sub (get_or NaN (rs_spare st) r) l) (rs_spare st)) x)"
    if "x \<in> R" for x
    using that inv by (simp add: al_simps reroute_inv_def)
  show ?thesis
    unfolding reroute_inv_def using exclusive_move [OF ex ij own j] dist all ms others spare inv
    by (simp add: reroute_inv_def)
qed

subsection \<open>The loops keep it\<close>

lemma migrate_accounts_inv:
  assumes "reroute_inv E as D (set rec) st" "d \<in> D" "\<not> f_le (shed_target E d) (Fin 0)"
    and keys: "D \<subseteq> set (rr_keys E)" "set rec \<subseteq> set (rr_keys E)" "D \<inter> set rec = {}"
    and "distinct accts" "\<forall>a\<in>set accts. owns (rs_assignments st) (index_of (rr_keys E) d) a"
    and fin: "\<forall>a. load a \<noteq> Inf False"
    and "migrate_accounts E rec (index_of (rr_keys E) d) target scale load accts shed st = Some st'"
  shows "reroute_inv E as D (set rec) st'"
  using assms(1,7,8,10)
proof (induction accts arbitrary: shed st)
  case Nil
  then show ?case by simp
next
  case (Cons a accts)
  let ?i = "index_of (rr_keys E) d"
  show ?case
  proof (cases "f_le target shed \<or> (\<not> cooling E a \<and> f_le (load a) (Fin 0))")
    case True
    then have "st' = st" using Cons.prems(4) by (auto split: if_splits)
    then show ?thesis using Cons.prems(1) by simp
  next
    case False
    show ?thesis
    proof (cases "cooling E a \<or> best_receiver E rec (rs_spare st) a (load a) = None")
      case True
      then have "migrate_accounts E rec ?i target scale load accts shed st = Some st'"
        using False Cons.prems(4) by (auto split: if_splits)
      then show ?thesis using Cons.IH Cons.prems(1-3) by simp
    next
      case go: False
      then obtain r where r: "best_receiver E rec (rs_spare st) a (load a) = Some r" by auto
      let ?j = "index_of (rr_keys E) r"
      let ?st = "\<lparr>rs_migrations = rs_migrations st @ [\<lparr>account_id = a, new_target = r\<rparr>],
        rs_assignments = move_account a ?i ?j (rs_assignments st),
        rs_spare = AList.update r (f_sub (get_or NaN (rs_spare st) r) (load a)) (rs_spare st)\<rparr>"
      have j: "?j < length (rs_assignments st)"
        and rest: "migrate_accounts E rec ?i target scale load accts (f_add shed (f_mul (load a) scale)) ?st = Some st'"
        using Cons.prems(4) False go r by (auto simp: Let_def split: if_splits)
      have rec: "r \<in> set rec" "f_le (load a) (get_or NaN (rs_spare st) r)"
        using best_receiver_Some [OF r] by simp_all
      have own: "owns (rs_assignments st) ?i a" using Cons.prems(3) by simp
      have "load a \<noteq> NaN" using rec(2) by auto
      then have pos: "f_le (Fin 0) (load a)" using False go f_le_total [of "load a" "Fin 0"] by auto
      have inv: "reroute_inv E as D (set rec) ?st"
        using reroute_inv_migrate [OF Cons.prems(1) assms(2,3) rec(1) keys own _ rec(2) pos _ j] go fin by simp
      have i: "?i < length (rs_assignments st)" using own by (simp add: owns_def)
      have "r \<noteq> d" using rec(1) assms(2) keys(3) by blast
      then have ij: "?i \<noteq> ?j"
        using index_of_inject [of d "rr_keys E" r] rec(1) assms(2) keys(1,2) by auto
      have "\<forall>b\<in>set accts. owns (rs_assignments ?st) ?i b"
        using Cons.prems(2,3) by (auto simp: owns_move [OF i j ij])
      then show ?thesis using Cons.IH [OF inv _ _ rest] Cons.prems(2) by simp
    qed
  qed
qed

text \<open>A load is a quotient of finite numbers; it overflows only if the throughput is that large.\<close>

definition loads_finite :: "reroute_input \<Rightarrow> bool" where
  "loads_finite E \<longleftrightarrow> (\<forall>d\<in>set (rr_keys E). \<forall>accts a. acct_cap_load E d accts a \<noteq> Inf False)"

lemma reroute_donor_inv:
  assumes "reroute_inv E as D (set rec) st" "d \<in> D"
    and keys: "D \<subseteq> set (rr_keys E)" "set rec \<subseteq> set (rr_keys E)" "D \<inter> set rec = {}"
    and "loads_finite E" "reroute_donor E rec d st = Some st'"
  shows "reroute_inv E as D (set rec) st'"
proof -
  let ?i = "index_of (rr_keys E) d"
  let ?accts = "rs_assignments st ! ?i"
  let ?load = "acct_cap_load E d ?accts"
  let ?sorted = "sort_by (\<lambda>a b. f_lt (?load b) (?load a) \<or> (\<not> f_lt (?load a) (?load b) \<and> a < b)) ?accts"
  have i: "?i < length (rs_assignments st)"
    and "st' = st \<or> (\<not> f_le (shed_target E d) (Fin 0) \<and>
      migrate_accounts E rec ?i (shed_target E d) (incoming_scale E d) ?load ?sorted (Fin 0) st = Some st')"
    using assms(7) by (auto simp: reroute_donor_def Let_def split: if_splits)
  then show ?thesis
  proof (elim disjE conjE)
    assume shed: "\<not> f_le (shed_target E d) (Fin 0)"
      and run: "migrate_accounts E rec ?i (shed_target E d) (incoming_scale E d) ?load ?sorted (Fin 0) st = Some st'"
    have "distinct ?accts" using assms(1) i by (simp add: reroute_inv_def exclusive_def)
    then have "distinct ?sorted" by simp
    moreover have "\<forall>a\<in>set ?sorted. owns (rs_assignments st) ?i a" using i by (simp add: owns_def)
    moreover have "\<forall>a. ?load a \<noteq> Inf False" using assms(2,6) keys(1) by (auto simp: loads_finite_def)
    ultimately show ?thesis using migrate_accounts_inv [OF assms(1,2) shed keys _ _ _ run] by blast
  qed (use assms(1) in simp)
qed

lemma reroute_donors_inv:
  assumes "reroute_inv E as D (set rec) st" "set ds \<subseteq> D"
    and "D \<subseteq> set (rr_keys E)" "set rec \<subseteq> set (rr_keys E)" "D \<inter> set rec = {}"
    and "loads_finite E" "reroute_donors E rec ds st = Some st'"
  shows "reroute_inv E as D (set rec) st'"
  using assms(1,2,7)
proof (induction ds arbitrary: st)
  case Nil
  then show ?case by simp
next
  case (Cons d ds)
  then obtain st1 where st1: "reroute_donor E rec d st = Some st1" "reroute_donors E rec ds st1 = Some st'"
    by (auto split: bind_splits)
  have "reroute_inv E as D (set rec) st1"
    using reroute_donor_inv [OF Cons.prems(1) _ assms(3-6) st1(1)] Cons.prems(2) by simp
  then show ?case using Cons.IH [OF _ _ st1(2)] Cons.prems(2) by simp
qed

lemma set_donors: "set (donors_of E t) = {pk \<in> set (rr_keys E). is_donor (rr_avg_qd E) t pk}"
  by (auto simp: donors_of_def)

lemma set_receivers: "set (receivers_of E t) = {pk \<in> set (rr_keys E). \<not> is_donor (rr_avg_qd E) t pk
    \<and> f_lt (Fin 0) (get_or NaN (spare_of E) pk) \<and> mem_key (rr_tps E) pk}"
  by (auto simp: receivers_of_def)

text \<open>Every outcome of \<open>compute_rerouting\<close>, as the invariant of its final state.\<close>

lemma compute_rerouting_inv:
  assumes "compute_rerouting E as = Some (ms, as')" "exclusive as" "loads_finite E"
  obtains (none) "ms = []" "as' = as"
  | (moved) t st where "thresh_delay (rr_avg_qd E) = Some t" "ms = rs_migrations st" "as' = rs_assignments st"
      "reroute_inv E as (set (donors_of E t)) (set (receivers_of E t)) st"
proof (cases "ms = [] \<and> as' = as")
  case True
  then show ?thesis using none by blast
next
  case False
  then obtain t st where t: "thresh_delay (rr_avg_qd E) = Some t"
    and run: "reroute_donors E (receivers_of E t) (donors_of E t)
      \<lparr>rs_migrations = [], rs_assignments = as, rs_spare = spare_of E\<rparr> = Some st"
    and res: "ms = rs_migrations st" "as' = rs_assignments st"
    using assms(1) by (auto simp: compute_rerouting_def Let_def split: if_splits option.splits)
  have "reroute_inv E as (set (donors_of E t)) (set (receivers_of E t))
      \<lparr>rs_migrations = [], rs_assignments = as, rs_spare = spare_of E\<rparr>"
    using assms(2) by (auto simp: reroute_inv_def set_receivers f_lt_def)
  from reroute_donors_inv [OF this _ _ _ _ assms(3) run]
  have "reroute_inv E as (set (donors_of E t)) (set (receivers_of E t)) st"
    by (auto simp: set_donors set_receivers)
  with t res moved show ?thesis by blast
qed

subsection \<open>Properties\<close>

text \<open>A notice sets the owner of its account; \<open>follow\<close> applies notices to an ownership.\<close>

definition follow :: "public_key list \<Rightarrow> migration_notice list \<Rightarrow> (nat \<Rightarrow> nat \<Rightarrow> bool) \<Rightarrow> nat \<Rightarrow> nat \<Rightarrow> bool" where
  "follow ks ms own = fold (\<lambda>m own i a. if a = account_id m then i = index_of ks (new_target m) else own i a) ms own"

lemma follow_distinct:
  assumes "distinct (map account_id ms)"
  shows "a \<notin> account_id ` set ms \<Longrightarrow> follow ks ms own i a = own i a"
    and "m \<in> set ms \<Longrightarrow> follow ks ms own i (account_id m) = (i = index_of ks (new_target m))"
proof -
  show keep: "follow ks ms own i a = own i a" if "a \<notin> account_id ` set ms" for ms own
    using that by (induction ms arbitrary: own) (auto simp: follow_def)
  show "m \<in> set ms \<Longrightarrow> follow ks ms own i (account_id m) = (i = index_of ks (new_target m))"
    using assms
  proof (induction ms arbitrary: own)
    case Nil
    then show ?case by simp
  next
    case (Cons x xs)
    show ?case
    proof (cases "m = x")
      case True
      have "follow ks xs own' i (account_id x) = own' i (account_id x)" for own'
      proof -
        have "account_id x \<notin> account_id ` set xs" using Cons.prems(2) by simp
        then show ?thesis by (induction xs arbitrary: own') (auto simp: follow_def)
      qed
      then show ?thesis using True by (simp add: follow_def)
    next
      case False
      then show ?thesis using Cons by (simp add: follow_def)
    qed
  qed
qed

lemma follow_append: "follow ks (xs @ ys) own = follow ks ys (follow ks xs own)"
  by (simp add: follow_def)

text \<open>
  A rerouting decision only moves accounts. When every account is assigned to one validator
  before it, every account is assigned to exactly one validator after it, and the new
  assignment is the old one with the notices applied: each notice names a different account
  and its new owner, and every other account keeps its owner.
\<close>

lemma compute_rerouting_follows:
  assumes "compute_rerouting E as = Some (ms, as')" "exclusive as" "loads_finite E"
  shows "exclusive as' \<and> length as' = length as \<and> distinct (map account_id ms)
    \<and> (\<forall>a. (\<exists>i. owns as' i a) \<longleftrightarrow> (\<exists>i. owns as i a))
    \<and> (\<forall>i a. owns as' i a \<longleftrightarrow> follow (rr_keys E) ms (owns as) i a)"
  using assms
proof (cases rule: compute_rerouting_inv)
  case none
  with assms(2) show ?thesis by (simp add: follow_def)
next
  case (moved t st)
  note inv = moved(4) [unfolded reroute_inv_def, folded moved(2,3)]
  have d: "distinct (map account_id ms)" using inv by blast
  have "owns as' i a \<longleftrightarrow> follow (rr_keys E) ms (owns as) i a" for i a
  proof (cases "a \<in> account_id ` set ms")
    case True
    then obtain m where m: "m \<in> set ms" "a = account_id m" by blast
    then have "owns as' (index_of (rr_keys E) (new_target m)) a" using inv by blast
    then have "owns as' i a \<longleftrightarrow> i = index_of (rr_keys E) (new_target m)"
      using inv unfolding exclusive_def by blast
    then show ?thesis using follow_distinct(2) [OF d m(1)] m(2) by simp
  next
    case False
    then show ?thesis using follow_distinct(1) [OF d False] inv by blast
  qed
  with inv show ?thesis by blast
qed

lemma compute_rerouting_not_cooling:
  assumes "compute_rerouting E as = Some (ms, as')" "exclusive as" "loads_finite E"
  shows "\<forall>m\<in>set ms. \<not> cooling E (account_id m)"
  using assms
proof (cases rule: compute_rerouting_inv)
  case none
  then show ?thesis by simp
next
  case (moved t st)
  then show ?thesis unfolding reroute_inv_def by blast
qed

lemma round64_nonpos: "x \<le> 0 \<Longrightarrow> f_le (round64 x) (Fin 0)"
proof -
  assume "x \<le> 0"
  have neg: "rne q \<le> 0" if "q \<le> 0" for q
  proof (cases "q = 0")
    case True
    then show ?thesis using rne_of_int [of 0] by simp
  next
    case False
    then have "\<lfloor>q\<rfloor> \<le> -1" using that by (simp add: floor_le_iff)
    then show ?thesis by (auto simp: rne_def Let_def)
  qed
  have "of_int (rne (x / pow2 e)) * pow2 e \<le> 0" for e
    using neg [of "x / pow2 e"] \<open>x \<le> 0\<close>
    by (simp add: mult_le_0_iff divide_le_0_iff less_imp_le)
  then show ?thesis using \<open>x \<le> 0\<close> by (auto simp: round64_def Let_def)
qed

text \<open>Within its capacity a validator sheds nothing, whatever queue delay it reports.\<close>

lemma shed_target_within_capacity:
  assumes "f_le (tps_of E d) (capacity_of E d)"
  shows "f_le (shed_target E d) (Fin 0)"
proof -
  let ?x = "f_sub (tps_of E d) (capacity_of E d)"
  have "?x = NaN \<or> f_le ?x (Fin 0)"
    using assms by (cases "tps_of E d"; cases "capacity_of E d") (auto simp: f_sub_def round64_nonpos)
  then have "structural_excess E d = Fin 0"
    by (auto simp: structural_excess_def f_max_def)
  then have "shed_target E d = f_min (f_max (estimated_excess E d) (Fin 0)) (Fin 0)"
    by (simp add: shed_target_def SHED_CAP_MULTIPLIER_def)
  then show ?thesis
    using f_le_total [of _ "Fin 0"] by (auto simp: f_min_def f_le_refl)
qed

text \<open>
  Only overloaded validators shed accounts, and only validators with room take them. The
  account of a notice was assigned to a donor: a validator whose queue delay is at least the
  minimum and more than twice the median, and whose committed throughput is above its capacity.
  The target is not a donor, has a measured throughput and spare capacity, and the account was
  not migrated within the cool-down.
\<close>

theorem rerouting_donors_receivers:
  assumes "compute_rerouting E as = Some (ms, as')" "exclusive as" "loads_finite E" "m \<in> set ms"
  shows "\<exists>t d. thresh_delay (rr_avg_qd E) = Some t
    \<and> d \<in> set (rr_keys E) \<and> is_donor (rr_avg_qd E) t d \<and> owns as (index_of (rr_keys E) d) (account_id m)
    \<and> \<not> f_le (tps_of E d) (capacity_of E d)
    \<and> new_target m \<in> set (rr_keys E) \<and> \<not> is_donor (rr_avg_qd E) t (new_target m)
    \<and> f_lt (Fin 0) (get_or NaN (spare_of E) (new_target m)) \<and> mem_key (rr_tps E) (new_target m)
    \<and> \<not> cooling E (account_id m)"
  using assms(1-3)
proof (cases rule: compute_rerouting_inv)
  case none
  with assms(4) show ?thesis by simp
next
  case (moved t st)
  from moved(4) assms(4) obtain d where d: "d \<in> set (donors_of E t)"
    "owns as (index_of (rr_keys E) d) (account_id m)" "\<not> f_le (shed_target E d) (Fin 0)"
    and m: "new_target m \<in> set (receivers_of E t)" "\<not> cooling E (account_id m)"
    unfolding reroute_inv_def moved(2) by blast
  then have "\<not> f_le (tps_of E d) (capacity_of E d)" using shed_target_within_capacity by blast
  with moved(1) d m show ?thesis unfolding set_donors set_receivers by blast
qed

end
