(* ===== verification/Load_Balancing.thy ===== *)
theory Load_Balancing
  imports Rerouting_Props
begin

text \<open>
  \<^verbatim>\<open>consensus/src/lib.rs\<close>, the load-balancing task (\<open>spawn_load_balancing\<close>): it records every
  certificate that consensus receives and, on our own certificate of every sixtieth round,
  computes the rerouting decision. \<open>None\<close> is a panic.
\<close>

definition QD_EMA_ALPHA :: f64 where
  "QD_EMA_ALPHA = round64 (3 / 10)"

record lb_config =
  lc_name :: public_key
  lc_committee :: committee
  lc_capacities :: "(public_key, nat) hmap"
  lc_latency :: "(public_key, (public_key, nat) hmap) hmap"

record lb_state =
  lb_throughput :: throughput_tracker
  lb_accounts :: account_tracker
  lb_last_migrated :: "(nat, round) hmap"
  lb_prev_qd :: "(public_key, f64) hmap"
  lb_prev_ts :: "nat option"
  lb_assignments :: assignments
  lb_latencies :: "(nat, (public_key, nat) hmap) hmap"

fun account_latencies :: "(public_key, (public_key, nat) hmap) hmap \<Rightarrow> (public_key, nat \<times> nat) hmap
    \<Rightarrow> (nat, (public_key, nat) hmap) hmap \<Rightarrow> (nat, (public_key, nat) hmap) hmap option" where
  "account_latencies lat [] m = Some m"
| "account_latencies lat ((pk, start, n) # rs) m =
     (case map_of lat pk of
        None \<Rightarrow> None
      | Some row \<Rightarrow> account_latencies lat rs (fold (\<lambda>a. AList.update a row) [start..<wadd 64 start n] m))"

definition lb_init :: "lb_config \<Rightarrow> lb_state option" where
  "lb_init cfg =
     map_option (\<lambda>lat. \<lparr>lb_throughput = throughput_new TRACKING_WINDOW, lb_accounts = account_tracker_new,
         lb_last_migrated = [], lb_prev_qd = [], lb_prev_ts = None,
         lb_assignments = map (\<lambda>(_, start, n). [start..<wadd 64 start n])
           (account_ranges (lc_committee cfg)),
         lb_latencies = lat\<rparr>)
       (account_latencies (lc_latency cfg) (account_ranges (lc_committee cfg)) [])"

definition lb_record :: "certificate \<Rightarrow> lb_state \<Rightarrow> lb_state" where
  "lb_record c s = s\<lparr>lb_accounts := account_record c (lb_accounts s),
     lb_throughput := throughput_record c (lb_throughput s)\<rparr>"

definition lb_evict :: "round \<Rightarrow> lb_state \<Rightarrow> lb_state" where
  "lb_evict m s = s\<lparr>lb_throughput := throughput_evict m (lb_throughput s),
     lb_accounts := account_evict m (lb_accounts s)\<rparr>"

definition ema :: "(public_key, f64) hmap \<Rightarrow> (public_key, f64) hmap \<Rightarrow> (public_key, f64) hmap" where
  "ema avg prev =
     fold (\<lambda>(pk, qd). upsert qd pk
         (\<lambda>e. f_add (f_mul QD_EMA_ALPHA qd) (f_mul (f_sub (Fin 1) QD_EMA_ALPHA) e))) avg prev"

text \<open>The time of the stable round, and the seconds since the previous evaluation.\<close>

definition lb_current_ts :: "lb_state \<Rightarrow> round \<Rightarrow> certificate \<Rightarrow> nat option" where
  "lb_current_ts s sr c =
     map_option (\<lambda>t. case t of None \<Rightarrow> h_created_at (c_header c) | Some ms \<Rightarrow> ms)
       (round_timestamp_ms (lb_throughput s) sr)"

definition lb_delta_t :: "lb_state \<Rightarrow> round \<Rightarrow> nat \<Rightarrow> f64 option" where
  "lb_delta_t s sr now =
     (case lb_prev_ts s of
        Some prev \<Rightarrow> Some (f_div (f_of_nat (now - prev)) (Fin 1000))
      | None \<Rightarrow>
          Option.bind (round_timestamp_ms (lb_throughput s) (sr - TRACKING_WINDOW))
            (map_option (\<lambda>first. f_div (f_of_nat (now - first)) (Fin 1000))))"

definition lb_input :: "lb_config \<Rightarrow> lb_state \<Rightarrow> round \<Rightarrow> round \<Rightarrow> (public_key, f64) hmap \<Rightarrow> f64 \<Rightarrow> reroute_input" where
  "lb_input cfg s r sr tps delta_t =
     \<lparr>rr_tps = tps, rr_capacities = lc_capacities cfg, rr_avg_qd = avg_queue_delay (lb_throughput s) sr,
      rr_latency = lb_latencies s,
      rr_counts = per_validator_account_counts (lb_accounts s) sr TRACKING_WINDOW,
      rr_keys = keys (authorities (lc_committee cfg)),
      rr_f = wsub 64 (csize (lc_committee cfg)) 1 div 3,
      rr_last_migrated = lb_last_migrated s, rr_round = r, rr_prev_qd = lb_prev_qd s, rr_delta_t = delta_t\<rparr>"

definition lb_apply :: "round \<Rightarrow> (public_key, f64) hmap \<Rightarrow> nat \<Rightarrow> migration_notice list \<Rightarrow> assignments \<Rightarrow> lb_state \<Rightarrow> lb_state" where
  "lb_apply r avg now ms as s =
     s\<lparr>lb_assignments := as, lb_prev_qd := ema avg (lb_prev_qd s), lb_prev_ts := Some now,
       lb_last_migrated := fold (\<lambda>m. AList.update (account_id m) r) ms (lb_last_migrated s)\<rparr>"

text \<open>One certificate: the new state and the migrations sent out (none if the list is empty).\<close>

definition lb_step :: "lb_config \<Rightarrow> lb_state \<Rightarrow> certificate \<Rightarrow> (lb_state \<times> migration_notice list) option" where
  "lb_step cfg s0 c =
     (let s = lb_record c s0; r = c_round c; sr = r - 2
      in if c_origin c \<noteq> lc_name cfg then Some (s, [])
         else if r mod TRACKING_WINDOW = 0 \<and> get_tps (lb_throughput s) sr = None then None
         else if r mod REROUTE_INTERVAL \<noteq> 0 then Some (s, [])
         else map_option (\<lambda>(s', ms). (lb_evict (sr - TRACKING_WINDOW) s', ms))
           (case get_tps (lb_throughput s) sr of
              None \<Rightarrow> None
            | Some None \<Rightarrow> Some (s, [])
            | Some (Some tps) \<Rightarrow>
                Option.bind (lb_current_ts s sr c) (\<lambda>now.
                Option.bind (lb_delta_t s sr now) (\<lambda>dt.
                map_option (\<lambda>(ms, as). (lb_apply r (avg_queue_delay (lb_throughput s) sr) now ms as s, ms))
                  (compute_rerouting (lb_input cfg s r sr tps dt) (lb_assignments s))))))"

text \<open>The migrations of a run, each with the round that decided it.\<close>

fun lb_run :: "lb_config \<Rightarrow> lb_state \<Rightarrow> certificate list \<Rightarrow> (lb_state \<times> (round \<times> migration_notice) list) option" where
  "lb_run cfg s [] = Some (s, [])"
| "lb_run cfg s (c # cs) =
     Option.bind (lb_step cfg s c) (\<lambda>(s1, ms).
     map_option (\<lambda>(s2, out). (s2, map (Pair (c_round c)) ms @ out)) (lb_run cfg s1 cs))"

subsection \<open>Loads are finite\<close>

lemma upsert_vals:
  assumes "\<forall>(k, v)\<in>set m. P v" "P (f (get_or d m k))"
  shows "\<forall>(k, v)\<in>set (upsert d k f m). P v"
  using set_update_subset [of k "f (get_or d m k)" m] assms by (auto simp: upsert_def)

lemma get_or_keeps:
  assumes "\<forall>(k, v)\<in>set m. P v" "P d"
  shows "P (get_or d m k)"
proof (cases "map_of m k")
  case (Some v)
  then show ?thesis using assms(1) map_of_SomeD [OF Some] by (auto simp: get_or_def)
qed (simp add: get_or_def assms(2))

lemma fold_keeps:
  assumes "P m" "\<And>x m. P m \<Longrightarrow> P (f x m)"
  shows "P (fold f xs m)"
  using assms(1) by (induction xs arbitrary: m) (simp_all add: assms(2))

lemma tps_totals_bounded: "\<forall>(pk, n)\<in>set (tps_totals t sr). n < 2 ^ 64"
proof -
  let ?B = "\<lambda>m. \<forall>(pk :: public_key, n)\<in>set m. n < (2 ^ 64 :: nat)"
  let ?f = "\<lambda>(pk, _ :: nat, n). upsert 0 pk (\<lambda>x. wadd 64 x n)"
  have one: "?B (?f p m)" if "?B m" for p m
    by (cases p) (simp only: prod.case, rule upsert_vals [OF that wadd_less])
  have "?B (fold (fold ?f) pss [])" for pss
    by (rule fold_keeps, simp, rule fold_keeps, assumption, rule one)
  then show ?thesis by (simp only: tps_totals_def)
qed

lemma account_counts_bounded:
  "\<forall>(pk, m)\<in>set (per_validator_account_counts t sr w). \<forall>(a, n)\<in>set m. n < 2 ^ 64"
proof -
  let ?B = "\<lambda>m. \<forall>(a :: nat, n)\<in>set m. n < (2 ^ 64 :: nat)"
  let ?BB = "\<lambda>r. \<forall>(pk :: public_key, m)\<in>set r. ?B m"
  let ?g = "\<lambda>(acct, n). upsert 0 acct (\<lambda>x. wadd 64 x n)"
  let ?f = "\<lambda>(pk, counts, _ :: nat). upsert [] pk (fold ?g counts)"
  have g: "?B (?g c m)" if "?B m" for c m
    by (cases c) (simp only: prod.case, rule upsert_vals [OF that wadd_less])
  have gs: "?B (fold ?g cs m)" if "?B m" for cs m
    by (rule fold_keeps [where P = ?B], rule that, rule g)
  have got: "?B (get_or [] r pk)" if "?BB r" for r pk
    by (rule get_or_keeps [OF that]) simp
  have one: "?BB (?f v r)" if "?BB r" for v r
    by (cases v) (simp only: prod.case, rule upsert_vals [OF that], rule gs, rule got, rule that)
  have "?BB (fold (fold ?f) vss [])" for vss
    by (rule fold_keeps [where P = ?BB], simp, rule fold_keeps [where P = ?BB], assumption, rule one)
  then show ?thesis by (simp only: per_validator_account_counts_def)
qed

definition times_bounded :: "throughput_tracker \<Rightarrow> bool" where
  "times_bounded t \<longleftrightarrow> (\<forall>(r, v)\<in>set (t_rounds t). \<forall>(pk, ts, n)\<in>set v. ts < 2 ^ 64)"

lemma median_ts_bounded:
  assumes "median_ts v = Some m" "\<forall>(pk, ts, n)\<in>set v. ts < 2 ^ 64"
  shows "m < 2 ^ 64"
proof -
  let ?ts = "sort (map fst (vals v))"
  have all: "x < 2 ^ 64" if "x \<in> set ?ts" for x using that assms(2) by (auto simp: vals_def)
  have "?ts ! i < 2 ^ 64" if "i < length ?ts" for i using all nth_mem [OF that] by blast
  moreover have "wadd 64 a b div 2 < 2 ^ 64" for a b
    by (rule le_less_trans [OF div_le_dividend wadd_less])
  ultimately show ?thesis
    using assms(1) by (auto simp: median_ts_def Let_def split: if_splits simp del: set_sort)
qed

lemma get_tps_range:
  assumes "get_tps t sr = Some (Some tps)" "times_bounded t"
  shows "\<forall>(pk, x)\<in>set tps. in_range64 197 x"
proof -
  obtain first v where start: "map_of (t_rounds t) first = Some v"
    and "\<exists>start_ts v' end_ts. median_ts v = Some start_ts \<and> map_of (t_rounds t) sr = Some v' \<and> median_ts v' = Some end_ts
      \<and> 0 < end_ts - start_ts \<and> tps = map (\<lambda>(pk, n). (pk, f_div (f_of_nat n)
          (f_div (f_of_nat (end_ts - start_ts)) (f_of_nat 1000)))) (tps_totals t sr)"
    using assms(1) by (fastforce simp: get_tps_def Let_def bind_eq_Some_conv split: if_splits)
  then obtain start_ts v' end_ts where e: "map_of (t_rounds t) sr = Some v'" "median_ts v' = Some end_ts"
    and d: "0 < end_ts - start_ts" and tps: "tps = map (\<lambda>(pk, n). (pk, f_div (f_of_nat n)
          (f_div (f_of_nat (end_ts - start_ts)) (f_of_nat 1000)))) (tps_totals t sr)" by blast
  have "\<forall>(pk, ts, n)\<in>set v'. ts < 2 ^ 64"
    using assms(2) map_of_SomeD [OF e(1)] by (auto simp: times_bounded_def)
  then have "end_ts - start_ts < 2 ^ 64" using median_ts_bounded [OF e(2)] by linarith
  then have "pos_range64 65 (f_of_nat (end_ts - start_ts))"
    using pos_range64_of_nat [OF d, of 64] by (simp del: power_numeral)
  moreover have "pos_range64 65 (f_of_nat 1000)" using pos_range64_of_nat [of 1000 64] by simp
  ultimately have secs: "pos_range64 131 (f_div (f_of_nat (end_ts - start_ts)) (f_of_nat 1000))"
    using pos_range64_div by fastforce
  have "in_range64 197 (f_div (f_of_nat n) (f_div (f_of_nat (end_ts - start_ts)) (f_of_nat 1000)))"
    if "n < 2 ^ 64" for n
    using in_range64_div [OF in_range64_of_nat [OF that] secs] by simp
  then show ?thesis using tps_totals_bounded [of t sr] unfolding tps by auto
qed

lemma lb_load_in_range:
  assumes "get_tps (lb_throughput s) sr = Some (Some tps)" "times_bounded (lb_throughput s)"
  shows "in_range64 329 (acct_cap_load (lb_input cfg s r sr tps dt) d accts a)"
proof -
  let ?E = "lb_input cfg s r sr tps dt"
  let ?counts = "get_or [] (rr_counts ?E) d"
  let ?total = "wsum 64 (map (get_or 0 ?counts) accts)"
  have tps: "in_range64 197 (tps_of ?E d)"
    using get_or_keeps [OF get_tps_range [OF assms], of "Fin 0"]
    by (simp add: tps_of_def lb_input_def in_range64_iff)
  have "\<forall>(a, n)\<in>set ?counts. n < 2 ^ 64"
    using get_or_keeps [OF account_counts_bounded [of "lb_accounts s" sr TRACKING_WINDOW], of "[]"]
    by (simp add: lb_input_def)
  from get_or_keeps [OF this, of 0] have "get_or 0 ?counts a < 2 ^ 64" by simp
  then have mul: "in_range64 263 (f_mul (tps_of ?E d) (f_of_nat (get_or 0 ?counts a)))"
    using in_range64_mul [OF tps in_range64_of_nat] by fastforce
  have "?total < 2 ^ 64" unfolding wsum_mod by (rule mod_less_divisor) simp
  then have total: "0 < ?total \<Longrightarrow> pos_range64 65 (f_of_nat ?total)"
    using pos_range64_of_nat [of ?total 64] by (simp del: power_numeral)
  show ?thesis
  proof (cases "0 < ?total")
    case True
    then show ?thesis using in_range64_div [OF mul total [OF True]] by (simp add: acct_cap_load_def Let_def)
  next
    case False
    then show ?thesis by (simp add: acct_cap_load_def Let_def in_range64_iff)
  qed
qed

lemma lb_loads_finite:
  assumes "get_tps (lb_throughput s) sr = Some (Some tps)" "times_bounded (lb_throughput s)"
  shows "loads_finite (lb_input cfg s r sr tps dt)"
  unfolding loads_finite_def using in_range64_finite [OF lb_load_in_range [OF assms]] by blast

subsection \<open>One certificate\<close>

lemma times_bounded_record:
  assumes "times_bounded t" "h_created_at (c_header c) < 2 ^ 64"
  shows "times_bounded (throughput_record c t)"
proof -
  have "\<forall>(pk, ts, n)\<in>set (get_or [] (t_rounds t) (c_round c)). ts < 2 ^ 64"
    by (rule get_or_keeps [OF assms(1) [unfolded times_bounded_def]]) simp
  then have upd: "\<forall>(pk, ts, n)\<in>set (AList.update k (h_created_at (c_header c), x) (get_or [] (t_rounds t) (c_round c))). ts < 2 ^ 64"
    for k x
    using set_update_subset [of k "(h_created_at (c_header c), x)" "get_or [] (t_rounds t) (c_round c)"] assms(2)
    by blast
  have "\<forall>(r, v)\<in>set (upsert [] (c_round c) (AList.update k (h_created_at (c_header c), x)) (t_rounds t)).
      \<forall>(pk, ts, n)\<in>set v. ts < 2 ^ 64" for k x
    by (rule upsert_vals [OF assms(1) [unfolded times_bounded_def]]) (rule upd)
  then show ?thesis by (simp add: times_bounded_def throughput_record_def Let_def)
qed

lemma times_bounded_evict: "times_bounded t \<Longrightarrow> times_bounded (throughput_evict m t)"
  by (auto simp: times_bounded_def throughput_evict_def retain_def)

definition certificates_in_range :: "certificate list \<Rightarrow> bool" where
  "certificates_in_range cs \<longleftrightarrow> (\<forall>c\<in>set cs. h_created_at (c_header c) < 2 ^ 64)"

definition lb_inv :: "lb_state \<Rightarrow> bool" where
  "lb_inv s \<longleftrightarrow> times_bounded (lb_throughput s) \<and> exclusive (lb_assignments s)"

lemma lb_step_inv:
  assumes "lb_step cfg s0 c = Some (s', ms)" "times_bounded (lb_throughput s0)" "h_created_at (c_header c) < 2 ^ 64"
  obtains (idle) "ms = []" "lb_assignments s' = lb_assignments s0" "lb_last_migrated s' = lb_last_migrated s0"
      "times_bounded (lb_throughput s')"
      "lb_throughput s' = throughput_record c (lb_throughput s0) \<or> (c_origin c = lc_name cfg
        \<and> lb_throughput s' = throughput_evict (c_round c - 2 - TRACKING_WINDOW) (throughput_record c (lb_throughput s0)))"
    | (reroute) E where "compute_rerouting E (lb_assignments s0) = Some (ms, lb_assignments s')"
      "rr_last_migrated E = lb_last_migrated s0" "rr_round E = c_round c"
      "rr_keys E = keys (authorities (lc_committee cfg))" "loads_finite E"
      "lb_last_migrated s' = fold (\<lambda>m. AList.update (account_id m) (c_round c)) ms (lb_last_migrated s0)"
      "times_bounded (lb_throughput s')" "c_origin c = lc_name cfg"
      "lb_throughput s' = throughput_evict (c_round c - 2 - TRACKING_WINDOW) (throughput_record c (lb_throughput s0))"
proof -
  let ?s = "lb_record c s0" and ?r = "c_round c"
  have tb: "times_bounded (lb_throughput ?s)"
    using times_bounded_record [OF assms(2,3)] by (simp add: lb_record_def)
  have same: "lb_assignments ?s = lb_assignments s0" "lb_last_migrated ?s = lb_last_migrated s0"
    "lb_throughput ?s = throughput_record c (lb_throughput s0)"
    by (simp_all add: lb_record_def)
  consider (quiet) "s' = ?s" "ms = []"
    | (no_tps) "s' = lb_evict (?r - 2 - TRACKING_WINDOW) ?s" "ms = []" "c_origin c = lc_name cfg"
    | (run) tps now dt as where "c_origin c = lc_name cfg" "get_tps (lb_throughput ?s) (?r - 2) = Some (Some tps)"
      "compute_rerouting (lb_input cfg ?s ?r (?r - 2) tps dt) (lb_assignments ?s) = Some (ms, as)"
      "s' = lb_evict (?r - 2 - TRACKING_WINDOW)
        (lb_apply ?r (avg_queue_delay (lb_throughput ?s) (?r - 2)) now ms as ?s)"
  proof (cases "c_origin c \<noteq> lc_name cfg \<or> ?r mod REROUTE_INTERVAL \<noteq> 0")
    case True
    then have "s' = ?s \<and> ms = []"
      using assms(1) unfolding lb_step_def Let_def by (simp split: if_splits)
    then show ?thesis using quiet by blast
  next
    case False
    show ?thesis
    proof (cases "get_tps (lb_throughput ?s) (?r - 2)")
      case None
      then show ?thesis using assms(1) False unfolding lb_step_def Let_def by (simp split: if_splits)
    next
      case (Some tps)
      show ?thesis
      proof (cases tps)
        case None
        then show ?thesis using assms(1) False Some no_tps unfolding lb_step_def Let_def by simp
      next
        case (Some tps')
        then show ?thesis
          using assms(1) False \<open>get_tps _ _ = Some tps\<close> run unfolding lb_step_def Let_def
          by (simp add: bind_eq_Some_conv) blast
      qed
    qed
  qed
  then show ?thesis
  proof cases
    case quiet
    then show ?thesis using idle tb same by simp
  next
    case no_tps
    then show ?thesis using idle tb same times_bounded_evict by (simp add: lb_evict_def)
  next
    case (run tps now dt as)
    let ?E = "lb_input cfg ?s ?r (?r - 2) tps dt"
    have "loads_finite ?E" by (rule lb_loads_finite [OF run(2) tb])
    moreover have "lb_assignments s' = as" "lb_throughput s' = throughput_evict (?r - 2 - TRACKING_WINDOW) (lb_throughput ?s)"
      "lb_last_migrated s' = fold (\<lambda>m. AList.update (account_id m) ?r) ms (lb_last_migrated s0)"
      using same by (simp_all add: run(4) lb_evict_def lb_apply_def)
    ultimately show ?thesis
      using reroute [of ?E] run(1,3) same tb times_bounded_evict by (simp add: lb_input_def)
  qed
qed

lemma map_of_fold_last:
  "map_of (fold (\<lambda>m. AList.update (account_id m) r) ms l) a
    = (if a \<in> account_id ` set ms then Some r else map_of l a)"
  by (induction ms arbitrary: l) (auto simp: update_conv')

text \<open>What one certificate does to the assignment and to the cool-down.\<close>

lemma lb_step_props:
  assumes "lb_step cfg s0 c = Some (s', ms)" "lb_inv s0" "h_created_at (c_header c) < 2 ^ 64"
  shows "lb_inv s'" "distinct (map account_id ms)"
    and "owns (lb_assignments s') i a \<longleftrightarrow> follow (keys (authorities (lc_committee cfg))) ms (owns (lb_assignments s0)) i a"
    and "(\<exists>i. owns (lb_assignments s') i a) \<longleftrightarrow> (\<exists>i. owns (lb_assignments s0) i a)"
    and "map_of (lb_last_migrated s') a
      = (if a \<in> account_id ` set ms then Some (c_round c) else map_of (lb_last_migrated s0) a)"
    and "m \<in> set ms \<Longrightarrow> map_of (lb_last_migrated s0) (account_id m) = Some r \<Longrightarrow> r + REROUTE_INTERVAL * 2 \<le> c_round c"
proof -
  have inv: "times_bounded (lb_throughput s0)" "exclusive (lb_assignments s0)"
    using assms(2) by (simp_all add: lb_inv_def)
  have "lb_inv s' \<and> distinct (map account_id ms)
    \<and> (owns (lb_assignments s') i a \<longleftrightarrow> follow (keys (authorities (lc_committee cfg))) ms (owns (lb_assignments s0)) i a)
    \<and> ((\<exists>i. owns (lb_assignments s') i a) \<longleftrightarrow> (\<exists>i. owns (lb_assignments s0) i a))
    \<and> map_of (lb_last_migrated s') a
      = (if a \<in> account_id ` set ms then Some (c_round c) else map_of (lb_last_migrated s0) a)
    \<and> (\<forall>m\<in>set ms. \<forall>r. map_of (lb_last_migrated s0) (account_id m) = Some r \<longrightarrow> r + REROUTE_INTERVAL * 2 \<le> c_round c)"
    using assms(1) inv(1) assms(3)
  proof (cases rule: lb_step_inv)
    case idle
    then show ?thesis using inv by (simp add: lb_inv_def follow_def)
  next
    case (reroute E)
    note moved = compute_rerouting_follows [OF reroute(1) inv(2) reroute(5)]
    have "\<forall>m\<in>set ms. \<not> cooling E (account_id m)"
      by (rule compute_rerouting_not_cooling [OF reroute(1) inv(2) reroute(5)])
    then have "\<forall>m\<in>set ms. \<forall>r. map_of (lb_last_migrated s0) (account_id m) = Some r \<longrightarrow> r + REROUTE_INTERVAL * 2 \<le> c_round c"
      unfolding cooling_def reroute(2,3) by (fastforce simp: REROUTE_INTERVAL_def)
    then show ?thesis
      using moved reroute(7) unfolding reroute(4,6) map_of_fold_last lb_inv_def by blast
  qed
  then show "lb_inv s'" "distinct (map account_id ms)"
    "owns (lb_assignments s') i a \<longleftrightarrow> follow (keys (authorities (lc_committee cfg))) ms (owns (lb_assignments s0)) i a"
    "(\<exists>i. owns (lb_assignments s') i a) \<longleftrightarrow> (\<exists>i. owns (lb_assignments s0) i a)"
    "map_of (lb_last_migrated s') a
      = (if a \<in> account_id ` set ms then Some (c_round c) else map_of (lb_last_migrated s0) a)"
    "m \<in> set ms \<Longrightarrow> map_of (lb_last_migrated s0) (account_id m) = Some r \<Longrightarrow> r + REROUTE_INTERVAL * 2 \<le> c_round c"
    by blast+
qed

subsection \<open>A run\<close>

definition spaced :: "(round \<times> migration_notice) list \<Rightarrow> bool" where
  "spaced out \<longleftrightarrow> (\<forall>i j. i < j \<longrightarrow> j < length out \<longrightarrow> account_id (snd (out ! i)) = account_id (snd (out ! j))
     \<longrightarrow> fst (out ! i) + REROUTE_INTERVAL * 2 \<le> fst (out ! j))"

lemma spaced_Cons:
  "spaced (x # xs) \<longleftrightarrow> spaced xs \<and> (\<forall>y\<in>set xs. account_id (snd x) = account_id (snd y)
     \<longrightarrow> fst x + REROUTE_INTERVAL * 2 \<le> fst y)"
proof (intro iffI conjI ballI impI)
  assume s: "spaced (x # xs)"
  show "spaced xs" unfolding spaced_def
  proof (intro allI impI)
    fix i j assume "i < j" "j < length xs" "account_id (snd (xs ! i)) = account_id (snd (xs ! j))"
    then show "fst (xs ! i) + REROUTE_INTERVAL * 2 \<le> fst (xs ! j)"
      using s [unfolded spaced_def, rule_format, of "Suc i" "Suc j"] by simp
  qed
  fix y assume "y \<in> set xs" "account_id (snd x) = account_id (snd y)"
  moreover then obtain j where "j < length xs" "y = xs ! j" by (auto simp: in_set_conv_nth)
  ultimately show "fst x + REROUTE_INTERVAL * 2 \<le> fst y"
    using s [unfolded spaced_def, rule_format, of 0 "Suc j"] by simp
next
  assume s: "spaced xs \<and> (\<forall>y\<in>set xs. account_id (snd x) = account_id (snd y)
     \<longrightarrow> fst x + REROUTE_INTERVAL * 2 \<le> fst y)"
  show "spaced (x # xs)" unfolding spaced_def
  proof (intro allI impI)
    fix i j assume i: "i < j" and j: "j < length (x # xs)"
      and eq: "account_id (snd ((x # xs) ! i)) = account_id (snd ((x # xs) ! j))"
    obtain k where k: "j = Suc k" using i by (cases j) auto
    show "fst ((x # xs) ! i) + REROUTE_INTERVAL * 2 \<le> fst ((x # xs) ! j)"
    proof (cases i)
      case 0
      then show ?thesis using s j eq k by (simp add: nth_mem)
    next
      case (Suc i')
      then show ?thesis using s [THEN conjunct1, unfolded spaced_def, rule_format, of i' k] i j eq k by simp
    qed
  qed
qed

lemma spaced_step:
  assumes "spaced out" "distinct (map account_id ms)"
    "\<forall>(r', m)\<in>set out. account_id m \<in> account_id ` set ms \<longrightarrow> r + REROUTE_INTERVAL * 2 \<le> r'"
  shows "spaced (map (Pair r) ms @ out)"
  using assms(2,3)
proof (induction ms)
  case Nil
  then show ?case using assms(1) by simp
next
  case (Cons m ms)
  then show ?case by (fastforce simp: spaced_Cons)
qed

lemma lb_run_inv:
  assumes "lb_run cfg s cs = Some (s', out)" "lb_inv s" "certificates_in_range cs"
  shows "lb_inv s' \<and> (\<forall>a. (\<exists>i. owns (lb_assignments s') i a) \<longleftrightarrow> (\<exists>i. owns (lb_assignments s) i a))
    \<and> (\<forall>i a. owns (lb_assignments s') i a
        \<longleftrightarrow> follow (keys (authorities (lc_committee cfg))) (map snd out) (owns (lb_assignments s)) i a)
    \<and> spaced out
    \<and> (\<forall>(r', m)\<in>set out. \<forall>r. map_of (lb_last_migrated s) (account_id m) = Some r \<longrightarrow> r + REROUTE_INTERVAL * 2 \<le> r')"
  using assms
proof (induction cs arbitrary: s out)
  case Nil
  then show ?case by (simp add: follow_def spaced_def)
next
  case (Cons c cs)
  obtain s1 ms rest where step: "lb_step cfg s c = Some (s1, ms)" and run: "lb_run cfg s1 cs = Some (s', rest)"
    and out: "out = map (Pair (c_round c)) ms @ rest"
    using Cons.prems(1) by (auto simp: bind_eq_Some_conv)
  have c: "h_created_at (c_header c) < 2 ^ 64" and cs: "certificates_in_range cs"
    using Cons.prems(3) by (simp_all add: certificates_in_range_def)
  note props = lb_step_props [OF step Cons.prems(2) c]
  note IH = Cons.IH [OF run props(1) cs]
  let ?ks = "keys (authorities (lc_committee cfg))"
  have "owns (lb_assignments s1) = follow ?ks ms (owns (lb_assignments s))" by (intro ext props(3))
  then have own: "\<forall>i a. owns (lb_assignments s') i a \<longleftrightarrow> follow ?ks (map snd out) (owns (lb_assignments s)) i a"
    using IH by (simp add: out follow_append comp_def)
  have later: "\<forall>(r', m)\<in>set rest. account_id m \<in> account_id ` set ms \<longrightarrow> c_round c + REROUTE_INTERVAL * 2 \<le> r'"
    using IH props(5) by fastforce
  then have "spaced out" unfolding out using spaced_step IH props(2) by blast
  moreover have "r + REROUTE_INTERVAL * 2 \<le> r'"
    if m: "(r', m) \<in> set out" and r: "map_of (lb_last_migrated s) (account_id m) = Some r" for r' m r
  proof (cases "(r', m) \<in> set rest")
    case True
    show ?thesis
    proof (cases "account_id m \<in> account_id ` set ms")
      case True
      then obtain m' where m': "m' \<in> set ms" "account_id m' = account_id m" by force
      then have "r + REROUTE_INTERVAL * 2 \<le> c_round c" using props(6) [OF m'(1)] r by simp
      moreover have "c_round c \<le> r'" using later \<open>(r', m) \<in> set rest\<close> True by fastforce
      ultimately show ?thesis by simp
    next
      case False
      then show ?thesis using IH \<open>(r', m) \<in> set rest\<close> r props(5) [of "account_id m"] by fastforce
    qed
  next
    case False
    then have "m \<in> set ms" "r' = c_round c" using m out by auto
    then show ?thesis using props(6) r by simp
  qed
  ultimately show ?case using own IH props(4) by auto
qed

text \<open>
  C12: Whatever certificates the load balancer receives, its final assignment is the
  initial one with the migration notices it sent applied in order: nobody who applies the notices
  disagrees with it. Every account is still assigned to exactly one validator and none is lost.
\<close>

theorem load_balancer_follows_notices:
  assumes "lb_run cfg s cs = Some (s', out)" "lb_inv s" "certificates_in_range cs"
  shows "exclusive (lb_assignments s')
    \<and> (\<forall>a. (\<exists>i. owns (lb_assignments s') i a) \<longleftrightarrow> (\<exists>i. owns (lb_assignments s) i a))
    \<and> (\<forall>i a. owns (lb_assignments s') i a
      \<longleftrightarrow> follow (keys (authorities (lc_committee cfg))) (map snd out) (owns (lb_assignments s)) i a)"
  using lb_run_inv [OF assms] unfolding lb_inv_def by blast

text \<open>
  C14: The cool-down holds over a whole run: between two notices for the same account there are at
  least \<open>2 * REROUTE_INTERVAL\<close> rounds, also when the certificates come in any order.
\<close>

theorem migrations_of_an_account_are_spaced:
  assumes "lb_run cfg s cs = Some (s', out)" "lb_inv s" "certificates_in_range cs"
  shows "spaced out"
  using lb_run_inv [OF assms(1-3)] by blast

end
