(* ===== verification/Load_Totality.thy ===== *)
theory Load_Totality
  imports Load_Balancing
begin

text \<open>
  The load-balancing task never panics: the rounds it looks up are in its trackers, no map it
  folds over is empty, no NaN is compared. The source leaves this as a TODO in \<open>get_tps\<close>
  (\<open>formally prove that first/last rounds always have certificates\<close>).
\<close>

subsection \<open>The trackers\<close>

definition rounds_nonempty :: "throughput_tracker \<Rightarrow> bool" where
  "rounds_nonempty t \<longleftrightarrow> (\<forall>(r, v)\<in>set (t_rounds t). v \<noteq> [])"

definition has_round :: "throughput_tracker \<Rightarrow> round \<Rightarrow> bool" where
  "has_round t r \<longleftrightarrow> mem_key (t_rounds t) r \<and> (\<exists>v. map_of (quorum_stats t) r = Some v \<and> v \<noteq> [])"

lemma update_not_Nil [simp]: "AList.update k v m \<noteq> []"
  by (induction m) auto

lemma rounds_nonempty_record: "rounds_nonempty t \<Longrightarrow> rounds_nonempty (throughput_record c t)"
proof -
  assume t: "rounds_nonempty t"
  have "\<forall>(r, v)\<in>set (upsert [] (c_round c) (AList.update k x) (t_rounds t)). v \<noteq> []" for k x
    by (rule upsert_vals [OF t [unfolded rounds_nonempty_def]]) simp
  then show ?thesis by (simp add: rounds_nonempty_def throughput_record_def Let_def)
qed

lemma rounds_nonempty_evict: "rounds_nonempty t \<Longrightarrow> rounds_nonempty (throughput_evict m t)"
  by (auto simp: rounds_nonempty_def throughput_evict_def retain_def)

lemma has_round_record: "has_round (throughput_record c t) r \<longleftrightarrow> has_round t r \<or> r = c_round c"
  by (auto simp: has_round_def throughput_record_def Let_def map_of_upsert mem_key_def)

lemma has_round_evict: "has_round t r \<Longrightarrow> m \<le> r \<Longrightarrow> has_round (throughput_evict m t) r"
  by (simp add: has_round_def throughput_evict_def map_of_evict mem_key_def)

lemma median_ts_total: "v \<noteq> [] \<Longrightarrow> median_ts v \<noteq> None"
proof -
  assume "v \<noteq> []"
  then have "length (sort (map fst (vals v))) \<noteq> 0" by (simp add: vals_def del: sort_key_simps)
  then show ?thesis unfolding median_ts_def Let_def by simp
qed

lemma round_median:
  assumes "rounds_nonempty t" "mem_key (t_rounds t) r"
  obtains v m where "map_of (t_rounds t) r = Some v" "median_ts v = Some m"
proof -
  obtain v where v: "map_of (t_rounds t) r = Some v" using assms(2) by (auto simp: mem_key_def)
  then have "v \<noteq> []" using assms(1) map_of_SomeD [OF v] by (auto simp: rounds_nonempty_def)
  with v that median_ts_total show ?thesis by blast
qed

lemma get_tps_total:
  assumes "rounds_nonempty t" "has_round t sr"
  shows "get_tps t sr \<noteq> None"
proof -
  let ?w = "window_rounds t"
  have sr: "mem_key (t_rounds t) sr" using assms(2) by (simp add: has_round_def)
  obtain v2 m2 where fin: "map_of (t_rounds t) sr = Some v2" "median_ts v2 = Some m2"
    using round_median [OF assms(1) sr] .
  have "sr \<in> set (filter (in_window ?w sr) (keys (t_rounds t)))"
    using sr by (simp add: in_window_def mem_key_iff set_keys)
  then obtain r rs where f: "filter (in_window ?w sr) (keys (t_rounds t)) = r # rs"
    by (cases "filter (in_window ?w sr) (keys (t_rounds t))") auto
  have keep: "fold min ys y \<in> set (y # ys)" for y :: nat and ys
    by (induction ys arbitrary: y) (auto simp: min_def)
  have "fold min rs r \<in> set (filter (in_window ?w sr) (keys (t_rounds t)))" unfolding f by (rule keep)
  then have "mem_key (t_rounds t) (fold min rs r)" by (simp add: mem_key_iff set_keys)
  then obtain v1 m1 where "map_of (t_rounds t) (fold min rs r) = Some v1" "median_ts v1 = Some m1"
    using round_median [OF assms(1)] by blast
  with fin f show ?thesis by (simp add: get_tps_def min_round_in_window_def Let_def)
qed

lemma f_of_nat_pos: "0 < n \<Longrightarrow> f_of_nat n \<noteq> Fin 0"
proof -
  assume "0 < n"
  define x where "x = (of_nat n :: rat)"
  have x: "1 \<le> x" using \<open>0 < n\<close> by (simp add: x_def)
  define e where "e = max (ilog2 x - 52) (- 1074)"
  have "pow2 (ilog2 x - 52) \<le> pow2 (ilog2 x)" "pow2 (- 1074) \<le> pow2 0"
    by (rule less_imp_le, rule pow2_less, simp)+
  moreover have "pow2 (ilog2 x) \<le> x" using ilog2_le [of x] x by simp
  ultimately have "pow2 e \<le> x" using x by (simp add: e_def pow2_def [of 0] max_def)
  then have "1 \<le> x / pow2 e" by simp
  then have "1 \<le> \<lfloor>x / pow2 e\<rfloor>" by (simp only: one_le_floor)
  also have "\<dots> \<le> rne (x / pow2 e)" by (simp add: rne_def Let_def)
  finally have "1 \<le> rne (x / pow2 e)" .
  then have "of_int (rne (x / pow2 e)) * pow2 e \<noteq> 0" using less_imp_neq [OF pow2_pos [of e]] by simp
  then show ?thesis using x by (auto simp: f_of_nat_def round64_def x_def e_def Let_def)
qed

lemma fold_upsert_nonempty:
  assumes "m \<noteq> [] \<or> (\<exists>v\<in>set vs. v \<noteq> [])"
  shows "fold (fold (\<lambda>(pk, delay). upsert d pk (f delay))) vs m \<noteq> []"
proof -
  have one: "fold (\<lambda>(pk, delay). upsert d pk (f delay)) v m \<noteq> []" if "m \<noteq> [] \<or> v \<noteq> []" for v m
    using that by (induction v arbitrary: m) (auto simp: upsert_def)
  show ?thesis using assms
  proof (induction vs arbitrary: m)
    case (Cons v vs)
    have "fold (\<lambda>(pk, delay). upsert d pk (f delay)) v m \<noteq> [] \<or> (\<exists>v\<in>set vs. v \<noteq> [])"
      using Cons.prems one [of m v] by auto
    from Cons.IH [OF this] show ?case by simp
  qed simp
qed

lemma avg_queue_delay_nonempty:
  assumes "has_round t sr"
  shows "avg_queue_delay t sr \<noteq> []"
proof -
  let ?f = "\<lambda>(pk, delay). upsert [] pk (\<lambda>ds. ds @ [delay])"
  let ?P = "\<lambda>m. \<forall>(pk, ds)\<in>set m. ds \<noteq> []"
  obtain v where v: "map_of (quorum_stats t) sr = Some v" "v \<noteq> []" using assms by (auto simp: has_round_def)
  have "v \<in> set (windowed (window_rounds t) sr (quorum_stats t))"
    using map_of_SomeD [OF v(1)] by (force simp: windowed_def in_window_def)
  then have ne: "get_avg_queue_delays t sr \<noteq> []"
    unfolding get_avg_queue_delays_def using v(2) by (intro fold_upsert_nonempty) blast
  have one: "?P (?f p m)" if "?P m" for p m
    by (cases p) (simp only: prod.case, rule upsert_vals [OF that], simp)
  have "?P (fold (fold ?f) vs [])" for vs
    by (rule fold_keeps [where P = ?P], simp, rule fold_keeps [where P = ?P], assumption, rule one)
  then have "?P (get_avg_queue_delays t sr)" by (simp only: get_avg_queue_delays_def)
  with ne show ?thesis by (auto simp: avg_queue_delay_def neq_Nil_conv)
qed

lemma avg_queue_delay_not_NaN: "NaN \<notin> set (vals (avg_queue_delay t sr))"
proof -
  have "f_div (f_of_nat (wsum 64 ms)) (f_of_nat (length ms)) \<noteq> NaN" if "ms \<noteq> []" for ms
  proof -
    have "wsum 64 ms < 2 ^ 64" unfolding wsum_mod by (rule mod_less_divisor) simp
    from in_range64_of_nat [OF this] obtain a where a: "f_of_nat (wsum 64 ms) = Fin a"
      by (auto simp: in_range64_def)
    have "f_of_nat (length ms) \<noteq> Fin 0" "f_of_nat (length ms) \<noteq> NaN"
      using f_of_nat_pos that by (simp_all add: f_of_nat_def)
    with a show ?thesis by (cases "f_of_nat (length ms)") auto
  qed
  then show ?thesis by (auto simp: avg_queue_delay_def vals_def eq_commute [of NaN])
qed

subsection \<open>The decision\<close>

lemma migrate_accounts_total:
  assumes "set rec \<subseteq> set (rr_keys E)" "length (rr_keys E) \<le> length (rs_assignments st)"
  shows "\<exists>st'. migrate_accounts E rec i target scale load accts shed st = Some st'
    \<and> length (rs_assignments st') = length (rs_assignments st)"
  using assms(2)
proof (induction accts arbitrary: shed st)
  case (Cons a accts)
  show ?case
  proof (cases "best_receiver E rec (rs_spare st) a (load a)")
    case None
    then show ?thesis using Cons by simp
  next
    case (Some r)
    have "r \<in> set (rr_keys E)" using best_receiver_Some(1) [OF Some] assms(1) by blast
    then have "index_of (rr_keys E) r < length (rs_assignments st)"
      using index_of_nth [of r "rr_keys E"] Cons.prems by linarith
    then show ?thesis
      using Cons.IH [of "\<lparr>rs_migrations = rs_migrations st @ [\<lparr>account_id = a, new_target = r\<rparr>],
          rs_assignments = move_account a i (index_of (rr_keys E) r) (rs_assignments st),
          rs_spare = AList.update r (f_sub (get_or NaN (rs_spare st) r) (load a)) (rs_spare st)\<rparr>"]
        Cons.IH [of st] Cons.prems Some
      by (auto simp: Let_def not_le [symmetric])
  qed
qed simp

lemma reroute_donors_total:
  assumes "set rec \<subseteq> set (rr_keys E)" "\<forall>d accts a. acct_cap_load E d accts a \<noteq> NaN"
    "set ds \<subseteq> set (rr_keys E)" "length (rr_keys E) \<le> length (rs_assignments st)"
  shows "reroute_donors E rec ds st \<noteq> None"
  using assms(3,4)
proof (induction ds arbitrary: st)
  case (Cons d ds)
  let ?i = "index_of (rr_keys E) d"
  have i: "?i < length (rs_assignments st)"
    using index_of_nth [of d "rr_keys E"] Cons.prems by fastforce
  have "comparable (map (acct_cap_load E d accts) accts)" for accts
    using assms(2) by (auto simp: comparable_def eq_commute [of NaN])
  then have "\<exists>st'. reroute_donor E rec d st = Some st' \<and> length (rs_assignments st') = length (rs_assignments st)"
    using i migrate_accounts_total [OF assms(1) Cons.prems(2)] by (simp add: reroute_donor_def Let_def not_le [symmetric])
  then obtain st' where "reroute_donor E rec d st = Some st'" "length (rs_assignments st') = length (rs_assignments st)"
    by blast
  then show ?case using Cons by simp
qed simp

lemma compute_rerouting_total:
  assumes "rr_avg_qd E \<noteq> []" "NaN \<notin> set (vals (rr_avg_qd E))"
    "length (rr_keys E) \<le> length as" "\<forall>d accts a. acct_cap_load E d accts a \<noteq> NaN"
  shows "compute_rerouting E as \<noteq> None"
proof -
  have "set (sort_by f_lt (vals (rr_avg_qd E))) \<noteq> {}"
    using assms(1) unfolding set_sort_by by (simp add: vals_def)
  then have "sort_by f_lt (vals (rr_avg_qd E)) \<noteq> []" by (metis set_empty)
  then obtain t where t: "thresh_delay (rr_avg_qd E) = Some t"
    using assms(2) by (auto simp: thresh_delay_def comparable_def Let_def)
  have "reroute_donors E (receivers_of E t) (donors_of E t)
      \<lparr>rs_migrations = [], rs_assignments = as, rs_spare = spare_of E\<rparr> \<noteq> None"
    using assms(3,4) by (intro reroute_donors_total) (auto simp: set_receivers set_donors)
  then show ?thesis using t assms(3) by (auto simp: compute_rerouting_def Let_def)
qed

subsection \<open>The stream of certificates\<close>

text \<open>
  Consensus passes certificates on as the primary delivers them: parents first, so a round
  is preceded by the round before it, and our own certificates in the order of their rounds.
  \<open>S\<close> are the rounds seen, \<open>R\<close> is the last round of an own certificate.
\<close>

fun rounds_grow :: "public_key \<Rightarrow> round set \<Rightarrow> round \<Rightarrow> certificate list \<Rightarrow> bool" where
  "rounds_grow name S R [] = True"
| "rounds_grow name S R (c # cs) \<longleftrightarrow>
     1 \<le> c_round c \<and> (c_round c = 1 \<or> c_round c - 1 \<in> S) \<and> (c_origin c = name \<longrightarrow> R \<le> c_round c)
     \<and> rounds_grow name (insert (c_round c) S) (if c_origin c = name then c_round c else R) cs"

definition lb_fed :: "lb_config \<Rightarrow> round set \<Rightarrow> round \<Rightarrow> lb_state \<Rightarrow> bool" where
  "lb_fed cfg S R s \<longleftrightarrow>
     times_bounded (lb_throughput s) \<and> rounds_nonempty (lb_throughput s)
     \<and> (\<forall>r\<in>S. 1 \<le> r \<and> (r = 1 \<or> r - 1 \<in> S)) \<and> (\<forall>r\<in>S. R - 32 \<le> r \<longrightarrow> has_round (lb_throughput s) r)
     \<and> length (authorities (lc_committee cfg)) \<le> length (lb_assignments s)"

lemma rounds_down:
  assumes "\<forall>r\<in>S. 1 \<le> r \<and> (r = 1 \<or> r - 1 \<in> S)" "r \<in> S" "1 \<le> k" "k \<le> r"
  shows "k \<in> (S :: round set)"
  using assms(4,2)
proof (induction rule: dec_induct)
  case (step n)
  then show ?case using assms(1,3) by (metis diff_Suc_1 One_nat_def Suc_le_mono le_zero_eq not_less_eq_eq)
qed simp

lemma lb_fed_record:
  assumes "lb_fed cfg S R s" "1 \<le> c_round c" "c_round c = 1 \<or> c_round c - 1 \<in> S" "h_created_at (c_header c) < 2 ^ 64"
  shows "lb_fed cfg (insert (c_round c) S) R (lb_record c s)"
  using assms times_bounded_record [OF _ assms(4)] rounds_nonempty_record
  by (auto simp: lb_fed_def lb_record_def has_round_record)

lemma lb_fed_evict:
  assumes "lb_fed cfg S R0 s" "R0 \<le> R"
  shows "lb_fed cfg S R (lb_evict (R - 2 - TRACKING_WINDOW) s)"
  using assms times_bounded_evict rounds_nonempty_evict has_round_evict
  by (auto simp: lb_fed_def lb_evict_def TRACKING_WINDOW_def)

lemma length_assignments_rerouting:
  assumes "compute_rerouting E as = Some (ms, as')" "loads_finite E" "exclusive as"
  shows "length as' = length as"
  using compute_rerouting_follows [OF assms(1,3,2)] by blast

lemma lb_step_total:
  assumes fed: "lb_fed cfg S R s0" and c: "1 \<le> c_round c" "c_round c = 1 \<or> c_round c - 1 \<in> S"
    "c_origin c = lc_name cfg \<Longrightarrow> R \<le> c_round c" "h_created_at (c_header c) < 2 ^ 64"
  shows "lb_step cfg s0 c \<noteq> None"
proof -
  let ?s = "lb_record c s0" and ?r = "c_round c"
  let ?t = "lb_throughput ?s" and ?sr = "?r - 2"
  have fed': "lb_fed cfg (insert ?r S) R ?s" by (rule lb_fed_record [OF fed c(1,2,4)])
  have has: "has_round ?t k" if "c_origin c = lc_name cfg" "1 \<le> k" "k \<le> ?r" "?r - 32 \<le> k" for k
  proof -
    have "k \<in> insert ?r S" using rounds_down [of "insert ?r S" ?r k] fed' that by (simp add: lb_fed_def)
    moreover have "R - 32 \<le> k" using c(3) that by simp
    ultimately show ?thesis using fed' by (auto simp: lb_fed_def)
  qed
  have ne: "rounds_nonempty ?t" and tb: "times_bounded ?t" using fed' by (simp_all add: lb_fed_def)
  have tps: "get_tps ?t ?sr \<noteq> None" if own: "c_origin c = lc_name cfg" and "?r mod TRACKING_WINDOW = 0"
  proof -
    have "30 \<le> ?r" using that(2) c(1) by (auto simp: TRACKING_WINDOW_def elim!: dvdE simp flip: dvd_eq_mod_eq_0)
    then show ?thesis using get_tps_total [OF ne has [OF own, of ?sr]] by simp
  qed
  show ?thesis
  proof (cases "c_origin c \<noteq> lc_name cfg \<or> ?r mod REROUTE_INTERVAL \<noteq> 0")
    case True
    then show ?thesis using tps by (auto simp: lb_step_def Let_def)
  next
    case False
    then have own: "c_origin c = lc_name cfg" and mod60: "?r mod REROUTE_INTERVAL = 0" by simp_all
    then have r60: "60 \<le> ?r" using c(1) by (auto simp: REROUTE_INTERVAL_def elim!: dvdE simp flip: dvd_eq_mod_eq_0)
    have "?r mod TRACKING_WINDOW = 0"
      using mod60 by (auto simp: TRACKING_WINDOW_def REROUTE_INTERVAL_def elim!: dvdE simp flip: dvd_eq_mod_eq_0)
    then have some: "get_tps ?t ?sr \<noteq> None" using tps own by simp
    have sr: "has_round ?t ?sr" and first: "has_round ?t (?sr - TRACKING_WINDOW)"
      using has [OF own, of ?sr] has [OF own, of "?sr - TRACKING_WINDOW"] r60 by (simp_all add: TRACKING_WINDOW_def)
    have ts: "\<exists>m. round_timestamp_ms ?t k = Some (Some m)" if "has_round ?t k" for k
      using that ne by (auto simp: has_round_def round_timestamp_ms_def elim: round_median)
    obtain now where now: "lb_current_ts ?s ?sr c = Some now" using ts [OF sr] by (auto simp: lb_current_ts_def)
    obtain dt where dt: "lb_delta_t ?s ?sr now = Some dt"
      using ts [OF first] by (cases "lb_prev_ts ?s") (auto simp: lb_delta_t_def)
    have dec: "compute_rerouting (lb_input cfg ?s ?r ?sr tps dt) (lb_assignments ?s) \<noteq> None"
      if "get_tps ?t ?sr = Some (Some tps)" for tps
    proof (rule compute_rerouting_total)
      have "in_range64 329 (acct_cap_load (lb_input cfg ?s ?r ?sr tps dt) d accts a)" for d accts a
        by (rule lb_load_in_range [OF that tb])
      then show "\<forall>d accts a. acct_cap_load (lb_input cfg ?s ?r ?sr tps dt) d accts a \<noteq> NaN"
        by (metis f64.distinct(3) in_range64_def)
      show "length (rr_keys (lb_input cfg ?s ?r ?sr tps dt)) \<le> length (lb_assignments ?s)"
        using fed' by (simp add: lb_fed_def lb_input_def keys_def)
    qed (use avg_queue_delay_nonempty [OF sr] avg_queue_delay_not_NaN in \<open>simp_all add: lb_input_def\<close>)
    show ?thesis
    proof (cases "get_tps ?t ?sr")
      case (Some tps)
      then show ?thesis using own mod60 now dt dec by (cases tps) (auto simp: lb_step_def Let_def)
    qed (use some in simp)
  qed
qed

lemma lb_step_fed:
  assumes fed: "lb_fed cfg S R s0" and "exclusive (lb_assignments s0)"
    and c: "1 \<le> c_round c" "c_round c = 1 \<or> c_round c - 1 \<in> S"
      "c_origin c = lc_name cfg \<Longrightarrow> R \<le> c_round c" "h_created_at (c_header c) < 2 ^ 64"
    and step: "lb_step cfg s0 c = Some (s', ms)"
  shows "lb_fed cfg (insert (c_round c) S) (if c_origin c = lc_name cfg then c_round c else R) s'"
proof -
  let ?s = "lb_record c s0" and ?R = "if c_origin c = lc_name cfg then c_round c else R"
  have R: "R \<le> ?R" using c(3) by simp
  have fed': "lb_fed cfg (insert (c_round c) S) R ?s" by (rule lb_fed_record [OF fed c(1,2,4)])
  then have grown: "lb_fed cfg (insert (c_round c) S) ?R ?s"
    using R diff_le_mono [OF R, of 32] unfolding lb_fed_def by fastforce
  have "length (lb_assignments s') = length (lb_assignments s0)"
    using step fed [unfolded lb_fed_def, THEN conjunct1] c(4)
    by (cases rule: lb_step_inv) (simp_all add: length_assignments_rerouting [OF _ _ assms(2)])
  moreover have "lb_throughput s' = lb_throughput ?s
      \<or> (c_origin c = lc_name cfg \<and> lb_throughput s' = lb_throughput (lb_evict (c_round c - 2 - TRACKING_WINDOW) ?s))"
    using step fed [unfolded lb_fed_def, THEN conjunct1] c(4)
    by (cases rule: lb_step_inv) (auto simp: lb_record_def lb_evict_def)
  ultimately show ?thesis
    using grown lb_fed_evict [OF fed', of "c_round c"] c(3) by (auto simp: lb_fed_def lb_record_def lb_evict_def)
qed

text \<open>
  C13: The load-balancing task never panics. For every stream of certificates in which each
  round after the first follows its predecessor and our own certificates come in the order of
  their rounds, the task handles all of them: the rounds it looks up have certificates
  in the tracking window although old rounds are evicted, and every index and comparison is defined.
\<close>

theorem load_balancer_never_panics:
  assumes "lb_init cfg = Some s" "length (authorities (lc_committee cfg)) \<le> length (account_ranges (lc_committee cfg))"
    "exclusive (lb_assignments s)" "rounds_grow (lc_name cfg) {} 0 cs" "certificates_in_range cs"
  shows "lb_run cfg s cs \<noteq> None"
proof -
  have "lb_run cfg s cs \<noteq> None"
    if "lb_fed cfg S R s" "lb_inv s" "rounds_grow (lc_name cfg) S R cs" "certificates_in_range cs" for S R s
    using that
  proof (induction cs arbitrary: S R s)
    case (Cons c cs)
    have c: "1 \<le> c_round c" "c_round c = 1 \<or> c_round c - 1 \<in> S" "c_origin c = lc_name cfg \<Longrightarrow> R \<le> c_round c"
      "h_created_at (c_header c) < 2 ^ 64"
      using Cons.prems(3,4) by (simp_all add: certificates_in_range_def)
    obtain s1 ms where step: "lb_step cfg s c = Some (s1, ms)"
      using lb_step_total [OF Cons.prems(1) c] by auto
    have "lb_inv s1" by (rule lb_step_props(1) [OF step Cons.prems(2) c(4)])
    moreover have "lb_fed cfg (insert (c_round c) S) (if c_origin c = lc_name cfg then c_round c else R) s1"
      using Cons.prems(2) by (intro lb_step_fed [OF Cons.prems(1) _ c step]) (simp_all add: lb_inv_def)
    ultimately have "lb_run cfg s1 cs \<noteq> None"
      using Cons.IH Cons.prems(3,4) by (simp add: certificates_in_range_def)
    with step show ?case by auto
  qed simp
  moreover have "lb_fed cfg {} 0 s" "lb_inv s"
    using assms(1,2,3)
    by (auto simp: lb_init_def lb_fed_def lb_inv_def times_bounded_def rounds_nonempty_def throughput_new_def)
  ultimately show ?thesis using assms(4,5) by blast
qed

end
