(* ===== verification/Load_Runs.thy ===== *)
theory Load_Runs
  imports Load_Totality
begin

text \<open>
  A concrete run of the load balancer: validator 1 reports long queues and twice the throughput
  it has capacity for, and sheds account 2 to validator 3, the closest one with room.
\<close>

definition lb_cfg :: lb_config where
  "lb_cfg = \<lparr>lc_name = 1, lc_committee = committee4, lc_capacities = [(1, 100), (2, 100), (3, 100), (4, 100)],
     lc_latency = [(1, [(1, 0), (2, 30), (3, 10), (4, 20)]), (2, []), (3, []), (4, [])]\<rparr>"

definition lb_cert :: "round \<Rightarrow> public_key \<Rightarrow> (nat, nat) hmap \<Rightarrow> nat \<Rightarrow> nat \<Rightarrow> certificate" where
  "lb_cert r pk counts qd ts =
     \<lparr>c_header = header_default\<lparr>h_author := pk, h_round := r, h_account_counts := counts,
        h_avg_queue_delay_ms := qd, h_created_at := ts\<rparr>, c_votes = []\<rparr>"

lemma lb_cert_simps [simp]:
  "c_round (lb_cert r pk counts qd ts) = r" "c_origin (lb_cert r pk counts qd ts) = pk"
  "h_account_counts (c_header (lb_cert r pk counts qd ts)) = counts"
  "h_avg_queue_delay_ms (c_header (lb_cert r pk counts qd ts)) = qd"
  "h_created_at (c_header (lb_cert r pk counts qd ts)) = ts"
  by (simp_all add: lb_cert_def c_round_def c_origin_def)

definition lb_certs :: "certificate list" where
  "lb_certs =
     [lb_cert 28 1 [] 0 1000, lb_cert 28 2 [] 0 1000,
      lb_cert 58 1 [(0, 100), (1, 60), (2, 40)] 500 2000, lb_cert 58 2 [(10, 50)] 20 2000,
      lb_cert 58 3 [(20, 50)] 10 2000, lb_cert 58 4 [(30, 50)] 10 2000,
      lb_cert 60 1 [] 0 2100]"

definition lb_state0 :: lb_state where
  "lb_state0 = the (lb_init lb_cfg)"

lemma lb_init_cfg: "lb_init lb_cfg = Some lb_state0"
  by (simp add: lb_state0_def lb_init_def lb_cfg_def committee4_def wadd_def upt_rec)

definition lb_input60 :: reroute_input where
  "lb_input60 = \<lparr>rr_tps = [(1, Fin 200), (2, Fin 50), (3, Fin 50), (4, Fin 50)],
     rr_capacities = [(1, 100), (2, 100), (3, 100), (4, 100)],
     rr_avg_qd = [(1, Fin 250), (2, Fin 10), (3, Fin 10), (4, Fin 10)], rr_latency = lb_latencies lb_state0,
     rr_counts = [(1, [(0, 100), (1, 60), (2, 40)]), (2, [(10, 50)]), (3, [(20, 50)]), (4, [(30, 50)])],
     rr_keys = [1, 2, 3, 4], rr_f = 1, rr_last_migrated = [], rr_round = 60, rr_prev_qd = [], rr_delta_t = Fin 1\<rparr>"

definition lb_state58 :: lb_state where
  "lb_state58 = fold lb_record lb_certs lb_state0"

lemma assignments0: "lb_assignments lb_state0 = [[0..<10], [10..<20], [20..<30], [30..<40]]"
  by (simp add: lb_state0_def lb_init_def lb_cfg_def committee4_def wadd_def upt_rec)

lemma state0_fields:
  "lb_throughput lb_state0 = throughput_new TRACKING_WINDOW" "lb_accounts lb_state0 = account_tracker_new"
  "lb_last_migrated lb_state0 = []" "lb_prev_qd lb_state0 = []" "lb_prev_ts lb_state0 = None"
  by (simp_all add: lb_state0_def lb_init_def lb_cfg_def committee4_def wadd_def upt_rec)

lemma fold_lb_record:
  "lb_throughput (fold lb_record cs s) = fold throughput_record cs (lb_throughput s)"
  "lb_accounts (fold lb_record cs s) = fold account_record cs (lb_accounts s)"
  "lb_assignments (fold lb_record cs s) = lb_assignments s"
  "lb_last_migrated (fold lb_record cs s) = lb_last_migrated s"
  "lb_prev_qd (fold lb_record cs s) = lb_prev_qd s"
  "lb_prev_ts (fold lb_record cs s) = lb_prev_ts s"
  "lb_latencies (fold lb_record cs s) = lb_latencies s"
  by (induction cs arbitrary: s) (simp_all add: lb_record_def)

definition tracker60 :: throughput_tracker where
  "tracker60 = \<lparr>t_rounds = [(28, [(1, (1000, 0)), (2, (1000, 0))]),
       (58, [(1, (2000, 200)), (2, (2000, 50)), (3, (2000, 50)), (4, (2000, 50))]), (60, [(1, (2100, 0))])],
     quorum_stats = [(28, [(1, 0), (2, 0)]), (58, [(1, 500), (2, 20), (3, 10), (4, 10)]), (60, [(1, 0)])],
     window_rounds = 30\<rparr>"

lemma throughput60: "lb_throughput lb_state58 = tracker60"
  unfolding lb_state58_def fold_lb_record state0_fields lb_certs_def
  by (simp add: throughput_record_def Let_def tracker60_def
      throughput_new_def TRACKING_WINDOW_def upsert_def get_or_def vals_def wadd_def)

lemma accounts60: "at_dag (lb_accounts lb_state58) =
    [(28, [(1, ([], 1000)), (2, ([], 1000))]),
     (58, [(1, ([(0, 100), (1, 60), (2, 40)], 2000)), (2, ([(10, 50)], 2000)), (3, ([(20, 50)], 2000)), (4, ([(30, 50)], 2000))]),
     (60, [(1, ([], 2100))])]"
  unfolding lb_state58_def fold_lb_record state0_fields lb_certs_def
  by (simp add: account_record_def account_tracker_new_def upsert_def get_or_def)

lemma tps60: "get_tps tracker60 58 = Some (Some [(1, Fin 200), (2, Fin 50), (3, Fin 50), (4, Fin 50)])"
  by (simp add: tracker60_def upsert_def get_or_def get_tps_def tps_totals_def windowed_def in_window_def
      min_round_in_window_def median_ts_def keys_def vals_def f_of_nat_def wadd_def)

lemma qd60: "avg_queue_delay tracker60 58 = [(1, Fin 250), (2, Fin 10), (3, Fin 10), (4, Fin 10)]"
  by (simp add: tracker60_def upsert_def get_or_def avg_queue_delay_def get_avg_queue_delays_def windowed_def
     in_window_def f_of_nat_def wadd_def)

lemma counts60: "per_validator_account_counts (lb_accounts lb_state58) 58 30 =
    [(1, [(0, 100), (1, 60), (2, 40)]), (2, [(10, 50)]), (3, [(20, 50)]), (4, [(30, 50)])]"
  unfolding per_validator_account_counts_def accounts60
  by (simp add: windowed_def in_window_def upsert_def get_or_def wadd_def)

lemma input60: "lb_input lb_cfg lb_state58 60 58 [(1, Fin 200), (2, Fin 50), (3, Fin 50), (4, Fin 50)] (Fin 1) = lb_input60"
proof -
  have "lb_latencies lb_state58 = lb_latencies lb_state0" "lb_last_migrated lb_state58 = []" "lb_prev_qd lb_state58 = []"
    by (simp_all add: lb_state58_def fold_lb_record state0_fields)
  then show ?thesis
    unfolding lb_input_def lb_input60_def throughput60 qd60 TRACKING_WINDOW_def counts60
    by (simp add: lb_cfg_def keys_committee4 csize_def) (simp add: committee4_def wsub_def)
qed

lemma thresh60: "thresh_delay (rr_avg_qd lb_input60) = Some (Fin 10)"
  by (simp add: lb_input60_def thresh_delay_def sort_by_def vals_def comparable_def f_lt_def)

lemma donors60: "donors_of lb_input60 (Fin 10) = [1]"
  by (simp add: lb_input60_def donors_of_def is_donor_def get_or_def MIN_DONOR_QD_MS_def f_lt_def sort_by_def)

lemma spare60: "spare_of lb_input60 = [(1, Fin (- 100)), (2, Fin 50), (3, Fin 50), (4, Fin 50)]"
  by (simp add: lb_input60_def spare_of_def capacity_of_def tps_of_def get_or_def f_sub_def f_of_nat_def)

lemma receivers60: "receivers_of lb_input60 (Fin 10) = [2, 3, 4]"
  unfolding receivers_of_def spare60
  by (simp add: lb_input60_def is_donor_def get_or_def MIN_DONOR_QD_MS_def f_lt_def mem_key_def)

lemma latencies60: "map_of (lb_latencies lb_state0) 2 = Some [(1, 0), (2, 30), (3, 10), (4, 20)]"
  by (simp add: lb_state0_def lb_init_def lb_cfg_def committee4_def wadd_def upt_rec)

lemma load60: "acct_cap_load lb_input60 1 [0..<10] a = (if a = 0 then Fin 100 else if a = 1 then Fin 60 else if a = 2 then Fin 40 else Fin 0)"
proof -
  let ?c = "[(0, 100), (1, 60), (2, 40)] :: (nat, nat) hmap"
  have upt: "[0..<10] = [0, 1, 2, 3, 4, 5, 6, 7, 8, 9 :: nat]" by (simp add: upt_rec)
  have total: "wsum 64 (map (get_or 0 ?c) [0..<10]) = 200" unfolding upt by (simp add: get_or_def wadd_def)
  have fields: "get_or [] (rr_counts lb_input60) 1 = ?c" "tps_of lb_input60 1 = Fin 200"
    by (simp_all add: lb_input60_def get_or_def tps_of_def)
  have count: "get_or 0 ?c a = (if a = 0 then 100 else if a = 1 then 60 else if a = 2 then 40 else 0)"
    by (simp add: get_or_def)
  show ?thesis unfolding acct_cap_load_def fields total Let_def count by (simp add: f_of_nat_def)
qed

lemma quarter: "round64 (1 / 4) = Fin (1 / 4)" "round64 (5 / 4) = Fin (5 / 4)"
  using round64_exact [of "1 / 4" 1 "- 2"] round64_exact [of "5 / 4" 5 "- 2"] by (simp_all add: pow2_def)

lemma excess60: "estimated_excess lb_input60 1 = Fin 50" "structural_excess lb_input60 1 = Fin 100"
  "shed_target lb_input60 1 = Fin 100" "incoming_scale lb_input60 1 = Fin (5 / 4)"
proof -
  show "estimated_excess lb_input60 1 = Fin 50"
    by (simp add: estimated_excess_def lb_input60_def get_or_def tps_of_def f_sub_def f_lt_def quarter Let_def)
  moreover show "structural_excess lb_input60 1 = Fin 100"
    by (simp add: structural_excess_def lb_input60_def get_or_def tps_of_def capacity_of_def f_sub_def f_max_def f_of_nat_def)
  moreover have "tps_of lb_input60 1 = Fin 200" by (simp add: lb_input60_def tps_of_def get_or_def)
  ultimately show "shed_target lb_input60 1 = Fin 100" "incoming_scale lb_input60 1 = Fin (5 / 4)"
    by (simp_all add: shed_target_def incoming_scale_def SHED_CAP_MULTIPLIER_def f_max_def f_min_def quarter)
qed

definition assignments60 :: assignments where
  "assignments60 = [[0, 1, 3, 4, 5, 6, 7, 8, 9], [10..<20], [20..<30] @ [2], [30..<40]]"

lemma sort_loads:
  assumes "l 0 = Fin 100" "l (Suc 0) = Fin 60" "l 2 = Fin 40" "\<And>a. 2 < a \<Longrightarrow> l a = Fin 0"
  shows "sort_by (\<lambda>a b. f_lt (l b) (l a) \<or> (\<not> f_lt (l a) (l b) \<and> a < b)) [0, 1, 2, 3, 4, 5, 6, 7, 8, 9 :: nat]
    = [0, 1, 2, 3, 4, 5, 6, 7, 8, 9]"
  using assms by (simp add: sort_by_def f_lt_def)

lemma migrate60:
  assumes l: "l 0 = Fin 100" "l (Suc 0) = Fin 60" "l 2 = Fin 40" "l 3 = Fin 0"
  shows "migrate_accounts lb_input60 [2, 3, 4] 0 (Fin 100) (Fin (5 / 4)) l [0, 1, 2, 3, 4, 5, 6, 7, 8, 9] (Fin 0)
      \<lparr>rs_migrations = [], rs_assignments = lb_assignments lb_state0, rs_spare = spare_of lb_input60\<rparr>
    = Some \<lparr>rs_migrations = [\<lparr>account_id = 2, new_target = 3\<rparr>], rs_assignments = assignments60,
        rs_spare = [(1, Fin (- 100)), (2, Fin 50), (3, Fin 10), (4, Fin 50)]\<rparr>"
proof -
  have none: "best_receiver lb_input60 [2, 3, 4] [(1, Fin (- 100)), (2, Fin 50), (3, Fin 50), (4, Fin 50)] a (Fin x) = None"
    if "50 < x" for a x
    using that by (simp add: best_receiver_def get_or_def)
  have some: "best_receiver lb_input60 [2, 3, 4] [(1, Fin (- 100)), (2, Fin 50), (3, Fin 50), (4, Fin 50)] 2 (Fin 40) = Some 3"
    by (simp add: best_receiver_def get_or_def latency_to_def latencies60 lb_input60_def f_lt_def)
  have keys: "rr_keys lb_input60 = [1, 2, 3, 4]" "\<not> cooling lb_input60 a" for a
    by (simp_all add: lb_input60_def cooling_def)
  have "index_of [1, 2, 3, 4] (3 :: public_key) = 2" by (simp add: index_of_def)
  moreover have "move_account 2 0 2 [[0..<10], [10..<20], [20..<30], [30..<40]] = assignments60"
    by (simp add: move_account_def assignments60_def set_insert_def upt_rec)
  ultimately show ?thesis
    by (simp add: l none some keys spare60 assignments0 get_or_def f_sub_def)
qed

lemma reroute60:
  "compute_rerouting lb_input60 (lb_assignments lb_state0) = Some ([\<lparr>account_id = 2, new_target = 3\<rparr>], assignments60)"
proof -
  define l where "l = acct_cap_load lb_input60 1 [0..<10]"
  have l: "l 0 = Fin 100" "l (Suc 0) = Fin 60" "l 2 = Fin 40" "\<And>a. 2 < a \<Longrightarrow> l a = Fin 0"
    by (simp_all add: l_def load60)
  have upt: "[0..<10] = [0, 1, 2, 3, 4, 5, 6, 7, 8, 9 :: nat]" by (simp add: upt_rec)
  have keys: "rr_keys lb_input60 = [1, 2, 3, 4]" "rr_f lb_input60 = 1" "length (rr_avg_qd lb_input60) = 4"
    "tps_of lb_input60 1 = Fin 200" "index_of [1, 2, 3, 4] (1 :: public_key) = 0"
    by (simp_all add: lb_input60_def tps_of_def get_or_def index_of_def)
  have len: "length (lb_assignments lb_state0) = 4" "lb_assignments lb_state0 ! 0 = [0..<10]"
    by (simp_all add: assignments0)
  have "l a \<noteq> NaN" for a using l by (cases "a = 0"; cases "a = Suc 0"; cases "a = 2") simp_all
  then have "NaN \<notin> l ` {0..<10}" by (simp add: image_iff eq_commute [of NaN])
  then have "reroute_donor lb_input60 [2, 3, 4] 1
      \<lparr>rs_migrations = [], rs_assignments = lb_assignments lb_state0, rs_spare = spare_of lb_input60\<rparr>
    = Some \<lparr>rs_migrations = [\<lparr>account_id = 2, new_target = 3\<rparr>], rs_assignments = assignments60,
        rs_spare = [(1, Fin (- 100)), (2, Fin 50), (3, Fin 10), (4, Fin 50)]\<rparr>"
    using sort_loads [of l] migrate60 [of l] l
    by (simp add: reroute_donor_def keys len excess60 comparable_def flip: l_def) (simp add: upt)
  then show ?thesis
    by (simp add: compute_rerouting_def keys thresh60 donors60 receivers60 len)
qed

lemma lb_step_quiet:
  assumes "c_origin c \<noteq> lc_name cfg \<or> c_round c mod TRACKING_WINDOW \<noteq> 0"
  shows "lb_step cfg s c = Some (lb_record c s, [])"
proof -
  have "c_round c mod REROUTE_INTERVAL = 0 \<Longrightarrow> c_round c mod TRACKING_WINDOW = 0"
    by (auto simp: TRACKING_WINDOW_def REROUTE_INTERVAL_def elim!: dvdE simp flip: dvd_eq_mod_eq_0)
  then show ?thesis using assms by (auto simp: lb_step_def Let_def)
qed

lemma lb_run_quiet:
  assumes "\<forall>c\<in>set cs. c_origin c \<noteq> lc_name cfg \<or> c_round c mod TRACKING_WINDOW \<noteq> 0"
  shows "lb_run cfg s (cs @ ds) = lb_run cfg (fold lb_record cs s) ds"
  using assms by (induction cs arbitrary: s) (simp_all add: lb_step_quiet option.map_id)

lemma lb_step60:
  assumes "lb_record c s = lb_state58" "c_round c = 60" "c_origin c = 1"
  shows "\<exists>s'. lb_step lb_cfg s c = Some (s', [\<lparr>account_id = 2, new_target = 3\<rparr>]) \<and> lb_assignments s' = assignments60"
proof -
  have name: "lc_name lb_cfg = 1" by (simp add: lb_cfg_def)
  have "round_timestamp_ms tracker60 58 = Some (Some 2000)" "round_timestamp_ms tracker60 28 = Some (Some 1000)"
    by (simp_all add: round_timestamp_ms_def tracker60_def median_ts_def vals_def wadd_def)
  moreover have "lb_prev_ts lb_state58 = None" "lb_assignments lb_state58 = lb_assignments lb_state0"
    by (simp_all add: lb_state58_def fold_lb_record state0_fields)
  moreover have "f_div (f_of_nat 1000) (Fin 1000) = Fin 1" by (simp add: f_of_nat_def)
  ultimately show ?thesis
    using reroute60
    by (simp add: lb_step_def assms name throughput60 tps60 qd60 input60 TRACKING_WINDOW_def REROUTE_INTERVAL_def
        lb_current_ts_def lb_delta_t_def Let_def lb_apply_def lb_evict_def)
qed

lemma lb_run60:
  "\<exists>s'. lb_run lb_cfg lb_state0 lb_certs = Some (s', [(60, \<lparr>account_id = 2, new_target = 3\<rparr>)])
    \<and> lb_assignments s' = assignments60"
proof -
  let ?c = "lb_cert 60 1 [] 0 2100"
  obtain cs where cs: "lb_certs = cs @ [?c]" "\<forall>c\<in>set cs. c_origin c \<noteq> lc_name lb_cfg \<or> c_round c mod TRACKING_WINDOW \<noteq> 0"
    by (rule that [of "butlast lb_certs"]) (simp_all add: lb_certs_def lb_cfg_def TRACKING_WINDOW_def)
  have "lb_record ?c (fold lb_record cs lb_state0) = lb_state58" unfolding lb_state58_def cs(1) by simp
  from lb_step60 [OF this] show ?thesis unfolding cs(1) lb_run_quiet [OF cs(2)] by auto
qed

lemma lb_inv_state0: "lb_inv lb_state0"
proof -
  have "i = a div 10" if "owns (lb_assignments lb_state0) i a" for i a
  proof -
    have "i = 0 \<or> i = 1 \<or> i = 2 \<or> i = 3" using that by (auto simp: owns_def assignments0)
    then show ?thesis using that by (elim disjE) (auto simp: owns_def assignments0)
  qed
  moreover have "\<forall>xs\<in>set (lb_assignments lb_state0). distinct xs" by (simp add: assignments0)
  ultimately have "exclusive (lb_assignments lb_state0)" unfolding exclusive_def by blast
  then show ?thesis by (simp add: lb_inv_def state0_fields times_bounded_def throughput_new_def)
qed

lemma lb_certs_in_range: "certificates_in_range lb_certs"
  by (simp add: certificates_in_range_def lb_certs_def)

theorem rerouting_donors_receivers_witness:
  "is_donor (rr_avg_qd lb_input60) (Fin 10) 1 \<and> \<not> f_le (tps_of lb_input60 1) (capacity_of lb_input60 1)
    \<and> \<not> is_donor (rr_avg_qd lb_input60) (Fin 10) 3"
proof -
  have "loads_finite lb_input60"
    using lb_loads_finite [of lb_state58 58 _ lb_cfg 60 "Fin 1"] tps60 throughput60 input60
    by (simp add: tracker60_def times_bounded_def)
  from rerouting_donors_receivers [OF reroute60 _ this, of "\<lparr>account_id = 2, new_target = 3\<rparr>"] lb_inv_state0
  obtain t d where d: "thresh_delay (rr_avg_qd lb_input60) = Some t" "d \<in> set (rr_keys lb_input60)"
    "is_donor (rr_avg_qd lb_input60) t d" "\<not> f_le (tps_of lb_input60 d) (capacity_of lb_input60 d)"
    "\<not> is_donor (rr_avg_qd lb_input60) t 3" by (auto simp: lb_inv_def)
  then have t: "t = Fin 10" using thresh60 by simp
  have "d \<in> set (donors_of lb_input60 (Fin 10))" using d(2,3) by (simp add: set_donors t)
  then have "d = 1" by (simp add: donors60)
  with d t show ?thesis by simp
qed

theorem load_balancer_follows_notices_witness:
  "\<exists>s' m. lb_run lb_cfg lb_state0 lb_certs = Some (s', [(60, m)]) \<and> exclusive (lb_assignments s')
    \<and> owns (lb_assignments s') 2 2 = follow [1, 2, 3, 4] [m] (owns (lb_assignments lb_state0)) 2 2"
proof -
  obtain s' where run: "lb_run lb_cfg lb_state0 lb_certs = Some (s', [(60, \<lparr>account_id = 2, new_target = 3\<rparr>)])"
    using lb_run60 by blast
  have "keys (authorities (lc_committee lb_cfg)) = [1, 2, 3, 4]" by (simp add: lb_cfg_def keys_committee4)
  with load_balancer_follows_notices [OF run lb_inv_state0 lb_certs_in_range] run show ?thesis by auto
qed

theorem migrations_of_an_account_are_spaced_witness:
  "\<exists>s'. lb_run lb_cfg lb_state0 lb_certs = Some (s', [(60, \<lparr>account_id = 2, new_target = 3\<rparr>)])
    \<and> spaced [(60, \<lparr>account_id = 2, new_target = 3\<rparr>)]"
proof -
  obtain s' where run: "lb_run lb_cfg lb_state0 lb_certs = Some (s', [(60, \<lparr>account_id = 2, new_target = 3\<rparr>)])"
    using lb_run60 by blast
  with migrations_of_an_account_are_spaced [OF run lb_inv_state0 lb_certs_in_range] show ?thesis by blast
qed

text \<open>Sixty rounds of our own certificates: the last one starts a rerouting decision.\<close>

theorem load_balancer_never_panics_witness:
  "lb_run lb_cfg lb_state0 (map (\<lambda>r. lb_cert r 1 [(0, r)] r (1000 * r)) [1..<61]) \<noteq> None"
proof -
  have grow: "rounds_grow 1 {1..n} n (map f [Suc n..<Suc n + k])"
    if f: "\<And>r. c_round (f r) = r" "\<And>r. c_origin (f r) = 1" for f n k
  proof (induction k arbitrary: n)
    case (Suc k)
    have "insert (Suc n) {1..n} = {1..Suc n}" by auto
    moreover have "[Suc n..<Suc n + Suc k] = Suc n # [Suc (Suc n)..<Suc (Suc n) + k]"
      by (simp add: upt_conv_Cons)
    ultimately show ?case using Suc.IH [of "Suc n"] by (simp only: list.map rounds_grow.simps f) auto
  qed simp
  have "rounds_grow (lc_name lb_cfg) {} 0 (map (\<lambda>r. lb_cert r 1 [(0, r)] r (1000 * r)) [1..<61])"
    using grow [of _ 0 60] by (simp add: lb_cfg_def)
  moreover have "certificates_in_range (map (\<lambda>r. lb_cert r 1 [(0, r)] r (1000 * r)) [1..<61])"
    by (auto simp: certificates_in_range_def)
  moreover have "length (authorities (lc_committee lb_cfg)) \<le> length (account_ranges (lc_committee lb_cfg))"
    by (simp add: lb_cfg_def committee4_def)
  ultimately show ?thesis
    using load_balancer_never_panics [OF lb_init_cfg] lb_inv_state0 by (simp add: lb_inv_def)
qed

end
