(* ===== verification/Workload.thy ===== *)
theory Workload
  imports Prelude F64
begin

text \<open>
  \<^verbatim>\<open>worker/src/workload.rs\<close> and \<^verbatim>\<open>worker/src/transaction.rs\<close>: the SmallBank accounts, the
  operations on them, and the bytes of a transaction. An \<open>i64\<close> is an \<open>int\<close> with the
  release build's wrap-around written out; the amount of a transaction is kept as the 64 bits of the
  \<open>f64\<close>.
\<close>

subsection \<open>Signed 64-bit integers and floating-point conversions\<close>

definition i64_range :: "int \<Rightarrow> bool" where
  "i64_range x \<longleftrightarrow> - (2 ^ 63) \<le> x \<and> x < 2 ^ 63"

definition wrap64 :: "int \<Rightarrow> int" where
  "wrap64 x = (x + 2 ^ 63) mod 2 ^ 64 - 2 ^ 63"

text \<open>\<open>saturating_add\<close> and \<open>saturating_sub\<close>.\<close>

definition sat64 :: "int \<Rightarrow> int" where
  "sat64 x = max (- (2 ^ 63)) (min (2 ^ 63 - 1) x)"

text \<open>\<open>x as i64\<close>: towards zero, saturating, zero for NaN.\<close>

fun f_as_i64 :: "f64 \<Rightarrow> int" where
  "f_as_i64 NaN = 0"
| "f_as_i64 (Inf s) = (if s then - (2 ^ 63) else 2 ^ 63 - 1)"
| "f_as_i64 (Fin q) = sat64 (if 0 \<le> q then \<lfloor>q\<rfloor> else \<lceil>q\<rceil>)"

text \<open>\<open>f64::from_be_bytes\<close>: sign, exponent and mantissa.\<close>

definition f64_of_bits :: "nat \<Rightarrow> f64" where
  "f64_of_bits b =
     (let neg = odd (b div 2 ^ 63); e = b div 2 ^ 52 mod 2048; m = b mod 2 ^ 52
      in if e = 2047 then if m = 0 then Inf neg else NaN
         else let v = (if e = 0 then of_nat m * pow2 (- 1074)
                       else of_nat (2 ^ 52 + m) * pow2 (int e - 1075))
              in Fin (if neg then - v else v))"

lemma wrap64_range [simp]: "i64_range (wrap64 x)"
proof -
  have "0 \<le> (x + 2 ^ 63) mod 2 ^ 64" "(x + 2 ^ 63) mod 2 ^ 64 < 2 ^ 64" by simp_all
  then show ?thesis unfolding i64_range_def wrap64_def by simp
qed

lemma sat64_range [simp]: "i64_range (sat64 x)"
  by (auto simp: i64_range_def sat64_def)

lemma f_as_i64_range [simp]: "i64_range (f_as_i64 a)"
  by (cases a) (auto simp: i64_range_def sat64_def)

lemma wrap64_id: "i64_range x \<Longrightarrow> wrap64 x = x"
  by (simp add: i64_range_def wrap64_def)

lemma wrap64_over:
  assumes "2 ^ 63 \<le> x" "x < 2 ^ 64"
  shows "wrap64 x < 0"
proof -
  have "(x + 2 ^ 63) mod 2 ^ 64 = (x - 2 ^ 63) mod 2 ^ 64"
    using mod_add_self2 [of "x - 2 ^ 63" "2 ^ 64"] by (simp add: algebra_simps)
  also have "\<dots> = x - 2 ^ 63" using assms by (intro mod_pos_pos_trivial) auto
  finally show ?thesis using assms(2) unfolding wrap64_def by simp
qed

lemma sat64_id: "i64_range x \<Longrightarrow> sat64 x = x"
  by (auto simp: i64_range_def sat64_def)

subsection \<open>Accounts\<close>

datatype sb_tx_type = Balance | DepositChecking | TransactSavings | WriteCheck | SendPayment

definition tx_type_from_u8 :: "8 word \<Rightarrow> sb_tx_type option" where
  "tx_type_from_u8 b =
     (if b = 0 then Some Balance else if b = 1 then Some DepositChecking
      else if b = 2 then Some TransactSavings else if b = 3 then Some WriteCheck
      else if b = 4 then Some SendPayment else None)"

fun tx_type_to_u8 :: "sb_tx_type \<Rightarrow> 8 word" where
  "tx_type_to_u8 Balance = 0"
| "tx_type_to_u8 DepositChecking = 1"
| "tx_type_to_u8 TransactSavings = 2"
| "tx_type_to_u8 WriteCheck = 3"
| "tx_type_to_u8 SendPayment = 4"

record account_state =
  checking_balance :: int
  savings_balance :: int

definition account_new :: "int \<Rightarrow> int \<Rightarrow> account_state" where
  "account_new c s = \<lparr>checking_balance = c, savings_balance = s\<rparr>"

definition total_balance :: "account_state \<Rightarrow> int" where
  "total_balance a = sat64 (checking_balance a + savings_balance a)"

definition execute_balance :: "account_state \<Rightarrow> int" where
  "execute_balance a = total_balance a"

text \<open>The operations that change an account return it with the success flag.\<close>

definition execute_deposit_checking :: "f64 \<Rightarrow> account_state \<Rightarrow> account_state \<times> bool" where
  "execute_deposit_checking amount a =
     (a\<lparr>checking_balance := sat64 (checking_balance a + f_as_i64 amount)\<rparr>, True)"

definition execute_transact_savings :: "f64 \<Rightarrow> account_state \<Rightarrow> account_state \<times> bool" where
  "execute_transact_savings amount a =
     (let new_balance = wrap64 (savings_balance a - f_as_i64 amount)
      in if new_balance < 0 then (a, False) else (a\<lparr>savings_balance := new_balance\<rparr>, True))"

definition execute_write_check :: "f64 \<Rightarrow> account_state \<Rightarrow> account_state \<times> bool" where
  "execute_write_check amount a =
     (let deduction = (if total_balance a < f_as_i64 amount then f_as_i64 (f_sub amount (Fin 1))
                       else f_as_i64 amount)
      in (a\<lparr>checking_balance := sat64 (checking_balance a - deduction)\<rparr>, True))"

definition execute_send_payment_debit :: "f64 \<Rightarrow> account_state \<Rightarrow> account_state \<times> bool" where
  "execute_send_payment_debit amount a =
     (let new_balance = wrap64 (checking_balance a - f_as_i64 amount)
      in if new_balance < 0 then (a, False) else (a\<lparr>checking_balance := new_balance\<rparr>, True))"

definition execute_send_payment_credit :: "f64 \<Rightarrow> account_state \<Rightarrow> account_state" where
  "execute_send_payment_credit amount a =
     a\<lparr>checking_balance := sat64 (checking_balance a + f_as_i64 amount)\<rparr>"

text \<open>\<open>rng\<close> stands for the draws of the seeded generator: account, lower and upper bound,
  number of the draw.\<close>

definition create_account_with_seed :: "(nat \<Rightarrow> int \<Rightarrow> int \<Rightarrow> nat \<Rightarrow> int) \<Rightarrow> nat \<Rightarrow> int \<Rightarrow> int \<Rightarrow> account_state" where
  "create_account_with_seed rng account lo hi =
     account_new (rng account lo (wrap64 (hi + 1)) 0) (rng account lo (wrap64 (hi + 1)) 1)"

definition account_ok :: "account_state \<Rightarrow> bool" where
  "account_ok a \<longleftrightarrow> i64_range (checking_balance a) \<and> i64_range (savings_balance a)"

lemma account_ops_ok:
  assumes "account_ok a"
  shows "account_ok (fst (execute_deposit_checking x a))" "account_ok (fst (execute_transact_savings x a))"
    "account_ok (fst (execute_write_check x a))" "account_ok (fst (execute_send_payment_debit x a))"
    "account_ok (execute_send_payment_credit x a)"
  using assms
  by (auto simp: account_ok_def execute_deposit_checking_def execute_transact_savings_def execute_write_check_def
      execute_send_payment_debit_def execute_send_payment_credit_def Let_def)

subsection \<open>Transactions as bytes\<close>

record sb_transaction =
  sb_tx_type :: sb_tx_type
  sb_account_id :: nat
  sb_dest_account_id :: nat
  sb_amount_bits :: nat

definition sb_amount :: "sb_transaction \<Rightarrow> f64" where
  "sb_amount t = f64_of_bits (sb_amount_bits t)"

definition be64 :: "bytes \<Rightarrow> nat \<Rightarrow> nat" where
  "be64 bs i = of_be_bytes (take 8 (drop i bs))"

definition sb_from_bytes :: "bytes \<Rightarrow> sb_transaction option" where
  "sb_from_bytes bs =
     (if length bs < 25 then None
      else map_option (\<lambda>t. \<lparr>sb_tx_type = t, sb_account_id = be64 bs 0, sb_dest_account_id = be64 bs 8,
             sb_amount_bits = be64 bs 17\<rparr>) (tx_type_from_u8 (bs ! 16)))"

definition sb_to_bytes :: "sb_transaction \<Rightarrow> bytes" where
  "sb_to_bytes t = be_bytes 8 (sb_account_id t) @ be_bytes 8 (sb_dest_account_id t)
     @ [tx_type_to_u8 (sb_tx_type t)] @ be_bytes 8 (sb_amount_bits t)"

type_synonym tx_id = "8 word \<times> nat"

record tx_header =
  th_tx_type :: "8 word"
  th_id :: tx_id

definition tx_header_parse :: "bytes \<Rightarrow> tx_header option" where
  "tx_header_parse bs =
     (if length bs < 10 then None else Some \<lparr>th_tx_type = bs ! 0, th_id = (bs ! 1, be64 bs 2)\<rparr>)"

definition is_sample :: "tx_header \<Rightarrow> bool" where
  "is_sample h \<longleftrightarrow> th_tx_type h = 0"

definition extract_account_ids :: "bytes \<Rightarrow> nat option \<times> nat option" where
  "extract_account_ids raw =
     (if length raw < 26 then (None, None) else (Some (be64 raw 10), Some (be64 raw 18)))"

definition parse_smallbank_payload :: "bytes \<Rightarrow> sb_transaction option" where
  "parse_smallbank_payload raw =
     (if length raw < 35 then None else sb_from_bytes (take 25 (drop 10 raw)))"

subsection \<open>Round trip\<close>

definition sb_wf :: "sb_transaction \<Rightarrow> bool" where
  "sb_wf t \<longleftrightarrow> sb_account_id t < 2 ^ 64 \<and> sb_dest_account_id t < 2 ^ 64 \<and> sb_amount_bits t < 2 ^ 64"

lemma length_sb_to_bytes [simp]: "length (sb_to_bytes t) = 25"
  by (simp add: sb_to_bytes_def)

lemma be64_append:
  "length xs = i \<Longrightarrow> n < 2 ^ 64 \<Longrightarrow> be64 (xs @ be_bytes 8 n @ ys) i = n"
  using of_be_bytes_be_bytes [of n 8] by (simp add: be64_def)

lemma be64_less: "be64 bs i < 2 ^ 64"
proof -
  have "be64 bs i < 256 ^ length (take 8 (drop i bs))" unfolding be64_def by (rule of_be_bytes_less)
  also have "\<dots> \<le> 256 ^ 8" by (rule power_increasing) simp_all
  finally show ?thesis by simp
qed

lemma be_bytes_be64: "i + 8 \<le> length bs \<Longrightarrow> be_bytes 8 (be64 bs i) = take 8 (drop i bs)"
  using be_bytes_of_be_bytes [of "take 8 (drop i bs)"] by (simp add: be64_def)

lemma tx_type_round_trip: "tx_type_from_u8 (tx_type_to_u8 t) = Some t"
  by (cases t) (simp_all add: tx_type_from_u8_def)

lemma tx_type_from_Some: "tx_type_from_u8 b = Some t \<Longrightarrow> tx_type_to_u8 t = b"
  by (auto simp: tx_type_from_u8_def split: if_splits)

lemma sb_from_to_bytes: "sb_wf t \<Longrightarrow> sb_from_bytes (sb_to_bytes t @ rest) = Some t"
  using be64_append [of "[]" 0 "sb_account_id t"]
    be64_append [of "be_bytes 8 (sb_account_id t)" 8 "sb_dest_account_id t"]
    be64_append [of "be_bytes 8 (sb_account_id t) @ be_bytes 8 (sb_dest_account_id t) @ [tx_type_to_u8 (sb_tx_type t)]"
      17 "sb_amount_bits t"]
  by (simp add: sb_from_bytes_def sb_to_bytes_def sb_wf_def nth_append tx_type_round_trip)

lemma sb_to_from_bytes:
  assumes "sb_from_bytes bs = Some t"
  shows "sb_to_bytes t = take 25 bs" "sb_wf t"
proof -
  have len: "25 \<le> length bs" and ty: "tx_type_from_u8 (bs ! 16) = Some (sb_tx_type t)"
    and t: "sb_account_id t = be64 bs 0" "sb_dest_account_id t = be64 bs 8" "sb_amount_bits t = be64 bs 17"
    using assms by (auto simp: sb_from_bytes_def split: if_splits)
  have "take 25 bs = take 8 bs @ take 8 (drop 8 bs) @ take 1 (drop 16 bs) @ take 8 (drop 17 bs)"
    using take_add [of 8 17 bs] take_add [of 8 9 "drop 8 bs"] take_add [of 1 8 "drop 16 bs"] by simp
  moreover have "take 1 (drop 16 bs) = [bs ! 16]"
    using len by (simp add: take_Suc_conv_app_nth)
  ultimately show "sb_to_bytes t = take 25 bs"
    using len be_bytes_be64 [of 0 bs] be_bytes_be64 [of 8 bs] be_bytes_be64 [of 17 bs] tx_type_from_Some [OF ty]
    by (simp add: sb_to_bytes_def t)
  show "sb_wf t" by (simp only: sb_wf_def t be64_less simp_thms)
qed

text \<open>
  C40: The bytes of a SmallBank payload and its fields determine each other: parsing inverts
  serialisation whatever follows the 25 bytes, and what parses serialises to the bytes it was read from;
  no other input parses to the same transaction.
\<close>

theorem sb_bytes_round_trip:
  assumes "sb_wf t"
  shows "sb_from_bytes bs = Some t \<longleftrightarrow> take 25 bs = sb_to_bytes t"
proof
  assume "take 25 bs = sb_to_bytes t"
  then have "bs = sb_to_bytes t @ drop 25 bs" by (metis append_take_drop_id)
  then show "sb_from_bytes bs = Some t" using sb_from_to_bytes [OF assms] by metis
qed (simp add: sb_to_from_bytes)

theorem sb_bytes_round_trip_witness:
  "sb_from_bytes (sb_to_bytes \<lparr>sb_tx_type = SendPayment, sb_account_id = 258, sb_dest_account_id = 7,
      sb_amount_bits = 4617315517961601024\<rparr>)
    = Some \<lparr>sb_tx_type = SendPayment, sb_account_id = 258, sb_dest_account_id = 7, sb_amount_bits = 4617315517961601024\<rparr>"
  using sb_bytes_round_trip [of "\<lparr>sb_tx_type = SendPayment, sb_account_id = 258, sb_dest_account_id = 7,
      sb_amount_bits = 4617315517961601024\<rparr>"] by (simp add: sb_wf_def)

end
