(* ===== verification/Batch_Executor.thy ===== *)
theory Batch_Executor
  imports Workload Config "HOL-Library.Monad_Syntax" "HOL-Library.Multiset"
begin

text \<open>
  \<^verbatim>\<open>worker/src/batch_executor.rs\<close>: the executor of committed batches with data fusion, in
  which accounts migrate to the executor that runs a transaction, and the part of
  \<^verbatim>\<open>worker/src/state_helper.rs\<close> that collects arriving accounts. \<open>None\<close> is a
  panic. The messages sent (client replies, account transfers, feedback) are kept in the order of
  sending.

  The program iterates over two hash sets whose order matters to the steps taken: the accounts
  to drain (\<open>ec_pick\<close>) and the transactions with arrived accounts (\<open>ec_arrange\<close>).
\<close>

definition FEEDBACK_INTERVAL :: nat where "FEEDBACK_INTERVAL = 100"

datatype locality =
    Local
  | MigrateOut (owned_accounts_to_migrate: "nat list") (others_accounts_to_update_partition: "nat list")
      (dest_executor_id: nat)
  | MigrateIn "(nat \<times> nat) list"
  | Others nat

record pending_tx =
  pt_bytes :: bytes
  pt_header :: tx_header
  pt_sb_tx :: sb_transaction
  pt_digest :: digest
  pt_required :: "nat list"
  pt_locality :: locality

record state_transfer =
  st_tx_id :: tx_id
  st_account :: nat
  st_state :: account_state

record transfer_request =
  tr_transfer :: state_transfer
  tr_dest :: nat

record reply_request =
  rq_digest :: digest
  rq_client :: socket_addr
  rq_tx_type :: "8 word"
  rq_tx_id :: tx_id
  rq_success :: bool
  rq_account :: nat
  rq_state :: "account_state option"

record lock_statistics =
  total_transactions :: nat
  lock_hits :: nat
  eager_executions :: nat
  current_queue_depth :: nat
  max_single_queue_depth :: "nat \<times> nat"
  max_total_queue_depth :: nat

type_synonym queues = "(nat, pending_tx list) hmap"
type_synonym transfers = "(tx_id, state_transfer list) hmap"

record executor_config =
  ec_committee :: committee
  ec_executor_id :: nat
  ec_num_executors :: nat
  ec_new_scheduler :: bool
  ec_pick :: "nat list \<Rightarrow> nat"
  ec_arrange :: "tx_id list \<Rightarrow> tx_id list"

record executor =
  account_store :: "nat \<Rightarrow> account_state option"
  next_sequence :: nat
  x_buffer :: "(nat, digest \<times> bytes list) hmap"
  schedule_partition :: "nat \<Rightarrow> nat option"
  pending_queues :: queues
  incoming_transfers :: transfers
  drained_transfers :: transfers
  last_feedback_sent :: nat
  scheduled_tx_count :: nat
  executed_tx_count :: nat
  lock_stats :: lock_statistics
  replies_out :: "reply_request list"
  transfers_out :: "transfer_request list"
  feedback_out :: "(nat \<times> nat) list"

definition lock_statistics_new :: lock_statistics where
  "lock_statistics_new = \<lparr>total_transactions = 0, lock_hits = 0, eager_executions = 0,
     current_queue_depth = 0, max_single_queue_depth = (0, 0), max_total_queue_depth = 0\<rparr>"

text \<open>\<open>spawn\<close>: the accounts of the initial partition that this executor owns.\<close>

definition executor_init :: "(nat \<Rightarrow> int \<Rightarrow> int \<Rightarrow> nat \<Rightarrow> int) \<Rightarrow> int \<Rightarrow> int \<Rightarrow> nat \<Rightarrow> partition \<Rightarrow> executor" where
  "executor_init rng lo hi me p =
     \<lparr>account_store = (\<lambda>a. if map_of p a = Some me then Some (create_account_with_seed rng a lo hi) else None),
      next_sequence = 0, x_buffer = [], schedule_partition = map_of p, pending_queues = [],
      incoming_transfers = [], drained_transfers = [], last_feedback_sent = 0, scheduled_tx_count = 0,
      executed_tx_count = 0, lock_stats = lock_statistics_new,
      replies_out = [], transfers_out = [], feedback_out = []\<rparr>"

definition update_queue_depths :: "queues \<Rightarrow> lock_statistics \<Rightarrow> lock_statistics" where
  "update_queue_depths qs st =
     (let (total, single) = fold (\<lambda>(acc, q) (n, m).
            (n + length q, if fst m < length q then (length q, acc) else m)) qs (0, max_single_queue_depth st)
      in st\<lparr>max_single_queue_depth := single, current_queue_depth := total,
           max_total_queue_depth := max (max_total_queue_depth st) total\<rparr>)"

subsection \<open>Scheduling\<close>

definition extract_required_accounts :: "bytes \<Rightarrow> nat list option" where
  "extract_required_accounts raw =
     map_option (\<lambda>t. if sb_tx_type t = SendPayment then [sb_account_id t, sb_dest_account_id t]
                     else [sb_account_id t]) (parse_smallbank_payload raw)"

type_synonym parsed_tx = "bytes \<times> tx_header \<times> nat list \<times> nat"

fun f_ceil_as_usize :: "f64 \<Rightarrow> nat" where
  "f_ceil_as_usize NaN = 0"
| "f_ceil_as_usize (Inf s) = (if s then 0 else 2 ^ 64 - 1)"
| "f_ceil_as_usize (Fin q) = min (2 ^ 64 - 1) (nat \<lceil>q\<rceil>)"

definition max_allowed :: "nat \<Rightarrow> nat \<Rightarrow> nat" where
  "max_allowed n num_executors =
     f_ceil_as_usize (f_mul (f_div (f_of_nat n) (f_of_nat num_executors)) (f_add (Fin 1) (Fin (1 / 2))))"

text \<open>The votes of the owners of the accounts: the loads of the candidates are compared only
  between candidates of the same score.\<close>

fun scan_votes :: "nat \<Rightarrow> nat list \<Rightarrow> (nat \<times> nat) list \<Rightarrow> (nat \<times> nat) option \<Rightarrow> (nat \<times> nat) option" where
  "scan_votes m loads [] best = best"
| "scan_votes m loads ((eid, score) # vs) best =
     scan_votes m loads vs
       (if loads ! eid < m \<and>
          (case best of None \<Rightarrow> True
           | Some (bs, be) \<Rightarrow> bs < score \<or> (score = bs \<and> loads ! eid < loads ! be)
               \<or> (score = bs \<and> loads ! eid = loads ! be \<and> eid < be))
        then Some (score, eid) else best)"

fun min_index :: "nat list \<Rightarrow> nat option" where
  "min_index [] = None"
| "min_index (x # xs) = (case min_index xs of None \<Rightarrow> Some 0
     | Some i \<Rightarrow> if x \<le> xs ! i then Some 0 else Some (Suc i))"

definition choose_executor :: "nat \<Rightarrow> nat list \<Rightarrow> (nat, nat) hmap \<Rightarrow> nat option" where
  "choose_executor m loads votes =
     (if \<exists>(eid, _)\<in>set votes. length loads \<le> eid then None
      else let best =
          (case votes of [(eid, score)] \<Rightarrow> (if loads ! eid < m then Some eid else None) | _ \<Rightarrow> None)
        in case best of Some eid \<Rightarrow> Some eid
           | None \<Rightarrow> (case scan_votes m loads votes None of Some (_, eid) \<Rightarrow> Some eid | None \<Rightarrow> min_index loads))"

text \<open>The owner of an account: its new place if the batch has moved it already.\<close>

fun owner_votes :: "(nat, nat) hmap \<Rightarrow> (nat \<Rightarrow> nat option) \<Rightarrow> nat list \<Rightarrow> (nat, nat) hmap \<Rightarrow> (nat, nat) hmap option" where
  "owner_votes updates part [] votes = Some votes"
| "owner_votes updates part (a # as) votes =
     (case (case map_of updates a of Some e \<Rightarrow> Some e | None \<Rightarrow> part a) of
        None \<Rightarrow> None
      | Some e \<Rightarrow> owner_votes updates part as (upsert 0 e Suc votes))"

fun schedule_new :: "nat \<Rightarrow> (nat \<Rightarrow> nat option) \<Rightarrow> bytes list \<Rightarrow> (nat, nat) hmap \<Rightarrow> nat list \<Rightarrow> parsed_tx list option" where
  "schedule_new m part [] updates loads = Some []"
| "schedule_new m part (raw # raws) updates loads =
     (case tx_header_parse raw of
        None \<Rightarrow> schedule_new m part raws updates loads
      | Some h \<Rightarrow> do {
          required \<leftarrow> extract_required_accounts raw;
          votes \<leftarrow> owner_votes updates part required [];
          target \<leftarrow> choose_executor m loads votes;
          rest \<leftarrow> schedule_new m part raws (fold (\<lambda>a. AList.update a target) required updates)
            (loads[target := loads ! target + 1]);
          Some ((raw, h, required, target) # rest) })"

fun schedule_old :: "(nat \<Rightarrow> nat option) \<Rightarrow> bytes list \<Rightarrow> parsed_tx list option" where
  "schedule_old part [] = Some []"
| "schedule_old part (raw # raws) =
     (case tx_header_parse raw of
        None \<Rightarrow> schedule_old part raws
      | Some h \<Rightarrow> do {
          required \<leftarrow> extract_required_accounts raw;
          target \<leftarrow> part (hd required);
          rest \<leftarrow> schedule_old part raws;
          Some ((raw, h, required, target) # rest) })"

definition parse_and_schedule :: "executor_config \<Rightarrow> (nat \<Rightarrow> nat option) \<Rightarrow> bytes list \<Rightarrow> parsed_tx list option" where
  "parse_and_schedule cfg part raws =
     (if ec_new_scheduler cfg
      then schedule_new (max_allowed (length raws) (ec_num_executors cfg)) part raws []
             (replicate (ec_num_executors cfg) 0)
      else schedule_old part raws)"

subsection \<open>Locality\<close>

definition determine_locality :: "nat \<Rightarrow> (nat \<Rightarrow> nat option) \<Rightarrow> nat list \<Rightarrow> nat \<Rightarrow> locality option" where
  "determine_locality me part required target =
     (if \<exists>a\<in>set required. part a = None then None
      else Some (
        let mine = (\<lambda>a. part a = Some me)
        in if target = me
           then (let missing = map (\<lambda>a. (a, the (part a))) (filter (\<lambda>a. \<not> mine a) required)
                 in if missing = [] then Local else MigrateIn missing)
           else (let owned = filter mine required
                 in if owned = [] then Others target
                    else MigrateOut owned (filter (\<lambda>a. \<not> mine a) required) target)))"

fun update_partition_for_locality :: "nat \<Rightarrow> locality \<Rightarrow> nat list \<Rightarrow> (nat \<Rightarrow> nat option) \<Rightarrow> (nat \<Rightarrow> nat option)" where
  "update_partition_for_locality me (MigrateIn accs) required part = fold (\<lambda>(a, _) p. p(a \<mapsto> me)) accs part"
| "update_partition_for_locality me (MigrateOut owned others dest) required part =
     fold (\<lambda>a p. p(a \<mapsto> dest)) others (fold (\<lambda>a p. p(a \<mapsto> dest)) owned part)"
| "update_partition_for_locality me (Others target) required part = fold (\<lambda>a p. p(a \<mapsto> target)) required part"
| "update_partition_for_locality me Local required part = part"

text \<open>The first loop of \<open>execute_batch\<close>.\<close>

fun decide_localities :: "nat \<Rightarrow> parsed_tx list \<Rightarrow> (nat \<Rightarrow> nat option) \<Rightarrow> (locality list \<times> (nat \<Rightarrow> nat option)) option" where
  "decide_localities me [] part = Some ([], part)"
| "decide_localities me ((_, _, required, target) # txs) part = do {
     l \<leftarrow> determine_locality me part required target;
     (ls, part') \<leftarrow> decide_localities me txs (update_partition_for_locality me l required part);
     Some (l # ls, part') }"

subsection \<open>Executing one transaction\<close>

definition is_account_unlocked_or_head :: "queues \<Rightarrow> nat \<Rightarrow> tx_id \<Rightarrow> bool" where
  "is_account_unlocked_or_head qs a tid =
     (case map_of qs a of None \<Rightarrow> True | Some [] \<Rightarrow> False | Some (p # _) \<Rightarrow> th_id (pt_header p) = tid)"

definition is_ready_to_execute :: "executor \<Rightarrow> tx_id \<Rightarrow> nat list \<Rightarrow> bool" where
  "is_ready_to_execute s tid accounts \<longleftrightarrow>
     (\<forall>a\<in>set accounts. account_store s a \<noteq> None \<and> is_account_unlocked_or_head (pending_queues s) a tid)"

definition is_enqueued_at_head :: "queues \<Rightarrow> nat \<Rightarrow> tx_id \<Rightarrow> bool option" where
  "is_enqueued_at_head qs a tid =
     (case map_of qs a of Some (p # _) \<Rightarrow> Some (th_id (pt_header p) = tid) | _ \<Rightarrow> None)"

fun all_at_head :: "queues \<Rightarrow> nat list \<Rightarrow> tx_id \<Rightarrow> bool option" where
  "all_at_head qs [] tid = Some True"
| "all_at_head qs (a # as) tid = do {
     b \<leftarrow> is_enqueued_at_head qs a tid;
     if b then all_at_head qs as tid else Some False }"

fun pop_fronts :: "nat list \<Rightarrow> tx_id \<Rightarrow> queues \<Rightarrow> nat list \<Rightarrow> pending_tx option \<Rightarrow> (queues \<times> nat list \<times> pending_tx option) option" where
  "pop_fronts [] tid qs empties p = Some (qs, empties, p)"
| "pop_fronts (a # as) tid qs empties p =
     (case map_of qs a of
        Some (t # q) \<Rightarrow>
          (if th_id (pt_header t) \<noteq> tid then None
           else pop_fronts as tid (AList.update a q qs) (if q = [] then set_insert a empties else empties) (Some t))
      | _ \<Rightarrow> None)"

definition pop_transaction_from_accounts :: "nat list \<Rightarrow> tx_id \<Rightarrow> queues \<Rightarrow> (queues \<times> pending_tx) option" where
  "pop_transaction_from_accounts accounts tid qs =
     (if accounts = [] then None
      else case pop_fronts accounts tid qs [] None of
             Some (qs', empties, Some p) \<Rightarrow> Some (fold AList.delete empties qs', p)
           | _ \<Rightarrow> None)"

text \<open>The effect of a transaction on the accounts.\<close>

definition apply_payload :: "sb_transaction \<Rightarrow> (nat \<Rightarrow> account_state option) \<Rightarrow> ((nat \<Rightarrow> account_state option) \<times> bool) option" where
  "apply_payload t store =
     (let a = sb_account_id t; one = (\<lambda>f. map_option (\<lambda>x. let (x', ok) = f (sb_amount t) x in (store(a \<mapsto> x'), ok)) (store a))
      in case sb_tx_type t of
           Balance \<Rightarrow> map_option (\<lambda>_. (store, True)) (store a)
         | DepositChecking \<Rightarrow> one execute_deposit_checking
         | TransactSavings \<Rightarrow> one execute_transact_savings
         | WriteCheck \<Rightarrow> one execute_write_check
         | SendPayment \<Rightarrow>
             (case (store a, store (sb_dest_account_id t)) of
                (Some x, Some _) \<Rightarrow>
                  (let (x', ok) = execute_send_payment_debit (sb_amount t) x; store' = store(a \<mapsto> x')
                   in Some (if ok then store'(sb_dest_account_id t \<mapsto>
                        execute_send_payment_credit (sb_amount t) (the (store' (sb_dest_account_id t)))) else store', ok))
              | _ \<Rightarrow> None))"

definition execute_single_local_transaction ::
    "executor_config \<Rightarrow> digest \<Rightarrow> bytes \<Rightarrow> tx_header \<Rightarrow> executor \<Rightarrow> (executor \<times> bool) option" where
  "execute_single_local_transaction cfg d raw h s0 =
     (let s = s0\<lparr>executed_tx_count := executed_tx_count s0 + 1\<rparr>
      in case parse_smallbank_payload raw of
           None \<Rightarrow> Some (s, False)
         | Some t \<Rightarrow> do {
             (store, success) \<leftarrow> apply_payload t (account_store s);
             let s' = s\<lparr>account_store := store\<rparr>;
             if is_sample h
             then case client_reply_address (ec_committee cfg) (unat (fst (th_id h))) of
                    None \<Rightarrow> Some (s', False)
                  | Some addr \<Rightarrow> Some (s'\<lparr>replies_out := replies_out s' @
                      [\<lparr>rq_digest = d, rq_client = addr, rq_tx_type = th_tx_type h, rq_tx_id = th_id h,
                        rq_success = success, rq_account = sb_account_id t,
                        rq_state = store (sb_account_id t)\<rparr>]\<rparr>, success)
             else Some (s', success) })"

fun execute_migrate_out :: "tx_id \<Rightarrow> nat list \<Rightarrow> nat \<Rightarrow> executor \<Rightarrow> executor option" where
  "execute_migrate_out tid [] dest s = Some s"
| "execute_migrate_out tid (a # as) dest s =
     (case account_store s a of
        None \<Rightarrow> None
      | Some x \<Rightarrow> execute_migrate_out tid as dest (s\<lparr>account_store := (account_store s)(a := None),
          transfers_out := transfers_out s @
            [\<lparr>tr_transfer = \<lparr>st_tx_id = tid, st_account = a, st_state = x\<rparr>, tr_dest = dest\<rparr>]\<rparr>))"

definition bump :: "((nat \<Rightarrow> nat) \<Rightarrow> lock_statistics \<Rightarrow> lock_statistics) \<Rightarrow> executor \<Rightarrow> executor" where
  "bump field s = s\<lparr>lock_stats := field Suc (lock_stats s)\<rparr>"

definition lock_and_enqueue_transaction ::
    "digest \<Rightarrow> bytes \<Rightarrow> tx_header \<Rightarrow> nat list \<Rightarrow> locality \<Rightarrow> executor \<Rightarrow> executor option" where
  "lock_and_enqueue_transaction d raw h required l s = do {
     t \<leftarrow> parse_smallbank_payload raw;
     accounts \<leftarrow> (case l of Local \<Rightarrow> Some required | MigrateOut owned _ _ \<Rightarrow> Some owned
                   | MigrateIn _ \<Rightarrow> Some required | Others _ \<Rightarrow> None);
     let p = \<lparr>pt_bytes = raw, pt_header = h, pt_sb_tx = t, pt_digest = d, pt_required = required, pt_locality = l\<rparr>;
     Some ((bump lock_hits_update s)\<lparr>pending_queues :=
       fold (\<lambda>a. upsert [] a (\<lambda>q. q @ [p])) accounts (pending_queues s)\<rparr>) }"

subsection \<open>Draining the queues\<close>

definition get_executable_queue_head :: "executor \<Rightarrow> nat \<Rightarrow> (tx_id \<times> nat list \<times> locality) option option" where
  "get_executable_queue_head s a =
     (case map_of (pending_queues s) a of
        Some (p # _) \<Rightarrow>
          (let tid = th_id (pt_header p); required = pt_required p
           in case pt_locality p of
                MigrateOut owned others dest \<Rightarrow>
                  Some (if is_ready_to_execute s tid owned then Some (tid, required, MigrateOut owned others dest) else None)
              | MigrateIn _ \<Rightarrow> Some None
              | Others _ \<Rightarrow> None
              | Local \<Rightarrow> Some (if is_ready_to_execute s tid required then Some (tid, required, Local) else None))
      | _ \<Rightarrow> Some None)"

definition pending_count :: "queues \<Rightarrow> nat" where
  "pending_count qs = sum_list (map (length \<circ> snd) qs)"

lemma pending_count_update:
  "map_of qs a = Some (t # q) \<Longrightarrow> Suc (pending_count (AList.update a q qs)) = pending_count qs"
  by (induction qs) (auto simp: pending_count_def split: if_splits)

lemma pending_count_delete: "pending_count (AList.delete a qs) \<le> pending_count qs"
  by (induction qs) (auto simp: pending_count_def)

lemma pending_count_deletes: "pending_count (fold AList.delete as qs) \<le> pending_count qs"
  by (induction as arbitrary: qs) (auto intro: le_trans pending_count_delete)

lemma pop_fronts_count:
  "pop_fronts as tid qs e p = Some (qs', e', p') \<Longrightarrow> pending_count qs' + length as = pending_count qs"
proof (induction as arbitrary: qs e p)
  case (Cons a as)
  then obtain t q e0 p0 where "map_of qs a = Some (t # q)" "pop_fronts as tid (AList.update a q qs) e0 p0 = Some (qs', e', p')"
    by (auto split: option.splits list.splits if_splits)
  then show ?case using Cons.IH pending_count_update by fastforce
qed simp

lemma pop_transaction_count:
  assumes "pop_transaction_from_accounts accounts tid qs = Some (qs', p)"
  shows "pending_count qs' < pending_count qs"
proof -
  obtain qs1 e where "pop_fronts accounts tid qs [] None = Some (qs1, e, Some p)" "accounts \<noteq> []"
    and qs': "qs' = fold AList.delete e qs1"
    using assms by (auto simp: pop_transaction_from_accounts_def split: option.splits if_splits)
  then have "pending_count qs1 < pending_count qs"
    using pop_fronts_count [of accounts tid qs "[]" None qs1 e "Some p"] by (cases accounts) auto
  then show ?thesis using pending_count_deletes [of e qs1] by (simp add: qs')
qed

text \<open>What executing a transaction does not change.\<close>

lemma execute_single_frame:
  assumes "execute_single_local_transaction cfg d raw h s = Some (s', ok)"
  shows "pending_queues s' = pending_queues s" "next_sequence s' = next_sequence s" "x_buffer s' = x_buffer s"
    "schedule_partition s' = schedule_partition s" "drained_transfers s' = drained_transfers s"
    "incoming_transfers s' = incoming_transfers s" "transfers_out s' = transfers_out s"
    "last_feedback_sent s' = last_feedback_sent s" "feedback_out s' = feedback_out s"
  using assms by (auto simp: execute_single_local_transaction_def Let_def split: option.splits if_splits bind_splits)

lemma execute_migrate_out_frame:
  assumes "execute_migrate_out tid as dest s = Some s'"
  shows "pending_queues s' = pending_queues s \<and> next_sequence s' = next_sequence s \<and> x_buffer s' = x_buffer s
    \<and> schedule_partition s' = schedule_partition s \<and> drained_transfers s' = drained_transfers s
    \<and> incoming_transfers s' = incoming_transfers s \<and> last_feedback_sent s' = last_feedback_sent s
    \<and> feedback_out s' = feedback_out s"
  using assms by (induction as arbitrary: s) (fastforce split: option.splits)+

text \<open>
  The inner loop: one transaction at the head of the queue of an account (\<open>Some None\<close>: none is
  executable), with the accounts to add to the worklist; and the loop.
\<close>

definition drain_step :: "executor_config \<Rightarrow> nat \<Rightarrow> executor \<Rightarrow> (executor \<times> nat list) option option" where
  "drain_step cfg a s = do {
     head \<leftarrow> get_executable_queue_head s a;
     case head of
       None \<Rightarrow> Some None
     | Some (tid, required, l) \<Rightarrow>
         (case l of
            MigrateOut owned _ dest \<Rightarrow> do {
              (qs, p) \<leftarrow> pop_transaction_from_accounts owned tid (pending_queues s);
              s' \<leftarrow> execute_migrate_out (th_id (pt_header p)) owned dest (s\<lparr>pending_queues := qs\<rparr>);
              Some (Some (s', [])) }
          | Local \<Rightarrow> do {
              (qs, p) \<leftarrow> pop_transaction_from_accounts required tid (pending_queues s);
              (s', _) \<leftarrow> execute_single_local_transaction cfg (pt_digest p) (pt_bytes p) (pt_header p)
                (s\<lparr>pending_queues := qs\<rparr>);
              Some (Some (s', pt_required p)) }
          | _ \<Rightarrow> None) }"

text \<open>What a step does, by the kind of the transaction at the head.\<close>

lemma drain_step_cases:
  assumes "drain_step cfg a s = Some (Some (s', un))"
  obtains (migrate) owned others dest required tid qs p where
      "get_executable_queue_head s a = Some (Some (tid, required, MigrateOut owned others dest))"
      "pop_transaction_from_accounts owned tid (pending_queues s) = Some (qs, p)"
      "execute_migrate_out (th_id (pt_header p)) owned dest (s\<lparr>pending_queues := qs\<rparr>) = Some s'" "un = []"
  | (local) required tid qs p ok where
      "get_executable_queue_head s a = Some (Some (tid, required, Local))"
      "pop_transaction_from_accounts required tid (pending_queues s) = Some (qs, p)"
      "execute_single_local_transaction cfg (pt_digest p) (pt_bytes p) (pt_header p) (s\<lparr>pending_queues := qs\<rparr>) = Some (s', ok)"
      "un = pt_required p"
proof -
  obtain tid required l where head: "get_executable_queue_head s a = Some (Some (tid, required, l))"
    using assms unfolding drain_step_def by (auto simp: bind_eq_Some_conv split: option.splits)
  show ?thesis
  proof (cases l)
    case Local
    obtain qs p ok where e: "pop_transaction_from_accounts required tid (pending_queues s) = Some (qs, p)"
      "execute_single_local_transaction cfg (pt_digest p) (pt_bytes p) (pt_header p) (s\<lparr>pending_queues := qs\<rparr>) = Some (s', ok)"
      "un = pt_required p"
      using assms head Local unfolding drain_step_def by (auto simp: bind_eq_Some_conv)
    show ?thesis by (rule local [OF head [unfolded Local] e])
  next
    case (MigrateOut owned others dest)
    obtain qs p where e: "pop_transaction_from_accounts owned tid (pending_queues s) = Some (qs, p)"
      "execute_migrate_out (th_id (pt_header p)) owned dest (s\<lparr>pending_queues := qs\<rparr>) = Some s'" "un = []"
      using assms head MigrateOut unfolding drain_step_def by (auto simp: bind_eq_Some_conv)
    show ?thesis by (rule migrate [OF head [unfolded MigrateOut] e])
  qed (use assms head in \<open>simp_all add: drain_step_def\<close>)
qed

lemma drain_step_count:
  assumes "drain_step cfg a s = Some (Some (s', un))"
  shows "pending_count (pending_queues s') < pending_count (pending_queues s)"
  using assms
proof (cases rule: drain_step_cases)
  case migrate
  then show ?thesis
    using pop_transaction_count [OF migrate(2)] execute_migrate_out_frame [OF migrate(3)] by simp
next
  case local
  then show ?thesis using pop_transaction_count [OF local(2)] execute_single_frame(1) [OF local(3)] by simp
qed

function drain_account :: "executor_config \<Rightarrow> nat \<Rightarrow> executor \<Rightarrow> nat list \<Rightarrow> (executor \<times> nat list) option" where
  "drain_account cfg a s worklist =
     (case drain_step cfg a s of
        None \<Rightarrow> None
      | Some None \<Rightarrow> Some (s, worklist)
      | Some (Some (s', un)) \<Rightarrow> drain_account cfg a s' (fold set_insert un worklist))"
  by pat_completeness auto

termination drain_account
  by (relation "measure (\<lambda>(cfg, a, s, worklist). pending_count (pending_queues s))") (auto dest: drain_step_count)

declare drain_account.simps [simp del]

lemma drain_account_count:
  "drain_account cfg a s wl = Some (s', wl') \<Longrightarrow>
     (s' = s \<and> wl' = wl) \<or> pending_count (pending_queues s') < pending_count (pending_queues s)"
proof (induction cfg a s wl rule: drain_account.induct)
  case (1 cfg a s wl)
  show ?case
    using "1.prems" "1.IH" drain_step_count [of cfg a s]
    by (subst (asm) drain_account.simps) (fastforce split: option.splits prod.splits)
qed

text \<open>What every step keeps, the loops keep.\<close>

lemma drain_account_keeps:
  assumes "drain_account cfg a s wl = Some (s', wl')" "P s"
    and "\<And>a s s' un. P s \<Longrightarrow> drain_step cfg a s = Some (Some (s', un)) \<Longrightarrow> P s'"
  shows "P s'"
  using assms
proof (induction cfg a s wl rule: drain_account.induct)
  case (1 cfg a s wl)
  show ?case
  proof (cases "\<exists>s1 un. drain_step cfg a s = Some (Some (s1, un))")
    case True
    then obtain s1 un where step: "drain_step cfg a s = Some (Some (s1, un))" by blast
    then have rest: "drain_account cfg a s1 (fold set_insert un wl) = Some (s', wl')"
      using "1.prems"(1) by (subst (asm) drain_account.simps) simp
    show ?thesis
      by (rule "1.IH" [OF step refl refl rest "1.prems"(3) [OF "1.prems"(2) step]]) (rule "1.prems"(3))
  next
    case False
    then have "s' = s" using "1.prems"(1) by (subst (asm) drain_account.simps) (auto split: option.splits)
    then show ?thesis using "1.prems"(2) by simp
  qed
qed

text \<open>\<open>worklist.iter().next()\<close>: some element.\<close>

definition next_account :: "executor_config \<Rightarrow> nat list \<Rightarrow> nat" where
  "next_account cfg worklist = (if ec_pick cfg worklist \<in> set worklist then ec_pick cfg worklist else hd worklist)"

lemma next_account_in: "worklist \<noteq> [] \<Longrightarrow> next_account cfg worklist \<in> set worklist"
  by (simp add: next_account_def)

definition remove_if_empty :: "nat \<Rightarrow> queues \<Rightarrow> queues" where
  "remove_if_empty a qs = (if map_of qs a = Some [] then AList.delete a qs else qs)"

lemma remove_if_empty_count: "pending_count (remove_if_empty a qs) \<le> pending_count qs"
  by (simp add: remove_if_empty_def pending_count_delete)

function drain_loop :: "executor_config \<Rightarrow> nat list \<Rightarrow> executor \<Rightarrow> executor option" where
  "drain_loop cfg worklist s =
     (if worklist = [] then Some s
      else let a = next_account cfg worklist
           in case drain_account cfg a s (removeAll a worklist) of
                None \<Rightarrow> None
              | Some (s', worklist') \<Rightarrow>
                  drain_loop cfg worklist' (s'\<lparr>pending_queues := remove_if_empty a (pending_queues s')\<rparr>))"
  by pat_completeness auto

termination drain_loop
proof (relation "inv_image (less_than <*lex*> less_than)
    (\<lambda>(cfg, worklist, s). (pending_count (pending_queues s), length worklist))", goal_cases)
  case (2 cfg worklist s a r s' worklist')
  have "length (removeAll a worklist) < length worklist"
    using next_account_in [OF 2(1), of cfg] 2(2) by (simp add: length_removeAll_less)
  then show ?case
    using drain_account_count [of cfg a s "removeAll a worklist" s' worklist'] 2 remove_if_empty_count [of a "pending_queues s'"]
    by auto
qed auto

declare drain_loop.simps [simp del]

lemma drain_loop_keeps:
  assumes "drain_loop cfg wl s = Some s'" "P s"
    and "\<And>a s s' un. P s \<Longrightarrow> drain_step cfg a s = Some (Some (s', un)) \<Longrightarrow> P s'"
    and "\<And>a s. P s \<Longrightarrow> P (s\<lparr>pending_queues := remove_if_empty a (pending_queues s)\<rparr>)"
  shows "P s'"
  using assms
proof (induction cfg wl s rule: drain_loop.induct)
  case (1 cfg wl s)
  let ?a = "next_account cfg wl"
  show ?case
  proof (cases "wl = []")
    case True
    then show ?thesis using "1.prems"(1,2) by (subst (asm) drain_loop.simps) simp
  next
    case False
    then obtain s1 wl1 where d: "drain_account cfg ?a s (removeAll ?a wl) = Some (s1, wl1)"
      and rest: "drain_loop cfg wl1 (s1\<lparr>pending_queues := remove_if_empty ?a (pending_queues s1)\<rparr>) = Some s'"
      using "1.prems"(1) by (subst (asm) drain_loop.simps) (auto simp: Let_def split: option.splits)
    have "P s1" by (rule drain_account_keeps [where P = P, OF d "1.prems"(2)]) (rule "1.prems"(3))
    show ?thesis
      by (rule "1.IH" [OF False refl d refl rest "1.prems"(4) [OF \<open>P s1\<close>]]) (rule "1.prems"(3), assumption+, rule "1.prems"(4))
  qed
qed

definition drain_pending_queues :: "executor_config \<Rightarrow> nat list \<Rightarrow> executor \<Rightarrow> executor option" where
  "drain_pending_queues cfg unlocked s = drain_loop cfg (fold set_insert unlocked []) s"

subsection \<open>The transactions of a batch\<close>

definition handle_local_transaction ::
    "executor_config \<Rightarrow> digest \<Rightarrow> bytes \<Rightarrow> tx_header \<Rightarrow> nat list \<Rightarrow> executor \<Rightarrow> executor option" where
  "handle_local_transaction cfg d raw h required s =
     (if is_ready_to_execute s (th_id h) required
      then map_option fst (execute_single_local_transaction cfg d raw h (bump eager_executions_update s))
      else lock_and_enqueue_transaction d raw h required Local s)"

definition handle_migrate_out_transaction ::
    "digest \<Rightarrow> bytes \<Rightarrow> tx_header \<Rightarrow> nat list \<Rightarrow> nat list \<Rightarrow> nat \<Rightarrow> executor \<Rightarrow> executor option" where
  "handle_migrate_out_transaction d raw h owned others dest s =
     (if is_ready_to_execute s (th_id h) owned
      then (case parse_smallbank_payload raw of
              None \<Rightarrow> None
            | Some _ \<Rightarrow> execute_migrate_out (th_id h) owned dest (bump eager_executions_update s))
      else lock_and_enqueue_transaction d raw h [] (MigrateOut owned others dest) s)"

fun handle_transaction_by_locality ::
    "executor_config \<Rightarrow> digest \<Rightarrow> bytes \<Rightarrow> tx_header \<Rightarrow> nat list \<Rightarrow> locality \<Rightarrow> executor \<Rightarrow> executor option" where
  "handle_transaction_by_locality cfg d raw h required Local s = handle_local_transaction cfg d raw h required s"
| "handle_transaction_by_locality cfg d raw h required (MigrateOut owned others dest) s =
     handle_migrate_out_transaction d raw h owned others dest s"
| "handle_transaction_by_locality cfg d raw h required (MigrateIn accs) s =
     lock_and_enqueue_transaction d raw h required (MigrateIn accs) s"
| "handle_transaction_by_locality cfg d raw h required (Others e) s =
     Some (s\<lparr>lock_stats := (lock_stats s)\<lparr>total_transactions := wsub 64 (total_transactions (lock_stats s)) 1\<rparr>\<rparr>)"

text \<open>The second loop of \<open>execute_batch\<close>.\<close>

fun handle_all :: "executor_config \<Rightarrow> digest \<Rightarrow> (parsed_tx \<times> locality) list \<Rightarrow> executor \<Rightarrow> executor option" where
  "handle_all cfg d [] s = Some s"
| "handle_all cfg d (((raw, h, required, _), l) # txs) s = do {
     s' \<leftarrow> handle_transaction_by_locality cfg d raw h required l (bump total_transactions_update s);
     handle_all cfg d txs s' }"

subsection \<open>Accounts that arrive\<close>

definition add_transfer :: "state_transfer \<Rightarrow> transfers \<Rightarrow> transfers" where
  "add_transfer t m = upsert [] (st_tx_id t) (\<lambda>ts. ts @ [t]) m"

definition drain_incoming :: "executor \<Rightarrow> executor" where
  "drain_incoming s = s\<lparr>incoming_transfers := [],
     drained_transfers := fold (\<lambda>(tid, ts). upsert [] tid (\<lambda>l. l @ ts)) (incoming_transfers s) (drained_transfers s)\<rparr>"

text \<open>One transaction with arrived accounts: the new state and the accounts unlocked.\<close>

definition incoming_one :: "executor_config \<Rightarrow> tx_id \<Rightarrow> executor \<Rightarrow> (executor \<times> nat list) option" where
  "incoming_one cfg tid s =
     (case map_of (drained_transfers s) tid of
        None \<Rightarrow> None
      | Some [] \<Rightarrow> None
      | Some (t # ts) \<Rightarrow>
          (case map_of (pending_queues s) (st_account t) of
             Some (p # _) \<Rightarrow>
               (if th_id (pt_header p) \<noteq> tid then Some (s, [])
                else case pt_locality p of
                       MigrateIn migrating \<Rightarrow>
                         (if length (t # ts) \<noteq> length migrating then Some (s, [])
                          else do {
                            heads \<leftarrow> all_at_head (pending_queues s) (pt_required p) tid;
                            if \<not> heads then Some (s, [])
                            else if \<exists>a\<in>set (pt_required p). a \<notin> fst ` set migrating \<and> account_store s a = None
                            then Some (s, [])
                            else do {
                              (qs, p') \<leftarrow> pop_transaction_from_accounts (pt_required p) tid (pending_queues s);
                              (s', _) \<leftarrow> execute_single_local_transaction cfg (pt_digest p') (pt_bytes p') (pt_header p')
                                (s\<lparr>drained_transfers := AList.delete tid (drained_transfers s), pending_queues := qs,
                                   account_store := fold (\<lambda>t st. st(st_account t \<mapsto> st_state t)) (t # ts) (account_store s)\<rparr>);
                              Some (s', pt_required p') } })
                     | _ \<Rightarrow> None)
           | _ \<Rightarrow> Some (s, [])))"

lemma incoming_one_cases:
  assumes "incoming_one cfg tid s = Some (s', un)"
  obtains (later) "s' = s" "un = []"
  | (execute) t ts p q migrating qs p' ok where
      "map_of (drained_transfers s) tid = Some (t # ts)" "map_of (pending_queues s) (st_account t) = Some (p # q)"
      "th_id (pt_header p) = tid" "pt_locality p = MigrateIn migrating" "length (t # ts) = length migrating"
      "all_at_head (pending_queues s) (pt_required p) tid = Some True"
      "\<forall>a\<in>set (pt_required p). a \<in> fst ` set migrating \<or> account_store s a \<noteq> None"
      "pop_transaction_from_accounts (pt_required p) tid (pending_queues s) = Some (qs, p')"
      "execute_single_local_transaction cfg (pt_digest p') (pt_bytes p') (pt_header p')
        (s\<lparr>drained_transfers := AList.delete tid (drained_transfers s), pending_queues := qs,
           account_store := fold (\<lambda>t st. st(st_account t \<mapsto> st_state t)) (t # ts) (account_store s)\<rparr>) = Some (s', ok)"
      "un = pt_required p'"
proof -
  obtain t ts where t: "map_of (drained_transfers s) tid = Some (t # ts)"
    using assms by (auto simp: incoming_one_def split: option.splits list.splits)
  note eq = incoming_one_def [of cfg tid s, unfolded t option.case list.case]
  show ?thesis
  proof (cases "map_of (pending_queues s) (st_account t)")
    case None
    then show ?thesis using assms later by (simp add: eq)
  next
    case (Some q0)
    show ?thesis
    proof (cases q0)
      case Nil
      then show ?thesis using assms Some later by (simp add: eq)
    next
      case (Cons p q)
      note eq' = eq [unfolded Some Cons option.case list.case]
      show ?thesis
      proof (cases "th_id (pt_header p) = tid")
        case False
        then show ?thesis using assms later by (simp add: eq')
      next
        case True
        then obtain migrating where m: "pt_locality p = MigrateIn migrating"
          using assms by (cases "pt_locality p") (simp_all add: eq')
        show ?thesis
        proof (cases "length (t # ts) = length migrating \<and> all_at_head (pending_queues s) (pt_required p) tid \<noteq> Some False
            \<and> (\<forall>a\<in>set (pt_required p). a \<in> fst ` set migrating \<or> account_store s a \<noteq> None)")
          case go: True
          then have h: "all_at_head (pending_queues s) (pt_required p) tid = Some True"
            using assms True m by (auto simp: eq' bind_eq_Some_conv)
          then obtain qs p' ok where e: "pop_transaction_from_accounts (pt_required p) tid (pending_queues s) = Some (qs, p')"
            "execute_single_local_transaction cfg (pt_digest p') (pt_bytes p') (pt_header p')
              (s\<lparr>drained_transfers := AList.delete tid (drained_transfers s), pending_queues := qs,
                 account_store := fold (\<lambda>t st. st(st_account t \<mapsto> st_state t)) (t # ts) (account_store s)\<rparr>) = Some (s', ok)"
            "un = pt_required p'"
            using assms True m go by (auto simp: eq' bind_eq_Some_conv split: if_splits)
          show ?thesis
            by (rule execute [OF t Some [unfolded Cons] True m _ h _ e]) (use go in simp_all)
        next
          case stay: False
          have "s' = s \<and> un = []"
            using assms True m stay by (auto simp: eq' bind_eq_Some_conv split: if_splits)
          then show ?thesis using later by simp
        qed
      qed
    qed
  qed
qed

fun incoming_loop :: "executor_config \<Rightarrow> tx_id list \<Rightarrow> executor \<Rightarrow> (executor \<times> nat list) option" where
  "incoming_loop cfg [] s = Some (s, [])"
| "incoming_loop cfg (tid # tids) s = do {
     (s1, un) \<leftarrow> incoming_one cfg tid s;
     (s2, uns) \<leftarrow> incoming_loop cfg tids s1;
     Some (s2, un @ uns) }"

text \<open>The keys of the hash map in the order of iteration: some permutation.\<close>

definition arranged :: "executor_config \<Rightarrow> tx_id list \<Rightarrow> tx_id list" where
  "arranged cfg tids = (if mset (ec_arrange cfg tids) = mset tids then ec_arrange cfg tids else tids)"

lemma mset_arranged [simp]: "mset (arranged cfg tids) = mset tids"
  by (simp add: arranged_def)

lemma arranged_Nil [simp]: "arranged cfg [] = []"
  by (simp add: arranged_def)

definition process_incoming_transfers :: "executor_config \<Rightarrow> executor \<Rightarrow> executor option" where
  "process_incoming_transfers cfg s0 = (let s = drain_incoming s0 in do {
     (s', unlocked) \<leftarrow> incoming_loop cfg (arranged cfg (keys (drained_transfers s))) s;
     if unlocked = [] then Some s' else drain_pending_queues cfg unlocked s' })"

subsection \<open>Batches\<close>

text \<open>\<open>arrived\<close> are the transfers that the state helper put into the shared buffer since the
  last batch took it.\<close>

definition execute_batch :: "executor_config \<Rightarrow> state_transfer list \<Rightarrow> digest \<Rightarrow> bytes list \<Rightarrow> executor \<Rightarrow> executor option" where
  "execute_batch cfg arrived d raws s = do {
     txs \<leftarrow> parse_and_schedule cfg (schedule_partition s) raws;
     (ls, part) \<leftarrow> decide_localities (ec_executor_id cfg) txs (schedule_partition s);
     s1 \<leftarrow> handle_all cfg d (zip txs ls)
       (s\<lparr>schedule_partition := part, scheduled_tx_count := scheduled_tx_count s + length txs\<rparr>);
     s2 \<leftarrow> process_incoming_transfers cfg (s1\<lparr>incoming_transfers := fold add_transfer arrived (incoming_transfers s1)\<rparr>);
     Some (s2\<lparr>lock_stats := update_queue_depths (pending_queues s2) (lock_stats s2)\<rparr>) }"

definition send_feedback_if_needed :: "executor_config \<Rightarrow> executor \<Rightarrow> executor" where
  "send_feedback_if_needed cfg s =
     (let done = wsub 64 (next_sequence s) 1
      in if wadd 64 (last_feedback_sent s) FEEDBACK_INTERVAL \<le> done
         then s\<lparr>feedback_out := feedback_out s @ [(ec_executor_id cfg, done)], last_feedback_sent := done\<rparr>
         else s)"

text \<open>Executing the batch of the next sequence number; \<open>arr n\<close> are the transfers that have
  arrived when the batch of sequence number \<open>n\<close> takes the shared buffer.\<close>

definition execute_next :: "executor_config \<Rightarrow> (nat \<Rightarrow> state_transfer list) \<Rightarrow> digest \<times> bytes list \<Rightarrow> executor \<Rightarrow> executor option" where
  "execute_next cfg arr b s =
     map_option (\<lambda>s'. send_feedback_if_needed cfg (s'\<lparr>next_sequence := wadd 64 (next_sequence s') 1\<rparr>))
       (execute_batch cfg (arr (next_sequence s)) (fst b) (snd b) s)"

text \<open>The buffered batches, taken out of \<open>buf\<close> one after the other.\<close>

function execute_buffered ::
    "executor_config \<Rightarrow> (nat \<Rightarrow> state_transfer list) \<Rightarrow> (nat, digest \<times> bytes list) hmap \<Rightarrow> executor \<Rightarrow> executor option" where
  "execute_buffered cfg arr buf s =
     (case map_of buf (next_sequence s) of
        None \<Rightarrow> Some (s\<lparr>x_buffer := buf\<rparr>)
      | Some b \<Rightarrow>
          (let buf' = AList.delete (next_sequence s) buf
           in case execute_next cfg arr b (s\<lparr>x_buffer := buf'\<rparr>) of
                None \<Rightarrow> None
              | Some s' \<Rightarrow> execute_buffered cfg arr buf' s'))"
  by pat_completeness auto

lemma length_delete_less: "map_of m k = Some v \<Longrightarrow> length (AList.delete k m) < length m"
  by (induction m) (auto intro: le_less_trans [OF length_delete_le] less_Suc_eq_le [THEN iffD2])

termination execute_buffered
  by (relation "measure (\<lambda>(cfg, arr, buf, s). length buf)") (auto intro: length_delete_less)

declare execute_buffered.simps [simp del]

definition process_execute ::
    "executor_config \<Rightarrow> (nat \<Rightarrow> state_transfer list) \<Rightarrow> digest \<times> nat \<times> bytes list \<Rightarrow> executor \<Rightarrow> executor option" where
  "process_execute cfg arr msg s =
     (let (d, sequence, raws) = msg
      in if sequence = next_sequence s
         then Option.bind (execute_next cfg arr (d, raws) s) (\<lambda>s'. execute_buffered cfg arr (x_buffer s') s')
         else if next_sequence s < sequence
         then if raws = [] \<and> d = 0 then None
              else if 5000 \<le> length (x_buffer s) then None
              else Some (s\<lparr>x_buffer := AList.update sequence (d, raws) (x_buffer s)\<rparr>)
         else None)"

fun executor_run ::
    "executor_config \<Rightarrow> (nat \<Rightarrow> state_transfer list) \<Rightarrow> (digest \<times> nat \<times> bytes list) list \<Rightarrow> executor \<Rightarrow> executor option" where
  "executor_run cfg arr [] s = Some s"
| "executor_run cfg arr (m # ms) s = Option.bind (process_execute cfg arr m s) (executor_run cfg arr ms)"

text \<open>Its specification: the batches in the order of their sequence numbers.\<close>

fun execute_in_order ::
    "executor_config \<Rightarrow> (nat \<Rightarrow> state_transfer list) \<Rightarrow> (digest \<times> bytes list) list \<Rightarrow> executor \<Rightarrow> executor option" where
  "execute_in_order cfg arr [] s = Some s"
| "execute_in_order cfg arr (b # bs) s = Option.bind (execute_next cfg arr b s) (execute_in_order cfg arr bs)"

end
