(* ===== verification/Sequencer.thy ===== *)
theory Sequencer
  imports Synchronizer "HOL-Library.Multiset"
begin

text \<open>
  \<^verbatim>\<open>node/src/main.rs\<close>: the task \<open>analyze\<close> of a primary, which numbers the committed batches
  and sends them, and the migration notices, to the workers of the validator. \<open>None\<close> is a
  panic; a message is sent to an address.

  Two hash maps are iterated in an order that Rust randomises for every process: the batches of a
  certificate by worker and the notices by worker. The orders are arguments (\<open>iteration\<close>
  makes any function one: it is used where it permutes its argument).
\<close>

definition iteration :: "('a list \<Rightarrow> 'a list) \<Rightarrow> 'a list \<Rightarrow> 'a list" where
  "iteration f xs = (if mset (f xs) = mset xs then f xs else xs)"

lemma mset_iteration [simp]: "mset (iteration f xs) = mset xs"
  by (simp add: iteration_def)

lemma set_iteration [simp]: "set (iteration f xs) = set xs"
  using mset_iteration by (rule mset_eq_setD)

lemma iteration_singleton [simp]: "iteration f [] = []" "iteration f [x] = [x]"
  by (auto simp: iteration_def)

text \<open>\<open>slice::chunks\<close> with a size that is not zero.\<close>

fun chunks :: "nat \<Rightarrow> 'a list \<Rightarrow> 'a list list" where
  "chunks n [] = []"
| "chunks n (x # xs) = (x # take (n - 1) xs) # chunks n (drop (n - 1) xs)"

lemma concat_chunks [simp]: "concat (chunks n xs) = xs"
  by (induction n xs rule: chunks.induct) simp_all

lemma chunks_small: "c \<in> set (chunks n xs) \<Longrightarrow> 0 < n \<Longrightarrow> c \<noteq> [] \<and> length c \<le> n"
  by (induction n xs rule: chunks.induct) auto

subsection \<open>Grouping\<close>

definition group_by :: "('a \<Rightarrow> 'k) \<Rightarrow> 'a list \<Rightarrow> ('k, 'a list) hmap" where
  "group_by key xs = fold (\<lambda>x. upsert [] (key x) (\<lambda>l. l @ [x])) xs []"

lemma group_by_snoc: "group_by key (xs @ [x]) = upsert [] (key x) (\<lambda>l. l @ [x]) (group_by key xs)"
  by (simp add: group_by_def)

lemma distinct_group_by: "distinct (map fst (group_by key xs))"
  by (induction xs rule: rev_induct) (simp_all add: group_by_snoc, simp add: group_by_def)

lemma get_or_group_by: "get_or [] (group_by key xs) k = filter (\<lambda>x. key x = k) xs"
  by (induction xs rule: rev_induct) (auto simp: group_by_snoc al_simps, simp add: group_by_def get_or_def)

lemma group_by_nonempty: "(k, ys) \<in> set (group_by key xs) \<Longrightarrow> ys \<noteq> []"
proof (induction xs arbitrary: k ys rule: rev_induct)
  case (snoc x xs)
  then show ?case using set_update_subset by (fastforce simp: group_by_snoc upsert_def)
qed (simp add: group_by_def)

subsection \<open>The task\<close>

definition our_worker_addresses :: "committee \<Rightarrow> public_key \<Rightarrow> (worker_id, socket_addr) hmap option" where
  "our_worker_addresses com name =
     map_option (\<lambda>a. map (\<lambda>(w, x). (w, primary_to_worker x)) (a_workers a)) (map_of (authorities com) name)"

type_synonym sent = "(socket_addr \<times> primary_worker_message) list"

fun number_batches :: "socket_addr \<Rightarrow> worker_id \<Rightarrow> digest list \<Rightarrow> nat \<Rightarrow> sent \<times> nat" where
  "number_batches addr w [] n = ([], n)"
| "number_batches addr w (d # ds) n =
     (let (ms, n') = number_batches addr w ds (wadd 64 n 1) in ((addr, Execute d w n) # ms, n'))"

fun dispatch_batches :: "(worker_id, socket_addr) hmap \<Rightarrow> round \<Rightarrow> (worker_id \<times> digest list) list \<Rightarrow> nat \<Rightarrow> sent \<times> nat" where
  "dispatch_batches workers r [] n = ([], n)"
| "dispatch_batches workers r ((w, ds) # groups) n =
     (case map_of workers w of
        None \<Rightarrow> dispatch_batches workers r groups n
      | Some addr \<Rightarrow>
          (let (ms, n1) = number_batches addr w ds n;
               (rest, n2) = dispatch_batches workers r groups n1
           in ((addr, CommittedBatches r ds) # ms @ rest, n2)))"

fun dispatch_notices :: "(worker_id, socket_addr) hmap \<Rightarrow> (worker_id \<times> migration_notice list) list \<Rightarrow> sent" where
  "dispatch_notices workers [] = []"
| "dispatch_notices workers ((w, ns) # groups) =
     (case map_of workers w of None \<Rightarrow> []
      | Some addr \<Rightarrow> map (\<lambda>c. (addr, MigrationNotices c)) (chunks MIGRATION_CHUNK_SIZE ns))
     @ dispatch_notices workers groups"

record iterations =
  it_batches :: "(worker_id \<times> digest list) list \<Rightarrow> (worker_id \<times> digest list) list"
  it_notices :: "(worker_id \<times> migration_notice list) list \<Rightarrow> (worker_id \<times> migration_notice list) list"

definition batches_by_worker :: "certificate \<Rightarrow> (worker_id \<times> digest list) list" where
  "batches_by_worker c = map (\<lambda>(w, ps). (w, map fst ps)) (group_by snd (h_payload (c_header c)))"

fun analyze_one :: "iterations \<Rightarrow> (worker_id, socket_addr) hmap \<Rightarrow> consensus_output \<Rightarrow> nat \<Rightarrow> (sent \<times> nat) option" where
  "analyze_one it workers (OutCertificate c) n =
     Some (dispatch_batches workers (c_round c) (iteration (it_batches it) (batches_by_worker c)) n)"
| "analyze_one it workers (OutMigrations ns) n =
     (if workers = [] then None
      else Some (dispatch_notices workers (iteration (it_notices it)
        (group_by (\<lambda>m. account_id m mod length workers mod 2 ^ 32) ns)), n))"

fun analyze :: "iterations \<Rightarrow> (worker_id, socket_addr) hmap \<Rightarrow> consensus_output list \<Rightarrow> nat \<Rightarrow> (sent \<times> nat) option" where
  "analyze it workers [] n = Some ([], n)"
| "analyze it workers (x # xs) n =
     (case analyze_one it workers x n of None \<Rightarrow> None
      | Some (ms, n') \<Rightarrow> map_option (\<lambda>(rest, m). (ms @ rest, m)) (analyze it workers xs n'))"

subsection \<open>The numbers\<close>

text \<open>The batches that are to be executed, with their numbers, in the order of sending.\<close>

definition executes :: "sent \<Rightarrow> (digest \<times> nat) list" where
  "executes ms = List.map_filter (\<lambda>(_, m). case m of Execute d w n \<Rightarrow> Some (d, n) | _ \<Rightarrow> None) ms"

lemma executes_simps [simp]:
  "executes [] = []" "executes (xs @ ys) = executes xs @ executes ys"
  "executes ((a, Execute d w n) # ms) = (d, n) # executes ms"
  "executes ((a, CommittedBatches r ds) # ms) = executes ms"
  by (simp_all add: executes_def List.map_filter_def)

lemma executes_notices [simp]: "executes (map (\<lambda>c. (a, MigrationNotices (f c))) cs) = []"
  by (induction cs) (simp_all add: executes_def List.map_filter_def)

lemma executes_dispatch_notices: "executes (dispatch_notices workers gs) = []"
  by (induction workers gs rule: dispatch_notices.induct) (simp_all split: option.split)

text \<open>The batches of a worker that the validator has.\<close>

definition known_groups :: "(worker_id, socket_addr) hmap \<Rightarrow> (worker_id \<times> digest list) list \<Rightarrow> digest list" where
  "known_groups workers gs = concat (map snd (filter (\<lambda>(w, _). map_of workers w \<noteq> None) gs))"

definition known_payload :: "(worker_id, socket_addr) hmap \<Rightarrow> certificate \<Rightarrow> digest list" where
  "known_payload workers c = map fst (filter (\<lambda>(_, w). map_of workers w \<noteq> None) (h_payload (c_header c)))"

fun committed_payload :: "(worker_id, socket_addr) hmap \<Rightarrow> consensus_output list \<Rightarrow> digest list" where
  "committed_payload workers [] = []"
| "committed_payload workers (OutCertificate c # xs) = known_payload workers c @ committed_payload workers xs"
| "committed_payload workers (OutMigrations ns # xs) = committed_payload workers xs"

lemma number_batches_executes:
  assumes "number_batches addr w ds n = (ms, n')" "n + length ds < 2 ^ 64"
  shows "executes ms = zip ds [n..<n + length ds] \<and> n' = n + length ds"
  using assms
proof (induction ds arbitrary: n ms n')
  case (Cons d ds)
  obtain ms1 where s: "number_batches addr w ds (Suc n) = (ms1, n')" "ms = (addr, Execute d w n) # ms1"
    using Cons.prems by (auto simp: wadd_exact split: prod.splits)
  then have "executes ms1 = zip ds [Suc n..<Suc n + length ds]" "n' = Suc n + length ds"
    using Cons.IH [OF s(1)] Cons.prems(2) by simp_all
  moreover have "[n..<n + length (d # ds)] = n # [Suc n..<Suc n + length ds]" by (simp add: upt_conv_Cons del: upt_Suc)
  ultimately show ?case by (simp add: s(2))
qed simp

lemma dispatch_batches_executes:
  assumes "dispatch_batches workers r gs n = (ms, n')" "n + length (known_groups workers gs) < 2 ^ 64"
  shows "executes ms = zip (known_groups workers gs) [n..<n'] \<and> n' = n + length (known_groups workers gs)"
  using assms
proof (induction gs arbitrary: n ms n')
  case (Cons g gs)
  obtain w ds where g: "g = (w, ds)" by (cases g)
  show ?case
  proof (cases "map_of workers w")
    case None
    then show ?thesis using Cons by (simp add: g known_groups_def)
  next
    case (Some addr)
    obtain ms1 n1 ms2 where s: "number_batches addr w ds n = (ms1, n1)" "dispatch_batches workers r gs n1 = (ms2, n')"
      "ms = (addr, CommittedBatches r ds) # ms1 @ ms2"
      using Cons.prems(1) Some by (auto simp: g split: prod.splits)
    have len: "n + length ds + length (known_groups workers gs) < 2 ^ 64"
      using Cons.prems(2) Some by (simp add: g known_groups_def)
    then have one: "executes ms1 = zip ds [n..<n + length ds]" "n1 = n + length ds"
      using number_batches_executes [OF s(1)] by simp_all
    then have two: "executes ms2 = zip (known_groups workers gs) [n1..<n']" "n' = n1 + length (known_groups workers gs)"
      using Cons.IH [OF s(2)] len by simp_all
    have "known_groups workers (g # gs) = ds @ known_groups workers gs" using Some by (simp add: g known_groups_def)
    moreover have "[n..<n'] = [n..<n1] @ [n1..<n']"
      unfolding one(2) two(2) using upt_add_eq_append [of n "n + length ds"] by simp
    ultimately show ?thesis using one two by (simp add: s(3))
  qed
qed (simp add: known_groups_def)

lemma filter_upsert:
  "distinct (map fst m) \<Longrightarrow> mset (concat (map snd (filter (\<lambda>(w, _). P w) (upsert [] k (\<lambda>l. l @ [x]) m))))
     = mset (concat (map snd (filter (\<lambda>(w, _). P w) m))) + (if P k then {#x#} else {#})"
proof (induction m)
  case Nil
  then show ?case by (simp add: upsert_def get_or_def)
next
  case (Cons e m)
  obtain w l where e: "e = (w, l)" by (cases e)
  have "upsert [] k (\<lambda>l. l @ [x]) ((w, l) # m) = (if w = k then (w, l @ [x]) # m else (w, l) # upsert [] k (\<lambda>l. l @ [x]) m)"
    by (simp add: upsert_def get_or_def)
  then show ?case using Cons by (simp add: e)
qed

lemma mset_group_by:
  "mset (concat (map snd (filter (\<lambda>(w, _). P w) (group_by key xs)))) = mset (filter (\<lambda>x. P (key x)) xs)"
proof (induction xs rule: rev_induct)
  case (snoc x xs)
  then show ?case by (simp add: group_by_snoc filter_upsert distinct_group_by)
qed (simp add: group_by_def)

lemma mset_concat_map: "mset (concat (map f xs)) = (\<Sum>x\<in>#mset xs. mset (f x))"
  by (induction xs) simp_all

lemma mset_known_groups:
  assumes "mset gs = mset (batches_by_worker c)"
  shows "mset (known_groups workers gs) = mset (known_payload workers c)"
proof -
  have "mset (known_groups workers gs) = mset (known_groups workers (batches_by_worker c))"
    unfolding known_groups_def mset_concat_map mset_filter assms ..
  also have "known_groups workers (batches_by_worker c)
      = map fst (concat (map snd (filter (\<lambda>(w, _). map_of workers w \<noteq> None) (group_by snd (h_payload (c_header c))))))"
    by (simp add: known_groups_def batches_by_worker_def filter_map comp_def split_def map_concat)
  also have "mset \<dots> = mset (known_payload workers c)"
    using mset_group_by [of "\<lambda>w. map_of workers w \<noteq> None" snd "h_payload (c_header c)"]
    by (simp add: known_payload_def split_def)
  finally show ?thesis .
qed

lemma analyze_one_executes:
  assumes "analyze_one it workers x n = Some (ms, n')" "n + length (committed_payload workers [x]) < 2 ^ 64"
  shows "\<exists>ds. executes ms = zip ds [n..<n'] \<and> mset ds = mset (committed_payload workers [x]) \<and> n' = n + length ds"
proof (cases x)
  case (OutCertificate c)
  let ?gs = "iteration (it_batches it) (batches_by_worker c)"
  have gs: "mset (known_groups workers ?gs) = mset (committed_payload workers [x])"
    using mset_known_groups [of ?gs c workers] by (simp add: OutCertificate)
  moreover have "dispatch_batches workers (c_round c) ?gs n = (ms, n')" using assms(1) by (simp add: OutCertificate)
  moreover have "n + length (known_groups workers ?gs) < 2 ^ 64"
    using assms(2) mset_eq_length [OF gs] by simp
  ultimately show ?thesis using dispatch_batches_executes by blast
next
  case (OutMigrations ns)
  then show ?thesis using assms(1) by (auto simp: executes_dispatch_notices split: if_splits)
qed

lemma committed_payload_Cons: "committed_payload workers (x # xs) = committed_payload workers [x] @ committed_payload workers xs"
  by (cases x) simp_all

text \<open>
  Every committed batch gets a number: in a run of the task over the output of
  consensus, the commands to execute carry the consecutive numbers from the first one on, in the
  order of sending, and they name every batch of the committed certificates that belongs to a worker of
  the validator, as often as it is committed.
\<close>

theorem committed_batches_numbered:
  assumes "analyze it workers xs n = Some (ms, n')" "n + length (committed_payload workers xs) < 2 ^ 64"
  shows "\<exists>ds. executes ms = zip ds [n..<n'] \<and> n' = n + length ds \<and> mset ds = mset (committed_payload workers xs)"
  using assms
proof (induction xs arbitrary: n ms)
  case (Cons x xs)
  obtain ms1 n1 ms2 where s: "analyze_one it workers x n = Some (ms1, n1)" "analyze it workers xs n1 = Some (ms2, n')"
    "ms = ms1 @ ms2"
    using Cons.prems(1) by (auto split: option.splits)
  note split = committed_payload_Cons [of workers x xs]
  obtain ds1 where one: "executes ms1 = zip ds1 [n..<n1]" "mset ds1 = mset (committed_payload workers [x])" "n1 = n + length ds1"
    using analyze_one_executes [OF s(1)] Cons.prems(2) split by auto
  then have "n1 + length (committed_payload workers xs) < 2 ^ 64"
    using Cons.prems(2) mset_eq_length [OF one(2)] by (simp add: split)
  then obtain ds2 where two: "executes ms2 = zip ds2 [n1..<n']" "n' = n1 + length ds2" "mset ds2 = mset (committed_payload workers xs)"
    using Cons.IH [OF s(2)] by blast
  have "[n..<n'] = [n..<n1] @ [n1..<n']" unfolding one(3) two(2) using upt_add_eq_append [of n "n + length ds1"] by simp
  then have "executes ms = zip (ds1 @ ds2) [n..<n']" using one two by (simp add: s(3))
  moreover have "mset (ds1 @ ds2) = mset (committed_payload workers (x # xs))" using one(2) two(3) by (simp add: split)
  ultimately show ?case using one(3) two(2) by (intro exI [of _ "ds1 @ ds2"]) simp
qed simp

subsection \<open>One worker, and more\<close>

lemma concat_filter_key:
  "distinct (map fst gs) \<Longrightarrow> concat (map snd (filter (\<lambda>(v, _). v = w) gs)) = get_or [] gs w"
proof (induction gs)
  case (Cons g gs)
  obtain v l where g: "g = (v, l)" by (cases g)
  have "filter (\<lambda>(u, _). u = v) gs = []" using Cons.prems by (auto simp: g filter_empty_conv rev_image_eqI)
  then show ?case using Cons by (auto simp: g get_or_def)
qed (simp add: get_or_def)

lemma get_or_permuted:
  assumes "mset gs = mset gs'" "distinct (map fst gs')"
  shows "get_or d gs w = get_or d gs' w"
proof -
  have "distinct (map fst gs)" using assms by (metis mset_map mset_eq_imp_distinct_iff)
  then have "map_of gs = map_of gs'" using assms by (intro map_of_eqI) (auto dest: mset_eq_setD simp: map_of_inject_set)
  then show ?thesis by (simp add: get_or_def)
qed

lemma get_or_map: "get_or [] (map (\<lambda>(k, l). (k, map f l)) m) w = map f (get_or [] m w)"
  by (induction m) (auto simp: get_or_def)

lemma known_groups_one:
  assumes "mset gs = mset (batches_by_worker c)"
  shows "known_groups [(w, a)] gs = known_payload [(w, a)] c"
proof -
  have d: "distinct (map fst (batches_by_worker c))"
    using distinct_group_by [of snd "h_payload (c_header c)"] by (simp add: batches_by_worker_def comp_def split_def)
  then have "distinct (map fst gs)" using assms by (metis mset_map mset_eq_imp_distinct_iff)
  then have "known_groups [(w, a)] gs = get_or [] gs w"
    using concat_filter_key [of gs w] by (simp add: known_groups_def split_def if_distrib [of "\<lambda>x. x \<noteq> None"] cong: if_cong)
  also have "\<dots> = get_or [] (batches_by_worker c) w" by (rule get_or_permuted [OF assms d])
  also have "\<dots> = map fst (get_or [] (group_by snd (h_payload (c_header c))) w)"
    by (simp add: batches_by_worker_def get_or_map)
  also have "\<dots> = known_payload [(w, a)] c"
    by (simp add: get_or_group_by known_payload_def split_def)
  finally show ?thesis .
qed

lemma executes_one_worker:
  assumes "analyze it [(w, a)] xs n = Some (ms, n')" "n + length (committed_payload [(w, a)] xs) < 2 ^ 64"
  shows "executes ms = zip (committed_payload [(w, a)] xs) [n..<n'] \<and> n' = n + length (committed_payload [(w, a)] xs)"
  using assms
proof (induction xs arbitrary: n ms)
  case (Cons x xs)
  obtain ms1 n1 ms2 where s: "analyze_one it [(w, a)] x n = Some (ms1, n1)" "analyze it [(w, a)] xs n1 = Some (ms2, n')"
    "ms = ms1 @ ms2"
    using Cons.prems(1) by (auto split: option.splits)
  note split = committed_payload_Cons [of "[(w, a)]" x xs]
  let ?ds = "committed_payload [(w, a)] [x]"
  have one: "executes ms1 = zip ?ds [n..<n1] \<and> n1 = n + length ?ds"
  proof (cases x)
    case (OutCertificate c)
    let ?gs = "iteration (it_batches it) (batches_by_worker c)"
    have "known_groups [(w, a)] ?gs = ?ds" using known_groups_one [of ?gs c w a] by (simp add: OutCertificate)
    then show ?thesis
      using dispatch_batches_executes [of "[(w, a)]" "c_round c" ?gs n ms1 n1] s(1) Cons.prems(2)
      by (simp add: OutCertificate split)
  next
    case (OutMigrations ns)
    then show ?thesis using s(1) by (auto simp: executes_dispatch_notices split: if_splits)
  qed
  then have "executes ms2 = zip (committed_payload [(w, a)] xs) [n1..<n']" "n' = n1 + length (committed_payload [(w, a)] xs)"
    using Cons.IH [OF s(2)] Cons.prems(2) by (simp_all add: split)
  moreover have "[n..<n'] = [n..<n1] @ [n1..<n']"
    using calculation(2) one upt_add_eq_append [of n "n + length ?ds"] by simp
  ultimately show ?case using one by (simp add: s(3) split)
qed simp

definition two_worker_certificate :: certificate where
  "two_worker_certificate =
     \<lparr>c_header = header_default\<lparr>h_author := 1, h_round := 3, h_payload := [(10, 0), (20, 1)]\<rparr>, c_votes = []\<rparr>"

text \<open>
  With more than one worker the numbers depend on the hash map: two validators that
  receive the same committed certificate, with a batch of each of two workers, can give the two batches
  the numbers zero and one in opposite orders, because \<open>analyze\<close> numbers the batches while it
  iterates over a \<open>HashMap\<close>. Their executors then run the batches in opposite orders.
\<close>

theorem numbers_depend_on_iteration:
  "map_option (executes \<circ> fst) (analyze \<lparr>it_batches = (\<lambda>x. x), it_notices = (\<lambda>x. x)\<rparr> [(0, ''w''), (1, ''v'')]
      [OutCertificate two_worker_certificate] 0) = Some [(10, 0), (20, 1)]
   \<and> map_option (executes \<circ> fst) (analyze \<lparr>it_batches = rev, it_notices = (\<lambda>x. x)\<rparr> [(0, ''w''), (1, ''v'')]
      [OutCertificate two_worker_certificate] 0) = Some [(20, 0), (10, 1)]"
  by (simp add: two_worker_certificate_def batches_by_worker_def group_by_def upsert_def get_or_def iteration_def
      wadd_def)

subsection \<open>Migration notices\<close>

definition notices_sent :: "sent \<Rightarrow> migration_notice list" where
  "notices_sent ms = concat (map (\<lambda>(_, m). case m of MigrationNotices ns \<Rightarrow> ns | _ \<Rightarrow> []) ms)"

lemma notices_of_chunks: "notices_sent (map (\<lambda>c. (a, MigrationNotices c)) cs) = concat cs"
  by (simp add: notices_sent_def comp_def)

lemma notices_sent_append: "notices_sent (xs @ ys) = notices_sent xs @ notices_sent ys"
  by (simp add: notices_sent_def)

lemma notices_of_dispatch:
  "notices_sent (dispatch_notices workers gs) = concat (map snd (filter (\<lambda>(w, _). map_of workers w \<noteq> None) gs))"
proof (induction workers gs rule: dispatch_notices.induct)
  case (2 workers w ns gs)
  then show ?case by (cases "map_of workers w") (simp_all add: notices_sent_append notices_of_chunks)
qed (simp add: notices_sent_def)

lemma dispatch_notices_chunks:
  "(a, m) \<in> set (dispatch_notices workers gs) \<Longrightarrow> \<exists>ns. m = MigrationNotices ns \<and> ns \<noteq> [] \<and> length ns \<le> MIGRATION_CHUNK_SIZE"
  by (induction workers gs rule: dispatch_notices.induct)
    (auto split: option.splits dest: chunks_small simp: MIGRATION_CHUNK_SIZE_def)

text \<open>
  Every migration notice goes to a worker: when the validator's workers are numbered from zero,
  each notice that consensus outputs is in exactly one message to one of the workers, as often as it
  was output, and no message has more than 5000 notices or none.
\<close>

theorem every_notice_dispatched:
  assumes "\<forall>w<length workers. map_of workers w \<noteq> None" "workers \<noteq> []" "length workers \<le> 2 ^ 32"
  shows "\<exists>ms. analyze_one it workers (OutMigrations ns) n = Some (ms, n) \<and> mset (notices_sent ms) = mset ns
    \<and> (\<forall>(_, m)\<in>set ms. \<exists>c. m = MigrationNotices c \<and> c \<noteq> [] \<and> length c \<le> MIGRATION_CHUNK_SIZE)"
proof -
  let ?key = "\<lambda>m. account_id m mod length workers mod 2 ^ 32"
  let ?gs = "iteration (it_notices it) (group_by ?key ns)"
  have known: "map_of workers (?key m) \<noteq> None" for m :: migration_notice
  proof -
    have "account_id m mod length workers < length workers" using assms(2) by simp
    then show ?thesis using assms(1,3) by simp
  qed
  have "mset (notices_sent (dispatch_notices workers ?gs))
      = mset (concat (map snd (filter (\<lambda>(w, _). map_of workers w \<noteq> None) (group_by ?key ns))))"
    unfolding notices_of_dispatch mset_concat_map mset_filter mset_iteration ..
  also have "\<dots> = mset ns" unfolding mset_group_by by (subst filter_True) (use known in simp_all)
  finally show ?thesis using assms(2) dispatch_notices_chunks [of _ _ workers ?gs] by (auto simp del: mset_filter)
qed

end
