(* ===== verification/Worker_Tasks.thy ===== *)
theory Worker_Tasks
  imports Sequencer Primary_Tasks Workload
begin

text \<open>
  The tasks of a worker (\<^verbatim>\<open>worker/src\<close>): the receivers of \<^verbatim>\<open>worker.rs\<close>, the batch
  maker, the quorum waiter, the processor and the helper. \<open>None\<close> is a panic. The encoding of
  messages by bincode is the record \<open>worker_codec\<close>; an acknowledgement is the name of the worker
  whose handler completes.
\<close>

datatype worker_message =
    Batch "bytes list"
  | BatchRequest "digest list" public_key

record worker_codec =
  ser_message :: "worker_message \<Rightarrow> bytes"
  de_message :: "bytes \<Rightarrow> worker_message option"

subsection \<open>The receivers\<close>

definition receive_transaction :: "bytes \<Rightarrow> bytes option" where
  "receive_transaction message = (if length message < 10 then None else Some message)"

datatype worker_task =
    ToProcessor bytes nat
  | ToBatchHelper "digest list" public_key
  | Ignored

definition receive_worker_message :: "worker_codec \<Rightarrow> bytes \<Rightarrow> worker_task" where
  "receive_worker_message K serialized =
     (case de_message K serialized of
        Some (Batch _) \<Rightarrow> ToProcessor serialized 0
      | Some (BatchRequest missing requestor) \<Rightarrow> ToBatchHelper missing requestor
      | None \<Rightarrow> Ignored)"

datatype primary_command =
    ToRouter digest nat
  | ToSynchronizer primary_worker_message

fun receive_primary_message :: "primary_worker_message \<Rightarrow> primary_command" where
  "receive_primary_message (Execute d w sequence) = ToRouter d sequence"
| "receive_primary_message message = ToSynchronizer message"

subsection \<open>Batch maker\<close>

record batch_maker =
  current_batch :: "bytes list"
  current_batch_size :: nat

definition batch_maker_init :: batch_maker where
  "batch_maker_init = \<lparr>current_batch = [], current_batch_size = 0\<rparr>"

datatype batch_event =
    Transaction bytes
  | BatchTimer

definition seal :: "batch_maker \<Rightarrow> batch_maker \<times> bytes list" where
  "seal s = (s\<lparr>current_batch := [], current_batch_size := 0\<rparr>, current_batch s)"

fun batch_step :: "nat \<Rightarrow> batch_event \<Rightarrow> batch_maker \<Rightarrow> batch_maker \<times> bytes list option" where
  "batch_step batch_size (Transaction tx) s =
     (let s1 = s\<lparr>current_batch_size := wadd 64 (current_batch_size s) (length tx), current_batch := current_batch s @ [tx]\<rparr>
      in if batch_size \<le> current_batch_size s1 then (let (s2, b) = seal s1 in (s2, Some b)) else (s1, None))"
| "batch_step batch_size BatchTimer s =
     (if current_batch s \<noteq> [] then (let (s1, b) = seal s in (s1, Some b)) else (s, None))"

fun batch_run :: "nat \<Rightarrow> batch_event list \<Rightarrow> batch_maker \<Rightarrow> batch_maker \<times> bytes list list" where
  "batch_run batch_size [] s = (s, [])"
| "batch_run batch_size (e # es) s =
     (let (s1, b) = batch_step batch_size e s; (s2, bs) = batch_run batch_size es s1
      in (s2, (case b of None \<Rightarrow> bs | Some b \<Rightarrow> b # bs)))"

text \<open>What \<open>seal\<close> sends: the batch to the other workers, and to the quorum waiter with the
  names of those that will acknowledge it.\<close>

record quorum_waiter_message =
  qw_batch :: bytes
  qw_handlers :: "public_key list"

definition broadcast_batch ::
    "worker_codec \<Rightarrow> (public_key \<times> socket_addr) list \<Rightarrow> bytes list \<Rightarrow> (socket_addr \<times> bytes) list \<times> quorum_waiter_message" where
  "broadcast_batch K others txs =
     (let serialized = ser_message K (Batch txs)
      in (map (\<lambda>(_, addr). (addr, serialized)) others, \<lparr>qw_batch = serialized, qw_handlers = map fst others\<rparr>))"

fun transactions_in :: "batch_event list \<Rightarrow> bytes list" where
  "transactions_in [] = []"
| "transactions_in (Transaction tx # es) = tx # transactions_in es"
| "transactions_in (BatchTimer # es) = transactions_in es"

definition batch_inv :: "nat \<Rightarrow> batch_maker \<Rightarrow> bool" where
  "batch_inv batch_size s \<longleftrightarrow> current_batch_size s = sum_list (map length (current_batch s))
     \<and> (current_batch s \<noteq> [] \<longrightarrow> current_batch_size s < batch_size)"

definition good_batch :: "nat \<Rightarrow> bytes list \<Rightarrow> bool" where
  "good_batch batch_size b \<longleftrightarrow> b \<noteq> [] \<and> (butlast b \<noteq> [] \<longrightarrow> sum_list (map length (butlast b)) < batch_size)"

lemma sum_butlast_le: "sum_list (map length (butlast b)) \<le> sum_list (map length b)"
  by (induction b) auto

lemma batch_step_props:
  assumes "batch_inv n s" "batch_step n e s = (s', b)" "n + sum_list (map length (transactions_in [e])) < 2 ^ 64"
  shows "(case b of None \<Rightarrow> [] | Some b \<Rightarrow> b) @ current_batch s' = current_batch s @ transactions_in [e]
    \<and> batch_inv n s' \<and> (\<forall>x. b = Some x \<longrightarrow> good_batch n x)"
proof (cases e)
  case (Transaction tx)
  have s: "current_batch_size s = sum_list (map length (current_batch s))" "current_batch s \<noteq> [] \<Longrightarrow> current_batch_size s < n"
    using assms(1) by (simp_all add: batch_inv_def)
  then have "current_batch_size s + length tx < 2 ^ 64"
    using assms(3) by (cases "current_batch s = []") (simp_all add: Transaction)
  then have size: "wadd 64 (current_batch_size s) (length tx) = current_batch_size s + length tx" by (rule wadd_exact)
  show ?thesis
  proof (cases "n \<le> current_batch_size s + length tx")
    case True
    then have "b = Some (current_batch s @ [tx])" "s' = s\<lparr>current_batch := [], current_batch_size := 0\<rparr>"
      using assms(2) by (simp_all add: Transaction size seal_def)
    then show ?thesis using s by (simp add: Transaction batch_inv_def good_batch_def)
  next
    case False
    then have "b = None" "s' = s\<lparr>current_batch := current_batch s @ [tx], current_batch_size := current_batch_size s + length tx\<rparr>"
      using assms(2) by (auto simp: Transaction size)
    then show ?thesis using s False by (simp add: Transaction batch_inv_def)
  qed
next
  case BatchTimer
  then show ?thesis
    using assms(1,2) sum_butlast_le [of "current_batch s"]
    by (cases "current_batch s = []") (auto simp: seal_def batch_inv_def good_batch_def)
qed

lemma batch_run_props:
  assumes "batch_inv n s" "batch_run n es s = (s', bs)" "n + sum_list (map length (transactions_in es)) < 2 ^ 64"
  shows "concat bs @ current_batch s' = current_batch s @ transactions_in es" "\<forall>b\<in>set bs. good_batch n b"
proof -
  have "concat bs @ current_batch s' = current_batch s @ transactions_in es \<and> (\<forall>b\<in>set bs. good_batch n b)"
    using assms
  proof (induction es arbitrary: s bs)
    case (Cons e es)
    obtain s1 b bs1 where s1: "batch_step n e s = (s1, b)" "batch_run n es s1 = (s', bs1)"
      "bs = (case b of None \<Rightarrow> bs1 | Some b \<Rightarrow> b # bs1)"
      using Cons.prems(2) by (auto split: prod.splits)
    have tx: "transactions_in (e # es) = transactions_in [e] @ transactions_in es" by (cases e) simp_all
    have bounds: "n + sum_list (map length (transactions_in [e])) < 2 ^ 64" "n + sum_list (map length (transactions_in es)) < 2 ^ 64"
      using Cons.prems(3) by (simp_all add: tx)
    note one = batch_step_props [OF Cons.prems(1) s1(1) bounds(1)]
    have "concat bs1 @ current_batch s' = current_batch s1 @ transactions_in es" "\<forall>b\<in>set bs1. good_batch n b"
      using Cons.IH [OF conjunct1 [OF conjunct2 [OF one]] s1(2) bounds(2)] by simp_all
    then show ?case using one by (cases b) (auto simp: s1(3) tx)
  qed simp
  then show "concat bs @ current_batch s' = current_batch s @ transactions_in es" "\<forall>b\<in>set bs. good_batch n b"
    by simp_all
qed

text \<open>
  C17: No transaction is lost, duplicated or reordered between the clients and the batches: the
  batches a worker seals, one after the other, and the transactions still waiting are exactly the
  transactions it received; no batch is empty, and a batch without its last transaction is smaller than
  the batch size.
\<close>

theorem transactions_batched_once:
  assumes "batch_run n es batch_maker_init = (s, bs)" "n + sum_list (map length (transactions_in es)) < 2 ^ 64"
  shows "concat bs @ current_batch s = transactions_in es
    \<and> (\<forall>b\<in>set bs. b \<noteq> [] \<and> (butlast b \<noteq> [] \<longrightarrow> sum_list (map length (butlast b)) < n))"
  using batch_run_props [OF _ assms] by (simp add: batch_inv_def batch_maker_init_def good_batch_def)

theorem transactions_batched_once_witness:
  "batch_run 5 [Transaction [1, 2, 3], Transaction [4, 5, 6], Transaction [7], BatchTimer, BatchTimer] batch_maker_init
     = (batch_maker_init, [[[1, 2, 3], [4, 5, 6]], [[7]]])
   \<and> concat [[[1, 2, 3], [4, 5, 6]], [[7]]] = transactions_in [Transaction [1, 2, 3], Transaction [4, 5, 6], Transaction [7], BatchTimer, BatchTimer]"
proof -
  let ?es = "[Transaction [1, 2, 3], Transaction [4, 5, 6], Transaction [7], BatchTimer, BatchTimer]"
  have run: "batch_run 5 ?es batch_maker_init = (batch_maker_init, [[[1, 2, 3], [4, 5, 6]], [[7]]])"
    by (simp add: batch_maker_init_def seal_def wadd_def Let_def)
  have "(5 :: nat) + sum_list (map length (transactions_in ?es)) < 2 ^ 64" by simp
  from transactions_batched_once [OF run this] show ?thesis unfolding run by (simp add: batch_maker_init_def)
qed

subsection \<open>Quorum waiter\<close>

text \<open>One message: the acknowledgements in the order in which the handlers complete.\<close>

fun wait_for_quorum :: "committee \<Rightarrow> stake \<Rightarrow> public_key list \<Rightarrow> bool" where
  "wait_for_quorum com reached [] = False"
| "wait_for_quorum com reached (name # names) =
     (let reached' = wadd 32 reached (stake com name)
      in if quorum_threshold com \<le> reached' then True else wait_for_quorum com reached' names)"

lemma wait_for_quorum_weight:
  assumes "config_ok com" "finite A" "A \<inter> set acks = {}" "distinct acks" "wait_for_quorum com (weight com A) acks"
  shows "quorum_threshold com \<le> weight com (A \<union> set acks)"
  using assms(2-5)
proof (induction acks arbitrary: A)
  case (Cons name acks)
  have w: "wadd 32 (weight com A) (stake com name) = weight com (insert name A)"
  proof -
    have "weight com (insert name A) \<le> total_stake com" using Cons.prems(1) by (intro weight_le_total) simp
    then have "weight com (insert name A) < 2 ^ 32" using assms(1) by (simp add: config_ok_def stake_bounded_def)
    then show ?thesis using Cons.prems(1,2) by (simp add: weight_def wadd_exact add.commute)
  qed
  have mono: "weight com (insert name A) \<le> weight com (A \<union> set (name # acks))"
    unfolding weight_def using Cons.prems(1) by (intro sum_mono2) auto
  show ?case
  proof (cases "quorum_threshold com \<le> weight com (insert name A)")
    case True
    then show ?thesis using mono by linarith
  next
    case False
    then have "wait_for_quorum com (weight com (insert name A)) acks" using Cons.prems(4) by (simp add: w Let_def)
    then have "quorum_threshold com \<le> weight com (insert name A \<union> set acks)"
      using Cons.prems by (intro Cons.IH) auto
    then show ?thesis by simp
  qed
qed simp

text \<open>
  A batch that a worker reports to its primary is available: the workers that acknowledged it
  and the worker itself share with every quorum of authorities at least the validity threshold of
  stake, so whoever asks a quorum asks an honest holder.
\<close>

theorem reported_batch_is_available:
  assumes "config_ok com" "wait_for_quorum com (stake com me) acks" "distinct (me # acks)"
    and "finite Q" "quorum_threshold com \<le> weight com Q"
  shows "validity_threshold com \<le> weight com (insert me (set acks) \<inter> Q)"
proof -
  have "weight com {me} = stake com me" by (simp add: weight_def)
  then have "quorum_threshold com \<le> weight com (insert me (set acks))"
    using wait_for_quorum_weight [OF assms(1), of "{me}" acks] assms(2,3) by simp
  then have "total_stake com < 3 * weight com (insert me (set acks) \<inter> Q)"
    using cq.quorums_intersect [OF assms(1), of "insert me (set acks)" Q] assms(4,5) by (simp add: weight_def)
  moreover have "validity_threshold com = (total_stake com + 2) div 3"
    using assms(1) by (simp add: config_ok_def validity_threshold_eq)
  ultimately show ?thesis by linarith
qed

subsection \<open>Processor\<close>

text \<open>\<open>u32\<close> accounts, \<open>u16\<close> counts.\<close>

definition count_transaction :: "bytes \<Rightarrow> (nat, nat) hmap \<Rightarrow> (nat, nat) hmap" where
  "count_transaction tx counts =
     (if 18 \<le> length tx then upsert 0 (be64 tx 10 mod 2 ^ 32) (\<lambda>n. wadd 16 n 1) counts else counts)"

definition batch_account_counts :: "worker_codec \<Rightarrow> bool \<Rightarrow> bytes \<Rightarrow> (nat, nat) hmap" where
  "batch_account_counts K baseline_mode batch =
     (if baseline_mode then []
      else case de_message K batch of Some (Batch txs) \<Rightarrow> fold count_transaction txs [] | _ \<Rightarrow> [])"

definition process_batch ::
    "crypto \<Rightarrow> worker_codec \<Rightarrow> worker_id \<Rightarrow> bool \<Rightarrow> bool \<Rightarrow> bytes \<times> nat \<Rightarrow> store \<Rightarrow> store \<times> worker_primary_message" where
  "process_batch C K wid own_digest baseline_mode = (\<lambda>(batch, queue_delay_ms) st.
     (let d = sha C batch; counts = batch_account_counts K baseline_mode batch
      in (AList.update (bytes32 d) batch st,
          if own_digest then OurBatch d wid counts queue_delay_ms else OthersBatch d wid counts)))"

text \<open>The number of transactions of an account, as the primaries count them.\<close>

definition transactions_of :: "nat \<Rightarrow> bytes list \<Rightarrow> nat" where
  "transactions_of a txs = length (filter (\<lambda>tx. 18 \<le> length tx \<and> be64 tx 10 mod 2 ^ 32 = a) txs)"

lemma fold_count_transaction:
  "get_or 0 (fold count_transaction txs m) a mod 2 ^ 16 = (get_or 0 m a + transactions_of a txs) mod 2 ^ 16"
proof (induction txs arbitrary: m)
  case (Cons tx txs)
  have "(get_or 0 (count_transaction tx m) a + transactions_of a txs) mod 2 ^ 16
      = (get_or 0 m a + transactions_of a (tx # txs)) mod 2 ^ 16"
    by (auto simp: count_transaction_def transactions_of_def al_simps wadd_def mod_simps)
  then show ?case using Cons.IH [of "count_transaction tx m"] by simp
qed (simp add: transactions_of_def)

lemma count_transaction_bounded:
  "\<forall>a. get_or 0 m a < 2 ^ 16 \<Longrightarrow> get_or 0 (fold count_transaction txs m) a < 2 ^ 16"
proof (induction txs arbitrary: m)
  case (Cons tx txs)
  have "\<forall>a. get_or 0 (count_transaction tx m) a < 2 ^ 16"
    using Cons.prems wadd_less [of 16] by (simp add: count_transaction_def al_simps)
  then show ?case using Cons.IH by simp
qed simp

text \<open>
  The account counts that a worker reports are exact for batches of fewer than 65536
  transactions of an account: each count is the number of transactions of the batch with that source
  account (its lower 32 bits), and an account without transactions has none.
\<close>

theorem batch_counts_exact:
  assumes "de_message K batch = Some (Batch txs)" "transactions_of a txs < 2 ^ 16"
  shows "get_or 0 (batch_account_counts K False batch) a = transactions_of a txs"
proof -
  have "get_or 0 (fold count_transaction txs []) a < 2 ^ 16" by (rule count_transaction_bounded) (simp add: get_or_def)
  then show ?thesis
    using fold_count_transaction [of txs "[]" a] assms
    by (simp add: batch_account_counts_def get_or_def)
qed

subsection \<open>The store of a worker\<close>

definition content_addressed :: "crypto \<Rightarrow> store \<Rightarrow> bool" where
  "content_addressed C st \<longleftrightarrow> (\<forall>d data. map_of st (bytes32 d) = Some data \<longrightarrow> sha C data = d)"

lemma process_batch_content:
  assumes "content_addressed C st"
  shows "content_addressed C (fst (process_batch C K wid own bm b st))"
  using assms by (auto simp: content_addressed_def process_batch_def Let_def al_simps bytes32_inject split: prod.splits)

subsection \<open>Helper\<close>

definition helper_batches :: "committee \<Rightarrow> worker_id \<Rightarrow> store \<Rightarrow> digest list \<times> public_key \<Rightarrow> (socket_addr \<times> bytes) list" where
  "helper_batches com wid st = (\<lambda>(digests, origin).
     case worker com origin wid of
       Inl _ \<Rightarrow> []
     | Inr x \<Rightarrow> List.map_filter (\<lambda>d. map_option (\<lambda>data. (worker_to_worker x, data)) (map_of st (bytes32 d))) digests)"

text \<open>What the worker that asked does with the replies.\<close>

definition receive_batches :: "crypto \<Rightarrow> worker_codec \<Rightarrow> worker_id \<Rightarrow> bool \<Rightarrow> bytes list \<Rightarrow> store \<Rightarrow> store" where
  "receive_batches C K wid bm msgs st =
     fold (\<lambda>m st. case receive_worker_message K m of
        ToProcessor b delay \<Rightarrow> fst (process_batch C K wid False bm (b, delay) st) | _ \<Rightarrow> st) msgs st"

lemma receive_batches_lookup:
  assumes "content_addressed C st"
  shows "content_addressed C (receive_batches C K wid bm msgs st)
    \<and> (map_of st (bytes32 d) \<noteq> None \<longrightarrow> map_of (receive_batches C K wid bm msgs st) (bytes32 d) \<noteq> None)
    \<and> ((\<exists>data\<in>set msgs. (\<exists>txs. de_message K data = Some (Batch txs)) \<and> sha C data = d) \<longrightarrow>
        map_of (receive_batches C K wid bm msgs st) (bytes32 d) \<noteq> None)"
  using assms
proof (induction msgs arbitrary: st)
  case (Cons m msgs)
  define st1 where "st1 = (case receive_worker_message K m of
        ToProcessor b delay \<Rightarrow> fst (process_batch C K wid False bm (b, delay) st) | _ \<Rightarrow> st)"
  have run: "receive_batches C K wid bm (m # msgs) st = receive_batches C K wid bm msgs st1"
    by (simp add: receive_batches_def st1_def)
  have "content_addressed C st1"
    using Cons.prems process_batch_content by (simp add: st1_def split: worker_task.split)
  note IH = Cons.IH [OF this]
  have "map_of st (bytes32 d) \<noteq> None \<Longrightarrow> map_of st1 (bytes32 d) \<noteq> None"
    by (auto simp: st1_def process_batch_def Let_def al_simps split: worker_task.split)
  moreover have "map_of st1 (bytes32 d) \<noteq> None" if "de_message K m = Some (Batch txs)" "sha C m = d" for txs
    using that by (simp add: st1_def receive_worker_message_def process_batch_def al_simps)
  ultimately show ?case unfolding run using IH by auto
qed (simp add: receive_batches_def)

text \<open>
  A missing batch can be fetched: a worker that asks another for digests has, after
  processing the helper's replies, under each digest that the helper knew a batch with that digest. The
  keys of both stores are the digests of their values before and after.
\<close>

theorem requested_batches_arrive:
  assumes "content_addressed C st" "content_addressed C st'" "worker com me wid = Inr x"
    and "d \<in> set ds" "map_of st (bytes32 d) = Some data" "de_message K data = Some (Batch txs)"
  shows "\<exists>data'. map_of (receive_batches C K wid bm (map snd (helper_batches com wid st (ds, me))) st') (bytes32 d) = Some data'
    \<and> sha C data' = d"
proof -
  have "data \<in> set (map snd (helper_batches com wid st (ds, me)))"
    using assms(3-5) by (force simp: helper_batches_def List.map_filter_def)
  moreover have "sha C data = d" using assms(1,5) by (simp add: content_addressed_def)
  ultimately show ?thesis
    using receive_batches_lookup [OF assms(2), of K wid bm "map snd (helper_batches com wid st (ds, me))" d] assms(6)
    by (auto simp: content_addressed_def)
qed

subsection \<open>From the batches to the vote\<close>






subsection \<open>Examples\<close>

definition tx_from :: "nat \<Rightarrow> bytes" where
  "tx_from a = replicate 10 0 @ be_bytes 8 a"

lemma tx_from_account: "a < 2 ^ 64 \<Longrightarrow> be64 (tx_from a) 10 = a"
  using be64_append [of "replicate 10 0" 10 a "[]"] by (simp add: tx_from_def)

lemma length_tx_from [simp]: "length (tx_from a) = 18"
  by (simp add: tx_from_def)

definition two_batch_codec :: worker_codec where
  "two_batch_codec = \<lparr>ser_message = (\<lambda>m. []),
     de_message = (\<lambda>b. Some (Batch (if b = [1] then [tx_from 3, tx_from 7, tx_from 3] else [tx_from 5])))\<rparr>"

definition length_crypto :: crypto where
  "length_crypto = example_crypto\<lparr>sha := (\<lambda>bs. word_of_nat (length bs))\<rparr>"


theorem batch_counts_exact_witness:
  "get_or 0 (batch_account_counts two_batch_codec False [1]) 3 = transactions_of 3 [tx_from 3, tx_from 7, tx_from 3]
    \<and> transactions_of 3 [tx_from 3, tx_from 7, tx_from 3] = 2"
proof -
  have "transactions_of 3 [tx_from 3, tx_from 7, tx_from 3] = 2" by (simp add: transactions_of_def tx_from_account)
  then show ?thesis
    using batch_counts_exact [of two_batch_codec "[1]" "[tx_from 3, tx_from 7, tx_from 3]" 3] by (simp add: two_batch_codec_def)
qed

lemma one_batch_store: "content_addressed length_crypto [(bytes32 2, [1, 1])]"
  by (auto simp: content_addressed_def length_crypto_def bytes32_inject split: if_splits)

theorem requested_batches_arrive_witness:
  "\<exists>data'. map_of (receive_batches length_crypto two_batch_codec 0 False
      (map snd (helper_batches committee4 0 [(bytes32 2, [1, 1])] ([2], 1))) []) (bytes32 2) = Some data'
    \<and> sha length_crypto data' = 2"
  using requested_batches_arrive [OF one_batch_store, of "[]" committee4 1 0 _ 2 "[2]" "[1, 1]" two_batch_codec]
  by (simp add: content_addressed_def worker_committee4 two_batch_codec_def)








end
