(* ===== verification/Executor_Tasks.thy ===== *)
theory Executor_Tasks
  imports Batch_Executor Worker_Tasks
begin

text \<open>
  Between the primary and the batch executor: the router (\<^verbatim>\<open>worker/src/router.rs\<close>), the
  receivers of an executor (\<^verbatim>\<open>worker/src/executor.rs\<close>), the state helper
  (\<^verbatim>\<open>worker/src/state_helper.rs\<close>) and the client replier. \<open>None\<close> is a panic
  unless said otherwise; a message is sent to an address.
\<close>

subsection \<open>Router\<close>

datatype router_message =
    ExecuteBatch digest nat "bytes list"
  | SequenceSync nat

definition executor_addresses_of :: "committee \<Rightarrow> public_key \<Rightarrow> (executor_id, socket_addr) hmap" where
  "executor_addresses_of com name =
     (case map_of (authorities com) name of None \<Rightarrow> []
      | Some a \<Rightarrow> map (\<lambda>(e, x). (e, worker_to_executor x)) (a_executors a))"

definition message_for :: "digest \<times> nat \<Rightarrow> bytes list \<Rightarrow> router_message" where
  "message_for = (\<lambda>(d, sequence) txs. if txs = [] then SequenceSync sequence else ExecuteBatch d sequence txs)"

text \<open>One command: what the store answers, at once or when the batch arrives; \<open>None\<close>: the router
  still waits for the batch.\<close>

definition route_command ::
    "worker_codec \<Rightarrow> (executor_id, socket_addr) hmap \<Rightarrow> string + bytes option \<Rightarrow> digest \<times> nat
      \<Rightarrow> (socket_addr \<times> router_message) list option" where
  "route_command K addrs answer cmd =
     (case answer of
        Inl _ \<Rightarrow> Some []
      | Inr None \<Rightarrow> None
      | Inr (Some data) \<Rightarrow>
          Some (case de_message K data of
                  Some (Batch txs) \<Rightarrow> map (\<lambda>(_, addr). (addr, message_for cmd txs)) addrs
                | _ \<Rightarrow> []))"

text \<open>The queue of commands and the messages sent: a step handles the first command, if it can.\<close>

definition router_step ::
    "worker_codec \<Rightarrow> (executor_id, socket_addr) hmap \<Rightarrow> (digest \<Rightarrow> string + bytes option) \<Rightarrow> (digest \<times> nat) list
      \<Rightarrow> ((digest \<times> nat) list \<times> (socket_addr \<times> router_message) list) option" where
  "router_step K addrs read cmds =
     (case cmds of [] \<Rightarrow> None
      | cmd # rest \<Rightarrow> map_option (\<lambda>ms. (rest, ms)) (route_command K addrs (read (fst cmd)) cmd))"

fun router_run ::
    "worker_codec \<Rightarrow> (executor_id, socket_addr) hmap \<Rightarrow> (digest \<Rightarrow> string + bytes option) \<Rightarrow> (digest \<times> nat) list
      \<Rightarrow> (digest \<times> nat) list \<times> (socket_addr \<times> router_message) list" where
  "router_run K addrs read [] = ([], [])"
| "router_run K addrs read (cmd # cmds) =
     (case router_step K addrs read (cmd # cmds) of
        None \<Rightarrow> (cmd # cmds, [])
      | Some (rest, ms) \<Rightarrow> (let (left, out) = router_run K addrs read cmds in (left, ms @ out)))"

subsection \<open>The receivers of an executor\<close>

fun receive_router_message :: "router_message \<Rightarrow> digest \<times> nat \<times> bytes list" where
  "receive_router_message (ExecuteBatch d sequence txs) = (d, sequence, txs)"
| "receive_router_message (SequenceSync sequence) = (0, sequence, [])"

subsection \<open>State helper\<close>

datatype executor_message =
    StateTransferMessage state_transfer
  | StateWriteback tx_id nat account_state bool nat

type_synonym transfers_buffer = "(tx_id, state_transfer list) hmap"

record state_helper =
  accounts_sent_out :: nat
  accounts_received :: nat
  shared_transfers :: transfers_buffer

datatype helper_effect =
    ToExecutor socket_addr executor_message
  | FeedbackToPrimary socket_addr executor_id nat

definition handle_send_state ::
    "committee \<Rightarrow> public_key \<Rightarrow> transfer_request \<Rightarrow> state_helper \<Rightarrow> (state_helper \<times> helper_effect) option" where
  "handle_send_state com name r s =
     (case executor com name (tr_dest r) of
        Inl _ \<Rightarrow> None
      | Inr x \<Rightarrow> Some (s\<lparr>accounts_sent_out := wadd 64 (accounts_sent_out s) 1\<rparr>,
          ToExecutor (executor_to_executor x) (StateTransferMessage (tr_transfer r))))"

fun handle_executor_message :: "executor_message \<Rightarrow> state_helper \<Rightarrow> state_helper option" where
  "handle_executor_message (StateTransferMessage t) s =
     Some (s\<lparr>shared_transfers := upsert [] (st_tx_id t) (\<lambda>ts. ts @ [t]) (shared_transfers s),
             accounts_received := wadd 64 (accounts_received s) 1\<rparr>)"
| "handle_executor_message (StateWriteback tid acc st ok dest) s = None"

definition forward_feedback :: "committee \<Rightarrow> public_key \<Rightarrow> executor_id \<times> nat \<Rightarrow> helper_effect option" where
  "forward_feedback com name = (\<lambda>(eid, last_executed).
     case primary com name of Inl _ \<Rightarrow> None
     | Inr x \<Rightarrow> Some (FeedbackToPrimary (executor_to_primary x) eid last_executed))"

text \<open>The shared buffer after some messages holds them by transaction in the order of arrival;
  the executor takes it whole and appends it.\<close>

lemma handle_executor_messages:
  "shared_transfers (fold (\<lambda>t s. the (handle_executor_message (StateTransferMessage t) s)) ts s)
     = fold add_transfer ts (shared_transfers s)"
  by (induction ts arbitrary: s) (simp_all add: add_transfer_def)

subsection \<open>Client replier\<close>

record client_reply_message =
  cr_primary_name :: public_key
  cr_executor_id :: executor_id
  cr_batch_digest :: digest
  cr_tx_type :: "8 word"
  cr_region_id :: "8 word"
  cr_tx_counter :: nat
  cr_success :: bool
  cr_account_id :: nat
  cr_account_state :: "account_state option"

definition client_reply_for :: "public_key \<Rightarrow> executor_id \<Rightarrow> reply_request \<Rightarrow> socket_addr \<times> client_reply_message" where
  "client_reply_for name eid r = (rq_client r,
     \<lparr>cr_primary_name = name, cr_executor_id = eid, cr_batch_digest = rq_digest r, cr_tx_type = rq_tx_type r,
      cr_region_id = fst (rq_tx_id r), cr_tx_counter = snd (rq_tx_id r), cr_success = rq_success r,
      cr_account_id = rq_account r, cr_account_state = rq_state r\<rparr>)"

end
