(* ===== verification/Executor_Order.thy ===== *)
theory Executor_Order
  imports Batch_Executor
begin

text \<open>
  The executor runs the batches in the order of their sequence numbers, in whatever order they
  arrive: the buffer is a refinement of the sequential execution.
\<close>

named_theorems buffer_free "operations that neither read nor write the buffer"

abbreviation with_buffer :: "(nat, digest \<times> bytes list) hmap \<Rightarrow> executor \<Rightarrow> executor" where
  "with_buffer b \<equiv> x_buffer_update (\<lambda>_. b)"

lemma push_buffer [buffer_free]:
  "account_store_update f1 (with_buffer b s) = with_buffer b (account_store_update f1 s)"
  "schedule_partition_update f2 (with_buffer b s) = with_buffer b (schedule_partition_update f2 s)"
  "pending_queues_update f3 (with_buffer b s) = with_buffer b (pending_queues_update f3 s)"
  "incoming_transfers_update f4 (with_buffer b s) = with_buffer b (incoming_transfers_update f4 s)"
  "drained_transfers_update f5 (with_buffer b s) = with_buffer b (drained_transfers_update f5 s)"
  "scheduled_tx_count_update f6 (with_buffer b s) = with_buffer b (scheduled_tx_count_update f6 s)"
  "executed_tx_count_update f6 (with_buffer b s) = with_buffer b (executed_tx_count_update f6 s)"
  "lock_stats_update f7 (with_buffer b s) = with_buffer b (lock_stats_update f7 s)"
  "replies_out_update f8 (with_buffer b s) = with_buffer b (replies_out_update f8 s)"
  "transfers_out_update f9 (with_buffer b s) = with_buffer b (transfers_out_update f9 s)"
  "next_sequence_update f6 (with_buffer b s) = with_buffer b (next_sequence_update f6 s)"
  "last_feedback_sent_update f6 (with_buffer b s) = with_buffer b (last_feedback_sent_update f6 s)"
  "feedback_out_update f10 (with_buffer b s) = with_buffer b (feedback_out_update f10 s)"
  "with_buffer b (with_buffer c s) = with_buffer b s"
  by simp_all

lemma ready_buffer [buffer_free]: "is_ready_to_execute (with_buffer b s) tid as = is_ready_to_execute s tid as"
  by (simp add: is_ready_to_execute_def)

lemma head_buffer [buffer_free]: "get_executable_queue_head (with_buffer b s) a = get_executable_queue_head s a"
  unfolding get_executable_queue_head_def ready_buffer by simp

lemma execute_single_buffer [buffer_free]:
  "execute_single_local_transaction cfg d raw h (with_buffer b s)
    = map_option (apfst (with_buffer b)) (execute_single_local_transaction cfg d raw h s)"
  by (auto simp: execute_single_local_transaction_def Let_def buffer_free split: option.splits bind_splits)

lemma migrate_out_buffer [buffer_free]:
  "execute_migrate_out tid as dest (with_buffer b s) = map_option (with_buffer b) (execute_migrate_out tid as dest s)"
proof (induction as arbitrary: s)
  case (Cons a as)
  show ?case
  proof (cases "account_store s a")
    case (Some x)
    then show ?thesis
      using Cons.IH [of "s\<lparr>account_store := (account_store s)(a := None),
          transfers_out := transfers_out s @ [\<lparr>tr_transfer = \<lparr>st_tx_id = tid, st_account = a, st_state = x\<rparr>, tr_dest = dest\<rparr>]\<rparr>"]
      by (simp add: buffer_free)
  qed simp
qed simp

lemma enqueue_buffer [buffer_free]:
  "lock_and_enqueue_transaction d raw h req l (with_buffer b s)
    = map_option (with_buffer b) (lock_and_enqueue_transaction d raw h req l s)"
  by (auto simp: lock_and_enqueue_transaction_def bump_def Let_def buffer_free split: option.splits bind_splits locality.splits)

lemma drain_step_buffer [buffer_free]:
  "drain_step cfg a (with_buffer b s) = map_option (map_option (apfst (with_buffer b))) (drain_step cfg a s)"
  unfolding drain_step_def buffer_free
  by (auto simp: buffer_free split: option.splits bind_splits locality.splits)

lemma drain_account_buffer [buffer_free]:
  "drain_account cfg a (with_buffer b s) wl = map_option (apfst (with_buffer b)) (drain_account cfg a s wl)"
proof (induction cfg a s wl rule: drain_account.induct)
  case (1 cfg a s wl)
  show ?case
    unfolding drain_account.simps [of cfg a s wl] drain_account.simps [of cfg a "with_buffer b s" wl] buffer_free
    using "1.IH" by (auto split: option.splits)
qed

lemma drain_loop_buffer [buffer_free]:
  "drain_loop cfg wl (with_buffer b s) = map_option (with_buffer b) (drain_loop cfg wl s)"
proof (induction cfg wl s rule: drain_loop.induct)
  case (1 cfg wl s)
  let ?a = "next_account cfg wl"
  show ?case
  proof (cases "wl = [] \<or> drain_account cfg ?a s (removeAll ?a wl) = None")
    case True
    then show ?thesis
      by (subst (1 2) drain_loop.simps) (auto simp: buffer_free Let_def)
  next
    case False
    then obtain s' wl' where d: "drain_account cfg ?a s (removeAll ?a wl) = Some (s', wl')" by fastforce
    show ?thesis
      using False "1.IH" [OF _ refl d refl] d
      by (subst (1 2) drain_loop.simps) (simp add: buffer_free Let_def)
  qed
qed

lemma drain_pending_buffer [buffer_free]:
  "drain_pending_queues cfg un (with_buffer b s) = map_option (with_buffer b) (drain_pending_queues cfg un s)"
  by (simp add: drain_pending_queues_def buffer_free)

lemma handle_buffer [buffer_free]:
  "handle_transaction_by_locality cfg d raw h req l (with_buffer b s)
    = map_option (with_buffer b) (handle_transaction_by_locality cfg d raw h req l s)"
  by (cases l) (auto simp: handle_local_transaction_def handle_migrate_out_transaction_def buffer_free bump_def
      option.map_comp comp_def apfst_def split: option.splits)

lemma handle_all_buffer [buffer_free]:
  "handle_all cfg d txs (with_buffer b s) = map_option (with_buffer b) (handle_all cfg d txs s)"
proof (induction txs arbitrary: s)
  case (Cons x txs)
  obtain raw h required t l where x: "x = ((raw, h, required, t), l)" by (cases x) auto
  have "bump total_transactions_update (with_buffer b s) = with_buffer b (bump total_transactions_update s)"
    by (simp add: bump_def buffer_free)
  with Cons show ?case
    by (cases "handle_transaction_by_locality cfg d raw h required l (bump total_transactions_update s)")
      (simp_all add: x buffer_free)
qed simp

lemma drain_incoming_buffer [buffer_free]: "drain_incoming (with_buffer b s) = with_buffer b (drain_incoming s)"
  by (simp add: drain_incoming_def buffer_free)

lemma incoming_one_buffer [buffer_free]:
  "incoming_one cfg tid (with_buffer b s) = map_option (apfst (with_buffer b)) (incoming_one cfg tid s)"
  unfolding incoming_one_def
  by (auto simp: buffer_free Let_def split: option.splits list.splits locality.splits bind_splits)

lemma incoming_loop_buffer [buffer_free]:
  "incoming_loop cfg tids (with_buffer b s) = map_option (apfst (with_buffer b)) (incoming_loop cfg tids s)"
proof (induction tids arbitrary: s)
  case (Cons tid tids)
  then show ?case
    by (cases "incoming_one cfg tid s") (auto simp: buffer_free split: bind_splits)
qed simp

lemma process_incoming_buffer [buffer_free]:
  "process_incoming_transfers cfg (with_buffer b s) = map_option (with_buffer b) (process_incoming_transfers cfg s)"
  by (auto simp: process_incoming_transfers_def buffer_free Let_def split: bind_splits)

lemma execute_batch_buffer [buffer_free]:
  "execute_batch cfg arr d raws (with_buffer b s) = map_option (with_buffer b) (execute_batch cfg arr d raws s)"
  by (auto simp: execute_batch_def buffer_free split: bind_splits)

lemma execute_next_buffer [buffer_free]:
  "execute_next cfg arr x (with_buffer b s) = map_option (with_buffer b) (execute_next cfg arr x s)"
  by (auto simp: execute_next_def send_feedback_if_needed_def buffer_free option.map_comp comp_def Let_def
      intro!: option.map_cong)

subsection \<open>The sequence number\<close>

text \<open>Only the end of a batch changes the sequence number and the feedback.\<close>

definition same_clock :: "executor \<Rightarrow> executor \<Rightarrow> bool" where
  "same_clock s s' \<longleftrightarrow> next_sequence s' = next_sequence s \<and> last_feedback_sent s' = last_feedback_sent s
     \<and> feedback_out s' = feedback_out s"

lemma same_clock_refl [simp]: "same_clock s s"
  by (simp add: same_clock_def)

lemma same_clock_trans: "same_clock s s1 \<Longrightarrow> same_clock s1 s2 \<Longrightarrow> same_clock s s2"
  by (simp add: same_clock_def)

lemma enqueue_clock: "lock_and_enqueue_transaction d raw h req l s = Some s' \<Longrightarrow> same_clock s s'"
  by (auto simp: lock_and_enqueue_transaction_def bump_def same_clock_def Let_def split: bind_splits)

lemma handle_clock: "handle_transaction_by_locality cfg d raw h req l s = Some s' \<Longrightarrow> same_clock s s'"
  by (cases l) (auto simp: handle_local_transaction_def handle_migrate_out_transaction_def bump_def same_clock_def
      dest: enqueue_clock execute_single_frame execute_migrate_out_frame split: if_splits option.splits)

lemma handle_all_clock: "handle_all cfg d txs s = Some s' \<Longrightarrow> same_clock s s'"
proof (induction txs arbitrary: s)
  case (Cons x txs)
  obtain raw h required t l where x: "x = ((raw, h, required, t), l)" by (cases x) auto
  obtain s1 where "handle_transaction_by_locality cfg d raw h required l (bump total_transactions_update s) = Some s1"
    "handle_all cfg d txs s1 = Some s'" using Cons.prems by (auto simp: x bind_eq_Some_conv)
  then show ?case using Cons.IH handle_clock by (fastforce simp: same_clock_def bump_def)
qed simp

lemma drain_step_clock: "drain_step cfg a s = Some (Some (s', un)) \<Longrightarrow> same_clock s s'"
  by (erule drain_step_cases) (auto simp: same_clock_def dest: execute_single_frame execute_migrate_out_frame)

lemma drain_loop_clock: "drain_loop cfg wl s = Some s' \<Longrightarrow> same_clock s s'"
  by (erule drain_loop_keeps [where P = "same_clock s"])
    (auto dest: drain_step_clock intro: same_clock_trans simp: same_clock_def)

lemma incoming_one_clock: "incoming_one cfg tid s = Some (s', un) \<Longrightarrow> same_clock s s'"
  by (erule incoming_one_cases) (auto simp: same_clock_def dest: execute_single_frame)

lemma incoming_loop_clock: "incoming_loop cfg tids s = Some (s', un) \<Longrightarrow> same_clock s s'"
proof (induction tids arbitrary: s un)
  case (Cons tid tids)
  obtain s1 un1 un2 where "incoming_one cfg tid s = Some (s1, un1)" "incoming_loop cfg tids s1 = Some (s', un2)"
    using Cons.prems by (auto simp: bind_eq_Some_conv)
  then show ?case using Cons.IH incoming_one_clock same_clock_trans by blast
qed simp

lemma execute_batch_clock: "execute_batch cfg arr d raws s = Some s' \<Longrightarrow> same_clock s s'"
proof -
  assume "execute_batch cfg arr d raws s = Some s'"
  then obtain txs ls part s1 s2 where h: "handle_all cfg d (zip txs ls)
       (s\<lparr>schedule_partition := part, scheduled_tx_count := scheduled_tx_count s + length txs\<rparr>) = Some s1"
    and p: "process_incoming_transfers cfg (s1\<lparr>incoming_transfers := fold add_transfer arr (incoming_transfers s1)\<rparr>) = Some s2"
    and s': "s' = s2\<lparr>lock_stats := update_queue_depths (pending_queues s2) (lock_stats s2)\<rparr>"
    by (auto simp: execute_batch_def bind_eq_Some_conv)
  let ?s = "drain_incoming (s1\<lparr>incoming_transfers := fold add_transfer arr (incoming_transfers s1)\<rparr>)"
  obtain s3 un where l: "incoming_loop cfg (arranged cfg (keys (drained_transfers ?s))) ?s = Some (s3, un)"
    and "s2 = s3 \<or> drain_pending_queues cfg un s3 = Some s2"
    using p by (auto simp: process_incoming_transfers_def Let_def bind_eq_Some_conv split: if_splits)
  then have "same_clock s3 s2" using drain_loop_clock by (auto simp: drain_pending_queues_def)
  with incoming_loop_clock [OF l] handle_all_clock [OF h] show ?thesis
    by (simp add: same_clock_def s' drain_incoming_def)
qed

lemma execute_next_clock:
  assumes "execute_next cfg arr x s = Some s'"
  shows "next_sequence s' = wadd 64 (next_sequence s) 1"
  using assms execute_batch_clock
  by (auto simp: execute_next_def send_feedback_if_needed_def same_clock_def Let_def)

lemma execute_next_keeps_buffer:
  assumes "execute_next cfg arr x s = Some s'"
  shows "x_buffer s' = x_buffer s"
proof -
  have "map_option (with_buffer (x_buffer s)) (Some s') = Some s'"
    using execute_next_buffer [of cfg arr x "x_buffer s" s] assms by simp
  then show ?thesis by (metis executor.select_convs(3) executor.surjective executor.update_convs(3) option.inject option.simps(9))
qed

subsection \<open>Batches in any order\<close>

text \<open>
  \<open>f n\<close> is the batch of sequence number \<open>n\<close>; the executor waits for \<open>n\<close>, the numbers below
  \<open>N\<close> are buffered or still to come.
\<close>

definition buffered :: "(nat \<Rightarrow> digest \<times> bytes list) \<Rightarrow> (nat, digest \<times> bytes list) hmap \<Rightarrow> bool" where
  "buffered f buf \<longleftrightarrow> distinct (map fst buf) \<and> (\<forall>(q, b)\<in>set buf. b = f q)"

definition batch_msg :: "(nat \<Rightarrow> digest \<times> bytes list) \<Rightarrow> nat \<Rightarrow> digest \<times> nat \<times> bytes list" where
  "batch_msg f q = (fst (f q), q, snd (f q))"

lemma buffered_lookup: "buffered f buf \<Longrightarrow> map_of buf q = (if q \<in> fst ` set buf then Some (f q) else None)"
  by (force simp: buffered_def map_of_eq_None_iff)

lemma buffered_delete: "buffered f buf \<Longrightarrow> buffered f (AList.delete q buf)"
  by (auto simp: buffered_def distinct_delete set_delete)

lemma buffered_update: "buffered f buf \<Longrightarrow> buffered f (AList.update q (f q) buf)"
  using set_update_subset [of q "f q" buf] by (auto simp: buffered_def distinct_update)

lemma keys_step:
  assumes "K \<union> Q = {n..<N}" "K \<inter> Q = {}" "n \<in> K"
  shows "(K - {n}) \<union> Q = {Suc n..<N}" "(K - {n}) \<inter> Q = {}"
proof -
  have "(K - {n}) \<union> Q = {n..<N} - {n}" using assms by auto
  also have "\<dots> = {Suc n..<N}" by auto
  finally show "(K - {n}) \<union> Q = {Suc n..<N}" .
  show "(K - {n}) \<inter> Q = {}" using assms(2) by auto
qed

text \<open>After a batch: the buffered ones, and then whatever comes.\<close>

lemma execute_buffered_in_order:
  assumes "buffered f buf" "fst ` set buf \<union> Q = {n..<N}" "fst ` set buf \<inter> Q = {}" "N < 2 ^ 64" "n \<le> N"
    and "next_sequence s = n" "x_buffer s = buf" "m \<le> n" "fst ` set buf \<subseteq> B"
    and rest: "\<And>buf n s. m \<le> n \<Longrightarrow> fst ` set buf \<subseteq> B \<Longrightarrow> buffered f buf \<Longrightarrow> fst ` set buf \<union> Q = {n..<N} \<Longrightarrow> fst ` set buf \<inter> Q = {} \<Longrightarrow>
      n \<notin> fst ` set buf \<Longrightarrow> n \<le> N \<Longrightarrow> next_sequence s = n \<Longrightarrow> x_buffer s = buf \<Longrightarrow>
      g s = execute_in_order cfg arr (map f [n..<N]) (with_buffer [] s)"
  shows "Option.bind (execute_buffered cfg arr buf s) g = execute_in_order cfg arr (map f [n..<N]) (with_buffer [] s)"
  using assms(1-3,5-9)
proof (induction "length buf" arbitrary: buf n s rule: less_induct)
  case less
  show ?case
  proof (cases "n \<in> fst ` set buf")
    case False
    then have "execute_buffered cfg arr buf s = Some (with_buffer buf s)"
      using less.prems by (subst execute_buffered.simps) (simp add: buffered_lookup)
    moreover have "with_buffer buf s = s" using less.prems(6) by simp
    ultimately show ?thesis using rest [OF less.prems(7,8,1-3) False less.prems(4-6)] by simp
  next
    case True
    let ?buf = "AList.delete n buf"
    have n: "map_of buf n = Some (f n)" using True less.prems(1) by (simp add: buffered_lookup)
    have "n < N" using True less.prems(2) by auto
    then have upt: "map f [n..<N] = f n # map f [Suc n..<N]" by (simp add: upt_conv_Cons)
    have eq: "execute_buffered cfg arr buf s
        = Option.bind (execute_next cfg arr (f n) (with_buffer ?buf s)) (execute_buffered cfg arr ?buf)"
      using n less.prems(5) by (subst execute_buffered.simps) (auto simp: Let_def split: option.splits)
    show ?thesis
    proof (cases "execute_next cfg arr (f n) s")
      case None
      then show ?thesis by (simp add: eq upt buffer_free)
    next
      case (Some s1)
      have keys: "fst ` set ?buf = fst ` set buf - {n}" by (force simp: set_delete)
      have inv: "fst ` set ?buf \<union> Q = {Suc n..<N}" "fst ` set ?buf \<inter> Q = {}"
        unfolding keys by (rule keys_step [OF less.prems(2,3) True])+
      have "next_sequence s1 = Suc n"
        using execute_next_clock [OF Some] less.prems(5) \<open>n < N\<close> assms(4) by (simp add: wadd_def)
      moreover have "fst ` set ?buf \<subseteq> B" using keys less.prems(8) by blast
      ultimately have "Option.bind (execute_buffered cfg arr ?buf (with_buffer ?buf s1)) g
          = execute_in_order cfg arr (map f [Suc n..<N]) (with_buffer [] (with_buffer ?buf s1))"
        using length_delete_less [OF n] buffered_delete [OF less.prems(1)] inv \<open>n < N\<close> less.prems(7)
        by (intro less.hyps) simp_all
      then show ?thesis by (simp add: eq upt Some buffer_free)
    qed
  qed
qed

lemma executor_run_in_order:
  assumes "buffered f buf" "fst ` set buf \<union> set qs = {n..<N}" "fst ` set buf \<inter> set qs = {}" "distinct qs"
    and "n \<notin> fst ` set buf" "N < 2 ^ 64" "\<forall>b\<in>fst ` set buf. \<forall>q\<in>set qs. b \<le> q + 5000" "m \<le> n" "n \<le> N" "next_sequence s = n" "x_buffer s = buf"
    and "\<forall>q\<in>{m..<N}. f q \<noteq> (0, [])" "sorted_wrt (\<lambda>q p. q \<le> p + 5000) qs"
  shows "executor_run cfg arr (map (batch_msg f) qs) s = execute_in_order cfg arr (map f [n..<N]) (with_buffer [] s)"
  using assms(1-5,7-11,13)
proof (induction qs arbitrary: buf n s)
  case Nil
  then have "n = N" by (metis atLeastLessThan_iff le_neq_implies_less empty_set order_refl sup_bot_right)
  then have "buf = []" using Nil.prems(2) by simp
  then show ?case using Nil.prems(10) \<open>n = N\<close> by simp
next
  case (Cons q qs)
  have qN: "n \<le> q" "q < N" using Cons.prems(2) by auto
  show ?case
  proof (cases "q = n")
    case True
    then have upt: "map f [n..<N] = f n # map f [Suc n..<N]" using qN by (simp add: upt_conv_Cons)
    have step: "process_execute cfg arr (batch_msg f q) s
        = Option.bind (execute_next cfg arr (f n) s) (\<lambda>s'. execute_buffered cfg arr (x_buffer s') s')"
      using True Cons.prems(9) by (simp add: process_execute_def batch_msg_def)
    show ?thesis
    proof (cases "execute_next cfg arr (f n) s")
      case None
      then show ?thesis by (simp add: step upt buffer_free)
    next
      case (Some s1)
      have buf1: "x_buffer s1 = buf" using execute_next_keeps_buffer [OF Some] Cons.prems(10) by simp
      have "next_sequence s1 = Suc n"
        using execute_next_clock [OF Some] Cons.prems(9) qN assms(6) by (simp add: wadd_def)
      moreover have "fst ` set buf \<union> set qs = {Suc n..<N}" "fst ` set buf \<inter> set qs = {}"
      proof -
        have "set (q # qs) - {n} = set qs" using Cons.prems(4) True by auto
        moreover have "set (q # qs) \<union> fst ` set buf = {n..<N}" "set (q # qs) \<inter> fst ` set buf = {}"
          using Cons.prems(2,3) by auto
        ultimately show "fst ` set buf \<union> set qs = {Suc n..<N}" "fst ` set buf \<inter> set qs = {}"
          using keys_step [of "set (q # qs)" "fst ` set buf" n N] True by (simp_all add: Un_commute Int_commute)
      qed
      moreover have "executor_run cfg arr (map (batch_msg f) qs) s' = execute_in_order cfg arr (map f [n'..<N]) (with_buffer [] s')"
        if "m \<le> n'" "fst ` set b \<subseteq> fst ` set buf" "buffered f b" "fst ` set b \<union> set qs = {n'..<N}" "fst ` set b \<inter> set qs = {}"
          "n' \<notin> fst ` set b" "n' \<le> N" "next_sequence s' = n'" "x_buffer s' = b" for b n' s'
        using Cons.IH [OF that(3-5) _ that(6) _ that(1,7-9)] that(2) Cons.prems(4,6,11) by force
      ultimately have "Option.bind (execute_buffered cfg arr buf s1) (executor_run cfg arr (map (batch_msg f) qs))
          = execute_in_order cfg arr (map f [Suc n..<N]) (with_buffer [] s1)"
        using Cons.prems(1,7) qN assms(6) buf1
        by (intro execute_buffered_in_order [where Q = "set qs" and m = m and B = "fst ` set buf"]) simp_all
      then show ?thesis by (simp add: step upt Some buffer_free buf1)
    qed
  next
    case False
    have fresh: "q \<notin> fst ` set buf" using Cons.prems(3) by auto
    have "n \<in> {n..<N}" using qN by simp
    then have "n \<in> set qs" using Cons.prems(2,5) False by auto
    then have "b \<le> n + 5000" if "b \<in> fst ` set buf \<or> b = q" for b using Cons.prems(6,11) that by auto
    moreover have "n \<le> b" if "b \<in> fst ` set buf" for b
      using subsetD [OF equalityD1 [OF Cons.prems(2)], of b] that by simp
    ultimately have sub: "fst ` set buf \<subseteq> {n..n + 5000} - {n, q}" "q \<in> {n..n + 5000}"
      using Cons.prems(5) fresh qN(1) by (simp_all add: subset_iff) metis+
    have "card (fst ` set buf) \<le> card ({n..n + 5000} - {n, q})" using sub(1) by (rule card_mono [rotated]) simp
    also have "\<dots> = 4999" using False sub(2) by (subst card_Diff_subset) auto
    finally have len: "length buf < 5000" using Cons.prems(1) distinct_card [of "map fst buf"] by (simp add: buffered_def)
    have "f q \<noteq> (0, [])" using assms(12) qN Cons.prems(7) by simp
    then have nf: "\<not> (snd (f q) = [] \<and> fst (f q) = 0)" by (cases "f q") auto
    have step: "process_execute cfg arr (batch_msg f q) s = Some (with_buffer (AList.update q (f q) buf) s)"
      using False qN Cons.prems(9,10) nf len by (auto simp: process_execute_def batch_msg_def)
    have keys: "fst ` set (AList.update q (f q) buf) = insert q (fst ` set buf)" by (simp add: dom_update)
    have "executor_run cfg arr (map (batch_msg f) qs) (with_buffer (AList.update q (f q) buf) s)
        = execute_in_order cfg arr (map f [n..<N]) (with_buffer [] (with_buffer (AList.update q (f q) buf) s))"
      using Cons.prems False by (intro Cons.IH [where buf = "AList.update q (f q) buf"])
        (auto simp: buffered_update keys)
    then show ?thesis by (simp add: step)
  qed
qed

text \<open>
  The executor runs the committed batches in the order of their sequence numbers, in whatever
  order they arrive as long as no batch is overtaken by one that is more than 5000 behind it, the bound of the
  buffer: for consecutive batches, none of them a sync marker, its state and all messages it sends
  are those of executing them one after the other, and it panics exactly when that does.
\<close>

definition within_buffer :: "(digest \<times> nat \<times> bytes list) list \<Rightarrow> bool" where
  "within_buffer msgs = sorted_wrt (\<lambda>q p. q \<le> p + 5000) (map (\<lambda>(d, n, raws). n) msgs)"

lemma executor_runs_in_sequence:
  assumes "x_buffer s = []" "within_buffer msgs" "next_sequence s + length bs < 2 ^ 64" "(0, []) \<notin> set bs"
    and "mset msgs = mset (map (\<lambda>i. (fst (bs ! i), next_sequence s + i, snd (bs ! i))) [0..<length bs])"
  shows "executor_run cfg arr msgs s = execute_in_order cfg arr bs s"
proof -
  let ?n = "next_sequence s" and ?N = "next_sequence s + length bs"
  define f where "f q = bs ! (q - ?n)" for q
  define qs where "qs = map (\<lambda>(d, q, raws). q) msgs"
  have "map (\<lambda>i. (fst (bs ! i), ?n + i, snd (bs ! i))) [0..<length bs] = map (batch_msg f) [?n..<?N]"
    by (rule nth_equalityI) (simp_all add: f_def batch_msg_def)
  then have ms: "mset msgs = image_mset (batch_msg f) (mset [?n..<?N])" using assms(5) by simp
  then have "set msgs = batch_msg f ` {?n..<?N}" by (metis mset_map mset_upt set_image_mset set_mset_mset set_upt)
  then have "map (batch_msg f) qs = msgs" unfolding qs_def map_map by (intro map_idI) (auto simp: batch_msg_def)
  moreover have "mset qs = mset [?n..<?N]"
  proof -
    have "mset qs = image_mset (\<lambda>(d, q, raws). q) (mset msgs)" by (simp add: qs_def)
    also have "\<dots> = image_mset id (mset [?n..<?N])"
      unfolding ms by (simp add: multiset.map_comp comp_def batch_msg_def)
    finally show ?thesis by simp
  qed
  then have "set qs = {?n..<?N}" "distinct qs"
    by (metis set_mset_mset set_upt, metis distinct_upt mset_eq_imp_distinct_iff)
  moreover have "f q \<noteq> (0, [])" if "q \<in> {?n..<?N}" for q
  proof -
    have "bs ! (q - ?n) \<in> set bs" using that by (intro nth_mem) auto
    then show ?thesis using assms(4) unfolding f_def by metis
  qed
  moreover have "map f [?n..<?N] = bs" by (rule nth_equalityI) (simp_all add: f_def)
  moreover have e: "with_buffer [] s = s" using assms(1) by simp
  ultimately show ?thesis
    using executor_run_in_order [of f "[]" qs ?n ?N ?n s cfg arr] assms(1-3)
    by (simp add: buffered_def e within_buffer_def qs_def)
qed

lemma few_within_buffer:
  assumes "length bs \<le> 5000"
    and "mset msgs = mset (map (\<lambda>i. (fst (bs ! i), n + i, snd (bs ! i))) [0..<length bs])"
  shows "within_buffer msgs"
proof -
  have "n \<le> q \<and> q < n + 5000" if "(d, q, raws) \<in> set msgs" for d q raws using that mset_eq_setD [OF assms(2)] assms(1) by auto
  then have "q \<le> p + 5000" if "(d, q, raws) \<in> set msgs" "(d', p, raws') \<in> set msgs" for d q raws d' p raws'
    using that by (meson add_le_mono1 less_imp_le order_trans)
  then show ?thesis by (auto simp: within_buffer_def sorted_wrt_map intro!: sorted_wrt_mono_rel [OF _ sorted_wrt_true])
qed

end
