(* ===== verification/Executor_Routing.thy ===== *)
theory Executor_Routing
  imports Batch_Executor
begin

text \<open>
  Every executor computes the schedule of every batch for itself: the schedules agree, whatever
  order the hash maps are iterated in; the transfers that one executor waits for are those that the
  others send; and the new scheduler bounds the load of every executor.
\<close>

subsection \<open>Agreement on the partition\<close>

definition move_all :: "nat list \<Rightarrow> nat \<Rightarrow> (nat \<Rightarrow> nat option) \<Rightarrow> (nat \<Rightarrow> nat option)" where
  "move_all required target part = (\<lambda>a. if a \<in> set required then Some target else part a)"

lemma fold_move: "fold (\<lambda>a p. p(a \<mapsto> t)) as part = move_all as t part"
  by (induction as arbitrary: part) (auto simp: move_all_def fun_eq_iff)

lemma fold_move_fst: "fold (\<lambda>(a, _) p. p(a \<mapsto> t)) as part = move_all (map fst as) t part"
  by (induction as arbitrary: part) (auto simp: move_all_def fun_eq_iff)

lemma update_determined:
  assumes "determine_locality me part required target = Some l"
  shows "update_partition_for_locality me l required part = move_all required target part"
  using assms
  by (auto simp: determine_locality_def Let_def fold_move fold_move_fst move_all_def fun_eq_iff comp_def
      filter_empty_conv split: if_splits)

lemma determine_defined: "determine_locality me part required target = None \<longleftrightarrow> (\<exists>a\<in>set required. part a = None)"
  by (simp add: determine_locality_def)

fun route :: "parsed_tx list \<Rightarrow> (nat \<Rightarrow> nat option) \<Rightarrow> (nat \<Rightarrow> nat option)" where
  "route [] part = part"
| "route ((_, _, required, target) # txs) part = route txs (move_all required target part)"

lemma decide_partition:
  "decide_localities me txs part = Some (ls, part') \<Longrightarrow> part' = route txs part \<and> length ls = length txs"
proof (induction txs arbitrary: part ls)
  case (Cons x txs)
  obtain raw h required target where x: "x = (raw, h, required, target)" by (cases x)
  obtain l ls' where l: "determine_locality me part required target = Some l" "ls = l # ls'"
    "decide_localities me txs (update_partition_for_locality me l required part) = Some (ls', part')"
    using Cons.prems by (auto simp: x bind_eq_Some_conv)
  then show ?case using Cons.IH update_determined [OF l(1)] by (simp add: x)
qed simp

text \<open>The partition after a batch does not depend on the executor.\<close>

definition batch_partition :: "executor_config \<Rightarrow> bytes list \<Rightarrow> (nat \<Rightarrow> nat option) \<Rightarrow> (nat \<Rightarrow> nat option)" where
  "batch_partition cfg raws part =
     (case parse_and_schedule cfg part raws of None \<Rightarrow> part | Some txs \<Rightarrow> route txs part)"

lemma drain_step_partition: "drain_step cfg a s = Some (Some (s', un)) \<Longrightarrow> schedule_partition s' = schedule_partition s"
  by (erule drain_step_cases) (auto dest: execute_single_frame execute_migrate_out_frame)

lemma drain_loop_partition: "drain_loop cfg wl s = Some s' \<Longrightarrow> schedule_partition s' = schedule_partition s"
  by (erule drain_loop_keeps [where P = "\<lambda>s'. schedule_partition s' = schedule_partition s"])
    (auto dest: drain_step_partition)

lemma handle_all_partition: "handle_all cfg d txs s = Some s' \<Longrightarrow> schedule_partition s' = schedule_partition s"
proof (induction txs arbitrary: s)
  case (Cons x txs)
  obtain raw h required t l where x: "x = ((raw, h, required, t), l)" by (cases x) auto
  obtain s1 where h: "handle_transaction_by_locality cfg d raw h required l (bump total_transactions_update s) = Some s1"
    "handle_all cfg d txs s1 = Some s'" using Cons.prems by (auto simp: x bind_eq_Some_conv)
  have "schedule_partition s1 = schedule_partition s"
    using h(1) by (cases l) (auto simp: handle_local_transaction_def handle_migrate_out_transaction_def
        lock_and_enqueue_transaction_def bump_def Let_def bind_eq_Some_conv
        dest: execute_single_frame execute_migrate_out_frame split: if_splits option.splits)
  then show ?case using Cons.IH [OF h(2)] by simp
qed simp

lemma incoming_loop_partition: "incoming_loop cfg tids s = Some (s', un) \<Longrightarrow> schedule_partition s' = schedule_partition s"
proof (induction tids arbitrary: s un)
  case (Cons tid tids)
  obtain s1 un1 un2 where s1: "incoming_one cfg tid s = Some (s1, un1)" "incoming_loop cfg tids s1 = Some (s', un2)"
    using Cons.prems by (auto simp: bind_eq_Some_conv)
  have "schedule_partition s1 = schedule_partition s"
    using s1(1) by (cases rule: incoming_one_cases) (auto dest: execute_single_frame)
  then show ?case using Cons.IH [OF s1(2)] by simp
qed simp

lemma execute_batch_partition:
  assumes "execute_batch cfg arr d raws s = Some s'"
  shows "schedule_partition s' = batch_partition cfg raws (schedule_partition s)"
proof -
  obtain txs ls part s1 s2 where txs: "parse_and_schedule cfg (schedule_partition s) raws = Some txs"
    and part: "decide_localities (ec_executor_id cfg) txs (schedule_partition s) = Some (ls, part)"
    and h: "handle_all cfg d (zip txs ls)
       (s\<lparr>schedule_partition := part, scheduled_tx_count := scheduled_tx_count s + length txs\<rparr>) = Some s1"
    and p: "process_incoming_transfers cfg (s1\<lparr>incoming_transfers := fold add_transfer arr (incoming_transfers s1)\<rparr>) = Some s2"
    and s': "s' = s2\<lparr>lock_stats := update_queue_depths (pending_queues s2) (lock_stats s2)\<rparr>"
    using assms by (auto simp: execute_batch_def bind_eq_Some_conv)
  let ?s = "drain_incoming (s1\<lparr>incoming_transfers := fold add_transfer arr (incoming_transfers s1)\<rparr>)"
  obtain s3 un where l: "incoming_loop cfg (arranged cfg (keys (drained_transfers ?s))) ?s = Some (s3, un)"
    and "s2 = s3 \<or> drain_pending_queues cfg un s3 = Some s2"
    using p by (auto simp: process_incoming_transfers_def Let_def bind_eq_Some_conv split: if_splits)
  then have "schedule_partition s2 = schedule_partition s3"
    using drain_loop_partition by (auto simp: drain_pending_queues_def)
  with incoming_loop_partition [OF l] handle_all_partition [OF h] decide_partition [OF part] show ?thesis
    by (simp add: s' drain_incoming_def batch_partition_def txs)
qed

lemma execute_next_partition:
  "execute_next cfg arr b s = Some s' \<Longrightarrow> schedule_partition s' = batch_partition cfg (snd b) (schedule_partition s)"
  using execute_batch_partition by (auto simp: execute_next_def send_feedback_if_needed_def Let_def)

lemma execute_in_order_partition:
  "execute_in_order cfg arr bs s = Some s'
    \<Longrightarrow> schedule_partition s' = fold (\<lambda>b. batch_partition cfg (snd b)) bs (schedule_partition s)"
proof (induction bs arbitrary: s)
  case (Cons b bs)
  obtain s1 where "execute_next cfg arr b s = Some s1" "execute_in_order cfg arr bs s1 = Some s'"
    using Cons.prems by (auto simp: bind_eq_Some_conv)
  then show ?case using Cons.IH execute_next_partition by fastforce
qed simp

text \<open>
  C36: The executors agree on where every account is. Two executors that start from the same
  partition and run the same batches, with the same scheduler and the same number of executors,
  have the same partition afterwards, whatever accounts they hold, whatever transfers
  have arrived and whatever order they iterate their hash sets in.
\<close>

theorem executors_agree_on_partition:
  assumes "execute_in_order cfg arr bs s = Some s'" "execute_in_order cfg' arr' bs t = Some t'"
    and "ec_new_scheduler cfg = ec_new_scheduler cfg'" "ec_num_executors cfg = ec_num_executors cfg'"
    and "schedule_partition s = schedule_partition t"
  shows "schedule_partition s' = schedule_partition t'"
proof -
  have "batch_partition cfg = batch_partition cfg'"
    using assms(3,4) by (simp add: fun_eq_iff batch_partition_def parse_and_schedule_def)
  then show ?thesis
    using execute_in_order_partition [OF assms(1)] execute_in_order_partition [OF assms(2)] assms(5) by simp
qed

subsection \<open>Transfers that are sent and transfers that are awaited\<close>

lemma determine_match:
  assumes "determine_locality t part required target = Some l" "determine_locality e part required target = Some m" "e \<noteq> t"
  shows "(\<exists>accs. l = MigrateIn accs \<and> (a, e) \<in> set accs)
    \<longleftrightarrow> target = t \<and> (\<exists>owned others. m = MigrateOut owned others t \<and> a \<in> set owned)"
  using assms
  by (auto simp: determine_locality_def Let_def filter_empty_conv image_iff split: if_splits)

lemma decide_nth:
  assumes "decide_localities me txs part = Some (ls, part')" "i < length txs" "txs ! i = (raw, h, required, target)"
  shows "determine_locality me (route (take i txs) part) required target = Some (ls ! i)"
  using assms
proof (induction txs arbitrary: part ls i)
  case (Cons x txs)
  obtain raw' h' required' target' where x: "x = (raw', h', required', target')" by (cases x)
  obtain l ls' where l: "determine_locality me part required' target' = Some l" "ls = l # ls'"
    "decide_localities me txs (update_partition_for_locality me l required' part) = Some (ls', part')"
    using Cons.prems(1) by (auto simp: x bind_eq_Some_conv)
  show ?case
  proof (cases i)
    case 0
    then show ?thesis using l Cons.prems(3) x by simp
  next
    case (Suc j)
    then show ?thesis
      using Cons.IH [OF l(3), of j] Cons.prems(2,3) update_determined [OF l(1)] l(2) x by simp
  qed
qed simp

text \<open>
  C37: What one executor waits for is what the others send. For every transaction of a batch, the
  executor \<open>t\<close> waits for an account from the executor \<open>e\<close> exactly when \<open>e\<close> decides, by its own
  computation, to send that account to \<open>t\<close> for that transaction.
\<close>

theorem migrations_match:
  assumes "decide_localities t txs part = Some (ls, p1)" "decide_localities e txs part = Some (ms, p2)"
    and "i < length txs" "e \<noteq> t"
  shows "(\<exists>accs. ls ! i = MigrateIn accs \<and> (a, e) \<in> set accs)
    \<longleftrightarrow> snd (snd (snd (txs ! i))) = t \<and> (\<exists>owned others. ms ! i = MigrateOut owned others t \<and> a \<in> set owned)"
proof -
  obtain raw h required target where x: "txs ! i = (raw, h, required, target)" by (cases "txs ! i")
  show ?thesis
    using determine_match [OF decide_nth [OF assms(1,3) x] decide_nth [OF assms(2,3) x] assms(4)] by (simp add: x)
qed

subsection \<open>The choice of the new scheduler\<close>

definition better :: "nat list \<Rightarrow> nat \<times> nat \<Rightarrow> nat \<times> nat \<Rightarrow> bool" where
  "better loads x y \<longleftrightarrow> fst y < fst x \<or> (fst x = fst y \<and> loads ! snd x < loads ! snd y)
     \<or> (fst x = fst y \<and> loads ! snd x = loads ! snd y \<and> snd x < snd y)"

lemma better_trans: "better loads x y \<Longrightarrow> better loads y z \<Longrightarrow> better loads x z"
  by (auto simp: better_def)

lemma better_asym: "better loads x y \<Longrightarrow> \<not> better loads y x"
  by (auto simp: better_def)

lemma better_total: "x = y \<or> better loads x y \<or> better loads y x"
  by (cases x; cases y) (auto simp: better_def)

definition candidates :: "nat \<Rightarrow> nat list \<Rightarrow> (nat \<times> nat) list \<Rightarrow> (nat \<times> nat) set" where
  "candidates m loads vs = {(score, eid). (eid, score) \<in> set vs \<and> loads ! eid < m}"

definition is_best :: "nat list \<Rightarrow> (nat \<times> nat) set \<Rightarrow> (nat \<times> nat) option \<Rightarrow> bool" where
  "is_best loads C r \<longleftrightarrow> (case r of None \<Rightarrow> C = {} | Some x \<Rightarrow> x \<in> C \<and> (\<forall>y\<in>C. y = x \<or> better loads x y))"

lemma is_best_unique: "is_best loads C r \<Longrightarrow> is_best loads C r' \<Longrightarrow> r = r'"
  using better_asym by (fastforce simp: is_best_def split: option.splits)

lemma is_best_insert:
  assumes "is_best loads C r"
  shows "is_best loads (insert x C) (if r = None \<or> better loads x (the r) then Some x else r)"
proof (cases r)
  case (Some z)
  then show ?thesis
    using assms better_trans [of loads x z] better_total [of x z loads] by (auto simp: is_best_def)
qed (use assms in \<open>simp add: is_best_def\<close>)

lemma scan_votes_best:
  assumes "is_best loads C best"
  shows "is_best loads (candidates m loads vs \<union> C) (scan_votes m loads vs best)"
  using assms
proof (induction vs arbitrary: best C)
  case Nil
  then show ?case by (simp add: candidates_def)
next
  case (Cons v vs)
  obtain eid score where v: "v = (eid, score)" by (cases v)
  show ?case
  proof (cases "loads ! eid < m")
    case True
    let ?best = "if best = None \<or> better loads (score, eid) (the best) then Some (score, eid) else best"
    have "scan_votes m loads (v # vs) best = scan_votes m loads vs ?best"
      using True by (cases best) (auto simp: v better_def split: prod.splits)
    moreover have "candidates m loads (v # vs) \<union> C = candidates m loads vs \<union> insert (score, eid) C"
      using True by (auto simp: candidates_def v)
    ultimately show ?thesis using Cons.IH [OF is_best_insert [OF Cons.prems]] by simp
  next
    case False
    then have "candidates m loads (v # vs) = candidates m loads vs" by (auto simp: candidates_def v)
    then show ?thesis using Cons False by (simp add: v)
  qed
qed

lemma scan_votes_unique: "set vs = set vs' \<Longrightarrow> scan_votes m loads vs None = scan_votes m loads vs' None"
  using scan_votes_best [of loads "{}" None m vs] scan_votes_best [of loads "{}" None m vs']
    is_best_unique [of loads "candidates m loads vs"]
  by (simp add: is_best_def candidates_def)

lemma choose_executor_eq:
  "choose_executor m loads votes =
     (if \<exists>(eid, _)\<in>set votes. length loads \<le> eid then None
      else case scan_votes m loads votes None of Some (_, eid) \<Rightarrow> Some eid | None \<Rightarrow> min_index loads)"
  by (auto simp: choose_executor_def Let_def split: list.splits)

text \<open>
  The new scheduler chooses the same executor whatever the order in which the hash map of
  votes is iterated: it is the candidate with the most accounts, then the least load, then the smallest
  id, among those below the limit, and otherwise one with the least load.
\<close>

theorem choice_independent_of_order:
  assumes "mset votes = mset votes'"
  shows "choose_executor m loads votes = choose_executor m loads votes'"
proof -
  have "set votes = set votes'" using assms by (metis set_mset_mset)
  then show ?thesis unfolding choose_executor_eq using scan_votes_unique [of votes votes' m loads] by simp
qed

subsection \<open>The load of the executors\<close>

lemma min_index_props:
  "min_index xs = Some i \<Longrightarrow> i < length xs \<and> (\<forall>x\<in>set xs. xs ! i \<le> x)"
proof (induction xs arbitrary: i)
  case (Cons x xs)
  then show ?case
  proof (cases "min_index xs")
    case None
    then have "xs = []" by (cases xs) (auto split: option.splits if_splits)
    then show ?thesis using Cons.prems by simp
  next
    case (Some j)
    then show ?thesis using Cons.IH [OF Some] Cons.prems by (auto split: if_splits)
  qed
qed simp

lemma choose_executor_below:
  assumes "choose_executor m loads votes = Some e" "sum_list loads < length loads * m"
  shows "e < length loads" "loads ! e < m"
proof -
  have in_range: "\<forall>(eid, _)\<in>set votes. eid < length loads"
    using assms(1) by (force simp: choose_executor_eq split: if_splits)
  have least: "i < length loads \<and> loads ! i < m" if "min_index loads = Some i" for i
  proof (rule ccontr)
    assume "\<not> (i < length loads \<and> loads ! i < m)"
    then have "\<forall>x\<in>set loads. m \<le> x" using min_index_props [OF that] by fastforce
    then have "length loads * m \<le> sum_list loads" by (induction loads) auto
    then show False using assms(2) by simp
  qed
  have best: "is_best loads (candidates m loads votes) (scan_votes m loads votes None)"
    using scan_votes_best [of loads "{}" None m votes] by (simp add: is_best_def)
  have "e < length loads \<and> loads ! e < m"
  proof (cases "scan_votes m loads votes None")
    case None
    then show ?thesis using assms(1) least by (auto simp: choose_executor_eq split: if_splits)
  next
    case (Some x)
    then have "x \<in> candidates m loads votes" "e = snd x"
      using best assms(1) by (auto simp: is_best_def choose_executor_eq split: if_splits prod.splits)
    then show ?thesis using in_range by (auto simp: candidates_def)
  qed
  then show "e < length loads" "loads ! e < m" by simp_all
qed

definition load_of :: "nat \<Rightarrow> parsed_tx list \<Rightarrow> nat" where
  "load_of e txs = length (filter (\<lambda>(_, _, _, target). target = e) txs)"

lemma schedule_new_loads:
  assumes "schedule_new m part raws updates loads = Some txs" "\<forall>l\<in>set loads. l \<le> m"
    and "sum_list loads + length raws \<le> length loads * m"
  shows "\<forall>e<length loads. loads ! e + load_of e txs \<le> m"
  using assms
proof (induction raws arbitrary: updates loads txs)
  case Nil
  then show ?case by (auto simp: load_of_def)
next
  case (Cons raw raws)
  show ?case
  proof (cases "tx_header_parse raw")
    case None
    then show ?thesis using Cons.prems Cons.IH [of updates loads txs] by simp
  next
    case (Some h)
    obtain required votes target rest where e: "choose_executor m loads votes = Some target"
      "schedule_new m part raws (fold (\<lambda>a. AList.update a target) required updates)
            (loads[target := loads ! target + 1]) = Some rest"
      and txs: "txs = (raw, h, required, target) # rest"
      using Cons.prems(1) Some by (auto simp: bind_eq_Some_conv)
    have b: "target < length loads" "loads ! target < m"
      using choose_executor_below [OF e(1)] Cons.prems(3) by simp_all
    let ?loads = "loads[target := loads ! target + 1]"
    have "sum_list ?loads = sum_list loads + 1"
      using b(1) by (simp add: sum_list_update elem_le_sum_list)
    moreover have "\<forall>l\<in>set ?loads. l \<le> m"
      using Cons.prems(2) b by (auto dest!: set_update_subset_insert [THEN subsetD])
    ultimately have "\<forall>x<length loads. ?loads ! x + load_of x rest \<le> m"
      using Cons.IH [OF e(2)] Cons.prems(3) by simp
    then show ?thesis using b(1) by (auto simp: txs load_of_def nth_list_update)
  qed
qed

lemma max_allowed_enough:
  assumes "0 < n" "n < 2 ^ 53" "0 < k" "k < 2 ^ 53"
  shows "n \<le> k * max_allowed n k"
proof -
  define q where "q = (of_nat n / of_nat k :: rat)"
  have nk: "1 \<le> (of_nat n :: rat)" "1 \<le> (of_nat k :: rat)" using assms by simp_all
  have up: "(of_nat n :: rat) \<le> 2 ^ 53" "(of_nat k :: rat) \<le> 2 ^ 53"
    using assms by (metis of_nat_le_iff of_nat_numeral of_nat_power less_imp_le)+
  have q: "0 < q" "1 / 2 ^ 53 \<le> q" "q \<le> 2 ^ 53"
  proof -
    show "0 < q" using assms by (simp add: q_def)
    show "1 / 2 ^ 53 \<le> q" unfolding q_def using nk up by (intro frac_le) auto
    have "q \<le> of_nat n / 1" unfolding q_def using nk by (intro divide_left_mono) auto
    then show "q \<le> 2 ^ 53" using up(1) by simp
  qed
  have big: "pow2 (- 1000) \<le> 1 / 2 ^ 53" "(2 ^ 55 :: rat) \<le> pow2 1000"
    using pow2_less [of "- 1000" "- 53"] pow2_less [of 55 1000] by (simp_all add: pow2_def [of 55] pow2_def [of "- 53"])
  obtain r1 where r1: "round64 q = Fin r1" "\<bar>r1 - q\<bar> \<le> q / 2 ^ 53"
    using round64_near [of q] q big by fastforce
  define c where "c = (1 - 1 / 2 ^ 53 :: rat)"
  have r1': "c * q \<le> r1" "r1 \<le> 2 * q"
  proof -
    have "q / 2 ^ 53 \<le> q" using q(1) by (simp add: divide_le_eq)
    then show "r1 \<le> 2 * q" using r1(2) by linarith
    have "c * q = q - q / 2 ^ 53" by (simp add: c_def field_simps)
    then show "c * q \<le> r1" using r1(2) by linarith
  qed
  have c: "9 / 10 \<le> c" "c \<le> 1" by (simp_all add: c_def)
  define y where "y = r1 * (3 / 2)"
  have "9 / 10 * q \<le> c * q" using c(1) q(1) by (intro mult_right_mono) auto
  then have y: "27 / 20 * q \<le> y" "y \<le> 3 * q" using r1' by (simp_all add: y_def)
  moreover have "(3 * 2 ^ 53 :: rat) \<le> 2 ^ 55" by simp
  ultimately have "y \<le> pow2 1000" using q(3) big(2) by linarith
  with y have "pow2 (- 1000) \<le> \<bar>y\<bar>" "\<bar>y\<bar> \<le> pow2 1000" using q(1,2) big(1) by linarith+
  then obtain r2 where r2: "round64 y = Fin r2" "\<bar>r2 - y\<bar> \<le> \<bar>y\<bar> / 2 ^ 53"
    using round64_near [of y] by blast
  have "\<bar>y\<bar> / 2 ^ 53 \<le> y / 10" using y q by (simp add: field_simps)
  then have "q \<le> r2" using r2(2) y q(1) by linarith
  moreover have "r2 \<le> of_nat (nat \<lceil>r2\<rceil>)" by linarith
  ultimately have "q \<le> of_nat (nat \<lceil>r2\<rceil>)" by linarith
  then have "of_nat n \<le> of_nat k * (of_nat (nat \<lceil>r2\<rceil>) :: rat)"
    using assms(3) unfolding q_def by (simp add: divide_le_eq mult.commute)
  then have "n \<le> k * nat \<lceil>r2\<rceil>" by (metis of_nat_le_iff of_nat_mult)
  moreover have "n \<le> k * (2 ^ 64 - 1)"
  proof -
    have "n \<le> 1 * (2 ^ 64 - 1)" using assms(2) by simp
    also have "\<dots> \<le> k * (2 ^ 64 - 1)" using assms(3) by (intro mult_right_mono) auto
    finally show ?thesis .
  qed
  moreover have "max_allowed n k = min (2 ^ 64 - 1) (nat \<lceil>r2\<rceil>)"
  proof -
    have "round64 (3 / 2) = Fin (3 / 2)" using round64_exact [of "3 / 2" 3 "- 1"] by (simp add: pow2_def)
    then have "f_add (Fin 1) (Fin (1 / 2)) = Fin (3 / 2)" by simp
    moreover have "f_div (f_of_nat n) (f_of_nat k) = Fin r1"
      using assms r1(1) by (simp add: f_of_nat_exact q_def)
    ultimately show ?thesis using r2(1) by (simp add: max_allowed_def y_def)
  qed
  ultimately show ?thesis by (simp add: min_def)
qed

text \<open>
  C38: The new scheduler balances the load: of a batch of \<open>n\<close> transactions no executor gets more
  than \<open>max_allowed\<close>, the ceiling of one and a half times the average computed in
  floating point; so an executor with room always exists and the limit is never exceeded.
\<close>

theorem scheduler_load_bound:
  assumes "parse_and_schedule cfg part raws = Some txs" "ec_new_scheduler cfg" "e < ec_num_executors cfg"
    and "length raws < 2 ^ 53" "ec_num_executors cfg < 2 ^ 53"
  shows "load_of e txs \<le> max_allowed (length raws) (ec_num_executors cfg)"
proof (cases "raws = []")
  case True
  then show ?thesis using assms(1,2) by (auto simp: parse_and_schedule_def load_of_def)
next
  case False
  let ?k = "ec_num_executors cfg"
  have "length raws \<le> ?k * max_allowed (length raws) ?k"
    using False assms(3-5) by (intro max_allowed_enough) auto
  then show ?thesis
    using schedule_new_loads [of "max_allowed (length raws) ?k" part raws "[]" "replicate ?k 0" txs] assms(1-3)
    by (auto simp: parse_and_schedule_def sum_list_replicate)
qed

end
