(* ===== verification/Executor_Props.thy ===== *)
theory Executor_Props
  imports Executor_Order Executor_Routing
begin

text \<open>
  What the executor does to the accounts: payments conserve money, a sole executor computes what
  the sequential execution of the transactions computes, and the inputs that make it panic.
\<close>

subsection \<open>Payments\<close>

lemma apply_payment:
  assumes "sb_tx_type t = SendPayment" "sb_account_id t = a" "sb_dest_account_id t = b" "a \<noteq> b"
    and "store a = Some x" "store b = Some y"
  shows "apply_payload t store = Some
    (let n = wrap64 (checking_balance x - f_as_i64 (sb_amount t))
     in if n < 0 then (store, False)
        else (store(a \<mapsto> x\<lparr>checking_balance := n\<rparr>,
                b \<mapsto> y\<lparr>checking_balance := sat64 (checking_balance y + f_as_i64 (sb_amount t))\<rparr>), True))"
  using assms
  by (simp add: apply_payload_def execute_send_payment_debit_def execute_send_payment_credit_def Let_def fun_upd_idem)

definition money :: "(nat \<Rightarrow> account_state option) \<Rightarrow> nat \<Rightarrow> int" where
  "money store a = (case store a of None \<Rightarrow> 0 | Some x \<Rightarrow> checking_balance x + savings_balance x)"

text \<open>
  C39: A payment between two accounts moves money and creates none: for any amount, even negative, infinite or NaN,
  the sum of the two accounts is unchanged, provided that the amount taken from the source does not bring it below the
  least \<open>i64\<close> (which cannot happen to a balance of at least zero) and the amount added to the destination stays in the range of \<open>i64\<close>; other
  accounts do not change; and a payment refused for lack of funds changes nothing.
\<close>

theorem payment_conserves_money:
  assumes "sb_tx_type t = SendPayment" "apply_payload t store = Some (store', ok)"
    and "sb_account_id t = a" "sb_dest_account_id t = b" "a \<noteq> b"
    and "store a = Some x" "store b = Some y" "account_ok x" "account_ok y" "- (2 ^ 63) \<le> checking_balance x - f_as_i64 (sb_amount t)"
    and "checking_balance y + f_as_i64 (sb_amount t) < 2 ^ 63" "- (2 ^ 63) \<le> checking_balance y + f_as_i64 (sb_amount t)"
  shows "money store' a + money store' b = money store a + money store b
    \<and> (\<forall>c. c \<noteq> a \<longrightarrow> c \<noteq> b \<longrightarrow> store' c = store c) \<and> (\<not> ok \<longrightarrow> store' = store)"
proof -
  let ?v = "f_as_i64 (sb_amount t)"
  let ?n = "wrap64 (checking_balance x - ?v)"
  note run = apply_payment [OF assms(1,3-7), unfolded assms(2) Let_def]
  show ?thesis
  proof (cases "?n < 0")
    case True
    then show ?thesis using run by simp
  next
    case False
    have "i64_range ?v" "i64_range (checking_balance x)" using assms(8) by (simp_all add: account_ok_def)
    then have "checking_balance x - ?v \<le> 2 ^ 63 - 1 + 2 ^ 63" "- (2 ^ 63) \<le> checking_balance x - ?v"
      using assms(10) by (auto simp: i64_range_def)
    then have "?n = checking_balance x - ?v"
      using False wrap64_over [of "checking_balance x - ?v"] wrap64_id [of "checking_balance x - ?v"]
      unfolding i64_range_def by fastforce
    moreover have "sat64 (checking_balance y + ?v) = checking_balance y + ?v"
      using assms(11,12) by (simp add: sat64_id i64_range_def)
    ultimately show ?thesis using run False assms(5-7) by (simp add: money_def)
  qed
qed

text \<open>The double 5.0 and the double -5.0 as bits.\<close>

definition bits_5 :: nat where "bits_5 = 0x4014000000000000"
definition bits_minus_5 :: nat where "bits_minus_5 = 0xC014000000000000"

lemma bits_5: "f_as_i64 (f64_of_bits bits_5) = 5" "f_as_i64 (f64_of_bits bits_minus_5) = - 5"
  by (simp_all add: bits_5_def bits_minus_5_def f64_of_bits_def pow2_def sat64_def Let_def)

theorem payment_conserves_money_witness:
  "\<exists>store'. apply_payload \<lparr>sb_tx_type = SendPayment, sb_account_id = 1, sb_dest_account_id = 2, sb_amount_bits = bits_5\<rparr>
      [1 \<mapsto> account_new 7 1, 2 \<mapsto> account_new 3 0] = Some (store', True)
    \<and> money store' 1 + money store' 2 = 11"
proof -
  let ?t = "\<lparr>sb_tx_type = SendPayment, sb_account_id = 1, sb_dest_account_id = 2, sb_amount_bits = bits_5\<rparr>"
  let ?s = "[1 \<mapsto> account_new 7 1, 2 \<mapsto> account_new 3 0]"
  obtain store' where run: "apply_payload ?t ?s = Some (store', True)"
    by (simp add: apply_payload_def execute_send_payment_debit_def execute_send_payment_credit_def
        sb_amount_def bits_5 account_new_def wrap64_def)
  have "money store' 1 + money store' 2 = money ?s 1 + money ?s 2"
    using payment_conserves_money [OF _ run, of 1 2 "account_new 7 1" "account_new 3 0"]
    by (simp add: account_new_def account_ok_def i64_range_def sb_amount_def bits_5)
  with run show ?thesis by (simp add: money_def account_new_def)
qed

text \<open>
  The amount of a payment is not checked: a payment of minus five succeeds on an
  empty account and takes five from the destination, which ends below zero.
\<close>

theorem negative_payment_overdraws:
  "\<exists>store'. apply_payload \<lparr>sb_tx_type = SendPayment, sb_account_id = 1, sb_dest_account_id = 2, sb_amount_bits = bits_minus_5\<rparr>
      [1 \<mapsto> account_new 0 0, 2 \<mapsto> account_new 3 0] = Some (store', True)
    \<and> store' 1 = Some (account_new 5 0) \<and> store' 2 = Some (account_new (- 2) 0)"
  by (simp add: apply_payload_def execute_send_payment_debit_def execute_send_payment_credit_def
      sb_amount_def bits_5 account_new_def wrap64_def sat64_def)

subsection \<open>A sole executor\<close>

text \<open>The specification: the transactions with a header, one after the other.\<close>

fun run_sequential :: "bytes list \<Rightarrow> (nat \<Rightarrow> account_state option) \<Rightarrow> (nat \<Rightarrow> account_state option) option" where
  "run_sequential [] store = Some store"
| "run_sequential (raw # raws) store =
     (case tx_header_parse raw of
        None \<Rightarrow> run_sequential raws store
      | Some _ \<Rightarrow> do {
          t \<leftarrow> parse_smallbank_payload raw;
          (store', _) \<leftarrow> apply_payload t store;
          run_sequential raws store' })"

definition accounts_known :: "(nat \<Rightarrow> nat option) \<Rightarrow> nat \<Rightarrow> bytes \<Rightarrow> bool" where
  "accounts_known part me raw \<longleftrightarrow>
     (case extract_required_accounts raw of None \<Rightarrow> False | Some req \<Rightarrow> \<forall>a\<in>set req. part a = Some me)"

definition batch_known :: "(nat \<Rightarrow> nat option) \<Rightarrow> nat \<Rightarrow> bytes list \<Rightarrow> bool" where
  "batch_known part me raws \<longleftrightarrow> (\<forall>raw\<in>set raws. tx_header_parse raw \<noteq> None \<longrightarrow> accounts_known part me raw)"

lemma extract_required_Some:
  assumes "extract_required_accounts raw = Some req"
  obtains t where "parse_smallbank_payload raw = Some t"
    "req = (if sb_tx_type t = SendPayment then [sb_account_id t, sb_dest_account_id t] else [sb_account_id t])"
  using assms by (auto simp: extract_required_accounts_def)

lemma apply_payload_total:
  assumes "\<forall>a\<in>set (if sb_tx_type t = SendPayment then [sb_account_id t, sb_dest_account_id t] else [sb_account_id t]).
      store a \<noteq> None"
  obtains store' ok where "apply_payload t store = Some (store', ok)" "\<forall>a. store' a = None \<longleftrightarrow> store a = None"
proof -
  obtain x where x: "store (sb_account_id t) = Some x" using assms by (auto split: if_splits)
  show ?thesis
  proof (cases "sb_tx_type t = SendPayment")
    case True
    then obtain y where y: "store (sb_dest_account_id t) = Some y" using assms by auto
    obtain x' ok where d: "execute_send_payment_debit (sb_amount t) x = (x', ok)" by fastforce
    show ?thesis
      using that [of "if ok then store(sb_account_id t \<mapsto> x', sb_dest_account_id t \<mapsto>
          execute_send_payment_credit (sb_amount t) (the ((store(sb_account_id t \<mapsto> x')) (sb_dest_account_id t))))
          else store(sb_account_id t \<mapsto> x')" ok] True x y d
      by (simp add: apply_payload_def Let_def)
  next
    case False
    have "\<exists>store' ok. apply_payload t store = Some (store', ok) \<and> (\<forall>a. store' a = None \<longleftrightarrow> store a = None)"
      using x False
      by (cases "sb_tx_type t")
        (auto simp: apply_payload_def Let_def execute_deposit_checking_def execute_transact_savings_def
          execute_write_check_def)
    then show ?thesis using that by blast
  qed
qed

text \<open>The executor \<open>me\<close> holds every account of the partition, and nothing waits.\<close>

definition sole :: "executor_config \<Rightarrow> executor \<Rightarrow> bool" where
  "sole cfg s \<longleftrightarrow>
     (\<not> ec_new_scheduler cfg \<or> (ec_num_executors cfg = 1 \<and> ec_executor_id cfg = 0))
     \<and> pending_queues s = [] \<and> incoming_transfers s = [] \<and> drained_transfers s = []
     \<and> (\<forall>a. schedule_partition s a = Some (ec_executor_id cfg) \<longrightarrow> account_store s a \<noteq> None)"

definition sole_txs :: "nat \<Rightarrow> bytes list \<Rightarrow> parsed_tx list" where
  "sole_txs me raws =
     List.map_filter (\<lambda>raw. map_option (\<lambda>h. (raw, h, the (extract_required_accounts raw), me)) (tx_header_parse raw)) raws"

lemma sole_txs_simps [simp]:
  "sole_txs me [] = []"
  "sole_txs me (raw # raws) = (case tx_header_parse raw of None \<Rightarrow> sole_txs me raws
     | Some h \<Rightarrow> (raw, h, the (extract_required_accounts raw), me) # sole_txs me raws)"
  by (simp_all add: sole_txs_def List.map_filter_def split: option.splits)

lemma schedule_old_sole: "batch_known part me raws \<Longrightarrow> schedule_old part raws = Some (sole_txs me raws)"
proof (induction raws)
  case (Cons raw raws)
  show ?case
  proof (cases "tx_header_parse raw")
    case (Some h)
    then obtain req where req: "extract_required_accounts raw = Some req" "\<forall>a\<in>set req. part a = Some me"
      using Cons.prems by (auto simp: batch_known_def accounts_known_def split: option.splits)
    then have "hd req \<in> set req" by (auto elim!: extract_required_Some)
    then show ?thesis using Cons Some req by (simp add: batch_known_def)
  qed (use Cons in \<open>simp add: batch_known_def\<close>)
qed simp

lemma owner_votes_sole:
  assumes "\<forall>a\<in>set req. part a = Some 0" "\<forall>e\<in>snd ` set updates. e = 0" "\<forall>e\<in>fst ` set votes. e = 0"
  shows "\<exists>votes'. owner_votes updates part req votes = Some votes' \<and> (\<forall>e\<in>fst ` set votes'. e = (0 :: nat))"
  using assms(1,3)
proof (induction req arbitrary: votes)
  case (Cons a req)
  have "(case map_of updates a of Some e \<Rightarrow> Some e | None \<Rightarrow> part a) = Some 0"
  proof (cases "map_of updates a")
    case (Some e)
    have "snd (a, e) \<in> snd ` set updates" using map_of_SomeD [OF Some] by (rule imageI)
    then show ?thesis using Some bspec [OF assms(2)] by simp
  qed (use Cons.prems in simp)
  moreover have "\<forall>e\<in>fst ` set (upsert 0 0 Suc votes). e = 0"
    using Cons.prems by (simp add: upsert_def dom_update)
  ultimately show ?case using Cons by simp
qed simp

lemma schedule_new_sole:
  "batch_known part 0 raws \<Longrightarrow> \<forall>e\<in>snd ` set updates. e = 0 \<Longrightarrow>
     schedule_new m part raws updates [l] = Some (sole_txs 0 raws)"
proof (induction raws arbitrary: updates l)
  case (Cons raw raws)
  show ?case
  proof (cases "tx_header_parse raw")
    case (Some h)
    then obtain req where req: "extract_required_accounts raw = Some req" "\<forall>a\<in>set req. part a = Some 0"
      using Cons.prems by (auto simp: batch_known_def accounts_known_def split: option.splits)
    obtain votes where v: "owner_votes updates part req [] = Some votes" "\<forall>e\<in>fst ` set votes. e = 0"
      using owner_votes_sole [OF req(2) Cons.prems(2), of "[]"] by auto
    have best: "is_best [l] (candidates m [l] votes) (scan_votes m [l] votes None)"
      using scan_votes_best [of "[l]" "{}" None m votes] by (simp add: is_best_def)
    have "choose_executor m [l] votes = Some 0"
      using v(2) best by (force simp: choose_executor_eq is_best_def candidates_def split: option.splits)
    moreover have "\<forall>e\<in>snd ` set (fold (\<lambda>a. AList.update a 0) req updates). e = 0"
      using Cons.prems(2)
    proof (induction req arbitrary: updates)
      case (Cons a req)
      have "\<forall>e\<in>snd ` set (AList.update a 0 updates). e = 0"
        using Cons.prems set_update_subset [of a 0 updates] by fastforce
      then show ?case using Cons.IH by simp
    qed simp
    ultimately show ?thesis using Cons.IH Cons.prems(1) Some req v(1) by (simp add: batch_known_def)
  qed (use Cons in \<open>simp add: batch_known_def\<close>)
qed simp

lemma parse_sole:
  assumes "sole cfg s" "batch_known (schedule_partition s) (ec_executor_id cfg) raws"
  shows "parse_and_schedule cfg (schedule_partition s) raws = Some (sole_txs (ec_executor_id cfg) raws)"
  using assms schedule_old_sole schedule_new_sole [of _ raws "[]"]
  by (auto simp: parse_and_schedule_def sole_def)

lemma decide_sole:
  "batch_known part me raws \<Longrightarrow>
     decide_localities me (sole_txs me raws) part = Some (map (\<lambda>_. Local) (sole_txs me raws), part)"
proof (induction raws)
  case (Cons raw raws)
  show ?case
  proof (cases "tx_header_parse raw")
    case (Some h)
    then obtain req where req: "extract_required_accounts raw = Some req" "\<forall>a\<in>set req. part a = Some me"
      using Cons.prems by (auto simp: batch_known_def accounts_known_def split: option.splits)
    then have "determine_locality me part req me = Some Local"
      by (auto simp: determine_locality_def Let_def filter_empty_conv)
    then show ?thesis using Cons Some req by (simp add: batch_known_def)
  qed (use Cons in \<open>simp add: batch_known_def\<close>)
qed simp

lemma execute_single_sole:
  assumes "accounts_known part me raw" "\<forall>a. part a = Some me \<longrightarrow> account_store s a \<noteq> None"
  shows "\<exists>t store' ok s' ok'. parse_smallbank_payload raw = Some t
    \<and> apply_payload t (account_store s) = Some (store', ok) \<and> (\<forall>a. store' a = None \<longleftrightarrow> account_store s a = None)
    \<and> execute_single_local_transaction cfg d raw h s = Some (s', ok') \<and> account_store s' = store'"
proof -
  obtain req where req: "extract_required_accounts raw = Some req" "\<forall>a\<in>set req. account_store s a \<noteq> None"
    using assms by (auto simp: accounts_known_def split: option.splits)
  obtain t where t: "parse_smallbank_payload raw = Some t"
    "req = (if sb_tx_type t = SendPayment then [sb_account_id t, sb_dest_account_id t] else [sb_account_id t])"
    using extract_required_Some [OF req(1)] .
  obtain store' ok where a: "apply_payload t (account_store s) = Some (store', ok)"
    "\<forall>a. store' a = None \<longleftrightarrow> account_store s a = None"
    using apply_payload_total [OF req(2) [unfolded t(2)]] .
  have "Ex Not" by blast
  then have "\<exists>s' ok'. execute_single_local_transaction cfg d raw h s = Some (s', ok') \<and> account_store s' = store'"
    by (simp add: execute_single_local_transaction_def t(1) a(1) Let_def split: option.split)
  then show ?thesis using t(1) a by blast
qed

lemma handle_all_sole:
  assumes "batch_known part me raws" "\<forall>a. part a = Some me \<longrightarrow> account_store s a \<noteq> None" "pending_queues s = []"
  shows "\<exists>s'. handle_all cfg d (zip (sole_txs me raws) (map (\<lambda>_. Local) (sole_txs me raws))) s = Some s'
    \<and> run_sequential raws (account_store s) = Some (account_store s')
    \<and> (\<forall>a. part a = Some me \<longrightarrow> account_store s' a \<noteq> None)
    \<and> pending_queues s' = [] \<and> incoming_transfers s' = incoming_transfers s \<and> drained_transfers s' = drained_transfers s"
  using assms
proof (induction raws arbitrary: s)
  case (Cons raw raws)
  show ?case
  proof (cases "tx_header_parse raw")
    case None
    then show ?thesis using Cons by (simp add: batch_known_def)
  next
    case (Some h)
    let ?s = "bump eager_executions_update (bump total_transactions_update s)"
    have known: "accounts_known part me raw" "batch_known part me raws"
      using Cons.prems(1) Some by (simp_all add: batch_known_def)
    have same: "account_store ?s = account_store s" by (simp add: bump_def)
    obtain t store' ok s1 ok1 where t: "parse_smallbank_payload raw = Some t"
      "apply_payload t (account_store s) = Some (store', ok)" "\<forall>a. store' a = None \<longleftrightarrow> account_store s a = None"
      "execute_single_local_transaction cfg d raw h ?s = Some (s1, ok1)" "account_store s1 = store'"
      using execute_single_sole [OF known(1), of ?s cfg d h, unfolded same, OF Cons.prems(2)]
      by (elim exE conjE) (rule that)
    note frame = execute_single_frame [OF t(4)]
    obtain req where req: "extract_required_accounts raw = Some req" "\<forall>a\<in>set req. account_store s a \<noteq> None"
      using known(1) Cons.prems(2) by (auto simp: accounts_known_def split: option.splits)
    have "is_ready_to_execute (bump total_transactions_update s) (th_id h) req"
      using req(2) Cons.prems(3) by (simp add: is_ready_to_execute_def bump_def is_account_unlocked_or_head_def)
    then have "handle_transaction_by_locality cfg d raw h req Local (bump total_transactions_update s) = Some s1"
      using t(4) by (simp add: handle_local_transaction_def)
    moreover have "\<exists>s'. handle_all cfg d (zip (sole_txs me raws) (map (\<lambda>_. Local) (sole_txs me raws))) s1 = Some s'
      \<and> run_sequential raws (account_store s1) = Some (account_store s')
      \<and> (\<forall>a. part a = Some me \<longrightarrow> account_store s' a \<noteq> None)
      \<and> pending_queues s' = [] \<and> incoming_transfers s' = incoming_transfers s1 \<and> drained_transfers s' = drained_transfers s1"
      using Cons.prems(2,3) t(3,5) frame(1) by (intro Cons.IH [OF known(2)]) (simp_all add: bump_def)
    ultimately show ?thesis using Some req(1) t frame(5,6) by (simp add: bump_def)
  qed
qed simp

lemma execute_next_sole:
  assumes "sole cfg s" "batch_known (schedule_partition s) (ec_executor_id cfg) (snd b)" "arr (next_sequence s) = []"
  shows "\<exists>s'. execute_next cfg arr b s = Some s' \<and> sole cfg s'
    \<and> run_sequential (snd b) (account_store s) = Some (account_store s') \<and> schedule_partition s' = schedule_partition s
    \<and> next_sequence s' = wadd 64 (next_sequence s) 1"
proof -
  let ?me = "ec_executor_id cfg" and ?part = "schedule_partition s" and ?txs = "sole_txs (ec_executor_id cfg) (snd b)"
  let ?s = "s\<lparr>schedule_partition := ?part, scheduled_tx_count := scheduled_tx_count s + length ?txs\<rparr>"
  obtain s1 where h: "handle_all cfg (fst b) (zip ?txs (map (\<lambda>_. Local) ?txs)) ?s = Some s1"
    and store: "run_sequential (snd b) (account_store s) = Some (account_store s1)"
      "\<forall>a. ?part a = Some ?me \<longrightarrow> account_store s1 a \<noteq> None"
    and queues: "pending_queues s1 = []" "incoming_transfers s1 = []" "drained_transfers s1 = []"
    using handle_all_sole [OF assms(2), of ?s cfg "fst b"] assms(1) by (auto simp: sole_def)
  have "process_incoming_transfers cfg s1 = Some (s1\<lparr>incoming_transfers := []\<rparr>)"
    using queues by (simp add: process_incoming_transfers_def drain_incoming_def keys_def)
  moreover have "s1\<lparr>incoming_transfers := fold add_transfer [] (incoming_transfers s1)\<rparr> = s1" by simp
  moreover note parse_sole [OF assms(1,2)] decide_sole [OF assms(2)] h
  ultimately have batch: "execute_batch cfg (arr (next_sequence s)) (fst b) (snd b) s = Some
      ((s1\<lparr>incoming_transfers := []\<rparr>)\<lparr>lock_stats := update_queue_depths (pending_queues s1) (lock_stats s1)\<rparr>)"
    by (simp add: execute_batch_def assms(3))
  have "schedule_partition s1 = ?part" "next_sequence s1 = next_sequence s"
    using handle_all_partition [OF h] handle_all_clock [OF h] by (simp_all add: same_clock_def)
  then show ?thesis
    using batch store queues assms(1)
    by (simp add: execute_next_def send_feedback_if_needed_def sole_def Let_def)
qed

text \<open>
  An executor that holds all accounts computes what the sequential execution computes.
  Whatever batches of well-formed transactions it runs (with the old scheduler, or the new one and
  one executor), it finishes without a panic, no transaction is left waiting, and the accounts are those
  after running the transactions of all batches one after the other.
\<close>

lemma sole_executor_is_sequential:
  assumes "sole cfg s" "\<forall>b\<in>set bs. batch_known (schedule_partition s) (ec_executor_id cfg) (snd b)" "\<forall>n. arr n = []"
  shows "\<exists>s'. execute_in_order cfg arr bs s = Some s' \<and> pending_queues s' = []
    \<and> run_sequential (concat (map snd bs)) (account_store s) = Some (account_store s')"
proof -
  have app: "run_sequential (xs @ ys) st = Option.bind (run_sequential xs st) (run_sequential ys)" for xs ys st
    by (induction xs arbitrary: st) (auto split: option.splits bind_splits)
  have "\<exists>s'. execute_in_order cfg arr bs s = Some s' \<and> sole cfg s'
    \<and> run_sequential (concat (map snd bs)) (account_store s) = Some (account_store s')"
    using assms(1,2)
  proof (induction bs arbitrary: s)
    case (Cons b bs)
    obtain s1 where s1: "execute_next cfg arr b s = Some s1" "sole cfg s1"
      "run_sequential (snd b) (account_store s) = Some (account_store s1)" "schedule_partition s1 = schedule_partition s"
      using execute_next_sole [OF Cons.prems(1), of b arr] Cons.prems(2) assms(3) by auto
    then show ?case using Cons.IH [OF s1(2)] Cons.prems(2) by (auto simp: app)
  qed simp
  then show ?thesis by (auto simp: sole_def)
qed

end
