(* ===== verification/Executor_Runs.thy ===== *)
theory Executor_Runs
  imports Executor_Props
begin

text \<open>
  The theorems on the executor at concrete inputs: transactions as bytes, an executor over a few
  accounts, batches that run, wait and migrate accounts; and runs that panic.
\<close>

subsection \<open>Transactions and executors\<close>

definition tx_raw :: "nat \<Rightarrow> sb_transaction \<Rightarrow> bytes" where
  "tx_raw n t = [1, 0] @ be_bytes 8 n @ sb_to_bytes t"

definition deposit :: "nat \<Rightarrow> sb_transaction" where
  "deposit a = \<lparr>sb_tx_type = DepositChecking, sb_account_id = a, sb_dest_account_id = 0, sb_amount_bits = 4617315517961601024\<rparr>"

definition payment :: "nat \<Rightarrow> nat \<Rightarrow> sb_transaction" where
  "payment a b = \<lparr>sb_tx_type = SendPayment, sb_account_id = a, sb_dest_account_id = b, sb_amount_bits = 4617315517961601024\<rparr>"

lemma tx_raw_header: "n < 2 ^ 64 \<Longrightarrow> tx_header_parse (tx_raw n t) = Some \<lparr>th_tx_type = 1, th_id = (0, n)\<rparr>"
  using be64_append [of "[1, 0]" 2 n "sb_to_bytes t"] by (simp add: tx_header_parse_def tx_raw_def)

lemma tx_raw_payload: "sb_wf t \<Longrightarrow> parse_smallbank_payload (tx_raw n t) = Some t"
  using sb_from_to_bytes [of t "[]"] by (simp add: parse_smallbank_payload_def tx_raw_def)

lemma tx_raw_required:
  "sb_wf t \<Longrightarrow> extract_required_accounts (tx_raw n t) =
     Some (if sb_tx_type t = SendPayment then [sb_account_id t, sb_dest_account_id t] else [sb_account_id t])"
  by (simp add: extract_required_accounts_def tx_raw_payload)

lemma payment_wf [simp]: "a < 2 ^ 64 \<Longrightarrow> b < 2 ^ 64 \<Longrightarrow> sb_wf (payment a b)"
  by (simp add: payment_def sb_wf_def)

lemma deposit_wf [simp]: "a < 2 ^ 64 \<Longrightarrow> sb_wf (deposit a)"
  by (simp add: deposit_def sb_wf_def)

lemma deposit_sel [simp]:
  "sb_tx_type (deposit a) = DepositChecking" "sb_account_id (deposit a) = a"
  "sb_tx_type (payment a b) = SendPayment" "sb_account_id (payment a b) = a" "sb_dest_account_id (payment a b) = b"
  by (simp_all add: deposit_def payment_def)

lemmas tx_raw_simps = tx_raw_header tx_raw_payload tx_raw_required

definition no_committee :: committee where
  "no_committee = \<lparr>authorities = [], latency_matrix = [], account_ranges = [], client_reply_addresses = []\<rparr>"

definition x_cfg :: "bool \<Rightarrow> nat \<Rightarrow> nat \<Rightarrow> executor_config" where
  "x_cfg new n me = \<lparr>ec_committee = no_committee, ec_executor_id = me, ec_num_executors = n,
     ec_new_scheduler = new, ec_pick = hd, ec_arrange = (\<lambda>xs. xs)\<rparr>"

lemma x_cfg_sel [simp]:
  "ec_executor_id (x_cfg new n me) = me" "ec_num_executors (x_cfg new n me) = n" "ec_new_scheduler (x_cfg new n me) = new"
  by (simp_all add: x_cfg_def)

definition x_state :: "partition \<Rightarrow> nat \<Rightarrow> executor" where
  "x_state p me = executor_init (\<lambda>a lo hi k. 10) 0 100 me p"

lemma x_state_sel [simp]:
  "next_sequence (x_state p me) = 0" "x_buffer (x_state p me) = []" "schedule_partition (x_state p me) = map_of p"
  "pending_queues (x_state p me) = []" "incoming_transfers (x_state p me) = []" "drained_transfers (x_state p me) = []"
  "account_store (x_state p me) = (\<lambda>a. if map_of p a = Some me then Some (account_new 10 10) else None)"
  by (simp_all add: x_state_def executor_init_def fun_eq_iff create_account_with_seed_def)

subsection \<open>The theorems\<close>

theorem migrations_match_witness:
  "\<exists>accs. the (decide_localities 0 [([], \<lparr>th_tx_type = 1, th_id = (0, 5)\<rparr>, [3, 4], 0)] [3 \<mapsto> 0, 4 \<mapsto> 1]) = ([MigrateIn accs], [3 \<mapsto> 0, 4 \<mapsto> 0])
     \<and> (4, 1) \<in> set accs"
  using migrations_match [of 0 "[([], \<lparr>th_tx_type = 1, th_id = (0, 5)\<rparr>, [3, 4], 0)]" "[3 \<mapsto> 0, 4 \<mapsto> 1]"
      "[MigrateIn [(4, 1)]]" "[3 \<mapsto> 0, 4 \<mapsto> 0]" 1 "[MigrateOut [4] [3] 0]" "[3 \<mapsto> 0, 4 \<mapsto> 0]" 0 4]
  by (simp add: determine_locality_def fun_upd_twist)

theorem choice_independent_of_order_witness:
  "choose_executor 3 [1, 1] [(0, 1), (1, 1)] = choose_executor 3 [1, 1] [(1, 1), (0, 1)]
    \<and> choose_executor 3 [1, 1] [(1, 1), (0, 1)] = Some 0"
  using choice_independent_of_order [of "[(0, 1), (1, 1)]" "[(1, 1), (0, 1)]" 3 "[1, 1]"]
  by (simp add: choose_executor_def)

lemma max_allowed_4_2: "max_allowed 4 2 = 3"
proof -
  have "round64 (3 / 2) = Fin (3 / 2)" using round64_exact [of "3 / 2" 3 "- 1"] by (simp add: pow2_def)
  then show ?thesis by (simp add: max_allowed_def f_of_nat_exact)
qed

definition four_deposits :: "bytes list" where
  "four_deposits = map (\<lambda>n. tx_raw n (deposit (3 + n))) [0, 1, 2, 3]"

lemma four_deposits_scheduled:
  "map_option (map (\<lambda>(raw, h, req, target). target))
     (parse_and_schedule (x_cfg True 2 0) (map_of [(3, 0), (4, 0), (5, 0), (6, 0)]) four_deposits) = Some [0, 0, 0, 1]"
proof -
  have len: "length four_deposits = 4" by (simp add: four_deposits_def)
  have two: "replicate 2 (0 :: nat) = [0, 0]" by (simp add: numeral_2_eq_2)
  show ?thesis
    by (simp add: parse_and_schedule_def len max_allowed_4_2 two)
      (simp add: four_deposits_def tx_raw_simps choose_executor_def upsert_def)
qed

theorem scheduler_load_bound_witness:
  "\<exists>txs. parse_and_schedule (x_cfg True 2 0) (map_of [(3, 0), (4, 0), (5, 0), (6, 0)]) four_deposits = Some txs
     \<and> load_of 0 txs \<le> max_allowed 4 2 \<and> max_allowed 4 2 = 3"
proof -
  obtain txs where txs: "parse_and_schedule (x_cfg True 2 0) (map_of [(3, 0), (4, 0), (5, 0), (6, 0)]) four_deposits = Some txs"
    using four_deposits_scheduled by auto
  have "length four_deposits = 4" by (simp add: four_deposits_def)
  then show ?thesis using scheduler_load_bound [OF txs, of 0] txs max_allowed_4_2 by simp
qed

definition one_payment :: "(digest \<times> bytes list) list" where
  "one_payment = [(7, [tx_raw 5 (payment 3 4)])]"

lemma one_payment_runs:
  "\<exists>s'. execute_in_order (x_cfg False 2 0) (\<lambda>_. []) one_payment (x_state [(3, 0), (4, 1)] 0) = Some s'
     \<and> schedule_partition s' 4 = Some 0"
  "\<exists>s'. execute_in_order (x_cfg False 2 1) (\<lambda>_. []) one_payment (x_state [(3, 0), (4, 1)] 1) = Some s'"
  by (simp_all add: one_payment_def execute_next_def execute_batch_def parse_and_schedule_def tx_raw_simps
      determine_locality_def lock_and_enqueue_transaction_def handle_migrate_out_transaction_def
      is_ready_to_execute_def is_account_unlocked_or_head_def bump_def
      process_incoming_transfers_def drain_incoming_def keys_def send_feedback_if_needed_def Let_def)

theorem executors_agree_on_partition_witness:
  "\<exists>s' t'. execute_in_order (x_cfg False 2 0) (\<lambda>_. []) one_payment (x_state [(3, 0), (4, 1)] 0) = Some s'
     \<and> execute_in_order (x_cfg False 2 1) (\<lambda>_. []) one_payment (x_state [(3, 0), (4, 1)] 1) = Some t'
     \<and> schedule_partition s' = schedule_partition t' \<and> schedule_partition t' 4 = Some 0"
proof -
  obtain s' t' where r: "execute_in_order (x_cfg False 2 0) (\<lambda>_. []) one_payment (x_state [(3, 0), (4, 1)] 0) = Some s'"
    "execute_in_order (x_cfg False 2 1) (\<lambda>_. []) one_payment (x_state [(3, 0), (4, 1)] 1) = Some t'"
    "schedule_partition s' 4 = Some 0"
    using one_payment_runs by blast
  show ?thesis using executors_agree_on_partition [OF r(1,2)] r by simp
qed

end
