(* ===== verification/Pipeline.thy ===== *)
theory Pipeline
  imports Executor_Tasks Executor_Runs
begin

text \<open>
  The way of committed batches through a validator: consensus outputs certificates, \<open>analyze\<close>
  numbers their batches, the worker's router reads the batches and sends them to the executors,
  the network delivers them in any order, and the executors run them. The validator has one worker, the
  default of the repository's scripts; several routers are the subject of \<open>routed_by_workers\<close>.
\<close>

definition router_commands :: "sent \<Rightarrow> (digest \<times> nat) list" where
  "router_commands ms = List.map_filter (\<lambda>(_, m). case receive_primary_message m of
     ToRouter d n \<Rightarrow> Some (d, n) | ToSynchronizer _ \<Rightarrow> None) ms"

lemma router_commands_executes: "router_commands ms = executes ms"
  by (simp add: router_commands_def executes_def) (rule arg_cong [of _ _ "\<lambda>f. List.map_filter f ms"],
    auto simp: fun_eq_iff split: primary_worker_message.split)

definition messages_to :: "socket_addr \<Rightarrow> (socket_addr \<times> router_message) list \<Rightarrow> router_message list" where
  "messages_to addr out = map snd (filter (\<lambda>(a, _). a = addr) out)"

text \<open>The store of the worker has the batches, none of them empty.\<close>

definition batches_stored ::
    "worker_codec \<Rightarrow> (digest \<Rightarrow> string + bytes option) \<Rightarrow> (digest \<Rightarrow> bytes list) \<Rightarrow> digest list \<Rightarrow> bool" where
  "batches_stored K read txs ds \<longleftrightarrow>
     (\<forall>d\<in>set ds. txs d \<noteq> [] \<and> (\<exists>data. read d = Inr (Some data) \<and> de_message K data = Some (Batch (txs d))))"

lemma router_run_stored:
  assumes "batches_stored K read txs (map fst cmds)" "(e, addr) \<in> set addrs" "distinct (map snd addrs)"
    and "router_run K addrs read cmds = (left, out)"
  shows "left = [] \<and> messages_to addr out = map (\<lambda>(d, n). ExecuteBatch d n (txs d)) cmds"
  using assms(1,4)
proof (induction cmds arbitrary: left out)
  case (Cons cmd cmds)
  obtain d n where cmd: "cmd = (d, n)" by (cases cmd)
  obtain left1 out1 where run: "router_run K addrs read cmds = (left1, out1)" by fastforce
  then have IH: "left1 = []" "messages_to addr out1 = map (\<lambda>(d, n). ExecuteBatch d n (txs d)) cmds"
    using Cons.IH Cons.prems(1) by (auto simp: batches_stored_def)
  have step: "router_step K addrs read (cmd # cmds) = Some (cmds, map (\<lambda>(_, a). (a, ExecuteBatch d n (txs d))) addrs)"
    using Cons.prems(1) by (auto simp: cmd batches_stored_def router_step_def route_command_def message_for_def)
  have "filter (\<lambda>(_, a). a = addr) addrs = [(e, addr)]"
    using assms(2,3) by (induction addrs) (auto simp: filter_empty_conv rev_image_eqI)
  then have "messages_to addr (map (\<lambda>(_, a). (a, m)) addrs) = [m]" for m
    by (simp add: messages_to_def filter_map comp_def split_def)
  then show ?case
    using Cons.prems(2) IH step run by (auto simp: messages_to_def cmd)
qed (simp add: messages_to_def)

lemma delivered_batches:
  assumes "analyze it [(w, a)] outs 0 = Some (ms, n')" "ds = committed_payload [(w, a)] outs" "length ds < 2 ^ 64"
    and "batches_stored K read txs ds" "(e, addr) \<in> set addrs" "distinct (map snd addrs)"
    and "router_run K addrs read (router_commands ms) = (left, out)"
  shows "left = [] \<and> map receive_router_message (messages_to addr out) = map (\<lambda>i. (ds ! i, i, txs (ds ! i))) [0..<length ds]"
proof -
  have ex: "router_commands ms = zip ds [0..<length ds]"
    using executes_one_worker [OF assms(1)] assms(2,3) by (simp add: router_commands_executes)
  then have "batches_stored K read txs (map fst (router_commands ms))" using assms(4) by simp
  from router_run_stored [OF this assms(5-7)]
  have "left = []" "messages_to addr out = map (\<lambda>(d, n). ExecuteBatch d n (txs d)) (zip ds [0..<length ds])"
    by (simp_all add: ex)
  moreover have "zip ds [0..<length ds] = map (\<lambda>i. (ds ! i, i)) [0..<length ds]"
    by (rule nth_equalityI) simp_all
  ultimately show ?thesis by simp
qed

text \<open>An executor that gets the numbered batches, from one router or several.\<close>

lemma numbered_in_order:
  assumes "mset delivered = mset (map (\<lambda>i. (ds ! i, i, txs (ds ! i))) [0..<length ds])" "within_buffer delivered"
    and "length ds < 2 ^ 64" "\<forall>d\<in>set ds. txs d \<noteq> []" "x_buffer s = []" "next_sequence s = 0"
  shows "executor_run cfg arr delivered s = execute_in_order cfg arr (map (\<lambda>d. (d, txs d)) ds) s"
proof -
  let ?bs = "map (\<lambda>d. (d, txs d)) ds"
  have "map (\<lambda>i. (fst (?bs ! i), next_sequence s + i, snd (?bs ! i))) [0..<length ?bs]
      = map (\<lambda>i. (ds ! i, i, txs (ds ! i))) [0..<length ds]"
    using assms(6) by (intro nth_equalityI) simp_all
  then have "mset delivered = mset (map (\<lambda>i. (fst (?bs ! i), next_sequence s + i, snd (?bs ! i))) [0..<length ?bs])"
    using assms(1) by (simp only:)
  moreover have "(0, []) \<notin> set ?bs" "next_sequence s + length ?bs < 2 ^ 64" using assms(3,4,6) by auto
  ultimately show ?thesis using executor_runs_in_sequence [OF assms(5,2)] by blast
qed

lemma pipeline_in_order:
  assumes "analyze it [(w, a)] outs 0 = Some (ms, n')" "ds = committed_payload [(w, a)] outs" "length ds < 2 ^ 64"
    and "batches_stored K read txs ds" "(e, addr) \<in> set addrs" "distinct (map snd addrs)"
    and "router_run K addrs read (router_commands ms) = (left, out)"
    and "mset delivered = mset (map receive_router_message (messages_to addr out))" "within_buffer delivered"
    and "x_buffer s = []" "next_sequence s = 0"
  shows "left = [] \<and> executor_run cfg arr delivered s = execute_in_order cfg arr (map (\<lambda>d. (d, txs d)) ds) s"
proof -
  note d = delivered_batches [OF assms(1-7)]
  have "\<forall>d\<in>set ds. txs d \<noteq> []" using assms(4) by (simp add: batches_stored_def)
  then show ?thesis using numbered_in_order [OF _ assms(9,3) _ assms(10,11)] assms(8) d by simp
qed

text \<open>Several routers, each of which gets the commands for the batches of its own worker.\<close>

lemma sum_filter_mset: "\<forall>x\<in>#M. g x < W \<Longrightarrow> (\<Sum>w<W. filter_mset (\<lambda>x. g x = w) M) = (M :: 'a multiset)" for g :: "'a \<Rightarrow> nat"
proof (induction M)
  case (add x M)
  have "(\<Sum>w<W. filter_mset (\<lambda>x. g x = w) (add_mset x M))
      = (\<Sum>w<W. (if w = g x then {#x#} else {#}) + filter_mset (\<lambda>x. g x = w) M)"
    by (rule sum.cong) auto
  also have "\<dots> = (\<Sum>w<W. if w = g x then {#x#} else {#}) + M" using add by (simp add: sum.distrib)
  also have "(\<Sum>w<W. if w = g x then {#x#} else {#}) = {#x#}" using add.prems by simp
  finally show ?case by simp
qed simp

lemma image_mset_sum_lessThan: "image_mset f (\<Sum>w<W. M w) = (\<Sum>w<(W::nat). image_mset f (M w))"
  by (induction W) simp_all

lemma routed_by_workers:
  fixes W :: nat
  assumes "\<And>w. w < W \<Longrightarrow> router_run K addrs (read w) (filter (\<lambda>(d, n). part n = w) (zip ds [0..<length ds])) = (left w, out w)"
    and "\<And>w. w < W \<Longrightarrow> batches_stored K (read w) txs (map fst (filter (\<lambda>(d, n). part n = w) (zip ds [0..<length ds])))"
    and "\<And>n. n < length ds \<Longrightarrow> part n < W" "(e, addr) \<in> set addrs" "distinct (map snd addrs)"
  shows "\<And>w. w < W \<Longrightarrow> left w = []"
    and "(\<Sum>w<W. mset (map receive_router_message (messages_to addr (out w))))
      = mset (map (\<lambda>i. (ds ! i, i, txs (ds ! i))) [0..<length ds])"
proof -
  let ?cmds = "zip ds [0..<length ds]" and ?msg = "\<lambda>(d, n). (d, n, txs d)"
  note r = router_run_stored [OF assms(2,4,5,1)]
  show "left w = []" if "w < W" for w using r [OF that that] by blast
  have "mset (map receive_router_message (messages_to addr (out w)))
      = image_mset ?msg (filter_mset (\<lambda>(d, n). part n = w) (mset ?cmds))" if "w < W" for w
    using r [OF that that] by (simp add: mset_map [symmetric] mset_filter [symmetric] comp_def split_def del: mset_map mset_filter)
  then have "(\<Sum>w<W. mset (map receive_router_message (messages_to addr (out w))))
      = (\<Sum>w<W. image_mset ?msg (filter_mset (\<lambda>(d, n). part n = w) (mset ?cmds)))" by simp
  also have "\<dots> = image_mset ?msg (\<Sum>w<W. filter_mset (\<lambda>x. part (snd x) = w) (mset ?cmds))"
    unfolding split_def by (rule image_mset_sum_lessThan [symmetric])
  also have "\<dots> = image_mset ?msg (mset ?cmds)"
    using assms(3) by (subst sum_filter_mset) (auto simp: set_zip)
  also have "\<dots> = mset (map (\<lambda>i. (ds ! i, i, txs (ds ! i))) [0..<length ds])"
    by (subst mset_map [symmetric], rule arg_cong [of _ _ mset], rule nth_equalityI) simp_all
  finally show "(\<Sum>w<W. mset (map receive_router_message (messages_to addr (out w))))
      = mset (map (\<lambda>i. (ds ! i, i, txs (ds ! i))) [0..<length ds])" .
qed

text \<open>
  C25: From consensus to the executors: when a validator with one worker holds the batches of the
  certificates that consensus outputs, none of them empty, its router sends all of them, and an executor that gets the
  router's messages in any order, as long as none is overtaken by one more than 5000 behind it, does what
  executing the batches one after the other does, in the order of the certificates and, within one, of its
  payload: the same state, the same messages, the same panics.
\<close>

theorem committed_batches_run_in_order:
  assumes "analyze it [(w, a)] outs 0 = Some (ms, n')" "ds = committed_payload [(w, a)] outs" "length ds < 2 ^ 64"
    and "batches_stored K read txs ds" "(e, addr) \<in> set addrs" "distinct (map snd addrs)"
    and "router_run K addrs read (router_commands ms) = (left, out)"
    and "mset delivered = mset (map receive_router_message (messages_to addr out))" "within_buffer delivered"
  shows "left = [] \<and> executor_run cfg arr delivered (executor_init rng lo hi me p)
    = execute_in_order cfg arr (map (\<lambda>d. (d, txs d)) ds) (executor_init rng lo hi me p)"
  by (rule pipeline_in_order [OF assms]) (simp_all add: executor_init_def)


subsection \<open>Examples\<close>

definition payment_certificate :: certificate where
  "payment_certificate = \<lparr>c_header = header_default\<lparr>h_author := 1, h_round := 3, h_payload := [(10, 0), (20, 0)]\<rparr>, c_votes = []\<rparr>"

definition payment_txs :: "digest \<Rightarrow> bytes list" where
  "payment_txs d = (if d = 10 then [tx_raw 5 (deposit 3)] else [tx_raw 6 (payment 3 4)])"

definition payment_codec :: worker_codec where
  "payment_codec = \<lparr>ser_message = (\<lambda>m. []), de_message = (\<lambda>b. Some (Batch (payment_txs (if b = [1] then 10 else 20))))\<rparr>"

definition payment_reads :: "digest \<Rightarrow> string + bytes option" where
  "payment_reads d = Inr (Some (if d = 10 then [1] else [2]))"

definition payment_it :: iterations where
  "payment_it = \<lparr>it_batches = (\<lambda>x. x), it_notices = (\<lambda>x. x)\<rparr>"

lemma payment_stored: "batches_stored payment_codec payment_reads payment_txs [10, 20]"
  by (simp add: batches_stored_def payment_codec_def payment_reads_def payment_txs_def)

lemma payment_analyzed:
  "analyze payment_it [(0, ''w'')] [OutCertificate payment_certificate] 0
     = Some ([(''w'', CommittedBatches 3 [10, 20]), (''w'', Execute 10 0 0), (''w'', Execute 20 0 1)], 2)"
  "committed_payload [(0, ''w'')] [OutCertificate payment_certificate] = [10, 20]"
  by (simp_all add: payment_certificate_def c_round_def batches_by_worker_def group_by_def upsert_def get_or_def known_payload_def wadd_def)

lemma payment_routed:
  "router_run payment_codec [(0, ''x'')] payment_reads (router_commands
      [(''w'', CommittedBatches 3 [10, 20]), (''w'', Execute 10 0 0), (''w'', Execute 20 0 1)])
    = ([], [(''x'', ExecuteBatch 10 0 (payment_txs 10)), (''x'', ExecuteBatch 20 1 (payment_txs 20))])"
  by (simp add: router_commands_executes router_step_def route_command_def message_for_def payment_codec_def payment_reads_def)
    (simp add: payment_txs_def)

lemma payment_delivered:
  "mset [(20, 1, payment_txs 20), (10, 0, payment_txs 10)] = mset (map receive_router_message (messages_to ''x''
     [(''x'', ExecuteBatch 10 0 (payment_txs 10)), (''x'', ExecuteBatch 20 1 (payment_txs 20))]))"
  by (simp add: messages_to_def)

lemma payment_within: "within_buffer [(20, 1, payment_txs 20), (10, 0, payment_txs 10)]"
  by (simp add: within_buffer_def)

theorem committed_batches_run_in_order_witness:
  "executor_run (x_cfg True 2 0) (\<lambda>_. []) [(20, 1, payment_txs 20), (10, 0, payment_txs 10)] (x_state [(3, 0), (4, 1)] 0)
     = execute_in_order (x_cfg True 2 0) (\<lambda>_. []) [(10, payment_txs 10), (20, payment_txs 20)] (x_state [(3, 0), (4, 1)] 0)"
  using committed_batches_run_in_order [OF payment_analyzed(1) payment_analyzed(2) [symmetric] _ payment_stored, of 0 "''x''",
      OF _ _ _ payment_routed payment_delivered payment_within]
  by (simp add: x_state_def)


subsection \<open>An empty batch\<close>

text \<open>
  An empty batch can stop every executor: a worker takes any batch of another worker, also
  one without transactions, the router announces it as a bare sequence number, and an executor that gets
  it before its turn panics, although a full batch in its place would wait.
\<close>

theorem empty_batch_panics_executors:
  assumes "de_message K data = Some (Batch [])" "next_sequence s < n"
  shows "receive_worker_message K data = ToProcessor data 0
    \<and> route_command K [(e, addr)] (Inr (Some data)) (d, n) = Some [(addr, SequenceSync n)]
    \<and> process_execute cfg arr (receive_router_message (SequenceSync n)) s = None
    \<and> (length (x_buffer s) < 5000 \<longrightarrow> raws \<noteq> [] \<longrightarrow> process_execute cfg arr (d, n, raws) s \<noteq> None)"
  using assms by (simp add: receive_worker_message_def route_command_def message_for_def process_execute_def)

theorem empty_batch_panics_executors_witness:
  "process_execute (x_cfg True 2 0) (\<lambda>_. []) (receive_router_message (SequenceSync 1)) (x_state [(3, 0)] 0) = None"
  using empty_batch_panics_executors [of "\<lparr>ser_message = (\<lambda>m. []), de_message = (\<lambda>b. Some (Batch []))\<rparr>" "[]"
      "x_state [(3, 0)] 0" 1 0 "''x''" 5 "x_cfg True 2 0" "\<lambda>_. []" "[[]]"]
  by (simp add: executor_init_def)

end
