(* ===== verification/Worker_Sync.thy ===== *)
theory Worker_Sync
  imports Executor_Tasks
begin

text \<open>
  The synchronizer of a worker (\<^verbatim>\<open>worker/src/synchronizer.rs\<close>): it asks other workers for
  missing batches, follows the commits, forwards migration notices to the clients and collects garbage.

  A future of its pool is a channel number with the digest it waits for and whether it was
  cancelled. The answer of the store to a read is an argument of each step. The handler of committed
  batches waits for each batch within the loop: \<open>ws_waits\<close> holds the batches it has still to
  see, and no other event is handled until it is empty (\<open>Waits\<close>).
\<close>

record worker_sync =
  ws_round :: round
  ws_pending :: "(digest, round \<times> nat \<times> nat) hmap"
  ws_committed :: "(round, digest list) hmap"
  ws_pool :: "(nat \<times> digest \<times> bool) list"
  ws_next_channel :: nat
  ws_waits :: "digest list"

record worker_sync_config =
  wc_name :: public_key
  wc_id :: worker_id
  wc_committee :: committee
  wc_gc_depth :: round
  wc_sync_retry_delay :: nat
  wc_sync_retry_nodes :: nat
  wc_codec :: worker_codec
  wc_notices :: "(public_key \<times> migration_notice list) list \<Rightarrow> (public_key \<times> migration_notice list) list"

definition worker_sync_init :: worker_sync where
  "worker_sync_init = \<lparr>ws_round = 0, ws_pending = [], ws_committed = [], ws_pool = [], ws_next_channel = 0, ws_waits = []\<rparr>"

datatype sync_effect =
    RequestBatches socket_addr "digest list" public_key
  | RetryBatches "socket_addr list" "digest list" public_key nat
  | NotifyClient socket_addr migration_message
  | DeleteBatch digest

datatype sync_event =
    FromPrimary primary_worker_message nat
  | WaiterReady nat
  | WaiterStopped nat
  | RetryTimer nat
  | CommittedReady

datatype sync_result =
    Waits
  | Panics
  | Steps worker_sync "sync_effect list"

type_synonym batch_reader = "digest \<Rightarrow> string + bytes option"

subsection \<open>Handlers\<close>

text \<open>\<open>Synchronize\<close>: the digests to request, and the state with a waiter for each new digest.\<close>

fun sync_missing :: "batch_reader \<Rightarrow> nat \<Rightarrow> digest list \<Rightarrow> worker_sync \<Rightarrow> worker_sync \<times> digest list" where
  "sync_missing read now [] s = (s, [])"
| "sync_missing read now (d # ds) s =
     (if mem_key (ws_pending s) d then sync_missing read now ds s
      else case read d of
             Inl _ \<Rightarrow> sync_missing read now ds s
           | Inr found \<Rightarrow>
               (let s1 = s\<lparr>ws_pool := ws_pool s @ [(ws_next_channel s, d, False)],
                           ws_pending := AList.update d (ws_round s, ws_next_channel s, now) (ws_pending s),
                           ws_next_channel := ws_next_channel s + 1\<rparr>;
                    (s2, missing) = sync_missing read now ds s1
                in (s2, if found = None then d # missing else missing)))"

definition handle_synchronize ::
    "worker_sync_config \<Rightarrow> batch_reader \<Rightarrow> nat \<Rightarrow> digest list \<Rightarrow> public_key \<Rightarrow> worker_sync \<Rightarrow> sync_result" where
  "handle_synchronize cfg read now ds target s =
     (let (s1, missing) = sync_missing read now ds s
      in case worker (wc_committee cfg) target (wc_id cfg) of
           Inl _ \<Rightarrow> Steps s1 []
         | Inr x \<Rightarrow> Steps s1 [RequestBatches (worker_to_worker x) missing (wc_name cfg)])"

definition notices_by_client :: "committee \<Rightarrow> migration_notice list \<Rightarrow> (public_key \<times> migration_notice list) list" where
  "notices_by_client com ns =
     map (\<lambda>(pk, ps). (pk, map snd ps))
       (group_by fst (List.map_filter (\<lambda>n. map_option (\<lambda>pk. (pk, n)) (home_validator com (account_id n))) ns))"

definition handle_migration_notices :: "worker_sync_config \<Rightarrow> migration_notice list \<Rightarrow> sync_effect list" where
  "handle_migration_notices cfg ns =
     concat (map (\<lambda>(pk, client_notices).
         case client_reply (wc_committee cfg) pk of
           Inl _ \<Rightarrow> []
         | Inr addr \<Rightarrow> map (\<lambda>chunk. NotifyClient addr \<lparr>mm_sender = wc_name cfg, mm_notices = chunk\<rparr>)
             (chunks MIGRATION_CHUNK_SIZE client_notices))
       (iteration (wc_notices cfg) (notices_by_client (wc_committee cfg) ns)))"

definition cancel_old :: "round \<Rightarrow> worker_sync \<Rightarrow> worker_sync" where
  "cancel_old gc_round s =
     s\<lparr>ws_pool := map (\<lambda>(ch, d, c). (ch, d, c \<or> (\<exists>(r, ch', _)\<in>set (vals (ws_pending s)). r \<le> gc_round \<and> ch' = ch))) (ws_pool s),
       ws_pending := filter (\<lambda>(_, r, _, _). gc_round < r) (ws_pending s)\<rparr>"

definition handle_cleanup :: "worker_sync_config \<Rightarrow> round \<Rightarrow> worker_sync \<Rightarrow> worker_sync \<times> sync_effect list" where
  "handle_cleanup cfg r s0 =
     (let s = s0\<lparr>ws_round := r\<rparr>; depth = wc_gc_depth cfg
      in if r < depth then (s, [])
         else let s1 = cancel_old (r - depth) s
              in if r < wmul 64 2 depth then (s1, [])
                 else let old = (\<lambda>(q, _). q \<le> r - wmul 64 2 depth)
                      in (s1\<lparr>ws_committed := filter (\<lambda>e. \<not> old e) (ws_committed s1)\<rparr>,
                          map DeleteBatch (concat (map snd (filter old (ws_committed s1))))))"

fun handle_primary_message ::
    "worker_sync_config \<Rightarrow> batch_reader \<Rightarrow> nat \<Rightarrow> primary_worker_message \<Rightarrow> worker_sync \<Rightarrow> sync_result" where
  "handle_primary_message cfg read now (Synchronize ds target) s = handle_synchronize cfg read now ds target s"
| "handle_primary_message cfg read now (CommittedBatches r ds) s =
     Steps (s\<lparr>ws_committed := upsert [] r (\<lambda>l. l @ ds) (ws_committed s), ws_waits := ds\<rparr>) []"
| "handle_primary_message cfg read now (MigrationNotices ns) s = Steps s (handle_migration_notices cfg ns)"
| "handle_primary_message cfg read now (Execute d w n) s = Steps s []"
| "handle_primary_message cfg read now (Cleanup r) s = (let (s', es) = handle_cleanup cfg r s in Steps s' es)"

text \<open>The next committed batch: it must be in the store, and be a batch.\<close>

definition committed_ready :: "worker_sync_config \<Rightarrow> batch_reader \<Rightarrow> worker_sync \<Rightarrow> sync_result" where
  "committed_ready cfg read s =
     (case ws_waits s of
        [] \<Rightarrow> Waits
      | d # ds \<Rightarrow>
          (case read d of
             Inl _ \<Rightarrow> Panics
           | Inr None \<Rightarrow> Waits
           | Inr (Some data) \<Rightarrow>
               (case de_message (wc_codec cfg) data of
                  Some (Batch _) \<Rightarrow> Steps (s\<lparr>ws_waits := ds\<rparr>) []
                | _ \<Rightarrow> Panics)))"

definition handle_retry_timer :: "worker_sync_config \<Rightarrow> nat \<Rightarrow> worker_sync \<Rightarrow> sync_result" where
  "handle_retry_timer cfg now s =
     (let retry = map fst (filter (\<lambda>(_, _, _, timestamp). timestamp + wc_sync_retry_delay cfg < now) (ws_pending s))
      in Steps s (if retry = [] then []
           else [RetryBatches (map (\<lambda>(_, x). worker_to_worker x) (others_workers (wc_committee cfg) (wc_name cfg) (wc_id cfg)))
                   retry (wc_name cfg) (wc_sync_retry_nodes cfg)]))"

fun sync_step :: "worker_sync_config \<Rightarrow> batch_reader \<Rightarrow> sync_event \<Rightarrow> worker_sync \<Rightarrow> sync_result" where
  "sync_step cfg read CommittedReady s = committed_ready cfg read s"
| "sync_step cfg read (FromPrimary m now) s =
     (if ws_waits s \<noteq> [] then Waits else handle_primary_message cfg read now m s)"
| "sync_step cfg read (WaiterReady ch) s =
     (if ws_waits s \<noteq> [] then Waits
      else case find (\<lambda>(ch', _). ch' = ch) (ws_pool s) of
             Some (_, d, _) \<Rightarrow>
               (case read d of
                  Inr (Some _) \<Rightarrow> Steps (s\<lparr>ws_pool := filter (\<lambda>(ch', _). ch' \<noteq> ch) (ws_pool s), ws_pending := AList.delete d (ws_pending s)\<rparr>) []
                | Inr None \<Rightarrow> Waits
                | Inl _ \<Rightarrow> Steps (s\<lparr>ws_pool := filter (\<lambda>(ch', _). ch' \<noteq> ch) (ws_pool s)\<rparr>) [])
           | None \<Rightarrow> Waits)"
| "sync_step cfg read (WaiterStopped ch) s =
     (if ws_waits s \<noteq> [] then Waits
      else case find (\<lambda>(ch', _). ch' = ch) (ws_pool s) of
             Some (_, _, True) \<Rightarrow> Steps (s\<lparr>ws_pool := filter (\<lambda>(ch', _). ch' \<noteq> ch) (ws_pool s)\<rparr>) []
           | _ \<Rightarrow> Waits)"
| "sync_step cfg read (RetryTimer now) s = (if ws_waits s \<noteq> [] then Waits else handle_retry_timer cfg now s)"

text \<open>A run: an event that cannot be handled has no effect; \<open>None\<close> is a panic.\<close>

fun sync_run :: "worker_sync_config \<Rightarrow> (batch_reader \<times> sync_event) list \<Rightarrow> worker_sync \<Rightarrow> (worker_sync \<times> sync_effect list) option" where
  "sync_run cfg [] s = Some (s, [])"
| "sync_run cfg ((read, e) # es) s =
     (case sync_step cfg read e s of
        Waits \<Rightarrow> sync_run cfg es s
      | Panics \<Rightarrow> None
      | Steps s' out \<Rightarrow> map_option (\<lambda>(s2, out2). (s2, out @ out2)) (sync_run cfg es s'))"

subsection \<open>Requests\<close>

lemma sync_missing_props:
  assumes "sync_missing read now ds s = (s', missing)"
  shows "distinct missing \<and> set missing = {d \<in> set ds. \<not> mem_key (ws_pending s) d \<and> read d = Inr None}
    \<and> (\<forall>d. mem_key (ws_pending s') d \<longleftrightarrow> mem_key (ws_pending s) d \<or> d \<in> set ds \<and> (\<exists>x. read d = Inr x))"
  using assms
proof (induction ds arbitrary: s missing)
  case (Cons d ds)
  show ?case
  proof (cases "mem_key (ws_pending s) d \<or> (\<exists>e. read d = Inl e)")
    case True
    then have "sync_missing read now ds s = (s', missing)" using Cons.prems by (auto split: sum.splits)
    then show ?thesis using Cons.IH True by (fastforce split: sum.splits)
  next
    case False
    then obtain found where f: "read d = Inr found" by (cases "read d") auto
    let ?s = "s\<lparr>ws_pool := ws_pool s @ [(ws_next_channel s, d, False)],
       ws_pending := AList.update d (ws_round s, ws_next_channel s, now) (ws_pending s), ws_next_channel := ws_next_channel s + 1\<rparr>"
    obtain missing1 where m: "sync_missing read now ds ?s = (s', missing1)"
      "missing = (if found = None then d # missing1 else missing1)"
      using Cons.prems False f by (auto split: prod.splits)
    have key: "mem_key (ws_pending ?s) x \<longleftrightarrow> x = d \<or> mem_key (ws_pending s) x" for x
      by (auto simp: mem_key_def al_simps)
    from Cons.IH [OF m(1)] show ?thesis unfolding key m(2) using False f by auto
  qed
qed auto

text \<open>
  A worker asks for a missing batch once: a command to synchronise makes one request, for exactly
  the digests named that it is not already waiting for and that its store does not have, each of them
  once, and from then on it waits for them; named again while it waits, they are not requested again.
\<close>

theorem batches_requested_once:
  assumes "\<forall>d. \<exists>x. read d = Inr x" "worker (wc_committee cfg) target (wc_id cfg) = Inr x" "ws_waits s = []"
  shows "\<exists>s' missing. sync_step cfg read (FromPrimary (Synchronize ds target) now) s
      = Steps s' [RequestBatches (worker_to_worker x) missing (wc_name cfg)]
    \<and> distinct missing \<and> set missing = {d \<in> set ds. \<not> mem_key (ws_pending s) d \<and> read d = Inr None}
    \<and> set ds \<subseteq> {d. mem_key (ws_pending s') d}"
proof -
  obtain s' missing where m: "sync_missing read now ds s = (s', missing)" by fastforce
  show ?thesis using sync_missing_props [OF m] assms m by (auto simp: handle_synchronize_def)
qed

theorem batches_requested_once_witness:
  "\<exists>s' missing. sync_step \<lparr>wc_name = 1, wc_id = 0, wc_committee = committee4, wc_gc_depth = 5, wc_sync_retry_delay = 10,
       wc_sync_retry_nodes = 3, wc_codec = two_batch_codec, wc_notices = (\<lambda>x. x)\<rparr> (\<lambda>d. Inr (if d = 7 then Some [] else None))
       (FromPrimary (Synchronize [7, 8, 8] 2) 100) worker_sync_init = Steps s' [RequestBatches ''u'' missing 1]
    \<and> distinct missing \<and> set missing = {8}"
proof -
  have "{d. (d = 7 \<or> d = 8) \<and> d \<noteq> 7} = {8 :: digest}" by auto
  then show ?thesis
    using batches_requested_once [of "\<lambda>d. Inr (if d = 7 then Some [] else None)"
        "\<lparr>wc_name = 1, wc_id = 0, wc_committee = committee4, wc_gc_depth = 5, wc_sync_retry_delay = 10,
          wc_sync_retry_nodes = 3, wc_codec = two_batch_codec, wc_notices = (\<lambda>x. x)\<rparr>" 2 _ worker_sync_init "[7, 8, 8]" 100]
    by (auto simp: worker_committee4 worker_sync_init_def mem_key_def)
qed

subsection \<open>Waiting for committed batches\<close>

lemma sync_run_stuck:
  assumes "ws_waits s = d # ds" "\<forall>(read, e)\<in>set es. read d = Inr None"
  shows "sync_run cfg es s = Some (s, [])"
  using assms(2)
proof (induction es)
  case (Cons e es)
  obtain read ev where e: "e = (read, ev)" by (cases e)
  have "sync_step cfg read ev s = Waits"
    using assms(1) Cons.prems by (cases ev) (simp_all add: e committed_ready_def)
  then show ?case using Cons by (simp add: e)
qed simp

text \<open>
  A committed batch that was lost on the way blocks its own recovery: when a worker has asked for
  a batch and then learns that the batch is committed, it waits for the batch inside its loop. As long as
  the batch does not arrive, whatever happens, it sends nothing more: the request is never repeated
  to other workers, however often the retry timer expires, and no other request or clean-up is handled.
\<close>

theorem committed_batch_blocks_recovery:
  assumes "worker (wc_committee cfg) target (wc_id cfg) = Inr x" "\<forall>(read, e)\<in>set es. read d = Inr None"
    and "read d = Inr None"
  shows "\<exists>s. sync_run cfg ([(read, FromPrimary (Synchronize [d] target) now), (read, FromPrimary (CommittedBatches r [d]) now)] @ es)
      worker_sync_init = Some (s, [RequestBatches (worker_to_worker x) [d] (wc_name cfg)]) \<and> mem_key (ws_pending s) d"
proof -
  let ?s = "\<lparr>ws_round = 0, ws_pending = [(d, 0, 0, now)], ws_committed = [(r, [d])], ws_pool = [(0, d, False)],
    ws_next_channel = 1, ws_waits = [d]\<rparr>"
  have "sync_run cfg es ?s = Some (?s, [])" using sync_run_stuck [of ?s d "[]" es cfg] assms(2) by simp
  then show ?thesis
    using assms(1,3) by (simp add: worker_sync_init_def handle_synchronize_def mem_key_def upsert_def get_or_def)
qed

theorem committed_batch_blocks_recovery_witness:
  "\<exists>s. sync_run \<lparr>wc_name = 1, wc_id = 0, wc_committee = committee4, wc_gc_depth = 5, wc_sync_retry_delay = 10,
       wc_sync_retry_nodes = 3, wc_codec = two_batch_codec, wc_notices = (\<lambda>x. x)\<rparr>
      ([(\<lambda>d. Inr None, FromPrimary (Synchronize [7] 2) 100), (\<lambda>d. Inr None, FromPrimary (CommittedBatches 3 [7]) 100)]
        @ [(\<lambda>d. Inr None, RetryTimer 1000), (\<lambda>d. Inr None, RetryTimer 2000)])
      worker_sync_init = Some (s, [RequestBatches ''u'' [7] 1]) \<and> mem_key (ws_pending s) 7"
  using committed_batch_blocks_recovery [of "\<lparr>wc_name = 1, wc_id = 0, wc_committee = committee4, wc_gc_depth = 5,
      wc_sync_retry_delay = 10, wc_sync_retry_nodes = 3, wc_codec = two_batch_codec, wc_notices = (\<lambda>x. x)\<rparr>" 2 _
      "[(\<lambda>d. Inr None, RetryTimer 1000), (\<lambda>d. Inr None, RetryTimer 2000)]" 7 "\<lambda>d. Inr None" 100 3]
  by (simp add: worker_committee4)

subsection \<open>Garbage collection\<close>

text \<open>The in-memory store of the worker, as the tasks read it.\<close>

definition store_read :: "store \<Rightarrow> batch_reader" where
  "store_read st d = Inr (map_of st (bytes32 d))"

fun apply_deletes :: "sync_effect list \<Rightarrow> store \<Rightarrow> store" where
  "apply_deletes [] st = st"
| "apply_deletes (DeleteBatch d # es) st = apply_deletes es (AList.delete (bytes32 d) st)"
| "apply_deletes (_ # es) st = apply_deletes es st"

lemma cleanup_deletes:
  assumes "handle_cleanup cfg r s = (s', es)" "e \<in> set es" "2 * wc_gc_depth cfg < 2 ^ 64"
  shows "\<exists>d q ds. e = DeleteBatch d \<and> (q, ds) \<in> set (ws_committed s) \<and> d \<in> set ds \<and> q + 2 * wc_gc_depth cfg \<le> r"
proof -
  have w: "wmul 64 2 (wc_gc_depth cfg) = 2 * wc_gc_depth cfg" using assms(3) by (simp add: wmul_exact)
  obtain d q ds where "2 * wc_gc_depth cfg \<le> r" "e = DeleteBatch d" "(q, ds) \<in> set (ws_committed s)" "d \<in> set ds"
    "q \<le> r - 2 * wc_gc_depth cfg"
    using assms(1,2) unfolding handle_cleanup_def Let_def w by (auto simp: cancel_old_def not_less split: if_splits)
  then show ?thesis by (intro exI [of _ d] exI [of _ q] exI [of _ ds]) simp
qed

lemma apply_deletes_keeps:
  "DeleteBatch d \<notin> set es \<Longrightarrow> map_of (apply_deletes es st) (bytes32 d) = map_of st (bytes32 d)"
  by (induction es st rule: apply_deletes.induct) (auto simp: al_simps bytes32_inject)

text \<open>
  The clean-up keeps recent batches: a batch that was committed only in rounds younger than twice
  the garbage collection depth, or not at all, is still in the store after it, and its router command
  is routed as before.
\<close>

theorem cleanup_keeps_recent_batches:
  assumes "handle_cleanup cfg r s = (s', es)" "2 * wc_gc_depth cfg < 2 ^ 64"
    and "\<forall>(q, ds)\<in>set (ws_committed s). d \<in> set ds \<longrightarrow> r < q + 2 * wc_gc_depth cfg"
  shows "route_command K addrs (store_read (apply_deletes es st) d) (d, n) = route_command K addrs (store_read st d) (d, n)"
proof -
  have "DeleteBatch d \<notin> set es" using cleanup_deletes [OF assms(1) _ assms(2)] assms(3) by fastforce
  then show ?thesis by (simp add: store_read_def apply_deletes_keeps)
qed

text \<open>
  A batch that is committed a second time stops the validator: the worker deletes a batch
  twice the garbage collection depth after it was committed, whatever names it later. When a
  later certificate names the digest again (nothing forbids it, and the primaries still have its payload
  marker), the router waits for it forever and no later batch reaches an executor.
\<close>

theorem recommitted_batch_blocks_router:
  assumes "map_of st (bytes32 d) = Some data" "de_message (wc_codec cfg) data = Some (Batch txs)"
    and "q + 2 * wc_gc_depth cfg \<le> r" "2 * wc_gc_depth cfg < 2 ^ 64"
    and "events = [FromPrimary (CommittedBatches q [d]) now, CommittedReady, FromPrimary (Cleanup r) now]"
  shows "\<exists>s es. sync_run cfg (map (\<lambda>e. (store_read st, e)) events) worker_sync_init = Some (s, es)
    \<and> router_run (wc_codec cfg) addrs (store_read st) [(d, n)] = ([], map (\<lambda>(_, a). (a, message_for (d, n) txs)) addrs)
    \<and> router_run (wc_codec cfg) addrs (store_read (apply_deletes es st)) ((d, n') # cmds) = ((d, n') # cmds, [])"
proof -
  have w: "wmul 64 2 (wc_gc_depth cfg) = 2 * wc_gc_depth cfg" using assms(4) by (simp add: wmul_exact)
  have "\<exists>s. sync_run cfg (map (\<lambda>e. (store_read st, e)) events) worker_sync_init = Some (s, [DeleteBatch d])"
    unfolding assms(5) using assms(1-3)
    by (simp add: worker_sync_init_def committed_ready_def store_read_def handle_cleanup_def Let_def w cancel_old_def upsert_def get_or_def)
  then obtain s where "sync_run cfg (map (\<lambda>e. (store_read st, e)) events) worker_sync_init = Some (s, [DeleteBatch d])" ..
  then show ?thesis
    using assms(1,2) by (intro exI [of _ s] exI [of _ "[DeleteBatch d]"])
      (simp add: router_step_def route_command_def store_read_def al_simps)
qed

definition gc_cfg :: worker_sync_config where
  "gc_cfg = \<lparr>wc_name = 1, wc_id = 0, wc_committee = committee4, wc_gc_depth = 5, wc_sync_retry_delay = 10,
     wc_sync_retry_nodes = 3, wc_codec = two_batch_codec, wc_notices = (\<lambda>x. x)\<rparr>"

theorem cleanup_keeps_recent_batches_witness:
  "let es = snd (handle_cleanup gc_cfg 20 (worker_sync_init\<lparr>ws_committed := [(3, [7]), (12, [8])]\<rparr>)) in
    es = [DeleteBatch 7] \<and> route_command two_batch_codec [(0, ''x'')] (store_read (apply_deletes es [(bytes32 8, [1]), (bytes32 7, [2])]) 8) (8, 4)
      = route_command two_batch_codec [(0, ''x'')] (store_read [(bytes32 8, [1]), (bytes32 7, [2])] 8) (8, 4)"
proof -
  have run: "snd (handle_cleanup gc_cfg 20 (worker_sync_init\<lparr>ws_committed := [(3, [7]), (12, [8])]\<rparr>)) = [DeleteBatch 7]"
    by (simp add: handle_cleanup_def gc_cfg_def cancel_old_def worker_sync_init_def wmul_def Let_def)
  then obtain s' where "handle_cleanup gc_cfg 20 (worker_sync_init\<lparr>ws_committed := [(3, [7]), (12, [8])]\<rparr>) = (s', [DeleteBatch 7])"
    by (metis prod.collapse)
  from cleanup_keeps_recent_batches [OF this, of 8 two_batch_codec "[(0, ''x'')]" "[(bytes32 8, [1]), (bytes32 7, [2])]" 4]
  show ?thesis unfolding run Let_def by (simp add: gc_cfg_def worker_sync_init_def del: apply_deletes.simps)
qed

theorem recommitted_batch_blocks_router_witness:
  "\<exists>s es. sync_run gc_cfg (map (\<lambda>e. (store_read [(bytes32 7, [2])], e))
        [FromPrimary (CommittedBatches 3 [7]) 9, CommittedReady, FromPrimary (Cleanup 13) 9]) worker_sync_init = Some (s, es)
    \<and> router_run two_batch_codec [(0, ''x'')] (store_read [(bytes32 7, [2])]) [(7, 0)] = ([], [(''x'', ExecuteBatch 7 0 [tx_from 5])])
    \<and> router_run two_batch_codec [(0, ''x'')] (store_read (apply_deletes es [(bytes32 7, [2])])) [(7, 100), (8, 101)] = ([(7, 100), (8, 101)], [])"
  using recommitted_batch_blocks_router [of "[(bytes32 7, [2])]" 7 "[2]" gc_cfg "[tx_from 5]" 3 13 _ 9 "[(0, ''x'')]" 0 100 "[(8, 101)]",
      OF _ _ _ _ refl]
  by (simp add: gc_cfg_def two_batch_codec_def message_for_def)

end
