(* ===== verification/Writeback_Executor.thy ===== *)
theory Writeback_Executor
  imports Batch_Executor
begin

text \<open>
  \<^verbatim>\<open>worker/src/writeback_batch_executor.rs\<close>: the executor in which accounts stay where the
  partition puts them. For a payment between accounts of two executors, the executor of the source
  sends the state of the account to the executor of the destination, which executes the payment and sends the
  new state back; meanwhile both accounts are locked. \<open>None\<close> is a panic. The messages sent
  are kept in the order of sending, one list for each channel.

  The iteration orders of the hash maps and sets that matter are \<open>wc_pick\<close> (the account drained
  next) and \<open>wc_arrange\<close> (the transactions whose message has arrived).
\<close>

datatype wb_locality =
    LocalTx
  | DistributedSource nat nat
  | DistributedDest nat nat

record wb_pending =
  wp_bytes :: bytes
  wp_header :: tx_header
  wp_sb_tx :: sb_transaction
  wp_digest :: digest
  wp_required :: "nat list"
  wp_locality :: wb_locality

abbreviation wp_id :: "wb_pending \<Rightarrow> tx_id" where
  "wp_id p \<equiv> th_id (wp_header p)"

record wb_statistics =
  ws_total_transactions :: nat
  ws_lock_hits :: nat
  ws_eager_executions :: nat
  ws_current_queue_depth :: nat
  ws_max_single_queue_depth :: nat
  ws_max_total_queue_depth :: nat

text \<open>\<open>StateWritebackArrival\<close> and \<open>StateWritebackRequest\<close> of
  \<^verbatim>\<open>worker/src/writeback_state_helper.rs\<close>.\<close>

record writeback_arrival =
  wa_tx_id :: tx_id
  wa_src_account :: nat
  wa_state :: account_state
  wa_success :: bool

record writeback_request =
  wr_writeback :: writeback_arrival
  wr_src_executor :: nat

type_synonym wb_queues = "(nat, wb_pending list) hmap"

record wb_config =
  wc_committee :: committee
  wc_executor_id :: nat
  wc_partition :: "nat \<Rightarrow> nat option"
  wc_pick :: "nat list \<Rightarrow> nat"
  wc_arrange :: "tx_id list \<Rightarrow> tx_id list"

record wb_executor =
  wb_store :: "nat \<Rightarrow> account_state option"
  wb_locks :: "nat \<Rightarrow> tx_id option"
  wb_queues :: wb_queues
  wb_transfers :: "(tx_id, state_transfer) hmap"
  wb_writebacks :: "(tx_id, writeback_arrival) hmap"
  wb_dest_accounts :: "tx_id \<Rightarrow> nat option"
  wb_stats :: wb_statistics
  wb_outgoing :: "tx_id \<Rightarrow> transfer_request option"
  wb_incoming_transfers :: "(tx_id, state_transfer) hmap"
  wb_incoming_writebacks :: "(tx_id, writeback_arrival) hmap"
  wb_executed_tx_count :: nat
  wb_replies_out :: "reply_request list"
  wb_transfers_out :: "transfer_request list"
  wb_writebacks_out :: "writeback_request list"

definition wb_statistics_new :: wb_statistics where
  "wb_statistics_new = \<lparr>ws_total_transactions = 0, ws_lock_hits = 0, ws_eager_executions = 0,
     ws_current_queue_depth = 0, ws_max_single_queue_depth = 0, ws_max_total_queue_depth = 0\<rparr>"

subsection \<open>Start\<close>

definition check_partition_consistency :: "nat \<Rightarrow> partition \<Rightarrow> nat list \<Rightarrow> bool" where
  "check_partition_consistency me p accounts \<longleftrightarrow> (\<forall>a\<in>set accounts. map_of p a = Some me)"

definition wb_initial_accounts :: "nat \<Rightarrow> partition \<Rightarrow> nat list" where
  "wb_initial_accounts me p = filter (\<lambda>a. map_of p a = Some me) (keys p)"

definition wb_init :: "(nat \<Rightarrow> int \<Rightarrow> int \<Rightarrow> nat \<Rightarrow> int) \<Rightarrow> int \<Rightarrow> int \<Rightarrow> nat \<Rightarrow> partition \<Rightarrow> wb_executor option" where
  "wb_init rng lo hi me p =
     (let accounts = wb_initial_accounts me p
      in if \<not> check_partition_consistency me p accounts then None
         else Some \<lparr>wb_store = (\<lambda>a. if a \<in> set accounts then Some (create_account_with_seed rng a lo hi) else None),
           wb_locks = (\<lambda>_. None), wb_queues = [], wb_transfers = [], wb_writebacks = [],
           wb_dest_accounts = (\<lambda>_. None), wb_stats = wb_statistics_new, wb_outgoing = (\<lambda>_. None),
           wb_incoming_transfers = [], wb_incoming_writebacks = [], wb_executed_tx_count = 0,
           wb_replies_out = [], wb_transfers_out = [], wb_writebacks_out = []\<rparr>)"

subsection \<open>Locks and queues\<close>

definition wb_ready_to_execute :: "wb_executor \<Rightarrow> tx_id \<Rightarrow> nat list \<Rightarrow> bool" where
  "wb_ready_to_execute s tid accounts \<longleftrightarrow>
     (\<forall>a\<in>set accounts. (case wb_locks s a of Some owner \<Rightarrow> owner = tid | None \<Rightarrow> True)
        \<and> (case map_of (wb_queues s) a of Some (p # _) \<Rightarrow> wp_id p = tid | _ \<Rightarrow> True))"

definition wb_queue_metrics :: "wb_queues \<Rightarrow> wb_statistics \<Rightarrow> wb_statistics" where
  "wb_queue_metrics qs st =
     (let total = sum_list (map (length \<circ> snd) qs)
      in st\<lparr>ws_current_queue_depth := total,
            ws_max_total_queue_depth := max (ws_max_total_queue_depth st) total,
            ws_max_single_queue_depth := fold (max \<circ> length \<circ> snd) qs (ws_max_single_queue_depth st)\<rparr>)"

definition wb_remove_if_empty :: "nat \<Rightarrow> wb_queues \<Rightarrow> wb_queues" where
  "wb_remove_if_empty a qs = (if map_of qs a = Some [] then AList.delete a qs else qs)"

text \<open>The transaction that is returned is the one found in the first queue.\<close>

fun wb_pop_fronts :: "nat list \<Rightarrow> tx_id \<Rightarrow> wb_queues \<Rightarrow> wb_pending option \<Rightarrow> (wb_queues \<times> wb_pending option) option" where
  "wb_pop_fronts [] tid qs first = Some (qs, first)"
| "wb_pop_fronts (a # as) tid qs first =
     (case map_of qs a of
        Some (p # q) \<Rightarrow>
          (if wp_id p \<noteq> tid then None
           else wb_pop_fronts as tid (AList.update a q qs) (case first of None \<Rightarrow> Some p | Some f \<Rightarrow> Some f))
      | _ \<Rightarrow> None)"

definition wb_remove_from_all_queues :: "nat list \<Rightarrow> tx_id \<Rightarrow> wb_queues \<Rightarrow> (wb_queues \<times> wb_pending) option" where
  "wb_remove_from_all_queues accounts tid qs =
     (if accounts = [] then None
      else case wb_pop_fronts accounts tid qs None of
             Some (qs', Some p) \<Rightarrow> Some (fold wb_remove_if_empty accounts qs', p)
           | _ \<Rightarrow> None)"

definition wb_bump :: "((nat \<Rightarrow> nat) \<Rightarrow> wb_statistics \<Rightarrow> wb_statistics) \<Rightarrow> wb_executor \<Rightarrow> wb_executor" where
  "wb_bump field s = s\<lparr>wb_stats := field Suc (wb_stats s)\<rparr>"

fun wb_local_accounts :: "wb_locality \<Rightarrow> nat list \<Rightarrow> nat list" where
  "wb_local_accounts LocalTx required = required"
| "wb_local_accounts (DistributedSource src _) required = [src]"
| "wb_local_accounts (DistributedDest dest _) required = [dest]"

definition wb_lock_and_enqueue ::
    "digest \<Rightarrow> bytes \<Rightarrow> tx_header \<Rightarrow> nat list \<Rightarrow> wb_locality \<Rightarrow> wb_executor \<Rightarrow> wb_executor option" where
  "wb_lock_and_enqueue d raw h required l s =
     map_option (\<lambda>t.
       let accounts = wb_local_accounts l required;
           p = \<lparr>wp_bytes = raw, wp_header = h, wp_sb_tx = t, wp_digest = d, wp_required = required, wp_locality = l\<rparr>
       in (wb_bump ws_lock_hits_update s)\<lparr>
         wb_dest_accounts := (case l of DistributedDest a _ \<Rightarrow> (wb_dest_accounts s)(th_id h \<mapsto> a) | _ \<Rightarrow> wb_dest_accounts s),
         wb_queues := fold (\<lambda>a. upsert [] a (\<lambda>q. q @ [p])) accounts (wb_queues s),
         wb_locks := fold (\<lambda>a m. m(a \<mapsto> th_id h)) accounts (wb_locks s)\<rparr>) (parse_smallbank_payload raw)"

subsection \<open>Executing a local transaction\<close>

text \<open>The accounts afterwards, the success flag and the state in the reply, which for a payment is that of
  the source after the debit.\<close>

definition wb_apply_payload ::
    "sb_transaction \<Rightarrow> (nat \<Rightarrow> account_state option) \<Rightarrow> ((nat \<Rightarrow> account_state option) \<times> bool \<times> account_state) option" where
  "wb_apply_payload t store =
     (case store (sb_account_id t) of
        None \<Rightarrow> None
      | Some x \<Rightarrow>
          (let one = (\<lambda>(x', ok). (store(sb_account_id t \<mapsto> x'), ok, x'))
           in case sb_tx_type t of
                Balance \<Rightarrow> Some (store, True, x)
              | DepositChecking \<Rightarrow> Some (one (execute_deposit_checking (sb_amount t) x))
              | TransactSavings \<Rightarrow> Some (one (execute_transact_savings (sb_amount t) x))
              | WriteCheck \<Rightarrow> Some (one (execute_write_check (sb_amount t) x))
              | SendPayment \<Rightarrow>
                  (let (x', ok) = execute_send_payment_debit (sb_amount t) x;
                       store' = store(sb_account_id t \<mapsto> x')
                   in if \<not> ok then Some (store', False, x')
                      else map_option (\<lambda>y. (store'(sb_dest_account_id t \<mapsto>
                             execute_send_payment_credit (sb_amount t) y), True, x')) (store' (sb_dest_account_id t)))))"

definition wb_reply ::
    "wb_config \<Rightarrow> digest \<Rightarrow> tx_header \<Rightarrow> bool \<Rightarrow> nat \<Rightarrow> account_state option \<Rightarrow> wb_executor \<Rightarrow> wb_executor" where
  "wb_reply cfg d h ok a st s =
     (case client_reply_address (wc_committee cfg) (unat (fst (th_id h))) of
        None \<Rightarrow> s
      | Some addr \<Rightarrow> s\<lparr>wb_replies_out := wb_replies_out s @
          [\<lparr>rq_digest = d, rq_client = addr, rq_tx_type = th_tx_type h, rq_tx_id = th_id h,
            rq_success = ok, rq_account = a, rq_state = st\<rparr>]\<rparr>)"

definition wb_execute_single ::
    "wb_config \<Rightarrow> digest \<Rightarrow> bytes \<Rightarrow> tx_header \<Rightarrow> wb_executor \<Rightarrow> wb_executor option" where
  "wb_execute_single cfg d raw h s0 =
     (let s = s0\<lparr>wb_executed_tx_count := wadd 64 (wb_executed_tx_count s0) 1\<rparr>
      in case parse_smallbank_payload raw of
           None \<Rightarrow> Some (wb_reply cfg d h True 0 None s)
         | Some t \<Rightarrow> map_option (\<lambda>(store, ok, x).
             wb_reply cfg d h ok (sb_account_id t) (Some x) (s\<lparr>wb_store := store\<rparr>)) (wb_apply_payload t (wb_store s)))"

subsection \<open>Sending the state of an account\<close>

definition wb_send_transfer :: "wb_pending \<Rightarrow> nat \<Rightarrow> nat \<Rightarrow> wb_executor \<Rightarrow> wb_executor option" where
  "wb_send_transfer p src dest s =
     (case wb_store s src of
        None \<Rightarrow> None
      | Some x \<Rightarrow>
          (let r = \<lparr>tr_transfer = \<lparr>st_tx_id = wp_id p, st_account = src, st_state = x\<rparr>, tr_dest = dest\<rparr>
           in Some (s\<lparr>wb_outgoing := (wb_outgoing s)(wp_id p \<mapsto> r), wb_transfers_out := wb_transfers_out s @ [r]\<rparr>)))"

subsection \<open>Draining the queues\<close>

text \<open>
  One round of the inner loop on the queue of an account: the state, and \<open>None\<close> if the loop ends, or
  the accounts to add to the work set.
\<close>

definition wb_drain_step :: "wb_config \<Rightarrow> nat \<Rightarrow> wb_executor \<Rightarrow> (wb_executor \<times> nat list option) option" where
  "wb_drain_step cfg a s =
     (case map_of (wb_queues s) a of
        Some (p # _) \<Rightarrow>
          (case wp_locality p of
             DistributedSource src dest \<Rightarrow>
               (if wb_outgoing s (wp_id p) = None then map_option (\<lambda>s'. (s', None)) (wb_send_transfer p src dest s)
                else Some (s, None))
           | DistributedDest _ _ \<Rightarrow> Some (s, None)
           | LocalTx \<Rightarrow>
               (if \<not> wb_ready_to_execute s (wp_id p) (wp_required p) then Some (s, None)
                else do {
                  (qs, p') \<leftarrow> wb_remove_from_all_queues (wp_required p) (wp_id p) (wb_queues s);
                  s' \<leftarrow> wb_execute_single cfg (wp_digest p') (wp_bytes p') (wp_header p') (s\<lparr>wb_queues := qs\<rparr>);
                  Some (s'\<lparr>wb_locks := fold (\<lambda>a m. m(a := None)) (wp_required p') (wb_locks s')\<rparr>,
                    Some (wp_required p')) }))
      | _ \<Rightarrow> Some (s, None))"

definition wb_pending_count :: "wb_queues \<Rightarrow> nat" where
  "wb_pending_count qs = sum_list (map (length \<circ> snd) qs)"

lemma wb_pending_count_update:
  "map_of qs a = Some (t # q) \<Longrightarrow> Suc (wb_pending_count (AList.update a q qs)) = wb_pending_count qs"
  by (induction qs) (auto simp: wb_pending_count_def split: if_splits)

lemma wb_remove_if_empty_count: "wb_pending_count (wb_remove_if_empty a qs) \<le> wb_pending_count qs"
proof -
  have "wb_pending_count (AList.delete a qs) \<le> wb_pending_count qs"
    by (induction qs) (auto simp: wb_pending_count_def)
  then show ?thesis by (simp add: wb_remove_if_empty_def)
qed

lemma wb_pop_fronts_count:
  "wb_pop_fronts as tid qs p = Some (qs', p') \<Longrightarrow> wb_pending_count qs' + length as = wb_pending_count qs"
proof (induction as arbitrary: qs p)
  case (Cons a as)
  then obtain t q p0 where "map_of qs a = Some (t # q)" "wb_pop_fronts as tid (AList.update a q qs) p0 = Some (qs', p')"
    by (auto split: option.splits list.splits if_splits)
  then show ?case using Cons.IH wb_pending_count_update by fastforce
qed simp

lemma wb_remove_from_all_queues_Some:
  assumes "wb_remove_from_all_queues accounts tid qs = Some (qs', p)"
  obtains qs1 where "wb_pop_fronts accounts tid qs None = Some (qs1, Some p)" "qs' = fold wb_remove_if_empty accounts qs1"
    "accounts \<noteq> []"
  using assms by (auto simp: wb_remove_from_all_queues_def split: option.splits if_splits)

lemma wb_remove_count:
  assumes "wb_remove_from_all_queues accounts tid qs = Some (qs', p)"
  shows "wb_pending_count qs' < wb_pending_count qs"
proof -
  obtain qs1 where 1: "wb_pop_fronts accounts tid qs None = Some (qs1, Some p)" "qs' = fold wb_remove_if_empty accounts qs1"
    "accounts \<noteq> []" using assms by (rule wb_remove_from_all_queues_Some)
  have "wb_pending_count (fold wb_remove_if_empty as x) \<le> wb_pending_count x" for as x
    by (induction as arbitrary: x) (auto intro: le_trans wb_remove_if_empty_count)
  then have "wb_pending_count qs' \<le> wb_pending_count qs1" by (simp add: 1(2))
  with wb_pop_fronts_count [OF 1(1)] 1(3) show ?thesis by (cases accounts) auto
qed

lemma wb_reply_frame [simp]:
  "wb_store (wb_reply cfg d h ok a st s) = wb_store s" "wb_locks (wb_reply cfg d h ok a st s) = wb_locks s"
  "wb_queues (wb_reply cfg d h ok a st s) = wb_queues s" "wb_transfers (wb_reply cfg d h ok a st s) = wb_transfers s"
  "wb_writebacks (wb_reply cfg d h ok a st s) = wb_writebacks s"
  "wb_dest_accounts (wb_reply cfg d h ok a st s) = wb_dest_accounts s"
  "wb_outgoing (wb_reply cfg d h ok a st s) = wb_outgoing s"
  "wb_incoming_transfers (wb_reply cfg d h ok a st s) = wb_incoming_transfers s"
  "wb_incoming_writebacks (wb_reply cfg d h ok a st s) = wb_incoming_writebacks s"
  "wb_transfers_out (wb_reply cfg d h ok a st s) = wb_transfers_out s"
  "wb_writebacks_out (wb_reply cfg d h ok a st s) = wb_writebacks_out s"
  by (simp_all add: wb_reply_def split: option.splits)

lemma wb_execute_single_frame:
  assumes "wb_execute_single cfg d raw h s = Some s'"
  shows "wb_queues s' = wb_queues s" "wb_locks s' = wb_locks s" "wb_transfers s' = wb_transfers s"
    "wb_writebacks s' = wb_writebacks s" "wb_dest_accounts s' = wb_dest_accounts s" "wb_outgoing s' = wb_outgoing s"
    "wb_incoming_transfers s' = wb_incoming_transfers s" "wb_incoming_writebacks s' = wb_incoming_writebacks s"
    "wb_transfers_out s' = wb_transfers_out s" "wb_writebacks_out s' = wb_writebacks_out s"
  using assms by (auto simp: wb_execute_single_def Let_def split: option.splits)

text \<open>What a round does, by the kind of the transaction at the head.\<close>

lemma wb_drain_step_cases:
  assumes "wb_drain_step cfg a s = Some (s', r)"
  obtains (stop) "s' = s" "r = None"
  | (send) p q src dest where "map_of (wb_queues s) a = Some (p # q)" "wp_locality p = DistributedSource src dest"
      "wb_send_transfer p src dest s = Some s'" "r = None"
  | (execute) p q qs p' s1 where "map_of (wb_queues s) a = Some (p # q)" "wp_locality p = LocalTx"
      "wb_ready_to_execute s (wp_id p) (wp_required p)"
      "wb_remove_from_all_queues (wp_required p) (wp_id p) (wb_queues s) = Some (qs, p')"
      "wb_execute_single cfg (wp_digest p') (wp_bytes p') (wp_header p') (s\<lparr>wb_queues := qs\<rparr>) = Some s1"
      "s' = s1\<lparr>wb_locks := fold (\<lambda>a m. m(a := None)) (wp_required p') (wb_locks s1)\<rparr>" "r = Some (wp_required p')"
proof (cases "map_of (wb_queues s) a")
  case None
  then show ?thesis using assms stop by (simp add: wb_drain_step_def)
next
  case (Some q0)
  show ?thesis
  proof (cases q0)
    case Nil
    then show ?thesis using assms Some stop by (simp add: wb_drain_step_def)
  next
    case (Cons p q)
    note eq = wb_drain_step_def [of cfg a s, unfolded Some Cons option.case list.case]
    show ?thesis
    proof (cases "wp_locality p")
      case LocalTx
      show ?thesis
      proof (cases "wb_ready_to_execute s (wp_id p) (wp_required p)")
        case False
        then show ?thesis using assms LocalTx stop by (simp add: eq)
      next
        case True
        then obtain qs p' s1 where
          "wb_remove_from_all_queues (wp_required p) (wp_id p) (wb_queues s) = Some (qs, p')"
          "wb_execute_single cfg (wp_digest p') (wp_bytes p') (wp_header p') (s\<lparr>wb_queues := qs\<rparr>) = Some s1"
          "s' = s1\<lparr>wb_locks := fold (\<lambda>a m. m(a := None)) (wp_required p') (wb_locks s1)\<rparr>" "r = Some (wp_required p')"
          using assms LocalTx by (auto simp: eq bind_eq_Some_conv)
        then show ?thesis by (rule execute [OF Some [unfolded Cons] LocalTx True])
      qed
    next
      case (DistributedSource src dest)
      show ?thesis
      proof (cases "wb_outgoing s (wp_id p) = None")
        case True
        then show ?thesis
          using assms DistributedSource send [OF Some [unfolded Cons] DistributedSource] by (auto simp: eq)
      next
        case False
        then show ?thesis using assms DistributedSource stop by (auto simp: eq)
      qed
    next
      case DistributedDest
      then show ?thesis using assms stop by (simp add: eq)
    qed
  qed
qed

lemma wb_drain_step_count:
  assumes "wb_drain_step cfg a s = Some (s', r)"
  shows "wb_pending_count (wb_queues s') \<le> wb_pending_count (wb_queues s)"
    "r = Some un \<Longrightarrow> wb_pending_count (wb_queues s') < wb_pending_count (wb_queues s)"
  using assms
  by (cases rule: wb_drain_step_cases,
      auto simp: wb_send_transfer_def Let_def wb_execute_single_frame(1) dest: wb_remove_count split: option.splits)+

function wb_drain_account :: "wb_config \<Rightarrow> nat \<Rightarrow> wb_executor \<Rightarrow> nat list \<Rightarrow> (wb_executor \<times> nat list) option" where
  "wb_drain_account cfg a s work_set =
     (case wb_drain_step cfg a s of
        None \<Rightarrow> None
      | Some (s', None) \<Rightarrow> Some (s', work_set)
      | Some (s', Some un) \<Rightarrow> wb_drain_account cfg a s' (fold set_insert un work_set))"
  by pat_completeness auto

termination wb_drain_account
  by (relation "measure (\<lambda>(cfg, a, s, work_set). wb_pending_count (wb_queues s))") (auto dest: wb_drain_step_count)

declare wb_drain_account.simps [simp del]

text \<open>\<open>work_set.iter().next()\<close>: some element.\<close>

definition wb_next_account :: "wb_config \<Rightarrow> nat list \<Rightarrow> nat" where
  "wb_next_account cfg work_set = (if wc_pick cfg work_set \<in> set work_set then wc_pick cfg work_set else hd work_set)"

lemma wb_next_account_in: "work_set \<noteq> [] \<Longrightarrow> wb_next_account cfg work_set \<in> set work_set"
  by (simp add: wb_next_account_def)

lemma wb_drain_account_count:
  "wb_drain_account cfg a s wl = Some (s', wl') \<Longrightarrow>
     wb_pending_count (wb_queues s') \<le> wb_pending_count (wb_queues s)
     \<and> (wl' = wl \<or> wb_pending_count (wb_queues s') < wb_pending_count (wb_queues s))"
proof (induction cfg a s wl rule: wb_drain_account.induct)
  case (1 cfg a s wl)
  show ?case
  proof (cases "\<exists>s1 un. wb_drain_step cfg a s = Some (s1, Some un)")
    case True
    then obtain s1 un where step: "wb_drain_step cfg a s = Some (s1, Some un)" by blast
    then have "wb_drain_account cfg a s1 (fold set_insert un wl) = Some (s', wl')"
      using "1.prems" by (subst (asm) wb_drain_account.simps) simp
    with "1.IH" [OF step refl refl] wb_drain_step_count(2) [OF step refl] show ?thesis by auto
  next
    case False
    then obtain s1 where step: "wb_drain_step cfg a s = Some (s1, None)" and "s' = s1" "wl' = wl"
      using "1.prems" by (subst (asm) wb_drain_account.simps) (auto split: option.splits)
    with wb_drain_step_count(1) [OF step] show ?thesis by simp
  qed
qed

function wb_drain_loop :: "wb_config \<Rightarrow> nat list \<Rightarrow> wb_executor \<Rightarrow> wb_executor option" where
  "wb_drain_loop cfg work_set s =
     (if work_set = [] then Some s
      else case wb_drain_account cfg (wb_next_account cfg work_set) s
             (removeAll (wb_next_account cfg work_set) work_set) of
             None \<Rightarrow> None
           | Some (s', work_set') \<Rightarrow> wb_drain_loop cfg work_set' s')"
  by pat_completeness auto

termination wb_drain_loop
proof (relation "inv_image (less_than <*lex*> less_than)
    (\<lambda>(cfg, work_set, s). (wb_pending_count (wb_queues s), length work_set))", goal_cases)
  case (2 cfg work_set s r s' work_set')
  have "length (removeAll (wb_next_account cfg work_set) work_set) < length work_set"
    using wb_next_account_in [OF 2(1), of cfg] by (simp add: length_removeAll_less)
  then show ?case
    using wb_drain_account_count [of cfg "wb_next_account cfg work_set" s] 2 by fastforce
qed auto

declare wb_drain_loop.simps [simp del]

text \<open>What every round keeps, the loops keep.\<close>

lemma wb_drain_account_keeps:
  assumes "wb_drain_account cfg a s wl = Some (s', wl')" "P s"
    and "\<And>a s s' r. P s \<Longrightarrow> wb_drain_step cfg a s = Some (s', r) \<Longrightarrow> P s'"
  shows "P s'"
  using assms
proof (induction cfg a s wl rule: wb_drain_account.induct)
  case (1 cfg a s wl)
  show ?case
  proof (cases "\<exists>s1 un. wb_drain_step cfg a s = Some (s1, Some un)")
    case True
    then obtain s1 un where step: "wb_drain_step cfg a s = Some (s1, Some un)" by blast
    then have rest: "wb_drain_account cfg a s1 (fold set_insert un wl) = Some (s', wl')"
      using "1.prems"(1) by (subst (asm) wb_drain_account.simps) simp
    show ?thesis
      by (rule "1.IH" [OF step refl refl rest "1.prems"(3) [OF "1.prems"(2) step]]) (rule "1.prems"(3))
  next
    case False
    then have "wb_drain_step cfg a s = Some (s', None)"
      using "1.prems"(1) by (subst (asm) wb_drain_account.simps) (auto split: option.splits)
    then show ?thesis using "1.prems"(2,3) by blast
  qed
qed

lemma wb_drain_loop_keeps:
  assumes "wb_drain_loop cfg wl s = Some s'" "P s"
    and "\<And>a s s' r. P s \<Longrightarrow> wb_drain_step cfg a s = Some (s', r) \<Longrightarrow> P s'"
  shows "P s'"
  using assms
proof (induction cfg wl s rule: wb_drain_loop.induct)
  case (1 cfg wl s)
  let ?a = "wb_next_account cfg wl"
  show ?case
  proof (cases "wl = []")
    case True
    then show ?thesis using "1.prems"(1,2) by (subst (asm) wb_drain_loop.simps) simp
  next
    case False
    then obtain s1 wl1 where d: "wb_drain_account cfg ?a s (removeAll ?a wl) = Some (s1, wl1)"
      and rest: "wb_drain_loop cfg wl1 s1 = Some s'"
      using "1.prems"(1) by (subst (asm) wb_drain_loop.simps) (auto split: option.splits)
    have "P s1" by (rule wb_drain_account_keeps [where P = P, OF d "1.prems"(2)]) (rule "1.prems"(3))
    then show ?thesis by (rule "1.IH" [OF False d refl rest]) (rule "1.prems"(3))
  qed
qed

definition wb_drain_pending_queues :: "wb_config \<Rightarrow> nat list \<Rightarrow> wb_executor \<Rightarrow> wb_executor option" where
  "wb_drain_pending_queues cfg unlocked s =
     (if unlocked = [] then Some s else wb_drain_loop cfg (fold set_insert unlocked []) s)"

subsection \<open>The transactions of a batch\<close>

definition wb_determine_locality :: "nat \<Rightarrow> (nat \<Rightarrow> nat option) \<Rightarrow> nat list \<Rightarrow> wb_locality option" where
  "wb_determine_locality me part required =
     (case required of
        [src, dest] \<Rightarrow>
          (case (part src, part dest) of
             (Some s, Some d) \<Rightarrow>
               (if s = me \<and> d = me then Some LocalTx
                else if s = me then Some (DistributedSource src d)
                else if d = me then Some (DistributedDest dest s)
                else None)
           | _ \<Rightarrow> None)
      | _ \<Rightarrow> Some LocalTx)"

text \<open>One transaction of the loop of \<open>execute_batch\<close>, and the loop.\<close>

definition wb_handle_transaction :: "wb_config \<Rightarrow> digest \<Rightarrow> bytes \<Rightarrow> wb_executor \<Rightarrow> wb_executor option" where
  "wb_handle_transaction cfg d raw s0 =
     (case tx_header_parse raw of
        None \<Rightarrow> Some s0
      | Some h \<Rightarrow> do {
          required \<leftarrow> extract_required_accounts raw;
          l \<leftarrow> wb_determine_locality (wc_executor_id cfg) (wc_partition cfg) required;
          let s = wb_bump ws_total_transactions_update s0
          in case l of
               LocalTx \<Rightarrow>
                 (if \<not> wb_ready_to_execute s (th_id h) required then wb_lock_and_enqueue d raw h required l s
                  else wb_execute_single cfg d raw h (wb_bump ws_eager_executions_update s))
             | DistributedSource src dest \<Rightarrow>
                 Option.bind (wb_lock_and_enqueue d raw h required l s) (\<lambda>s1.
                   case map_of (wb_queues s1) src of
                     Some (p # _) \<Rightarrow> (if wp_id p = th_id h then wb_send_transfer p src dest s1 else Some s1)
                   | _ \<Rightarrow> Some s1)
             | DistributedDest _ _ \<Rightarrow> wb_lock_and_enqueue d raw h required l s })"

fun wb_handle_all :: "wb_config \<Rightarrow> digest \<Rightarrow> bytes list \<Rightarrow> wb_executor \<Rightarrow> wb_executor option" where
  "wb_handle_all cfg d [] s = Some s"
| "wb_handle_all cfg d (raw # raws) s = Option.bind (wb_handle_transaction cfg d raw s) (wb_handle_all cfg d raws)"

subsection \<open>Messages that arrive\<close>

text \<open>The state helper inserts into the shared buffers; the executor moves them to its own.\<close>

definition wb_arrange :: "wb_config \<Rightarrow> tx_id list \<Rightarrow> tx_id list" where
  "wb_arrange cfg tids = (if mset (wc_arrange cfg tids) = mset tids then wc_arrange cfg tids else tids)"

lemma mset_wb_arrange [simp]: "mset (wb_arrange cfg tids) = mset tids"
  by (simp add: wb_arrange_def)

lemma set_wb_arrange [simp]: "set (wb_arrange cfg tids) = set tids"
  by (metis mset_wb_arrange set_mset_mset)

lemma wb_arrange_Nil [simp]: "wb_arrange cfg [] = []"
  by (simp add: wb_arrange_def)

definition hmap_extend :: "('k, 'v) hmap \<Rightarrow> ('k, 'v) hmap \<Rightarrow> ('k, 'v) hmap" where
  "hmap_extend new m = fold (\<lambda>(k, v). AList.update k v) new m"

text \<open>A payment whose transfer has arrived, at the executor of the destination.\<close>

definition wb_transfer_one :: "wb_config \<Rightarrow> tx_id \<Rightarrow> wb_executor \<Rightarrow> (wb_executor \<times> nat list) option" where
  "wb_transfer_one cfg tid s =
     (case wb_dest_accounts s tid of
        None \<Rightarrow> Some (s, [])
      | Some a \<Rightarrow>
          (case map_of (wb_queues s) a of
             Some (p # q) \<Rightarrow>
               (if wp_id p \<noteq> tid then Some (s, [])
                else case (map_of (wb_transfers s) tid, wp_locality p) of
                  (Some t, DistributedDest _ src_executor) \<Rightarrow>
                    (let amount = sb_amount (wp_sb_tx p); x = st_state t;
                         success = (f_as_i64 amount \<le> checking_balance x);
                         x' = (if success then x\<lparr>checking_balance := wrap64 (checking_balance x - f_as_i64 amount)\<rparr> else x)
                     in map_option (\<lambda>store.
                          (wb_reply cfg (wp_digest p) (wp_header p) success (st_account t) (Some x')
                            (s\<lparr>wb_transfers := AList.delete tid (wb_transfers s), wb_store := store,
                               wb_queues := wb_remove_if_empty a (AList.update a q (wb_queues s)),
                               wb_writebacks_out := wb_writebacks_out s @
                                 [\<lparr>wr_writeback = \<lparr>wa_tx_id = tid, wa_src_account = st_account t, wa_state = x',
                                     wa_success = success\<rparr>, wr_src_executor = src_executor\<rparr>],
                               wb_dest_accounts := (wb_dest_accounts s)(tid := None),
                               wb_locks := (wb_locks s)(a := None)\<rparr>), [a]))
                          (if success then map_option (\<lambda>y. (wb_store s)(a \<mapsto> execute_send_payment_credit amount y)) (wb_store s a)
                           else Some (wb_store s)))
                | _ \<Rightarrow> None)
           | _ \<Rightarrow> Some (s, [])))"

text \<open>A payment whose new state has come back, at the executor of the source.\<close>

definition wb_writeback_one :: "tx_id \<Rightarrow> wb_executor \<Rightarrow> (wb_executor \<times> nat list) option" where
  "wb_writeback_one tid s =
     (case map_of (wb_writebacks s) tid of
        None \<Rightarrow> None
      | Some w \<Rightarrow>
          (let a = wa_src_account w
           in case map_of (wb_queues s) a of
                Some (p # q) \<Rightarrow>
                  (if wp_id p \<noteq> tid then Some (s, [])
                   else Some (s\<lparr>wb_writebacks := AList.delete tid (wb_writebacks s),
                      wb_queues := wb_remove_if_empty a (AList.update a q (wb_queues s)),
                      wb_store := (case wb_store s a of None \<Rightarrow> wb_store s | Some _ \<Rightarrow> (wb_store s)(a \<mapsto> wa_state w)),
                      wb_outgoing := (wb_outgoing s)(tid := None),
                      wb_locks := (wb_locks s)(a := None)\<rparr>, [a]))
              | _ \<Rightarrow> Some (s, [])))"

fun wb_arrivals :: "(tx_id \<Rightarrow> wb_executor \<Rightarrow> (wb_executor \<times> nat list) option) \<Rightarrow> tx_id list \<Rightarrow> wb_executor
    \<Rightarrow> (wb_executor \<times> nat list) option" where
  "wb_arrivals one [] s = Some (s, [])"
| "wb_arrivals one (tid # tids) s = do {
     (s1, un) \<leftarrow> one tid s;
     (s2, uns) \<leftarrow> wb_arrivals one tids s1;
     Some (s2, un @ uns) }"

definition wb_drain_incoming_transfers :: "wb_executor \<Rightarrow> wb_executor" where
  "wb_drain_incoming_transfers s = s\<lparr>wb_incoming_transfers := [],
     wb_transfers := hmap_extend (wb_incoming_transfers s) (wb_transfers s)\<rparr>"

definition wb_drain_incoming_writebacks :: "wb_executor \<Rightarrow> wb_executor" where
  "wb_drain_incoming_writebacks s = s\<lparr>wb_incoming_writebacks := [],
     wb_writebacks := hmap_extend (wb_incoming_writebacks s) (wb_writebacks s)\<rparr>"

definition wb_process_incoming_transfers :: "wb_config \<Rightarrow> wb_executor \<Rightarrow> wb_executor option" where
  "wb_process_incoming_transfers cfg s0 = (let s = wb_drain_incoming_transfers s0 in do {
     (s', unlocked) \<leftarrow> wb_arrivals (wb_transfer_one cfg) (wb_arrange cfg (keys (wb_transfers s))) s;
     wb_drain_pending_queues cfg unlocked s' })"

definition wb_process_incoming_writebacks :: "wb_config \<Rightarrow> wb_executor \<Rightarrow> wb_executor option" where
  "wb_process_incoming_writebacks cfg s0 = (let s = wb_drain_incoming_writebacks s0 in do {
     (s', unlocked) \<leftarrow> wb_arrivals wb_writeback_one (wb_arrange cfg (keys (wb_writebacks s))) s;
     wb_drain_pending_queues cfg unlocked s' })"

subsection \<open>Batches\<close>

text \<open>The two halves of the state helper's \<open>handle_executor_message\<close> that fill the shared buffers.\<close>

definition wb_deliver_transfer :: "state_transfer \<Rightarrow> wb_executor \<Rightarrow> wb_executor" where
  "wb_deliver_transfer t s = s\<lparr>wb_incoming_transfers := AList.update (st_tx_id t) t (wb_incoming_transfers s)\<rparr>"

definition wb_deliver_writeback :: "writeback_arrival \<Rightarrow> wb_executor \<Rightarrow> wb_executor" where
  "wb_deliver_writeback w s = s\<lparr>wb_incoming_writebacks := AList.update (wa_tx_id w) w (wb_incoming_writebacks s)\<rparr>"

text \<open>\<open>ws\<close> and \<open>ts\<close> are the messages that the state helper put into the shared buffers before
  they are taken: the transfers later than the writebacks.\<close>

definition wb_execute_batch ::
    "wb_config \<Rightarrow> writeback_arrival list \<times> state_transfer list \<Rightarrow> digest \<Rightarrow> bytes list \<Rightarrow> wb_executor \<Rightarrow> wb_executor option" where
  "wb_execute_batch cfg arrived d raws s = do {
     s1 \<leftarrow> wb_handle_all cfg d raws s;
     s2 \<leftarrow> wb_process_incoming_writebacks cfg (fold wb_deliver_writeback (fst arrived) s1);
     s3 \<leftarrow> wb_process_incoming_transfers cfg (fold wb_deliver_transfer (snd arrived) s2);
     Some (s3\<lparr>wb_stats := wb_queue_metrics (wb_queues s3) (wb_stats s3)\<rparr>) }"

text \<open>The executor with its sequence number and its buffer of later batches.\<close>

record wb_node =
  wn_executor :: wb_executor
  wn_next_sequence :: nat
  wn_buffer :: "(nat, digest \<times> bytes list) hmap"
  wn_last_feedback_sent :: nat
  wn_feedback_out :: "(nat \<times> nat) list"

definition wb_node_new :: "wb_executor \<Rightarrow> wb_node" where
  "wb_node_new s = \<lparr>wn_executor = s, wn_next_sequence = 0, wn_buffer = [], wn_last_feedback_sent = 0, wn_feedback_out = []\<rparr>"

definition wb_send_feedback_if_needed :: "wb_config \<Rightarrow> wb_node \<Rightarrow> wb_node" where
  "wb_send_feedback_if_needed cfg n =
     (let done = wsub 64 (wn_next_sequence n) 1
      in if wadd 64 (wn_last_feedback_sent n) FEEDBACK_INTERVAL \<le> done
         then n\<lparr>wn_feedback_out := wn_feedback_out n @ [(wc_executor_id cfg, done)], wn_last_feedback_sent := done\<rparr>
         else n)"

text \<open>The batch of the next sequence number; \<open>arr q\<close> are the messages that arrive during batch \<open>q\<close>.\<close>

definition wb_execute_next ::
    "wb_config \<Rightarrow> (nat \<Rightarrow> writeback_arrival list \<times> state_transfer list) \<Rightarrow> digest \<times> bytes list \<Rightarrow> wb_node \<Rightarrow> wb_node option" where
  "wb_execute_next cfg arr b n =
     map_option (\<lambda>s. wb_send_feedback_if_needed cfg
         (n\<lparr>wn_executor := s, wn_next_sequence := wadd 64 (wn_next_sequence n) 1\<rparr>))
       (wb_execute_batch cfg (arr (wn_next_sequence n)) (fst b) (snd b) (wn_executor n))"

lemma wb_execute_next_frame:
  assumes "wb_execute_next cfg arr b n = Some n'"
  shows "wn_next_sequence n' = wadd 64 (wn_next_sequence n) 1" "wn_buffer n' = wn_buffer n"
    "wb_execute_batch cfg (arr (wn_next_sequence n)) (fst b) (snd b) (wn_executor n) = Some (wn_executor n')"
  using assms by (auto simp: wb_execute_next_def wb_send_feedback_if_needed_def Let_def)

function wb_execute_buffered ::
    "wb_config \<Rightarrow> (nat \<Rightarrow> writeback_arrival list \<times> state_transfer list) \<Rightarrow> wb_node \<Rightarrow> wb_node option" where
  "wb_execute_buffered cfg arr n =
     (case map_of (wn_buffer n) (wn_next_sequence n) of
        None \<Rightarrow> Some n
      | Some b \<Rightarrow>
          (case wb_execute_next cfg arr b (n\<lparr>wn_buffer := AList.delete (wn_next_sequence n) (wn_buffer n)\<rparr>) of
             None \<Rightarrow> None
           | Some n' \<Rightarrow> wb_execute_buffered cfg arr n'))"
  by pat_completeness auto

termination wb_execute_buffered
  by (relation "measure (\<lambda>(cfg, arr, n). length (wn_buffer n))")
    (auto simp: wb_execute_next_frame(2) intro: length_delete_less)

declare wb_execute_buffered.simps [simp del]

definition wb_process_execute ::
    "wb_config \<Rightarrow> (nat \<Rightarrow> writeback_arrival list \<times> state_transfer list) \<Rightarrow> digest \<times> nat \<times> bytes list \<Rightarrow> wb_node \<Rightarrow> wb_node option" where
  "wb_process_execute cfg arr msg n =
     (let (d, sequence, raws) = msg
      in if sequence = wn_next_sequence n
         then Option.bind (wb_execute_next cfg arr (d, raws) n) (wb_execute_buffered cfg arr)
         else if wn_next_sequence n < sequence
         then if 5000 \<le> length (wn_buffer n) then None
              else Some (n\<lparr>wn_buffer := AList.update sequence (d, raws) (wn_buffer n)\<rparr>)
         else Some n)"

fun wb_run ::
    "wb_config \<Rightarrow> (nat \<Rightarrow> writeback_arrival list \<times> state_transfer list) \<Rightarrow> (digest \<times> nat \<times> bytes list) list \<Rightarrow> wb_node \<Rightarrow> wb_node option" where
  "wb_run cfg arr [] n = Some n"
| "wb_run cfg arr (m # ms) n = Option.bind (wb_process_execute cfg arr m n) (wb_run cfg arr ms)"

end
