(* ===== verification/Writeback_Tasks.thy ===== *)
theory Writeback_Tasks
  imports Writeback_Executor Executor_Tasks Executor_Order
begin

text \<open>
  Around the write-back executor: the router that sends every executor its transactions
  (\<^verbatim>\<open>worker/src/writeback_router.rs\<close>), the state helper
  (\<^verbatim>\<open>worker/src/writeback_state_helper.rs\<close>), and the order of batches.
\<close>

subsection \<open>Router\<close>

definition wb_push :: "nat \<Rightarrow> bytes \<Rightarrow> (nat, bytes list) hmap \<Rightarrow> (nat, bytes list) hmap option" where
  "wb_push e raw m = map_option (\<lambda>txs. AList.update e (txs @ [raw]) m) (map_of m e)"

definition wb_route_one :: "partition option \<Rightarrow> bytes \<Rightarrow> (nat, bytes list) hmap \<Rightarrow> (nat, bytes list) hmap option" where
  "wb_route_one part raw m =
     (case extract_account_ids raw of
        (Some src, Some dest) \<Rightarrow> do {
          p \<leftarrow> part;
          src_owner \<leftarrow> map_of p src;
          dest_owner \<leftarrow> map_of p dest;
          if src \<noteq> dest \<and> src_owner \<noteq> dest_owner
          then Option.bind (wb_push src_owner raw m) (wb_push dest_owner raw)
          else wb_push src_owner raw m }
      | _ \<Rightarrow> Some m)"

fun wb_route_batch :: "partition option \<Rightarrow> bytes list \<Rightarrow> (nat, bytes list) hmap \<Rightarrow> (nat, bytes list) hmap option" where
  "wb_route_batch part [] m = Some m"
| "wb_route_batch part (raw # raws) m = Option.bind (wb_route_one part raw m) (wb_route_batch part raws)"

datatype routing =
    Waiting
  | RouterPanic
  | Sent "(socket_addr \<times> router_message) list"

text \<open>As for the other router, \<open>answer\<close> is what the store answers.\<close>

definition wb_route_execution ::
    "worker_codec \<Rightarrow> partition option \<Rightarrow> (executor_id, socket_addr) hmap \<Rightarrow> string + bytes option \<Rightarrow> digest \<times> nat \<Rightarrow> routing" where
  "wb_route_execution K part addrs answer cmd =
     (case answer of
        Inl _ \<Rightarrow> Sent []
      | Inr None \<Rightarrow> Waiting
      | Inr (Some data) \<Rightarrow>
          (case de_message K data of
             Some (Batch txs) \<Rightarrow>
               (case wb_route_batch part txs (map (\<lambda>e. (e, [])) (keys addrs)) of
                  None \<Rightarrow> RouterPanic
                | Some m \<Rightarrow> Sent (List.map_filter (\<lambda>(e, txs).
                    map_option (\<lambda>addr. (addr, message_for cmd txs)) (map_of addrs e)) m))
           | _ \<Rightarrow> Sent []))"

fun wb_router_run ::
    "worker_codec \<Rightarrow> partition option \<Rightarrow> (executor_id, socket_addr) hmap \<Rightarrow> (digest \<Rightarrow> string + bytes option) \<Rightarrow> (digest \<times> nat) list
      \<Rightarrow> (digest \<times> nat) list \<times> (socket_addr \<times> router_message) list" where
  "wb_router_run K part addrs read [] = ([], [])"
| "wb_router_run K part addrs read (cmd # cmds) =
     (case wb_route_execution K part addrs (read (fst cmd)) cmd of
        Sent ms \<Rightarrow> (let (left, out) = wb_router_run K part addrs read cmds in (left, ms @ out))
      | _ \<Rightarrow> (cmd # cmds, []))"

text \<open>The transactions an executor gets: those of which it owns an account.\<close>

definition wb_concerns :: "(nat \<Rightarrow> nat option) \<Rightarrow> nat \<Rightarrow> bytes \<Rightarrow> bool" where
  "wb_concerns part e raw =
     (case extract_account_ids raw of
        (Some src, Some dest) \<Rightarrow> part src = Some e \<or> part dest = Some e
      | _ \<Rightarrow> False)"

lemma wb_push_Some:
  assumes "wb_push e raw m = Some m'" "distinct (keys m)"
  shows "keys m' = keys m" "map_of m' x = (if x = e then map_option (\<lambda>txs. txs @ [raw]) (map_of m e) else map_of m x)"
proof -
  obtain txs where "map_of m e = Some txs" "m' = AList.update e (txs @ [raw]) m"
    using assms(1) by (auto simp: wb_push_def)
  moreover from this have "e \<in> fst ` set m" by (metis domI dom_map_of_conv_image_fst)
  ultimately show "keys m' = keys m" "map_of m' x = (if x = e then map_option (\<lambda>txs. txs @ [raw]) (map_of m e) else map_of m x)"
    by (simp_all add: keys_def update_keys map_of_update)
qed

lemma wb_route_one_Some:
  assumes "wb_route_one (Some p) raw m = Some m'" "distinct (keys m)"
  shows "keys m' = keys m \<and> map_of m' e = map_option (\<lambda>txs. txs @ filter (wb_concerns (map_of p) e) [raw]) (map_of m e)"
proof (cases "extract_account_ids raw")
  case (Pair sopt dopt)
  show ?thesis
  proof (cases "sopt = None \<or> dopt = None")
    case True
    then show ?thesis
      using assms Pair by (cases "map_of m e") (auto simp: wb_route_one_def wb_concerns_def split: option.splits)
  next
    case False
    then obtain src dest so d where ids: "extract_account_ids raw = (Some src, Some dest)"
      "map_of p src = Some so" "map_of p dest = Some d"
      using assms(1) Pair by (auto simp: wb_route_one_def bind_eq_Some_conv)
    show ?thesis
    proof (cases "so = d")
      case True
      then have "wb_push so raw m = Some m'" using assms(1) ids by (auto simp: wb_route_one_def)
      from wb_push_Some(1) [OF this assms(2)] wb_push_Some(2) [OF this assms(2), of e] show ?thesis
        using ids True by (cases "map_of m e") (auto simp: wb_concerns_def)
    next
      case False
      then have "src \<noteq> dest" using ids by auto
      then obtain m1 where m1: "wb_push so raw m = Some m1" "wb_push d raw m1 = Some m'"
        using assms(1) ids False by (auto simp: wb_route_one_def bind_eq_Some_conv)
      note one = wb_push_Some(1) [OF m1(1) assms(2)] wb_push_Some(2) [OF m1(1) assms(2)]
      have "distinct (keys m1)" using one(1) assms(2) by simp
      from wb_push_Some(1) [OF m1(2) this] wb_push_Some(2) [OF m1(2) this, of e] one show ?thesis
        using ids False by (cases "map_of m e") (auto simp: wb_concerns_def)
    qed
  qed
qed

lemma wb_route_batch_Some:
  assumes "wb_route_batch (Some p) raws m = Some m'" "distinct (keys m)"
  shows "keys m' = keys m \<and> map_of m' e = map_option (\<lambda>txs. txs @ filter (wb_concerns (map_of p) e) raws) (map_of m e)"
  using assms
proof (induction raws arbitrary: m)
  case Nil
  then show ?case by (cases "map_of m e") simp_all
next
  case (Cons raw raws)
  obtain m1 where m1: "wb_route_one (Some p) raw m = Some m1" "wb_route_batch (Some p) raws m1 = Some m'"
    using Cons.prems(1) by (auto simp: bind_eq_Some_conv)
  have k: "keys m1 = keys m" using wb_route_one_Some [OF m1(1) Cons.prems(2)] by simp
  show ?case
    using Cons.IH [OF m1(2)] wb_route_one_Some [OF m1(1) Cons.prems(2), of e] Cons.prems(2) k
    by (cases "map_of m e") auto
qed

lemma map_filter_map_Some:
  "(\<And>x. x \<in> set xs \<Longrightarrow> f (h x) = Some (g x)) \<Longrightarrow> List.map_filter f (map h xs) = map g xs"
  by (induction xs) (simp_all add: List.map_filter_simps)

text \<open>A routed batch: every executor gets one message, with its transactions in the order of the batch.\<close>

lemma wb_route_execution_Sent:
  assumes "wb_route_execution K (Some p) addrs (Inr (Some data)) cmd = Sent ms" "de_message K data = Some (Batch txs)"
    and "distinct (keys addrs)"
  shows "ms = map (\<lambda>(e, addr). (addr, message_for cmd (filter (wb_concerns (map_of p) e) txs))) addrs"
proof -
  let ?m0 = "map (\<lambda>e. (e, [])) (keys addrs) :: (nat, bytes list) hmap"
  have keys0: "keys ?m0 = keys addrs" by (simp add: keys_def comp_def)
  obtain m where m: "wb_route_batch (Some p) txs ?m0 = Some m"
    and ms: "ms = List.map_filter (\<lambda>(e, txs). map_option (\<lambda>addr. (addr, message_for cmd txs)) (map_of addrs e)) m"
    using assms(1,2) by (auto simp: wb_route_execution_def split: option.splits)
  note route = wb_route_batch_Some [OF m, unfolded keys0, OF assms(3)]
  have keys: "map fst m = map fst addrs" using route by (simp add: keys_def)
  have len: "length m = length addrs" using keys by (metis length_map)
  have dist: "distinct (map fst m)" "distinct (map fst addrs)" using assms(3) keys by (simp_all add: keys_def)
  have entry: "m ! i = (fst (addrs ! i), filter (wb_concerns (map_of p) (fst (addrs ! i))) txs)" if "i < length addrs" for i
  proof -
    let ?e = "fst (addrs ! i)"
    have e: "fst (m ! i) = ?e" using keys len that by (metis nth_map)
    have "map_of m ?e = Some (snd (m ! i))"
      using dist(1) len that e by (metis map_of_eq_Some_iff nth_mem prod.collapse)
    moreover have "map_of ?m0 ?e = Some []"
      using that by (intro map_of_SomeI) (auto simp: dist(2) comp_def keys_def)
    ultimately show ?thesis using route e by (metis append_Nil option.inject option.simps(9) prod.collapse)
  qed
  have "m = map (\<lambda>(e, addr). (e, filter (wb_concerns (map_of p) e) txs)) addrs"
    by (rule nth_equalityI) (auto simp: len entry split: prod.splits)
  moreover have "map_of addrs e = Some addr" if "(e, addr) \<in> set addrs" for e addr
    using that dist(2) by simp
  ultimately show ?thesis
    unfolding ms by (auto intro!: map_filter_map_Some split: prod.splits)
qed

subsection \<open>State helper\<close>

definition wb_handle_send_state :: "committee \<Rightarrow> public_key \<Rightarrow> transfer_request \<Rightarrow> helper_effect option" where
  "wb_handle_send_state com name r =
     (case executor com name (tr_dest r) of
        Inl _ \<Rightarrow> None
      | Inr x \<Rightarrow> Some (ToExecutor (executor_to_executor x) (StateTransferMessage (tr_transfer r))))"

definition wb_writeback_message :: "writeback_arrival \<Rightarrow> executor_message" where
  "wb_writeback_message w = StateWriteback (wa_tx_id w) (wa_src_account w) (wa_state w) (wa_success w) (wa_src_account w)"

definition wb_handle_send_writeback :: "committee \<Rightarrow> public_key \<Rightarrow> writeback_request \<Rightarrow> helper_effect option" where
  "wb_handle_send_writeback com name r =
     (case executor com name (wr_src_executor r) of
        Inl _ \<Rightarrow> None
      | Inr x \<Rightarrow> Some (ToExecutor (executor_to_executor x) (wb_writeback_message (wr_writeback r))))"

text \<open>The shared buffers are part of the executor's state.\<close>

fun wb_handle_executor_message :: "executor_message \<Rightarrow> wb_executor \<Rightarrow> wb_executor" where
  "wb_handle_executor_message (StateTransferMessage t) s = wb_deliver_transfer t s"
| "wb_handle_executor_message (StateWriteback tid a st ok _) s =
     wb_deliver_writeback \<lparr>wa_tx_id = tid, wa_src_account = a, wa_state = st, wa_success = ok\<rparr> s"

lemma wb_handle_writeback_message [simp]:
  "wb_handle_executor_message (wb_writeback_message w) s = wb_deliver_writeback w s"
  by (cases w) (simp add: wb_writeback_message_def)

subsection \<open>Batches in any order\<close>

text \<open>The specification: the batches one after the other, with no buffer.\<close>

fun wb_in_order ::
    "wb_config \<Rightarrow> (nat \<Rightarrow> writeback_arrival list \<times> state_transfer list) \<Rightarrow> (digest \<times> bytes list) list \<Rightarrow> wb_node \<Rightarrow> wb_node option" where
  "wb_in_order cfg arr [] n = Some n"
| "wb_in_order cfg arr (b # bs) n = Option.bind (wb_execute_next cfg arr b n) (wb_in_order cfg arr bs)"

abbreviation wn_with_buffer :: "(nat, digest \<times> bytes list) hmap \<Rightarrow> wb_node \<Rightarrow> wb_node" where
  "wn_with_buffer b \<equiv> wn_buffer_update (\<lambda>_. b)"

lemma wb_in_order_snoc:
  "wb_in_order cfg arr (bs @ [b]) n = Option.bind (wb_in_order cfg arr bs n) (wb_execute_next cfg arr b)"
  by (induction bs arbitrary: n) (simp_all split: bind_splits)

lemma wb_execute_next_buffer:
  "wb_execute_next cfg arr b (wn_with_buffer x n) = map_option (wn_with_buffer x) (wb_execute_next cfg arr b n)"
  by (auto simp: wb_execute_next_def wb_send_feedback_if_needed_def option.map_comp comp_def Let_def intro!: option.map_cong)

text \<open>After some messages: the batches up to the first missing one have been executed, the others
  received are in the buffer.\<close>

definition wb_progress ::
    "wb_config \<Rightarrow> (nat \<Rightarrow> writeback_arrival list \<times> state_transfer list) \<Rightarrow> (nat \<Rightarrow> digest \<times> bytes list) \<Rightarrow> wb_node
      \<Rightarrow> nat set \<Rightarrow> wb_node \<Rightarrow> bool" where
  "wb_progress cfg arr f n0 R n \<longleftrightarrow>
     wb_in_order cfg arr (map f [0..<wn_next_sequence n]) n0 = Some (wn_with_buffer [] n)
     \<and> buffered f (wn_buffer n) \<and> {0..<wn_next_sequence n} \<subseteq> R
     \<and> fst ` set (wn_buffer n) = {q \<in> R. wn_next_sequence n \<le> q}"

lemma wb_progress_next:
  assumes "wb_progress cfg arr f n0 R n" "wb_execute_next cfg arr (f (wn_next_sequence n)) n = Some n'"
    and "wn_next_sequence n < 2 ^ 64 - 1"
  shows "wb_progress cfg arr f n0 (insert (wn_next_sequence n) R)
    (wn_with_buffer (AList.delete (wn_next_sequence n) (wn_buffer n)) n')"
proof -
  let ?q = "wn_next_sequence n"
  have q: "wn_next_sequence n' = Suc ?q" using wb_execute_next_frame(1) [OF assms(2)] assms(3) by (simp add: wadd_exact)
  have "wb_execute_next cfg arr (f ?q) (wn_with_buffer [] n) = Some (wn_with_buffer [] n')"
    by (simp add: wb_execute_next_buffer assms(2))
  then have "wb_in_order cfg arr (map f [0..<Suc ?q]) n0 = Some (wn_with_buffer [] n')"
    using assms(1) by (simp add: wb_progress_def wb_in_order_snoc)
  moreover have "fst ` set (AList.delete ?q (wn_buffer n)) = fst ` set (wn_buffer n) - {?q}"
    by (force simp: set_delete)
  then have "fst ` set (AList.delete ?q (wn_buffer n)) = {q' \<in> insert ?q R. Suc ?q \<le> q'}"
    using assms(1) by (auto simp: wb_progress_def)
  ultimately show ?thesis
    using assms(1) by (auto simp: wb_progress_def q buffered_delete less_Suc_eq)
qed

lemma wb_execute_buffered_progress:
  assumes "wb_execute_buffered cfg arr n = Some n'" "wb_progress cfg arr f n0 R n" "\<forall>q\<in>R. q < 2 ^ 64 - 1"
  shows "wb_progress cfg arr f n0 R n' \<and> wn_next_sequence n' \<notin> R"
  using assms
proof (induction cfg arr n rule: wb_execute_buffered.induct)
  case (1 cfg arr n)
  let ?q = "wn_next_sequence n"
  have buf: "buffered f (wn_buffer n)" "fst ` set (wn_buffer n) = {q \<in> R. ?q \<le> q}" "{0..<?q} \<subseteq> R"
    using "1.prems"(2) by (simp_all add: wb_progress_def)
  show ?case
  proof (cases "?q \<in> R")
    case False
    then have "map_of (wn_buffer n) ?q = None" using buf by (simp add: buffered_lookup)
    then show ?thesis using "1.prems"(1,2) False by (subst (asm) wb_execute_buffered.simps) simp
  next
    case True
    then have look: "map_of (wn_buffer n) ?q = Some (f ?q)" using buf by (simp add: buffered_lookup)
    let ?n = "wn_with_buffer (AList.delete ?q (wn_buffer n)) n"
    obtain n1 where n1: "wb_execute_next cfg arr (f ?q) ?n = Some n1" and rest: "wb_execute_buffered cfg arr n1 = Some n'"
      using "1.prems"(1) look by (subst (asm) wb_execute_buffered.simps) (auto split: option.splits)
    obtain m where m: "wb_execute_next cfg arr (f ?q) n = Some m" "n1 = wn_with_buffer (AList.delete ?q (wn_buffer n)) m"
      using n1 by (auto simp: wb_execute_next_buffer)
    have "?q < 2 ^ 64 - 1" using True "1.prems"(3) by blast
    from wb_progress_next [OF "1.prems"(2) m(1) this] True have "wb_progress cfg arr f n0 R n1"
      by (simp add: m(2) insert_absorb)
    then show ?thesis by (rule "1.IH" [OF look n1 rest _ "1.prems"(3)])
  qed
qed

lemma wb_process_execute_progress:
  assumes "wb_process_execute cfg arr (batch_msg f q) n = Some n'" "wb_progress cfg arr f n0 R n"
    and "wn_next_sequence n \<notin> R" "\<forall>q\<in>insert q R. q < 2 ^ 64 - 1"
  shows "wb_progress cfg arr f n0 (insert q R) n' \<and> wn_next_sequence n' \<notin> insert q R"
proof (cases "q = wn_next_sequence n")
  case True
  then obtain n1 where n1: "wb_execute_next cfg arr (f q) n = Some n1" "wb_execute_buffered cfg arr n1 = Some n'"
    using assms(1) by (auto simp: wb_process_execute_def batch_msg_def bind_eq_Some_conv)
  have "AList.delete q (wn_buffer n) = wn_buffer n"
    using assms(2,3) True by (intro delete_id) (auto simp: wb_progress_def)
  moreover have "wn_with_buffer (wn_buffer n) n1 = n1" using wb_execute_next_frame(2) [OF n1(1)] by simp
  ultimately have "wb_progress cfg arr f n0 (insert q R) n1"
    using wb_progress_next [OF assms(2) n1(1) [unfolded True]] assms(4) True by simp
  then show ?thesis by (rule wb_execute_buffered_progress [OF n1(2) _ assms(4)])
next
  case False
  show ?thesis
  proof (cases "wn_next_sequence n < q")
    case True
    then have n': "n' = wn_with_buffer (AList.update q (f q) (wn_buffer n)) n"
      using assms(1) False by (auto simp: wb_process_execute_def batch_msg_def split: if_splits)
    have "fst ` set (AList.update q (f q) (wn_buffer n)) = insert q (fst ` set (wn_buffer n))"
      by (simp add: dom_update)
    then show ?thesis
      using assms(2,3) True by (auto simp: n' wb_progress_def buffered_update)
  next
    case old: False
    then have "n' = n" using assms(1) False by (simp add: wb_process_execute_def batch_msg_def)
    moreover have "q \<in> R" using assms(2) False old by (auto simp: wb_progress_def)
    ultimately show ?thesis using assms(2,3) by (simp add: insert_absorb)
  qed
qed

text \<open>
  Messages in any order, with repetitions: the executor has run the batches before the first that is
  missing, each once and in sequence.
\<close>

lemma wb_run_in_sequence:
  assumes "wb_run cfg arr (map (batch_msg f) qs) (wb_node_new s) = Some n" "\<forall>q\<in>set qs. q < 2 ^ 64 - 1"
  shows "wb_in_order cfg arr (map f [0..<wn_next_sequence n]) (wb_node_new s) = Some (n\<lparr>wn_buffer := []\<rparr>)"
    "{0..<wn_next_sequence n} \<subseteq> set qs" "wn_next_sequence n \<notin> set qs"
proof -
  have "wb_progress cfg arr f n0 (set qs \<union> R) n \<and> wn_next_sequence n \<notin> set qs \<union> R"
    if "wb_run cfg arr (map (batch_msg f) qs) m = Some n" "wb_progress cfg arr f n0 R m" "wn_next_sequence m \<notin> R"
      "\<forall>q\<in>set qs \<union> R. q < 2 ^ 64 - 1" for n0 R m
    using that
  proof (induction qs arbitrary: m R)
    case (Cons q qs)
    obtain m1 where m1: "wb_process_execute cfg arr (batch_msg f q) m = Some m1" "wb_run cfg arr (map (batch_msg f) qs) m1 = Some n"
      using Cons.prems(1) by (auto simp: bind_eq_Some_conv)
    have "\<forall>q\<in>insert q R. q < 2 ^ 64 - 1" using Cons.prems(4) by simp
    from wb_process_execute_progress [OF m1(1) Cons.prems(2,3) this] Cons.IH [OF m1(2), of "insert q R"] Cons.prems(4)
    show ?case by simp
  qed simp
  from this [OF assms(1), of "wb_node_new s" "{}"] assms(2)
  show "wb_in_order cfg arr (map f [0..<wn_next_sequence n]) (wb_node_new s) = Some (n\<lparr>wn_buffer := []\<rparr>)"
    "{0..<wn_next_sequence n} \<subseteq> set qs" "wn_next_sequence n \<notin> set qs"
    by (simp_all add: wb_progress_def wb_node_new_def buffered_def)
qed

end
