(* ===== verification/Writeback_History.thy ===== *)
theory Writeback_History
  imports Writeback_Tasks
begin

text \<open>
  The sequential execution that the write-back executors are to refine: a history is the partition, the
  committed batches and the initial accounts; its transactions are numbered, and for each executor and account it
  is known which of them wait in the account's queue.
\<close>

subsection \<open>The effect of a transaction\<close>

definition tx_accounts :: "sb_transaction \<Rightarrow> nat list" where
  "tx_accounts t = (if sb_tx_type t = SendPayment then [sb_account_id t, sb_dest_account_id t] else [sb_account_id t])"

lemma extract_required_accounts: "extract_required_accounts raw = map_option tx_accounts (parse_smallbank_payload raw)"
  by (simp add: extract_required_accounts_def tx_accounts_def [abs_def])

lemma parsed_ids:
  assumes "parse_smallbank_payload raw = Some t"
  shows "extract_account_ids raw = (Some (sb_account_id t), Some (sb_dest_account_id t))" "tx_header_parse raw \<noteq> None"
proof -
  have "35 \<le> length raw" "sb_from_bytes (take 25 (drop 10 raw)) = Some t"
    using assms by (auto simp: parse_smallbank_payload_def split: if_splits)
  then show "extract_account_ids raw = (Some (sb_account_id t), Some (sb_dest_account_id t))" "tx_header_parse raw \<noteq> None"
    by (auto simp: extract_account_ids_def sb_from_bytes_def be64_def drop_take add.commute tx_header_parse_def split: if_splits)
qed

lemma wb_apply_frame:
  "wb_apply_payload t st = Some (st', ok, x) \<Longrightarrow> a \<notin> set (tx_accounts t) \<Longrightarrow> st' a = st a"
  by (auto simp: wb_apply_payload_def tx_accounts_def Let_def case_prod_unfold split: option.splits sb_tx_type.splits if_splits)

lemma wb_apply_agree:
  assumes "wb_apply_payload t st = Some (st', ok, x)" "\<forall>a\<in>set (tx_accounts t). st2 a = st a"
  obtains st2' where "wb_apply_payload t st2 = Some (st2', ok, x)" "\<forall>a\<in>set (tx_accounts t). st2' a = st' a"
proof -
  have "\<exists>st2'. wb_apply_payload t st2 = Some (st2', ok, x) \<and> (\<forall>a\<in>set (tx_accounts t). st2' a = st' a)"
    using assms
    by (cases "sb_tx_type t")
      (auto simp: wb_apply_payload_def tx_accounts_def Let_def case_prod_unfold split: option.splits if_splits)
  then show ?thesis using that by blast
qed

text \<open>The payment as the executor of the destination computes it, if the difference is an \<open>i64\<close>.\<close>

lemma wb_apply_payment:
  fixes t :: sb_transaction and x :: account_state
  defines "amount \<equiv> f_as_i64 (sb_amount t)"
  assumes "sb_tx_type t = SendPayment" "sb_account_id t \<noteq> sb_dest_account_id t" "st (sb_account_id t) = Some x"
    and "i64_range (checking_balance x - amount)"
  shows "amount \<le> checking_balance x \<Longrightarrow> st (sb_dest_account_id t) = Some y \<Longrightarrow>
      wb_apply_payload t st = Some (st(sb_account_id t \<mapsto> x\<lparr>checking_balance := wrap64 (checking_balance x - amount)\<rparr>,
        sb_dest_account_id t \<mapsto> execute_send_payment_credit (sb_amount t) y), True,
        x\<lparr>checking_balance := wrap64 (checking_balance x - amount)\<rparr>)"
    "\<not> amount \<le> checking_balance x \<Longrightarrow> wb_apply_payload t st = Some (st(sb_account_id t \<mapsto> x), False, x)"
  using assms(2-5)
  by (simp_all add: wb_apply_payload_def execute_send_payment_debit_def Let_def wrap64_id amount_def)

subsection \<open>Histories\<close>

text \<open>The partition, the committed batches and the initial accounts of a validator.\<close>

record wb_history =
  wh_partition :: "nat \<Rightarrow> nat option"
  wh_batches :: "(digest \<times> bytes list) list"
  wh_accounts :: "nat \<Rightarrow> account_state option"

definition wh_txs :: "wb_history \<Rightarrow> (digest \<times> bytes) list" where
  "wh_txs P = concat (map (\<lambda>(d, raws). map (Pair d) raws) (wh_batches P))"

definition wh_raw :: "wb_history \<Rightarrow> nat \<Rightarrow> bytes" where
  "wh_raw P n = snd (wh_txs P ! n)"

definition wh_tx :: "wb_history \<Rightarrow> nat \<Rightarrow> sb_transaction option" where
  "wh_tx P n = parse_smallbank_payload (wh_raw P n)"

definition wh_header :: "wb_history \<Rightarrow> nat \<Rightarrow> tx_header" where
  "wh_header P n = the (tx_header_parse (wh_raw P n))"

abbreviation wh_id :: "wb_history \<Rightarrow> nat \<Rightarrow> tx_id" where
  "wh_id P n \<equiv> th_id (wh_header P n)"

definition wh_digest :: "wb_history \<Rightarrow> nat \<Rightarrow> digest" where
  "wh_digest P n = fst (wh_txs P ! n)"

text \<open>The sequential execution: the accounts after the first \<open>n\<close> transactions.\<close>

definition sequential_step :: "bytes \<Rightarrow> (nat \<Rightarrow> account_state option) \<Rightarrow> (nat \<Rightarrow> account_state option)" where
  "sequential_step raw st =
     (case parse_smallbank_payload raw of
        None \<Rightarrow> st
      | Some t \<Rightarrow> (case wb_apply_payload t st of None \<Rightarrow> st | Some (st', _) \<Rightarrow> st'))"

definition wh_state :: "wb_history \<Rightarrow> nat \<Rightarrow> nat \<Rightarrow> account_state option" where
  "wh_state P n = fold (sequential_step \<circ> snd) (take n (wh_txs P)) (wh_accounts P)"

definition wh_required :: "wb_history \<Rightarrow> nat \<Rightarrow> nat list" where
  "wh_required P n = (case wh_tx P n of None \<Rightarrow> [] | Some t \<Rightarrow> tx_accounts t)"

definition wh_locality :: "wb_history \<Rightarrow> nat \<Rightarrow> nat \<Rightarrow> wb_locality option" where
  "wh_locality P e n = wb_determine_locality e (wh_partition P) (wh_required P n)"

text \<open>The accounts in whose queues executor \<open>e\<close> may put transaction \<open>n\<close>, and the entry.\<close>

definition wh_locals :: "wb_history \<Rightarrow> nat \<Rightarrow> nat \<Rightarrow> nat list" where
  "wh_locals P e n =
     (if wb_concerns (wh_partition P) e (wh_raw P n) then
        case wh_locality P e n of None \<Rightarrow> [] | Some l \<Rightarrow> wb_local_accounts l (wh_required P n)
      else [])"

definition wh_entry :: "wb_history \<Rightarrow> nat \<Rightarrow> nat \<Rightarrow> wb_pending" where
  "wh_entry P e n = \<lparr>wp_bytes = wh_raw P n, wp_header = wh_header P n, wp_sb_tx = the (wh_tx P n), wp_digest = wh_digest P n,
     wp_required = wh_required P n, wp_locality = the (wh_locality P e n)\<rparr>"

text \<open>The queue of account \<open>a\<close> when its transactions before \<open>k\<close> are done and those before \<open>S\<close>
  have been read.\<close>

definition wh_pending :: "wb_history \<Rightarrow> nat \<Rightarrow> nat \<Rightarrow> nat \<Rightarrow> nat \<Rightarrow> nat list" where
  "wh_pending P e a k S = concat (map (\<lambda>n. replicate (count_list (wh_locals P e n) a) n) [k..<S])"

text \<open>What is assumed: the accounts have owners, transaction ids are not reused, and no payment leaves
  the range of \<open>i64\<close>.\<close>

definition wh_ok :: "wb_history \<Rightarrow> bool" where
  "wh_ok P \<longleftrightarrow>
     (\<forall>n<length (wh_txs P). \<forall>t. wh_tx P n = Some t \<longrightarrow>
        wh_partition P (sb_account_id t) \<noteq> None \<and> wh_partition P (sb_dest_account_id t) \<noteq> None)
     \<and> (\<forall>m<length (wh_txs P). \<forall>n<length (wh_txs P). wh_tx P m \<noteq> None \<longrightarrow> wh_tx P n \<noteq> None \<longrightarrow>
          wh_id P m = wh_id P n \<longrightarrow> m = n)
     \<and> (\<forall>n<length (wh_txs P). \<forall>t x. wh_tx P n = Some t \<longrightarrow> sb_tx_type t = SendPayment \<longrightarrow>
          wh_state P n (sb_account_id t) = Some x \<longrightarrow> i64_range (checking_balance x - f_as_i64 (sb_amount t)))"

lemma wh_ok_ids:
  "wh_ok P \<Longrightarrow> m < length (wh_txs P) \<Longrightarrow> n < length (wh_txs P) \<Longrightarrow> wh_tx P m \<noteq> None \<Longrightarrow> wh_tx P n \<noteq> None \<Longrightarrow>
    wh_id P m = wh_id P n \<Longrightarrow> m = n"
  unfolding wh_ok_def by blast

lemma wh_ok_owned:
  assumes "wh_ok P" "n < length (wh_txs P)" "wh_tx P n = Some t"
  obtains s d where "wh_partition P (sb_account_id t) = Some s" "wh_partition P (sb_dest_account_id t) = Some d"
  using assms unfolding wh_ok_def by blast

lemma wh_ok_exact:
  "wh_ok P \<Longrightarrow> n < length (wh_txs P) \<Longrightarrow> wh_tx P n = Some t \<Longrightarrow> sb_tx_type t = SendPayment \<Longrightarrow>
    wh_state P n (sb_account_id t) = Some x \<Longrightarrow> i64_range (checking_balance x - f_as_i64 (sb_amount t))"
  unfolding wh_ok_def by blast

lemma wh_state_Suc:
  "n < length (wh_txs P) \<Longrightarrow> wh_state P (Suc n) = sequential_step (wh_raw P n) (wh_state P n)"
  by (simp add: wh_state_def wh_raw_def take_Suc_conv_app_nth)

lemma wh_state_applied:
  assumes "n < length (wh_txs P)" "wh_tx P n = Some t" "wb_apply_payload t (wh_state P n) = Some (st, ok, x)"
  shows "wh_state P (Suc n) = st"
  using assms by (simp add: wh_state_Suc sequential_step_def wh_tx_def)

lemma wh_state_same:
  assumes "n < length (wh_txs P)" "a \<notin> set (wh_required P n)"
  shows "wh_state P (Suc n) a = wh_state P n a"
proof (cases "wh_tx P n")
  case (Some t)
  then show ?thesis
    using assms wb_apply_frame [of t "wh_state P n"]
    by (auto simp: wh_state_Suc sequential_step_def wh_tx_def wh_required_def split: option.splits)
qed (use assms in \<open>simp add: wh_state_Suc sequential_step_def wh_tx_def\<close>)

subsection \<open>Localities\<close>

lemma wh_required_cases:
  assumes "wh_tx P n = Some t"
  shows "sb_tx_type t = SendPayment \<Longrightarrow> wh_required P n = [sb_account_id t, sb_dest_account_id t]"
    "sb_tx_type t \<noteq> SendPayment \<Longrightarrow> wh_required P n = [sb_account_id t]"
  using assms by (simp_all add: wh_required_def tx_accounts_def)

lemma wb_concerns_tx:
  "wh_tx P n = Some t \<Longrightarrow> wb_concerns (wh_partition P) e (wh_raw P n) \<longleftrightarrow>
     wh_partition P (sb_account_id t) = Some e \<or> wh_partition P (sb_dest_account_id t) = Some e"
  by (simp add: wb_concerns_def wh_tx_def parsed_ids)

text \<open>Transaction \<open>n\<close> is a payment between executors.\<close>

definition wh_distributed :: "wb_history \<Rightarrow> nat \<Rightarrow> bool" where
  "wh_distributed P n \<longleftrightarrow> (\<exists>t. wh_tx P n = Some t \<and> sb_tx_type t = SendPayment
     \<and> wh_partition P (sb_account_id t) \<noteq> wh_partition P (sb_dest_account_id t))"

lemma wh_locality_Source:
  assumes "wh_locality P e n = Some (DistributedSource a f)"
  obtains t where "wh_tx P n = Some t" "sb_tx_type t = SendPayment" "a = sb_account_id t" "wh_partition P a = Some e"
    "wh_partition P (sb_dest_account_id t) = Some f" "f \<noteq> e"
  using assms
  by (auto simp: wh_locality_def wb_determine_locality_def wh_required_def tx_accounts_def
      split: option.splits if_splits list.splits)

lemma wh_locality_Dest:
  assumes "wh_locality P e n = Some (DistributedDest a f)"
  obtains t where "wh_tx P n = Some t" "sb_tx_type t = SendPayment" "a = sb_dest_account_id t" "wh_partition P a = Some e"
    "wh_partition P (sb_account_id t) = Some f" "f \<noteq> e"
  using assms
  by (auto simp: wh_locality_def wb_determine_locality_def wh_required_def tx_accounts_def
      split: option.splits if_splits list.splits)

lemma wh_locality_Local:
  assumes "wh_locality P e n = Some LocalTx" "wh_tx P n = Some t" "sb_tx_type t = SendPayment"
  shows "wh_partition P (sb_account_id t) = Some e" "wh_partition P (sb_dest_account_id t) = Some e"
  using assms
  by (auto simp: wh_locality_def wb_determine_locality_def wh_required_def tx_accounts_def
      split: option.splits if_splits list.splits)

lemma wh_locals_owned:
  assumes "wh_ok P" "n < length (wh_txs P)" "wh_partition P a = Some e" "a \<in> set (wh_required P n)"
  shows "a \<in> set (wh_locals P e n)"
proof -
  obtain t where t: "wh_tx P n = Some t" "a \<in> set (tx_accounts t)"
    using assms(4) by (cases "wh_tx P n") (auto simp: wh_required_def)
  obtain s d where p: "wh_partition P (sb_account_id t) = Some s" "wh_partition P (sb_dest_account_id t) = Some d"
    using wh_ok_owned [OF assms(1,2) t(1)] .
  have "wb_concerns (wh_partition P) e (wh_raw P n)"
    using t assms(3) by (auto simp: wb_concerns_tx tx_accounts_def split: if_splits)
  then show ?thesis
    using t assms(3) p
    by (cases "sb_tx_type t = SendPayment"; cases "s = e"; cases "d = e")
      (auto simp: wh_locals_def wh_locality_def wb_determine_locality_def wh_required_def tx_accounts_def)
qed

lemma wh_state_not_local:
  assumes "wh_ok P" "n < length (wh_txs P)" "wh_partition P a = Some e" "count_list (wh_locals P e n) a = 0"
  shows "wh_state P (Suc n) a = wh_state P n a"
proof (rule wh_state_same [OF assms(2)])
  show "a \<notin> set (wh_required P n)"
    using wh_locals_owned [OF assms(1-3)] assms(4) by (auto simp: count_list_0_iff)
qed

subsection \<open>Queues\<close>

lemma wh_pending_Suc [simp]: "k \<le> S \<Longrightarrow>
  wh_pending P e a k (Suc S) = wh_pending P e a k S @ replicate (count_list (wh_locals P e S) a) S"
  by (simp add: wh_pending_def)

lemma wh_pending_same [simp]: "wh_pending P e a k k = []"
  by (simp add: wh_pending_def)

lemma wh_pending_step: "k < S \<Longrightarrow>
  wh_pending P e a k S = replicate (count_list (wh_locals P e k) a) k @ wh_pending P e a (Suc k) S"
  by (simp add: wh_pending_def upt_conv_Cons)

lemma wh_pending_Nil:
  assumes "wh_ok P" "wh_partition P a = Some e" "k \<le> S" "S \<le> length (wh_txs P)" "wh_pending P e a k S = []"
  shows "wh_state P S a = wh_state P k a"
  using assms(3,1,2,4,5)
proof (induction S rule: dec_induct)
  case (step S)
  then have "count_list (wh_locals P e S) a = 0" by simp
  then show ?case using step wh_state_not_local [of P S a e] by simp
qed simp

lemma wh_pending_Cons:
  assumes "wh_ok P" "wh_partition P a = Some e" "k \<le> S" "S \<le> length (wh_txs P)" "wh_pending P e a k S = n # ns"
  shows "k \<le> n \<and> n < S \<and> a \<in> set (wh_locals P e n) \<and> wh_state P n a = wh_state P k a
    \<and> wh_pending P e a k S = replicate (count_list (wh_locals P e n) a) n @ wh_pending P e a (Suc n) S"
  using assms(3,1,2,4,5)
proof (induction k rule: inc_induct)
  case (step k)
  note unfold = wh_pending_step [OF step.hyps(2), of P e a]
  show ?case
  proof (cases "count_list (wh_locals P e k) a")
    case 0
    then have eq: "wh_pending P e a k S = wh_pending P e a (Suc k) S" by (simp add: unfold)
    have "k < length (wh_txs P)" using step.hyps(2) step.prems(3) by simp
    then have "wh_state P (Suc k) a = wh_state P k a" using wh_state_not_local step.prems(1,2) 0 by blast
    moreover have "wh_pending P e a (Suc k) S = n # ns" using step.prems(4) eq by simp
    ultimately show ?thesis using step.IH [OF step.prems(1-3)] eq by simp
  next
    case (Suc c)
    then have "n = k" using step.prems(4) by (simp add: unfold)
    moreover have "a \<in> set (wh_locals P e k)" using Suc count_list_0_iff [of "wh_locals P e k" a] by auto
    ultimately show ?thesis using unfold step.hyps by simp
  qed
qed simp

end
