(* ===== verification/Writeback_Cluster.thy ===== *)
theory Writeback_Cluster
  imports Writeback_History
begin

text \<open>
  The write-back executors of a validator together refine a single sequential execution: every
  message they exchange states a fact about that execution, so no order, delay, repetition or loss of messages
  can make a store or a reply differ from it.
\<close>

subsection \<open>Queues\<close>

abbreviation wb_queue :: "wb_executor \<Rightarrow> nat \<Rightarrow> wb_pending list" where
  "wb_queue s a \<equiv> get_or [] (wb_queues s) a"

lemma map_of_queue: "map_of qs a = Some (p # q) \<longleftrightarrow> get_or [] qs a = p # q"
  by (auto simp: get_or_def split: option.splits)

lemma get_or_remove_if_empty [simp]: "get_or [] (wb_remove_if_empty b qs) a = get_or [] qs a"
  by (auto simp: wb_remove_if_empty_def get_or_def map_of_delete)

lemma get_or_remove_all_if_empty [simp]: "get_or [] (fold wb_remove_if_empty bs qs) a = get_or [] qs a"
  by (induction bs arbitrary: qs) simp_all

lemma get_or_enqueue:
  "get_or [] (fold (\<lambda>a. upsert [] a (\<lambda>q. q @ [p])) as qs) b = get_or [] qs b @ replicate (count_list as b) p"
  by (induction as arbitrary: qs) (simp_all add: get_or_upsert replicate_app_Cons_same)

lemma wb_pop_fronts_queue:
  assumes "wb_pop_fronts as tid qs f = Some (qs', r)"
  shows "\<exists>ps. get_or [] qs a = ps @ get_or [] qs' a \<and> length ps = count_list as a \<and> (\<forall>p\<in>set ps. wp_id p = tid)"
  using assms
proof (induction as arbitrary: qs f)
  case (Cons b as)
  obtain p q f' where q: "get_or [] qs b = p # q" "wp_id p = tid" and rest: "wb_pop_fronts as tid (AList.update b q qs) f' = Some (qs', r)"
    using Cons.prems by (auto simp: map_of_queue split: option.splits list.splits if_splits)
  obtain ps where ps: "get_or [] (AList.update b q qs) a = ps @ get_or [] qs' a" "length ps = count_list as a"
    "\<forall>p\<in>set ps. wp_id p = tid" using Cons.IH [OF rest] by blast
  show ?case
  proof (cases "a = b")
    case True
    then show ?thesis using ps q by (intro exI [of _ "p # ps"]) (simp add: get_or_update)
  next
    case False
    then show ?thesis using ps by (intro exI [of _ ps]) (simp add: get_or_update)
  qed
qed simp

lemma wb_pop_fronts_first: "wb_pop_fronts as tid qs (Some p) = Some (qs', r) \<Longrightarrow> r = Some p"
  by (induction as arbitrary: qs) (auto split: option.splits list.splits if_splits)

lemma wb_remove_queues:
  assumes "wb_remove_from_all_queues as tid qs = Some (qs', p)"
  shows "\<exists>ps. get_or [] qs a = ps @ get_or [] qs' a \<and> length ps = count_list as a \<and> (\<forall>p\<in>set ps. wp_id p = tid)"
    "\<exists>q. as \<noteq> [] \<and> get_or [] qs (hd as) = p # q"
proof -
  obtain qs1 where 1: "wb_pop_fronts as tid qs None = Some (qs1, Some p)" "qs' = fold wb_remove_if_empty as qs1" "as \<noteq> []"
    using assms by (rule wb_remove_from_all_queues_Some)
  show "\<exists>ps. get_or [] qs a = ps @ get_or [] qs' a \<and> length ps = count_list as a \<and> (\<forall>p\<in>set ps. wp_id p = tid)"
    using wb_pop_fronts_queue [OF 1(1)] by (simp add: 1(2))
  show "\<exists>q. as \<noteq> [] \<and> get_or [] qs (hd as) = p # q"
    using 1 by (cases as) (auto simp: map_of_queue split: option.splits list.splits if_splits dest!: wb_pop_fronts_first)
qed

subsection \<open>The invariant of an executor\<close>

text \<open>Messages that state a fact about the sequential execution.\<close>

definition sound_transfer :: "wb_history \<Rightarrow> state_transfer \<Rightarrow> bool" where
  "sound_transfer P t \<longleftrightarrow> (\<exists>n<length (wh_txs P). wh_distributed P n \<and> st_tx_id t = wh_id P n
     \<and> st_account t = sb_account_id (the (wh_tx P n)) \<and> wh_state P n (st_account t) = Some (st_state t))"

definition sound_writeback :: "wb_history \<Rightarrow> writeback_arrival \<Rightarrow> bool" where
  "sound_writeback P w \<longleftrightarrow> (\<exists>n<length (wh_txs P). wh_distributed P n \<and> wa_tx_id w = wh_id P n
     \<and> wa_src_account w = sb_account_id (the (wh_tx P n)) \<and> wh_state P (Suc n) (wa_src_account w) = Some (wa_state w))"

definition sound_reply :: "wb_history \<Rightarrow> reply_request \<Rightarrow> bool" where
  "sound_reply P r \<longleftrightarrow> (\<exists>n<length (wh_txs P). \<exists>t st x. wh_tx P n = Some t \<and> rq_tx_id r = wh_id P n \<and> rq_digest r = wh_digest P n
     \<and> wb_apply_payload t (wh_state P n) = Some (st, rq_success r, x) \<and> rq_account r = sb_account_id t \<and> rq_state r = Some x)"

definition account_inv :: "wb_history \<Rightarrow> nat \<Rightarrow> nat \<Rightarrow> wb_executor \<Rightarrow> nat \<Rightarrow> bool" where
  "account_inv P e S s a \<longleftrightarrow>
     (if wh_partition P a = Some e
      then \<exists>k\<le>S. wb_queue s a = map (wh_entry P e) (wh_pending P e a k S) \<and> wb_store s a = wh_state P k a
      else wb_queue s a = [] \<and> wb_store s a = None \<and> wb_locks s a = None)"

definition transfer_entry :: "wb_history \<Rightarrow> tx_id \<times> state_transfer \<Rightarrow> bool" where
  "transfer_entry P x \<longleftrightarrow> fst x = st_tx_id (snd x) \<and> sound_transfer P (snd x)"

definition writeback_entry :: "wb_history \<Rightarrow> tx_id \<times> writeback_arrival \<Rightarrow> bool" where
  "writeback_entry P x \<longleftrightarrow> fst x = wa_tx_id (snd x) \<and> sound_writeback P (snd x)"

definition messages_inv :: "wb_history \<Rightarrow> wb_executor \<Rightarrow> bool" where
  "messages_inv P s \<longleftrightarrow>
     (\<forall>x\<in>set (wb_transfers s). transfer_entry P x) \<and> (\<forall>x\<in>set (wb_incoming_transfers s). transfer_entry P x)
     \<and> (\<forall>x\<in>set (wb_writebacks s). writeback_entry P x) \<and> (\<forall>x\<in>set (wb_incoming_writebacks s). writeback_entry P x)
     \<and> (\<forall>r\<in>set (wb_transfers_out s). sound_transfer P (tr_transfer r))
     \<and> (\<forall>r\<in>set (wb_writebacks_out s). sound_writeback P (wr_writeback r))
     \<and> (\<forall>r\<in>set (wb_replies_out s). sound_reply P r)"

definition wb_inv :: "wb_history \<Rightarrow> nat \<Rightarrow> nat \<Rightarrow> wb_executor \<Rightarrow> bool" where
  "wb_inv P e S s \<longleftrightarrow> S \<le> length (wh_txs P) \<and> (\<forall>a. account_inv P e S s a) \<and> messages_inv P s"

lemma account_invI:
  "wh_partition P a = Some e \<Longrightarrow> k \<le> S \<Longrightarrow> wb_queue s a = map (wh_entry P e) (wh_pending P e a k S) \<Longrightarrow>
    wb_store s a = wh_state P k a \<Longrightarrow> account_inv P e S s a"
  by (auto simp: account_inv_def)

text \<open>What the invariant says of an account with an empty queue, and of the head of a queue.\<close>

lemma account_inv_empty:
  assumes "wh_ok P" "wb_inv P e S s" "wh_partition P a = Some e" "wb_queue s a = []"
  shows "wb_store s a = wh_state P S a"
proof -
  have "account_inv P e S s a" "S \<le> length (wh_txs P)" using assms(2) by (simp_all add: wb_inv_def)
  then obtain k where k: "k \<le> S" "wh_pending P e a k S = []" "wb_store s a = wh_state P k a"
    using assms(3,4) by (auto simp: account_inv_def)
  then show ?thesis using wh_pending_Nil [OF assms(1,3)] \<open>S \<le> length (wh_txs P)\<close> by simp
qed

lemma account_inv_head:
  assumes "wh_ok P" "wb_inv P e S s" "wb_queue s a = p # q"
  obtains n where "n < S" "p = wh_entry P e n" "wh_partition P a = Some e" "wh_tx P n \<noteq> None" "a \<in> set (wh_locals P e n)"
    "wb_store s a = wh_state P n a"
    "wb_queue s a = map (wh_entry P e) (replicate (count_list (wh_locals P e n) a) n @ wh_pending P e a (Suc n) S)"
proof -
  have inv: "account_inv P e S s a" and S: "S \<le> length (wh_txs P)" using assms(2) by (simp_all add: wb_inv_def)
  then have own: "wh_partition P a = Some e" using assms(3) by (auto simp: account_inv_def split: if_splits)
  then obtain k where k: "k \<le> S" "wb_queue s a = map (wh_entry P e) (wh_pending P e a k S)" "wb_store s a = wh_state P k a"
    using inv by (auto simp: account_inv_def)
  then obtain n ns where n: "wh_pending P e a k S = n # ns" "p = wh_entry P e n" using assms(3) by auto
  from wh_pending_Cons [OF assms(1) own k(1) S n(1)] have *: "k \<le> n" "n < S" "a \<in> set (wh_locals P e n)"
    "wh_state P n a = wh_state P k a"
    "wh_pending P e a k S = replicate (count_list (wh_locals P e n) a) n @ wh_pending P e a (Suc n) S" by simp_all
  have "wh_tx P n \<noteq> None"
  proof
    assume none: "wh_tx P n = None"
    then have "wh_required P n = []" by (simp add: wh_required_def)
    then show False
      using *(3) by (cases "wb_concerns (wh_partition P) e (wh_raw P n)")
        (simp_all add: wh_locals_def wh_locality_def wb_determine_locality_def)
  qed
  then show ?thesis using that * own n(2) k by metis
qed

lemma wh_entry_id:
  assumes "wh_ok P" "m < length (wh_txs P)" "n < length (wh_txs P)" "wh_tx P m \<noteq> None" "wh_tx P n \<noteq> None"
    and "wp_id (wh_entry P e m) = wp_id (wh_entry P e n)"
  shows "m = n"
  using assms(6) wh_ok_ids [OF assms(1-5)] by (simp add: wh_entry_def)

lemma wh_locals_in:
  assumes "a \<in> set (wh_locals P e n)"
  obtains l where "wh_locality P e n = Some l" "wh_locals P e n = wb_local_accounts l (wh_required P n)"
    "wp_locality (wh_entry P e n) = l"
  using assms that by (cases "wb_concerns (wh_partition P) e (wh_raw P n)"; cases "wh_locality P e n")
    (simp_all add: wh_locals_def wh_entry_def)

text \<open>Sending the state of an account that waits for transaction \<open>n\<close> to be executed elsewhere.\<close>

lemma wb_send_transfer_inv:
  assumes "wb_send_transfer (wh_entry P e n) src dest s = Some s'" "wb_inv P e S s" "n < length (wh_txs P)"
    and "wh_distributed P n" "src = sb_account_id (the (wh_tx P n))" "wb_store s src = wh_state P n src"
  shows "wb_inv P e S s'"
proof -
  obtain x where x: "wb_store s src = Some x" using assms(1) by (auto simp: wb_send_transfer_def split: option.splits)
  have "sound_transfer P \<lparr>st_tx_id = wh_id P n, st_account = src, st_state = x\<rparr>"
    using assms(3-6) x by (auto simp: sound_transfer_def)
  then show ?thesis
    using assms(1,2) x
    by (auto simp: wb_send_transfer_def Let_def wh_entry_def wb_inv_def account_inv_def messages_inv_def)
qed

lemma wh_locality_Source_facts:
  assumes "wh_locality P e n = Some (DistributedSource a f)"
  shows "wh_distributed P n" "a = sb_account_id (the (wh_tx P n))" "wh_locals P e n = [a]"
proof -
  obtain t where "wh_tx P n = Some t" "sb_tx_type t = SendPayment" "a = sb_account_id t" "wh_partition P a = Some e"
    "wh_partition P (sb_dest_account_id t) = Some f" "f \<noteq> e" using wh_locality_Source [OF assms] .
  then show "wh_distributed P n" "a = sb_account_id (the (wh_tx P n))" "wh_locals P e n = [a]"
    using assms by (simp_all add: wh_distributed_def wh_locals_def wb_concerns_tx)
qed

subsection \<open>Executing\<close>

lemma wb_reply_messages:
  assumes "messages_inv P s" "n < length (wh_txs P)" "wh_tx P n = Some t"
    and "wb_apply_payload t (wh_state P n) = Some (st, ok, x)"
  shows "messages_inv P (wb_reply cfg (wh_digest P n) (wh_header P n) ok (sb_account_id t) (Some x) s)"
proof -
  have "sound_reply P \<lparr>rq_digest = wh_digest P n, rq_client = addr, rq_tx_type = th_tx_type (wh_header P n),
      rq_tx_id = wh_id P n, rq_success = ok, rq_account = sb_account_id t, rq_state = Some x\<rparr>" for addr
    using assms(2-4) by (auto simp: sound_reply_def)
  then show ?thesis
    using assms(1) by (auto simp: messages_inv_def wb_reply_def split: option.splits)
qed

lemma wb_execute_single_sound:
  assumes "wb_execute_single cfg (wh_digest P n) (wh_raw P n) (wh_header P n) s = Some s'"
    and "n < length (wh_txs P)" "wh_tx P n \<noteq> None" "\<forall>a\<in>set (wh_required P n). wb_store s a = wh_state P n a"
  shows "a \<in> set (wh_required P n) \<Longrightarrow> wb_store s' a = wh_state P (Suc n) a"
    "a \<notin> set (wh_required P n) \<Longrightarrow> wb_store s' a = wb_store s a"
    "messages_inv P s \<Longrightarrow> messages_inv P s'"
proof -
  obtain t where t: "wh_tx P n = Some t" "parse_smallbank_payload (wh_raw P n) = Some t" "wh_required P n = tx_accounts t"
    using assms(3) by (auto simp: wh_tx_def wh_required_def)
  let ?s = "s\<lparr>wb_executed_tx_count := wadd 64 (wb_executed_tx_count s) 1\<rparr>"
  obtain st ok x where ap: "wb_apply_payload t (wb_store s) = Some (st, ok, x)"
    and s': "s' = wb_reply cfg (wh_digest P n) (wh_header P n) ok (sb_account_id t) (Some x) (?s\<lparr>wb_store := st\<rparr>)"
    using assms(1) t(2) by (auto simp: wb_execute_single_def Let_def)
  obtain st2 where ap2: "wb_apply_payload t (wh_state P n) = Some (st2, ok, x)" "\<forall>a\<in>set (tx_accounts t). st2 a = st a"
    using wb_apply_agree [OF ap, of "wh_state P n"] assms(4) t(3) by auto
  show "a \<in> set (wh_required P n) \<Longrightarrow> wb_store s' a = wh_state P (Suc n) a"
    using wh_state_applied [OF assms(2) t(1) ap2(1)] ap2(2) by (simp add: s' t(3))
  show "a \<notin> set (wh_required P n) \<Longrightarrow> wb_store s' a = wb_store s a"
    using wb_apply_frame [OF ap] by (simp add: s' t(3))
  assume "messages_inv P s"
  then have "messages_inv P (?s\<lparr>wb_store := st\<rparr>)" by (simp add: messages_inv_def)
  then show "messages_inv P s'" unfolding s' by (rule wb_reply_messages [OF _ assms(2) t(1) ap2(1)])
qed

lemma fold_unlock: "fold (\<lambda>a m. m(a := None)) as m a = (if a \<in> set as then None else m a)"
  by (induction as arbitrary: m) auto

text \<open>A local transaction taken from the queues is at the head of the queues of all its accounts.\<close>

lemma wb_head_required:
  assumes "wh_ok P" "wb_inv P e S s" "n < S" "wh_tx P n \<noteq> None" "wh_locals P e n = wh_required P n"
    and "wb_queue s b \<noteq> []" "wp_id (hd (wb_queue s b)) = wh_id P n"
  shows "wh_partition P b = Some e" "hd (wb_queue s b) = wh_entry P e n" "wb_store s b = wh_state P n b"
    "wb_queue s b = map (wh_entry P e) (replicate (count_list (wh_required P n) b) n @ wh_pending P e b (Suc n) S)"
proof -
  obtain p q where pq: "wb_queue s b = p # q" using assms(6) by (cases "wb_queue s b") auto
  obtain m where m: "m < S" "p = wh_entry P e m" "wh_partition P b = Some e" "wh_tx P m \<noteq> None"
    "wb_store s b = wh_state P m b"
    "wb_queue s b = map (wh_entry P e) (replicate (count_list (wh_locals P e m) b) m @ wh_pending P e b (Suc m) S)"
    using account_inv_head [OF assms(1,2) pq] by metis
  have "S \<le> length (wh_txs P)" using assms(2) by (simp add: wb_inv_def)
  then have "m = n"
    using assms(3,4,7) pq m(1,2,4) by (intro wh_entry_id [OF assms(1)]) (auto simp: wh_entry_def)
  moreover from this have "hd (wb_queue s b) = wh_entry P e n" using pq m(2) by simp
  ultimately show "wh_partition P b = Some e" "hd (wb_queue s b) = wh_entry P e n" "wb_store s b = wh_state P n b"
    "wb_queue s b = map (wh_entry P e) (replicate (count_list (wh_required P n) b) n @ wh_pending P e b (Suc n) S)"
    using m(3,5,6) assms(5) by simp_all
qed

lemma wb_removed_transaction:
  assumes "map_of (wb_queues s) a = Some (p # q)" "wp_locality p = LocalTx"
    and "wb_remove_from_all_queues (wp_required p) (wp_id p) (wb_queues s) = Some (qs, p')" "wh_ok P" "wb_inv P e S s"
  obtains n where "n < S" "p = wh_entry P e n" "p' = wh_entry P e n" "wh_tx P n \<noteq> None"
    "\<And>b. b \<in> set (wh_required P n) \<Longrightarrow> wh_partition P b = Some e \<and> hd (wb_queue s b) = wh_entry P e n
       \<and> wb_store s b = wh_state P n b \<and> get_or [] qs b = map (wh_entry P e) (wh_pending P e b (Suc n) S)"
    "\<And>b. b \<notin> set (wh_required P n) \<Longrightarrow> get_or [] qs b = wb_queue s b"
proof -
  have q: "wb_queue s a = p # q" using assms(1) by (simp add: map_of_queue)
  obtain n where n: "n < S" "p = wh_entry P e n" "wh_tx P n \<noteq> None" "a \<in> set (wh_locals P e n)"
    using account_inv_head [OF assms(4,5) q] by metis
  have loc: "wh_locals P e n = wh_required P n"
    using wh_locals_in [OF n(4)] assms(2) n(2) by (metis wb_local_accounts.simps(1))
  have p: "wp_required p = wh_required P n" "wp_id p = wh_id P n" by (simp_all add: n(2) wh_entry_def)
  note head = wb_head_required [OF assms(4,5) n(1,3) loc]
  note removed = wb_remove_queues [OF assms(3) [unfolded p]]
  have rq: "wh_partition P b = Some e \<and> hd (wb_queue s b) = wh_entry P e n \<and> wb_store s b = wh_state P n b
      \<and> get_or [] qs b = map (wh_entry P e) (wh_pending P e b (Suc n) S)" if b: "b \<in> set (wh_required P n)" for b
  proof -
    obtain ps where ps: "wb_queue s b = ps @ get_or [] qs b" "length ps = count_list (wh_required P n) b" "\<forall>p\<in>set ps. wp_id p = wh_id P n"
      using removed(1) by blast
    have "ps \<noteq> []" using ps(2) b by (metis count_list_0_iff length_0_conv)
    then have "wb_queue s b \<noteq> []" "wp_id (hd (wb_queue s b)) = wh_id P n" using ps(1,3) by (cases ps; simp)+
    from head [OF this] ps(1,2) show ?thesis by (simp add: append_eq_append_conv map_replicate)
  qed
  have other: "get_or [] qs b = wb_queue s b" if "b \<notin> set (wh_required P n)" for b
  proof -
    obtain ps where "wb_queue s b = ps @ get_or [] qs b" "length ps = count_list (wh_required P n) b" using removed(1) by blast
    then show ?thesis using that by simp
  qed
  obtain q' where q': "wh_required P n \<noteq> []" "wb_queue s (hd (wh_required P n)) = p' # q'" using removed(2) by blast
  then have "p' = wh_entry P e n" using rq [of "hd (wh_required P n)"] by simp
  then show ?thesis using that n rq other by blast
qed

lemma wb_drain_step_inv:
  assumes "wb_drain_step cfg a s = Some (s', r)" "wh_ok P" "wb_inv P e S s"
  shows "wb_inv P e S s'"
  using assms(1)
proof (cases rule: wb_drain_step_cases)
  case stop
  then show ?thesis using assms(3) by simp
next
  case (send p q src dest)
  have "wb_queue s a = p # q" using send(1) by (simp add: map_of_queue)
  then obtain n where n: "n < S" "p = wh_entry P e n" "wh_tx P n \<noteq> None" "a \<in> set (wh_locals P e n)" "wb_store s a = wh_state P n a"
    using account_inv_head [OF assms(2,3)] by metis
  have loc: "wh_locality P e n = Some (DistributedSource src dest)" using wh_locals_in [OF n(4)] send(2) n(2) by metis
  have "n < length (wh_txs P)" using n(1) assms(3) by (simp add: wb_inv_def)
  then show ?thesis
    using wb_send_transfer_inv [OF send(3) [unfolded n(2)] assms(3)] wh_locality_Source_facts [OF loc] n(4,5) by simp
next
  case (execute p q qs p' s1)
  obtain n where n: "n < S" "p' = wh_entry P e n" "wh_tx P n \<noteq> None"
    and rq: "\<And>b. b \<in> set (wh_required P n) \<Longrightarrow> wh_partition P b = Some e \<and> hd (wb_queue s b) = wh_entry P e n
       \<and> wb_store s b = wh_state P n b \<and> get_or [] qs b = map (wh_entry P e) (wh_pending P e b (Suc n) S)"
    and other: "\<And>b. b \<notin> set (wh_required P n) \<Longrightarrow> get_or [] qs b = wb_queue s b"
    using wb_removed_transaction [OF execute(1,2,4) assms(2,3)] by metis
  have N: "S \<le> length (wh_txs P)" "messages_inv P s" and inv: "account_inv P e S s b" for b
    using assms(3) by (simp_all add: wb_inv_def)
  have nN: "n < length (wh_txs P)" using n(1) N(1) by simp
  have ex: "wb_execute_single cfg (wh_digest P n) (wh_raw P n) (wh_header P n) (s\<lparr>wb_queues := qs\<rparr>) = Some s1"
    using execute(5) by (simp add: n(2) wh_entry_def)
  have stores: "\<forall>b\<in>set (wh_required P n). wb_store (s\<lparr>wb_queues := qs\<rparr>) b = wh_state P n b" using rq by simp
  note sound = wb_execute_single_sound [OF ex nN n(3) stores]
  note frame = wb_execute_single_frame [OF ex]
  have "account_inv P e S s' b" for b
  proof (cases "b \<in> set (wh_required P n)")
    case True
    then show ?thesis
      using rq [OF True] sound(1) [OF True] n(1) frame(1)
      by (intro account_invI [where k = "Suc n"]) (simp_all add: execute(6))
  next
    case False
    then show ?thesis
      using inv [of b] other [OF False] sound(2) [OF False] frame by (auto simp: execute(6) account_inv_def fold_unlock n(2) wh_entry_def)
  qed
  moreover have "messages_inv P (s\<lparr>wb_queues := qs\<rparr>)" using N(2) by (simp add: messages_inv_def)
  then have "messages_inv P s1" by (rule sound(3))
  then have "messages_inv P s'" by (simp add: execute(6) messages_inv_def)
  ultimately show ?thesis using N(1) by (simp add: wb_inv_def)
qed

lemma wb_drain_inv:
  assumes "wb_drain_pending_queues cfg un s = Some s'" "wh_ok P" "wb_inv P e S s"
  shows "wb_inv P e S s'"
proof (cases "un = []")
  case False
  then have "wb_drain_loop cfg (fold set_insert un []) s = Some s'" using assms(1) by (simp add: wb_drain_pending_queues_def)
  then show ?thesis
    by (rule wb_drain_loop_keeps [where P = "wb_inv P e S", OF _ assms(3)]) (rule wb_drain_step_inv [OF _ assms(2)])
qed (use assms in \<open>simp add: wb_drain_pending_queues_def\<close>)

subsection \<open>Reading a batch\<close>

lemma account_inv_later:
  assumes "account_inv P e S s a" "a \<notin> set (wh_locals P e S)"
    and "wb_queue s' a = wb_queue s a" "wb_store s' a = wb_store s a" "wb_locks s a = None \<Longrightarrow> wb_locks s' a = None"
  shows "account_inv P e (Suc S) s' a"
proof (cases "wh_partition P a = Some e")
  case True
  then obtain k where "k \<le> S" "wb_queue s a = map (wh_entry P e) (wh_pending P e a k S)" "wb_store s a = wh_state P k a"
    using assms(1) by (auto simp: account_inv_def)
  then show ?thesis using assms(2-4) by (intro account_invI [OF True, of k]) simp_all
qed (use assms in \<open>simp add: account_inv_def\<close>)

lemma wb_inv_skip:
  assumes "wb_inv P e S s" "S < length (wh_txs P)" "wh_locals P e S = []"
  shows "wb_inv P e (Suc S) s"
proof -
  have "account_inv P e (Suc S) s a" for a
    using assms(1,3) by (intro account_inv_later [of P e S s]) (simp_all add: wb_inv_def)
  then show ?thesis using assms(1,2) by (simp add: wb_inv_def)
qed

lemma wb_inv_bump [simp]: "wb_inv P e S (wb_bump f s) = wb_inv P e S s"
  by (simp add: wb_inv_def account_inv_def messages_inv_def wb_bump_def)

lemma wb_ready_bump [simp]: "wb_ready_to_execute (wb_bump f s) tid as = wb_ready_to_execute s tid as"
  by (simp add: wb_ready_to_execute_def wb_bump_def)

lemma fold_lock: "fold (\<lambda>a m. m(a \<mapsto> v)) as m a = (if a \<in> set as then Some v else m a)"
  by (induction as arbitrary: m) auto

lemma wb_enqueue_inv:
  assumes "wb_lock_and_enqueue (wh_digest P S) (wh_raw P S) (wh_header P S) (wh_required P S) l s = Some s'"
    and "wb_inv P e S s" "S < length (wh_txs P)" "wh_locality P e S = Some l"
    and "wb_concerns (wh_partition P) e (wh_raw P S)" "\<forall>a\<in>set (wh_locals P e S). wh_partition P a = Some e"
  shows "wb_inv P e (Suc S) s'" "wb_queue s' a = wb_queue s a @ replicate (count_list (wh_locals P e S) a) (wh_entry P e S)"
    "wb_store s' = wb_store s"
proof -
  obtain t where t: "wh_tx P S = Some t" using assms(1) by (auto simp: wb_lock_and_enqueue_def wh_tx_def)
  have locals: "wh_locals P e S = wb_local_accounts l (wh_required P S)" using assms(4,5) by (simp add: wh_locals_def)
  have s': "wb_queues s' = fold (\<lambda>a. upsert [] a (\<lambda>q. q @ [wh_entry P e S])) (wh_locals P e S) (wb_queues s)"
    "wb_locks s' = fold (\<lambda>a m. m(a \<mapsto> wh_id P S)) (wh_locals P e S) (wb_locks s)"
    "wb_store s' = wb_store s" "messages_inv P s' = messages_inv P s"
    using assms(1,4) t
    by (auto simp: wb_lock_and_enqueue_def Let_def wb_bump_def wh_entry_def wh_tx_def locals messages_inv_def)
  show queue: "wb_queue s' a = wb_queue s a @ replicate (count_list (wh_locals P e S) a) (wh_entry P e S)" for a
    by (simp add: s'(1) get_or_enqueue)
  show "wb_store s' = wb_store s" by (rule s'(3))
  have "account_inv P e (Suc S) s' a" for a
  proof (cases "wh_partition P a = Some e")
    case True
    have "account_inv P e S s a" using assms(2) by (simp add: wb_inv_def)
    then obtain k where "k \<le> S" "wb_queue s a = map (wh_entry P e) (wh_pending P e a k S)" "wb_store s a = wh_state P k a"
      using True by (auto simp: account_inv_def)
    then show ?thesis by (intro account_invI [OF True, of k]) (simp_all add: queue s'(3) map_replicate)
  next
    case False
    then have a: "a \<notin> set (wh_locals P e S)" using assms(6) by blast
    have "account_inv P e S s a" using assms(2) by (simp add: wb_inv_def)
    then show ?thesis using False a by (simp add: account_inv_def queue s'(2,3) fold_lock)
  qed
  then show "wb_inv P e (Suc S) s'" using assms(2,3) s'(4) by (simp add: wb_inv_def)
qed

text \<open>A new transaction finds an account unlocked only if all earlier ones on the account are done.\<close>

lemma wb_ready_new:
  assumes "wh_ok P" "wb_inv P e S s" "S < length (wh_txs P)" "wh_tx P S \<noteq> None"
    and "wb_ready_to_execute s (wh_id P S) as" "a \<in> set as"
  shows "wb_queue s a = []"
proof (rule ccontr)
  assume "wb_queue s a \<noteq> []"
  then obtain p q where q: "wb_queue s a = p # q" by (cases "wb_queue s a") auto
  then have "wp_id p = wh_id P S"
    using assms(5,6) by (auto simp: wb_ready_to_execute_def map_of_queue [symmetric])
  moreover obtain m where m: "m < S" "p = wh_entry P e m" "wh_tx P m \<noteq> None"
    using account_inv_head [OF assms(1,2) q] by metis
  ultimately have "m = S" using assms(3,4) by (intro wh_ok_ids [OF assms(1)]) (auto simp: wh_entry_def)
  then show False using m(1) by simp
qed

lemma wb_execute_new_inv:
  assumes "wb_execute_single cfg (wh_digest P S) (wh_raw P S) (wh_header P S) s = Some s'" "wh_ok P" "wb_inv P e S s"
    and "S < length (wh_txs P)" "wh_tx P S \<noteq> None" "wb_ready_to_execute s (wh_id P S) (wh_required P S)"
    and "wh_locals P e S = wh_required P S" "\<forall>a\<in>set (wh_required P S). wh_partition P a = Some e"
  shows "wb_inv P e (Suc S) s'"
proof -
  note empty = wb_ready_new [OF assms(2-6)]
  then have "\<forall>a\<in>set (wh_required P S). wb_store s a = wh_state P S a"
    using account_inv_empty [OF assms(2,3)] assms(8) by blast
  note sound = wb_execute_single_sound [OF assms(1,4,5) this]
  note frame = wb_execute_single_frame [OF assms(1)]
  have "account_inv P e (Suc S) s' a" for a
  proof (cases "a \<in> set (wh_required P S)")
    case True
    then show ?thesis
      using empty [OF True] sound(1) [OF True] assms(8) frame(1) by (intro account_invI [where k = "Suc S"]) simp_all
  next
    case False
    have "account_inv P e S s a" using assms(3) by (simp add: wb_inv_def)
    then show ?thesis
      by (rule account_inv_later) (use False sound(2) [OF False] frame(1,2) assms(7) in simp_all)
  qed
  then show ?thesis using assms(3,4) sound(3) by (simp add: wb_inv_def)
qed

text \<open>A local transaction is on accounts of the executor: a single foreign account makes it panic.\<close>

lemma wb_local_owned:
  assumes "if \<not> wb_ready_to_execute s tid (wh_required P S) then q \<noteq> None
      else wb_execute_single cfg d (wh_raw P S) h s \<noteq> None"
    and "wb_inv P e S s" "wh_locality P e S = Some LocalTx" "wh_tx P S = Some t"
    and "q = wb_lock_and_enqueue d (wh_raw P S) h (wh_required P S) LocalTx s"
  shows "\<forall>a\<in>set (wh_required P S). wh_partition P a = Some e"
proof (cases "sb_tx_type t = SendPayment")
  case True
  then show ?thesis using wh_locality_Local [OF assms(3,4)] wh_required_cases(1) [OF assms(4)] by simp
next
  case False
  note req = wh_required_cases(2) [OF assms(4) False]
  show ?thesis
  proof (rule ccontr)
    assume "\<not> ?thesis"
    then have foreign: "wh_partition P (sb_account_id t) \<noteq> Some e" by (simp add: req)
    have "account_inv P e S s (sb_account_id t)" using assms(2) by (simp add: wb_inv_def)
    then have none: "wb_queue s (sb_account_id t) = []" "wb_store s (sb_account_id t) = None" "wb_locks s (sb_account_id t) = None"
      using foreign by (simp_all add: account_inv_def)
    then have "wb_ready_to_execute s tid (wh_required P S)"
      by (auto simp: wb_ready_to_execute_def req get_or_def split: option.splits list.splits)
    moreover have "wb_execute_single cfg d (wh_raw P S) h s = None"
      using assms(4) none(2) by (simp add: wb_execute_single_def wh_tx_def wb_apply_payload_def Let_def)
    ultimately show False using assms(1) by simp
  qed
qed

lemma wb_execute_single_bump:
  "wb_execute_single cfg d raw h (wb_bump f s) = map_option (wb_bump f) (wb_execute_single cfg d raw h s)"
  by (auto simp: wb_execute_single_def wb_bump_def wb_reply_def Let_def option.map_comp comp_def
      split: option.splits intro!: option.map_cong)

text \<open>The three ways a transaction of the batch is handled.\<close>

lemma wb_handle_transaction_cases:
  assumes "wb_handle_transaction cfg d (wh_raw P S) s0 = Some s'" "wb_concerns (wh_partition P) e (wh_raw P S)"
    and "wc_executor_id cfg = e" "wc_partition cfg = wh_partition P"
  obtains l where "wh_tx P S \<noteq> None" "wh_locality P e S = Some l"
    "(let s = wb_bump ws_total_transactions_update s0
      in case l of
           LocalTx \<Rightarrow>
             (if \<not> wb_ready_to_execute s (wh_id P S) (wh_required P S)
              then wb_lock_and_enqueue d (wh_raw P S) (wh_header P S) (wh_required P S) l s
              else wb_execute_single cfg d (wh_raw P S) (wh_header P S) (wb_bump ws_eager_executions_update s))
         | DistributedSource src dest \<Rightarrow>
             Option.bind (wb_lock_and_enqueue d (wh_raw P S) (wh_header P S) (wh_required P S) l s) (\<lambda>s1.
               case map_of (wb_queues s1) src of
                 Some (p # _) \<Rightarrow> (if wp_id p = wh_id P S then wb_send_transfer p src dest s1 else Some s1)
               | _ \<Rightarrow> Some s1)
         | DistributedDest _ _ \<Rightarrow> wb_lock_and_enqueue d (wh_raw P S) (wh_header P S) (wh_required P S) l s) = Some s'"
proof -
  have "26 \<le> length (wh_raw P S)" using assms(2) by (auto simp: wb_concerns_def extract_account_ids_def split: if_splits)
  then have h: "tx_header_parse (wh_raw P S) = Some (wh_header P S)" by (simp add: wh_header_def tx_header_parse_def)
  note eq = assms(1) [unfolded wb_handle_transaction_def h option.case extract_required_accounts assms(3,4)]
  then obtain t where t: "wh_tx P S = Some t" by (auto simp: wh_tx_def bind_eq_Some_conv)
  then have req: "map_option tx_accounts (parse_smallbank_payload (wh_raw P S)) = Some (wh_required P S)"
    by (simp add: wh_required_def wh_tx_def)
  then obtain l where l: "wb_determine_locality e (wh_partition P) (wh_required P S) = Some l"
    using eq by (auto simp: bind_eq_Some_conv)
  have "wh_locality P e S = Some l" by (simp add: wh_locality_def l)
  with t eq [unfolded req l bind.bind_lunit] show ?thesis by (intro that [of l]) simp_all
qed

lemma wb_handle_transaction_inv:
  assumes "wb_handle_transaction cfg (wh_digest P S) (wh_raw P S) s0 = Some s'" "wh_ok P" "wb_inv P e S s0"
    and "S < length (wh_txs P)" "wb_concerns (wh_partition P) e (wh_raw P S)"
    and "wc_executor_id cfg = e" "wc_partition cfg = wh_partition P"
  shows "wb_inv P e (Suc S) s'"
proof -
  obtain l where tx: "wh_tx P S \<noteq> None" and l: "wh_locality P e S = Some l" and run: "(let s = wb_bump ws_total_transactions_update s0
      in case l of
           LocalTx \<Rightarrow>
             (if \<not> wb_ready_to_execute s (wh_id P S) (wh_required P S)
              then wb_lock_and_enqueue (wh_digest P S) (wh_raw P S) (wh_header P S) (wh_required P S) l s
              else wb_execute_single cfg (wh_digest P S) (wh_raw P S) (wh_header P S) (wb_bump ws_eager_executions_update s))
         | DistributedSource src dest \<Rightarrow>
             Option.bind (wb_lock_and_enqueue (wh_digest P S) (wh_raw P S) (wh_header P S) (wh_required P S) l s) (\<lambda>s1.
               case map_of (wb_queues s1) src of
                 Some (p # _) \<Rightarrow> (if wp_id p = wh_id P S then wb_send_transfer p src dest s1 else Some s1)
               | _ \<Rightarrow> Some s1)
         | DistributedDest _ _ \<Rightarrow> wb_lock_and_enqueue (wh_digest P S) (wh_raw P S) (wh_header P S) (wh_required P S) l s) = Some s'"
    by (rule wb_handle_transaction_cases [OF assms(1,5-7)])
  let ?s = "wb_bump ws_total_transactions_update s0"
  have s: "wb_inv P e S ?s" using assms(3) by simp
  have locals: "wh_locals P e S = wb_local_accounts l (wh_required P S)" using assms(5) l by (simp add: wh_locals_def)
  obtain t where t: "wh_tx P S = Some t" using tx by blast
  show ?thesis
  proof (cases l)
    case LocalTx
    note run' = run [unfolded LocalTx Let_def wb_locality.case]
    have own: "\<forall>a\<in>set (wh_required P S). wh_partition P a = Some e"
      using run' by (intro wb_local_owned [OF _ s l [unfolded LocalTx] t refl])
        (auto simp: wb_execute_single_bump split: if_splits)
    show ?thesis
    proof (cases "wb_ready_to_execute ?s (wh_id P S) (wh_required P S)")
      case True
      then show ?thesis
        using run' own locals s
        by (intro wb_execute_new_inv [of cfg P S "wb_bump ws_eager_executions_update ?s", OF _ assms(2) _ assms(4) tx])
          (simp_all add: LocalTx)
    next
      case False
      then show ?thesis
        using run' own locals LocalTx by (intro wb_enqueue_inv(1) [OF _ s assms(4) l assms(5)]) simp_all
    qed
  next
    case (DistributedSource src dest)
    note loc = l [unfolded DistributedSource]
    have own: "wh_partition P src = Some e" by (rule wh_locality_Source [OF loc])
    obtain s1 where s1: "wb_lock_and_enqueue (wh_digest P S) (wh_raw P S) (wh_header P S) (wh_required P S) l ?s = Some s1"
      and next_step: "(case map_of (wb_queues s1) src of
          Some (p # _) \<Rightarrow> (if wp_id p = wh_id P S then wb_send_transfer p src dest s1 else Some s1) | _ \<Rightarrow> Some s1) = Some s'"
      using run by (auto simp: DistributedSource bind_eq_Some_conv)
    note facts = wh_locality_Source_facts [OF loc]
    note enq = wb_enqueue_inv [OF s1 s assms(4) l assms(5)]
    have inv1: "wb_inv P e (Suc S) s1" using enq(1) facts(3) own by simp
    show ?thesis
    proof (cases "wb_queue s1 src")
      case Nil
      then show ?thesis using next_step inv1 by (auto simp: get_or_def split: option.splits)
    next
      case (Cons p q)
      then have look: "map_of (wb_queues s1) src = Some (p # q)" by (simp add: map_of_queue)
      show ?thesis
      proof (cases "wp_id p = wh_id P S")
        case False
        then show ?thesis using next_step inv1 look by simp
      next
        case True
        obtain m where m: "m < Suc S" "p = wh_entry P e m" "wh_tx P m \<noteq> None" "wb_store s1 src = wh_state P m src"
          using account_inv_head [OF assms(2) inv1 Cons] by metis
        have "m = S" using m True assms(4) tx by (intro wh_ok_ids [OF assms(2)]) (auto simp: wh_entry_def)
        then have "wb_send_transfer (wh_entry P e S) src dest s1 = Some s'" and "wb_store s1 src = wh_state P S src"
          using next_step look True m(2,4) by simp_all
        then show ?thesis by (intro wb_send_transfer_inv [OF _ inv1 assms(4) facts(1,2)])
      qed
    qed
  next
    case (DistributedDest dest src)
    have "wh_partition P dest = Some e" by (rule wh_locality_Dest [OF l [unfolded DistributedDest]])
    then show ?thesis
      using run locals by (intro wb_enqueue_inv(1) [OF _ s assms(4) l assms(5)]) (simp_all add: DistributedDest)
  qed
qed

lemma wb_handle_all_inv:
  assumes "wb_handle_all cfg d (filter (wb_concerns (wh_partition P) e) raws) s = Some s'" "wh_ok P" "wb_inv P e S s"
    and "S + length raws \<le> length (wh_txs P)" "\<forall>i<length raws. wh_txs P ! (S + i) = (d', raws ! i)"
    and "\<exists>raw\<in>set raws. wb_concerns (wh_partition P) e raw \<Longrightarrow> d = d'"
    and "wc_executor_id cfg = e" "wc_partition cfg = wh_partition P"
  shows "wb_inv P e (S + length raws) s'"
  using assms
proof (induction raws arbitrary: S s)
  case (Cons raw raws)
  have S: "S < length (wh_txs P)" "wh_raw P S = raw" "wh_digest P S = d'"
    using Cons.prems(4,5) by (auto simp: wh_raw_def wh_digest_def)
  have later: "\<forall>i<length raws. wh_txs P ! (Suc S + i) = (d', raws ! i)" "Suc S + length raws \<le> length (wh_txs P)"
    using Cons.prems(4,5) by fastforce+
  show ?case
  proof (cases "wb_concerns (wh_partition P) e raw")
    case True
    then have d: "d = d'" using Cons.prems(6) by simp
    obtain s1 where s1: "wb_handle_transaction cfg d raw s = Some s1"
      and rest: "wb_handle_all cfg d (filter (wb_concerns (wh_partition P) e) raws) s1 = Some s'"
      using Cons.prems(1) True by (auto simp: bind_eq_Some_conv)
    have "wb_inv P e (Suc S) s1"
      using s1 True d S by (intro wb_handle_transaction_inv [OF _ Cons.prems(2,3) _ _ Cons.prems(7,8)]) simp_all
    with Cons.IH [OF rest Cons.prems(2) this later(2,1) _ Cons.prems(7,8)] Cons.prems(6) show ?thesis by simp
  next
    case False
    then have "wb_inv P e (Suc S) s"
      using Cons.prems(3) S by (intro wb_inv_skip) (simp_all add: wh_locals_def)
    with Cons.IH [OF _ Cons.prems(2) this later(2,1) _ Cons.prems(7,8)] Cons.prems(1,6) False show ?thesis by simp
  qed
qed simp

subsection \<open>Arriving messages\<close>

lemma hmap_extend_inv:
  assumes "\<forall>x\<in>set m. Q x" "\<forall>x\<in>set new. Q x"
  shows "\<forall>x\<in>set (hmap_extend new m). Q x"
  using assms
proof (induction new arbitrary: m)
  case (Cons x new)
  obtain k v where x: "x = (k, v)" by fastforce
  have "\<forall>y\<in>set (AList.update k v m). Q y" using Cons.prems set_update_subset [of k v m] by (auto simp: x)
  from Cons.IH [OF this] Cons.prems(2) show ?case by (simp add: hmap_extend_def x)
qed (simp add: hmap_extend_def)

lemma hmap_update_inv:
  assumes "\<forall>x\<in>set m. Q x" "Q (k, v)"
  shows "\<forall>x\<in>set (AList.update k v m). Q x"
  using assms set_update_subset [of k v m] by blast

lemma wb_deliver_inv:
  assumes "wb_inv P e S s"
  shows "sound_transfer P t \<Longrightarrow> wb_inv P e S (wb_deliver_transfer t s)"
    "sound_writeback P w \<Longrightarrow> wb_inv P e S (wb_deliver_writeback w s)"
  using assms hmap_update_inv [of "wb_incoming_transfers s" "transfer_entry P" "st_tx_id t" t]
    hmap_update_inv [of "wb_incoming_writebacks s" "writeback_entry P" "wa_tx_id w" w]
  by (simp_all add: wb_inv_def account_inv_def messages_inv_def wb_deliver_transfer_def wb_deliver_writeback_def
      transfer_entry_def [of _ "(_, _)"] writeback_entry_def [of _ "(_, _)"])

lemma wb_drain_incoming_inv:
  assumes "wb_inv P e S s"
  shows "wb_inv P e S (wb_drain_incoming_transfers s)" "wb_inv P e S (wb_drain_incoming_writebacks s)"
  using assms hmap_extend_inv [of "wb_transfers s" "transfer_entry P" "wb_incoming_transfers s"]
    hmap_extend_inv [of "wb_writebacks s" "writeback_entry P" "wb_incoming_writebacks s"]
  by (simp_all add: wb_inv_def account_inv_def messages_inv_def wb_drain_incoming_transfers_def wb_drain_incoming_writebacks_def)

lemma wh_distributed_locals:
  assumes "wh_distributed P n" "a \<in> set (wh_locals P e n)"
  shows "wh_locals P e n = [a]"
proof -
  obtain l where l: "wh_locality P e n = Some l" "wh_locals P e n = wb_local_accounts l (wh_required P n)"
    using wh_locals_in [OF assms(2)] by metis
  obtain t where t: "wh_tx P n = Some t" "sb_tx_type t = SendPayment"
    "wh_partition P (sb_account_id t) \<noteq> wh_partition P (sb_dest_account_id t)" using assms(1) by (auto simp: wh_distributed_def)
  have "l \<noteq> LocalTx" using wh_locality_Local [OF _ t(1,2), of e] l(1) t(3) by auto
  then show ?thesis using assms(2) l(2) by (cases l) auto
qed

lemma wh_state_source:
  assumes "n < length (wh_txs P)" "wh_tx P n = Some t" "wh_state P n (sb_account_id t) = None"
  shows "wh_state P (Suc n) (sb_account_id t) = None"
  using assms by (simp add: wh_state_Suc sequential_step_def wh_tx_def wb_apply_payload_def)

text \<open>An account whose head is taken by the effect of transaction \<open>n\<close>.\<close>

lemma account_inv_pop:
  assumes "wh_partition P a = Some e" "n < S" "count_list (wh_locals P e n) a = 1"
    and "wb_queue s a = map (wh_entry P e) (replicate (count_list (wh_locals P e n) a) n @ wh_pending P e a (Suc n) S)"
    and "wb_queue s a = p # q" "wb_queue s' a = q" "wb_store s' a = wh_state P (Suc n) a"
  shows "account_inv P e S s' a"
  using assms by (intro account_invI [where k = "Suc n"]) simp_all

lemma account_inv_frame:
  assumes "account_inv P e S s a" "wb_queue s' a = wb_queue s a" "wb_store s' a = wb_store s a"
    and "wb_locks s a = None \<Longrightarrow> wb_locks s' a = None"
  shows "account_inv P e S s' a"
  using assms by (auto simp: account_inv_def)

lemma wb_writeback_one_inv:
  assumes "wb_writeback_one tid s = Some (s', un)" "wh_ok P" "wb_inv P e S s"
  shows "wb_inv P e S s'"
proof -
  obtain w where w: "map_of (wb_writebacks s) tid = Some w"
    using assms(1) by (auto simp: wb_writeback_one_def split: option.splits)
  let ?a = "wa_src_account w"
  note run = assms(1) [unfolded wb_writeback_one_def w option.case Let_def]
  show ?thesis
  proof (cases "\<exists>p q. map_of (wb_queues s) ?a = Some (p # q) \<and> wp_id p = tid")
    case False
    then have "s' = s" using run by (auto split: option.splits list.splits if_splits)
    then show ?thesis using assms(3) by simp
  next
    case True
    then obtain p q where look: "map_of (wb_queues s) ?a = Some (p # q)" "wp_id p = tid" by blast
    then have q: "wb_queue s ?a = p # q" by (simp add: map_of_queue)
    obtain n where n: "n < S" "p = wh_entry P e n" "wh_partition P ?a = Some e" "wh_tx P n \<noteq> None" "?a \<in> set (wh_locals P e n)"
      "wb_store s ?a = wh_state P n ?a"
      "wb_queue s ?a = map (wh_entry P e) (replicate (count_list (wh_locals P e n) ?a) n @ wh_pending P e ?a (Suc n) S)"
      using account_inv_head [OF assms(2,3) q] .
    have N: "S \<le> length (wh_txs P)" "messages_inv P s" "account_inv P e S s b" for b using assms(3) by (simp_all add: wb_inv_def)
    have "(tid, w) \<in> set (wb_writebacks s)" using w by (rule map_of_SomeD)
    then have "writeback_entry P (tid, w)" using N(2) by (simp add: messages_inv_def)
    then have "sound_writeback P w" "tid = wa_tx_id w" by (simp_all add: writeback_entry_def)
    then obtain m where m: "m < length (wh_txs P)" "wh_distributed P m" "tid = wh_id P m" "?a = sb_account_id (the (wh_tx P m))"
      "wh_state P (Suc m) ?a = Some (wa_state w)" by (auto simp: sound_writeback_def)
    have "m = n"
      using m look(2) n(1,2,4) N(1) by (intro wh_ok_ids [OF assms(2)]) (auto simp: wh_entry_def wh_distributed_def)
    note m = m [unfolded this]
    have single: "count_list (wh_locals P e n) ?a = 1"
      using wh_distributed_locals [OF m(2) n(5)] by simp
    have store: "wb_store s ?a \<noteq> None"
      using wh_state_source [OF m(1)] n(4,6) m(4,5) by (cases "wb_store s ?a") auto
    let ?s = "s\<lparr>wb_writebacks := AList.delete tid (wb_writebacks s),
        wb_queues := wb_remove_if_empty ?a (AList.update ?a q (wb_queues s)),
        wb_store := (wb_store s)(?a \<mapsto> wa_state w), wb_outgoing := (wb_outgoing s)(tid := None),
        wb_locks := (wb_locks s)(?a := None)\<rparr>"
    have s': "s' = ?s" using run look store by auto
    have "account_inv P e S ?s ?a"
      by (rule account_inv_pop [OF n(3,1) single n(7) q]) (simp_all add: m(5) get_or_update)
    moreover have "account_inv P e S ?s b" if "b \<noteq> ?a" for b
      by (rule account_inv_frame [OF N(3)]) (use that in \<open>simp_all add: get_or_update\<close>)
    ultimately have "account_inv P e S ?s b" for b by (cases "b = ?a") simp_all
    moreover have "messages_inv P ?s" using N(2) by (auto simp: messages_inv_def set_delete)
    ultimately show ?thesis using N(1) by (simp add: s' wb_inv_def)
  qed
qed

text \<open>The executor of the destination computes the payment on the state it was sent.\<close>

lemma wb_remote_payment:
  assumes "wh_ok P" "n < length (wh_txs P)" "wh_distributed P n" "wh_tx P n = Some t"
    and "wh_state P n (sb_account_id t) = Some x"
    and "amount = sb_amount t" "success = (f_as_i64 amount \<le> checking_balance x)"
    and "x' = (if success then x\<lparr>checking_balance := wrap64 (checking_balance x - f_as_i64 amount)\<rparr> else x)"
    and "if success then wh_state P n (sb_dest_account_id t) = Some y else True"
  shows "\<exists>st. wb_apply_payload t (wh_state P n) = Some (st, success, x')"
    "wh_state P (Suc n) (sb_account_id t) = Some x'"
    "wh_state P (Suc n) (sb_dest_account_id t) =
      (if success then Some (execute_send_payment_credit amount y) else wh_state P n (sb_dest_account_id t))"
proof -
  have t: "sb_tx_type t = SendPayment" "sb_account_id t \<noteq> sb_dest_account_id t"
    using assms(3,4) by (auto simp: wh_distributed_def)
  note exact = wh_ok_exact [OF assms(1,2,4) t(1) assms(5)]
  note pay = wb_apply_payment [where st = "wh_state P n" and t = t, OF t assms(5) exact]
  obtain st where st: "wb_apply_payload t (wh_state P n) = Some (st, success, x')" "st (sb_account_id t) = Some x'"
    "st (sb_dest_account_id t) = (if success then Some (execute_send_payment_credit amount y) else wh_state P n (sb_dest_account_id t))"
    using pay assms(6-9) t(2) by (cases success) auto
  note step = wh_state_applied [OF assms(2,4) st(1)]
  show "\<exists>st. wb_apply_payload t (wh_state P n) = Some (st, success, x')" using st(1) by blast
  show "wh_state P (Suc n) (sb_account_id t) = Some x'" using step st(2) by simp
  show "wh_state P (Suc n) (sb_dest_account_id t) =
      (if success then Some (execute_send_payment_credit amount y) else wh_state P n (sb_dest_account_id t))"
    using step st(3) by simp
qed

lemma wb_transfer_one_cases:
  assumes "wb_transfer_one cfg tid s = Some (s', un)"
  obtains (later) "s' = s"
  | (execute) a p q t d src_executor amount x x' success store where
      "wb_queue s a = p # q" "wp_id p = tid" "map_of (wb_transfers s) tid = Some t" "wp_locality p = DistributedDest d src_executor"
      "amount = sb_amount (wp_sb_tx p)" "x = st_state t" "success = (f_as_i64 amount \<le> checking_balance x)"
      "x' = (if success then x\<lparr>checking_balance := wrap64 (checking_balance x - f_as_i64 amount)\<rparr> else x)"
      "(if success then map_option (\<lambda>y. (wb_store s)(a \<mapsto> execute_send_payment_credit amount y)) (wb_store s a)
        else Some (wb_store s)) = Some store"
      "s' = wb_reply cfg (wp_digest p) (wp_header p) success (st_account t) (Some x')
        (s\<lparr>wb_transfers := AList.delete tid (wb_transfers s), wb_store := store,
           wb_queues := wb_remove_if_empty a (AList.update a q (wb_queues s)),
           wb_writebacks_out := wb_writebacks_out s @
             [\<lparr>wr_writeback = \<lparr>wa_tx_id = tid, wa_src_account = st_account t, wa_state = x', wa_success = success\<rparr>,
               wr_src_executor = src_executor\<rparr>],
           wb_dest_accounts := (wb_dest_accounts s)(tid := None), wb_locks := (wb_locks s)(a := None)\<rparr>)"
proof (cases "\<exists>a p q. wb_dest_accounts s tid = Some a \<and> map_of (wb_queues s) a = Some (p # q) \<and> wp_id p = tid")
  case False
  then have "s' = s" using assms by (auto simp: wb_transfer_one_def split: option.splits list.splits if_splits)
  then show ?thesis by (rule later)
next
  case True
  then obtain a p q where a: "wb_dest_accounts s tid = Some a" "map_of (wb_queues s) a = Some (p # q)" "wp_id p = tid" by blast
  note run = assms [unfolded wb_transfer_one_def a option.case list.case]
  obtain t d src_executor where t: "map_of (wb_transfers s) tid = Some t" "wp_locality p = DistributedDest d src_executor"
    using run a(3) by (auto split: option.splits wb_locality.splits)
  let ?amount = "sb_amount (wp_sb_tx p)" and ?x = "st_state t"
  let ?success = "f_as_i64 ?amount \<le> checking_balance ?x"
  have q: "wb_queue s a = p # q" using a(2) by (simp add: map_of_queue)
  obtain store where store: "(if ?success then map_option (\<lambda>y. (wb_store s)(a \<mapsto> execute_send_payment_credit ?amount y)) (wb_store s a)
      else Some (wb_store s)) = Some store"
    using run a(3) t by (auto simp: Let_def split: if_splits)
  show ?thesis
    by (rule execute [OF q a(3) t refl refl refl refl store])
      (use run a(3) t store in \<open>simp only: Let_def simp_thms if_False option.case prod.case wb_locality.case option.map prod.inject option.inject\<close>)
qed

lemma wb_transfer_one_inv:
  assumes "wb_transfer_one cfg tid s = Some (s', un)" "wh_ok P" "wb_inv P e S s"
  shows "wb_inv P e S s'"
  using assms(1)
proof (cases rule: wb_transfer_one_cases)
  case later
  then show ?thesis using assms(3) by simp
next
  case (execute a p q t d src_executor amount x x' success store)
  obtain n where n: "n < S" "p = wh_entry P e n" "wh_partition P a = Some e" "wh_tx P n \<noteq> None" "a \<in> set (wh_locals P e n)"
    "wb_store s a = wh_state P n a"
    "wb_queue s a = map (wh_entry P e) (replicate (count_list (wh_locals P e n) a) n @ wh_pending P e a (Suc n) S)"
    using account_inv_head [OF assms(2,3) execute(1)] .
  have N: "S \<le> length (wh_txs P)" "messages_inv P s" "account_inv P e S s b" for b using assms(3) by (simp_all add: wb_inv_def)
  have nN: "n < length (wh_txs P)" using n(1) N(1) by simp
  have "transfer_entry P (tid, t)" using map_of_SomeD [OF execute(3)] N(2) by (simp add: messages_inv_def)
  then obtain m where m: "m < length (wh_txs P)" "wh_distributed P m" "tid = wh_id P m" "st_account t = sb_account_id (the (wh_tx P m))"
    "wh_state P m (st_account t) = Some x"
    by (auto simp: transfer_entry_def sound_transfer_def execute(6))
  have "m = n"
    using m execute(2) n(2,4) nN by (intro wh_ok_ids [OF assms(2)]) (auto simp: wh_entry_def wh_distributed_def)
  note m = m [unfolded this]
  obtain tx where tx: "wh_tx P n = Some tx" using n(4) by blast
  have loc: "wh_locality P e n = Some (DistributedDest d src_executor)"
    using wh_locals_in [OF n(5)] execute(4) n(2) by metis
  have a: "a = sb_dest_account_id tx"
  proof (rule wh_locality_Dest [OF loc])
    fix t' assume "wh_tx P n = Some t'" "d = sb_dest_account_id t'"
    moreover have "a = d" using n(5) wh_locals_in [OF n(5)] loc by (metis list.set_intros(1) option.inject set_ConsD wb_local_accounts.simps(3) empty_iff empty_set)
    ultimately show ?thesis using tx by simp
  qed
  have single: "count_list (wh_locals P e n) a = 1" using wh_distributed_locals [OF m(2) n(5)] by simp
  obtain y where y: "if success then wh_state P n (sb_dest_account_id tx) = Some y else True"
    "store = (if success then (wb_store s)(a \<mapsto> execute_send_payment_credit amount y) else wb_store s)"
    using execute(9) n(6) a by (cases success) auto
  have src: "st_account t = sb_account_id tx" "amount = sb_amount tx" using m(4) tx n(2) execute(5) by (simp_all add: wh_entry_def)
  note pay = wb_remote_payment [OF assms(2) nN m(2) tx m(5) [unfolded src(1)] src(2) execute(7,8) y(1)]
  let ?s = "s\<lparr>wb_transfers := AList.delete tid (wb_transfers s), wb_store := store,
           wb_queues := wb_remove_if_empty a (AList.update a q (wb_queues s)),
           wb_writebacks_out := wb_writebacks_out s @
             [\<lparr>wr_writeback = \<lparr>wa_tx_id = tid, wa_src_account = st_account t, wa_state = x', wa_success = success\<rparr>,
               wr_src_executor = src_executor\<rparr>],
           wb_dest_accounts := (wb_dest_accounts s)(tid := None), wb_locks := (wb_locks s)(a := None)\<rparr>"
  have s': "s' = wb_reply cfg (wh_digest P n) (wh_header P n) success (sb_account_id tx) (Some x') ?s"
    using execute(10) src(1) n(2) by (simp add: wh_entry_def)
  have "account_inv P e S s' a"
    by (rule account_inv_pop [OF n(3,1) single n(7) execute(1)])
      (use pay(3) y(2) a n(6) in \<open>auto simp: s' get_or_update\<close>)
  moreover have "account_inv P e S s' b" if "b \<noteq> a" for b
    by (rule account_inv_frame [OF N(3)]) (use that y(2) in \<open>simp_all add: s' get_or_update\<close>)
  ultimately have "account_inv P e S s' b" for b by (cases "b = a") simp_all
  moreover have "messages_inv P s'"
  proof -
    have "sound_writeback P \<lparr>wa_tx_id = tid, wa_src_account = st_account t, wa_state = x', wa_success = success\<rparr>"
      using nN m(2,3) src(1) tx pay(2) by (auto simp: sound_writeback_def)
    then have "messages_inv P ?s" using N(2) by (auto simp: messages_inv_def set_delete)
    moreover obtain st where "wb_apply_payload tx (wh_state P n) = Some (st, success, x')" using pay(1) by blast
    ultimately show ?thesis unfolding s' by (rule wb_reply_messages [OF _ nN tx])
  qed
  ultimately show ?thesis using N(1) by (simp add: wb_inv_def)
qed

lemma wb_arrivals_inv:
  assumes "wb_arrivals one tids s = Some (s', un)" "wb_inv P e S s"
    and "\<And>tid s s' un. one tid s = Some (s', un) \<Longrightarrow> wb_inv P e S s \<Longrightarrow> wb_inv P e S s'"
  shows "wb_inv P e S s'"
  using assms(1,2)
proof (induction tids arbitrary: s un)
  case (Cons tid tids)
  obtain s1 un1 un2 where "one tid s = Some (s1, un1)" "wb_arrivals one tids s1 = Some (s', un2)"
    using Cons.prems(1) by (auto simp: bind_eq_Some_conv)
  then show ?case using Cons.IH Cons.prems(2) assms(3) by blast
qed simp

lemma wb_process_incoming_inv:
  assumes "wh_ok P" "wb_inv P e S s"
  shows "wb_process_incoming_transfers cfg s = Some s' \<Longrightarrow> wb_inv P e S s'"
    "wb_process_incoming_writebacks cfg s = Some s' \<Longrightarrow> wb_inv P e S s'"
proof -
  assume "wb_process_incoming_transfers cfg s = Some s'"
  then obtain s1 un where "wb_arrivals (wb_transfer_one cfg) (wb_arrange cfg (keys (wb_transfers (wb_drain_incoming_transfers s))))
      (wb_drain_incoming_transfers s) = Some (s1, un)" "wb_drain_pending_queues cfg un s1 = Some s'"
    by (auto simp: wb_process_incoming_transfers_def Let_def bind_eq_Some_conv)
  then show "wb_inv P e S s'"
    using wb_drain_inv wb_arrivals_inv wb_transfer_one_inv wb_drain_incoming_inv(1) assms by metis
next
  assume "wb_process_incoming_writebacks cfg s = Some s'"
  then obtain s1 un where "wb_arrivals wb_writeback_one (wb_arrange cfg (keys (wb_writebacks (wb_drain_incoming_writebacks s))))
      (wb_drain_incoming_writebacks s) = Some (s1, un)" "wb_drain_pending_queues cfg un s1 = Some s'"
    by (auto simp: wb_process_incoming_writebacks_def Let_def bind_eq_Some_conv)
  then show "wb_inv P e S s'"
    using wb_drain_inv wb_arrivals_inv wb_writeback_one_inv wb_drain_incoming_inv(2) assms by metis
qed

end
