(* ===== verification/Writeback_Serial.thy ===== *)
theory Writeback_Serial
  imports Writeback_Cluster Executor_Runs
begin

text \<open>
  The write-back executors of a validator running together: the steps are those at which an executor
  reads shared state (the next batch, the two shared buffers), and any message sent earlier may arrive at any
  later time, more than once or never. Every store and every reply is that of one sequential execution.
\<close>

subsection \<open>The executors together\<close>

datatype wb_phase = Reading | TakingWritebacks | TakingTransfers

record wb_cluster =
  wl_executor :: "nat \<Rightarrow> wb_executor"
  wl_read :: "nat \<Rightarrow> nat"
  wl_phase :: "nat \<Rightarrow> wb_phase"

text \<open>What the router and the receiver hand to executor \<open>e\<close> for the batch of number \<open>b\<close>.\<close>

definition wb_batch_for :: "wb_history \<Rightarrow> nat \<Rightarrow> nat \<Rightarrow> digest \<times> nat \<times> bytes list" where
  "wb_batch_for P e b =
     (case wh_batches P ! b of (d, raws) \<Rightarrow>
        receive_router_message (message_for (d, b) (filter (wb_concerns (wh_partition P) e) raws)))"

definition wb_start :: "wb_history \<Rightarrow> nat \<Rightarrow> wb_executor" where
  "wb_start P e = \<lparr>wb_store = (\<lambda>a. if wh_partition P a = Some e then wh_accounts P a else None),
     wb_locks = (\<lambda>_. None), wb_queues = [], wb_transfers = [], wb_writebacks = [],
     wb_dest_accounts = (\<lambda>_. None), wb_stats = wb_statistics_new, wb_outgoing = (\<lambda>_. None),
     wb_incoming_transfers = [], wb_incoming_writebacks = [], wb_executed_tx_count = 0,
     wb_replies_out = [], wb_transfers_out = [], wb_writebacks_out = []\<rparr>"

lemma wb_init_start:
  "wb_init rng lo hi e p = Some (wb_start \<lparr>wh_partition = map_of p, wh_batches = bs,
     wh_accounts = (\<lambda>a. Some (create_account_with_seed rng a lo hi))\<rparr> e)"
  by (auto simp: wb_init_def wb_start_def Let_def check_partition_consistency_def wb_initial_accounts_def set_keys
      fun_eq_iff dest: map_of_SomeD intro!: rev_image_eqI)

definition wb_cluster_start :: "wb_history \<Rightarrow> wb_cluster" where
  "wb_cluster_start P = \<lparr>wl_executor = wb_start P, wl_read = (\<lambda>_. 0), wl_phase = (\<lambda>_. Reading)\<rparr>"

definition wb_cluster_put :: "nat \<Rightarrow> wb_executor \<Rightarrow> wb_phase \<Rightarrow> wb_cluster \<Rightarrow> wb_cluster" where
  "wb_cluster_put e s ph c = c\<lparr>wl_executor := (wl_executor c)(e := s), wl_phase := (wl_phase c)(e := ph)\<rparr>"

definition transfers_to :: "wb_cluster \<Rightarrow> nat \<Rightarrow> state_transfer set" where
  "transfers_to c e = {t. \<exists>f. \<lparr>tr_transfer = t, tr_dest = e\<rparr> \<in> set (wb_transfers_out (wl_executor c f))}"

definition writebacks_to :: "wb_cluster \<Rightarrow> nat \<Rightarrow> writeback_arrival set" where
  "writebacks_to c e = {w. \<exists>f. \<lparr>wr_writeback = w, wr_src_executor = e\<rparr> \<in> set (wb_writebacks_out (wl_executor c f))}"

inductive wb_cluster_step :: "wb_history \<Rightarrow> wb_cluster \<Rightarrow> wb_cluster \<Rightarrow> bool" for P where
  read_batch:
    "wl_phase c e = Reading \<Longrightarrow> wl_read c e < length (wh_batches P) \<Longrightarrow> wb_batch_for P e (wl_read c e) = (d, q, raws) \<Longrightarrow>
     wc_executor_id cfg = e \<Longrightarrow> wc_partition cfg = wh_partition P \<Longrightarrow>
     wb_handle_all cfg d raws (wl_executor c e) = Some s \<Longrightarrow>
     wb_cluster_step P c ((wb_cluster_put e s TakingWritebacks c)\<lparr>wl_read := (wl_read c)(e := Suc (wl_read c e))\<rparr>)"
| take_writebacks:
    "wl_phase c e = TakingWritebacks \<Longrightarrow> set ws \<subseteq> writebacks_to c e \<Longrightarrow>
     wc_executor_id cfg = e \<Longrightarrow> wc_partition cfg = wh_partition P \<Longrightarrow>
     wb_process_incoming_writebacks cfg (fold wb_deliver_writeback ws (wl_executor c e)) = Some s \<Longrightarrow>
     wb_cluster_step P c (wb_cluster_put e s TakingTransfers c)"
| take_transfers:
    "wl_phase c e = TakingTransfers \<Longrightarrow> set ts \<subseteq> transfers_to c e \<Longrightarrow>
     wc_executor_id cfg = e \<Longrightarrow> wc_partition cfg = wh_partition P \<Longrightarrow>
     wb_process_incoming_transfers cfg (fold wb_deliver_transfer ts (wl_executor c e)) = Some s \<Longrightarrow>
     wb_cluster_step P c (wb_cluster_put e (s\<lparr>wb_stats := wb_queue_metrics (wb_queues s) (wb_stats s)\<rparr>) Reading c)"

inductive wb_reachable :: "wb_history \<Rightarrow> wb_cluster \<Rightarrow> bool" for P where
  start: "wb_reachable P (wb_cluster_start P)"
| step: "wb_reachable P c \<Longrightarrow> wb_cluster_step P c c' \<Longrightarrow> wb_reachable P c'"

text \<open>The three steps of an executor are one \<open>execute_batch\<close>.\<close>

lemma execute_batch_steps:
  "wb_execute_batch cfg (ws, ts) d raws s = Some s' \<longleftrightarrow>
     (\<exists>s1 s2 s3. wb_handle_all cfg d raws s = Some s1
       \<and> wb_process_incoming_writebacks cfg (fold wb_deliver_writeback ws s1) = Some s2
       \<and> wb_process_incoming_transfers cfg (fold wb_deliver_transfer ts s2) = Some s3
       \<and> s' = s3\<lparr>wb_stats := wb_queue_metrics (wb_queues s3) (wb_stats s3)\<rparr>)"
  by (auto simp: wb_execute_batch_def bind_eq_Some_conv)

subsection \<open>The number of transactions read\<close>

definition wh_position :: "wb_history \<Rightarrow> nat \<Rightarrow> nat" where
  "wh_position P b = length (concat (map snd (take b (wh_batches P))))"

lemma wh_txs_at:
  assumes "b < length (wh_batches P)" "wh_batches P ! b = (d, raws)"
  shows "wh_position P (Suc b) = wh_position P b + length raws"
    "i < length raws \<Longrightarrow> wh_txs P ! (wh_position P b + i) = (d, raws ! i)"
    "wh_position P b + length raws \<le> length (wh_txs P)"
proof -
  let ?f = "\<lambda>(d, raws). map (Pair d) raws :: (digest \<times> bytes) list"
  have len: "length (concat (map ?f xs)) = length (concat (map snd xs))" for xs
    by (induction xs) (simp_all add: case_prod_unfold)
  have split: "wh_batches P = take b (wh_batches P) @ (d, raws) # drop (Suc b) (wh_batches P)"
    using assms id_take_nth_drop by metis
  have txs: "wh_txs P = concat (map ?f (take b (wh_batches P))) @ map (Pair d) raws
      @ concat (map ?f (drop (Suc b) (wh_batches P)))"
    by (subst wh_txs_def, subst split) simp
  show "wh_position P (Suc b) = wh_position P b + length raws"
    using assms by (simp add: wh_position_def take_Suc_conv_app_nth)
  show "wh_position P b + length raws \<le> length (wh_txs P)"
    unfolding txs by (simp add: wh_position_def len)
  show "i < length raws \<Longrightarrow> wh_txs P ! (wh_position P b + i) = (d, raws ! i)"
    unfolding txs by (simp add: wh_position_def len [symmetric] nth_append)
qed

lemma wb_batch_for_eq:
  assumes "wb_batch_for P e b = (d, q, raws)" "wh_batches P ! b = (d', raws')"
  shows "raws = filter (wb_concerns (wh_partition P) e) raws'" "raws \<noteq> [] \<Longrightarrow> d = d'"
  using assms by (auto simp: wb_batch_for_def message_for_def split: if_splits)

subsection \<open>The invariant\<close>

definition wb_cluster_inv :: "wb_history \<Rightarrow> wb_cluster \<Rightarrow> bool" where
  "wb_cluster_inv P c \<longleftrightarrow> (\<forall>e. wb_inv P e (wh_position P (wl_read c e)) (wl_executor c e))"

lemma wb_cluster_start_inv: "wb_cluster_inv P (wb_cluster_start P)"
  by (auto simp: wb_cluster_inv_def wb_cluster_start_def wb_inv_def wh_position_def account_inv_def messages_inv_def
      wb_start_def wh_state_def get_or_def)

lemma wb_cluster_put_inv:
  assumes "wb_cluster_inv P c" "wb_inv P e (wh_position P (wl_read c e)) s"
  shows "wb_cluster_inv P (wb_cluster_put e s ph c)"
  using assms by (simp add: wb_cluster_inv_def wb_cluster_put_def)

lemma sent_messages_sound:
  assumes "wb_cluster_inv P c"
  shows "t \<in> transfers_to c e \<Longrightarrow> sound_transfer P t" "w \<in> writebacks_to c e \<Longrightarrow> sound_writeback P w"
proof -
  have "messages_inv P (wl_executor c f)" for f using assms by (simp add: wb_cluster_inv_def wb_inv_def)
  then show "t \<in> transfers_to c e \<Longrightarrow> sound_transfer P t" "w \<in> writebacks_to c e \<Longrightarrow> sound_writeback P w"
    unfolding messages_inv_def transfers_to_def writebacks_to_def by fastforce+
qed

lemma wb_deliver_all_inv:
  assumes "wb_inv P e S s"
  shows "(\<And>t. t \<in> set ts \<Longrightarrow> sound_transfer P t) \<Longrightarrow> wb_inv P e S (fold wb_deliver_transfer ts s)"
    "(\<And>w. w \<in> set ws \<Longrightarrow> sound_writeback P w) \<Longrightarrow> wb_inv P e S (fold wb_deliver_writeback ws s)"
proof -
  show "(\<And>t. t \<in> set ts \<Longrightarrow> sound_transfer P t) \<Longrightarrow> wb_inv P e S (fold wb_deliver_transfer ts s)"
    using assms by (induction ts arbitrary: s) (simp_all add: wb_deliver_inv(1))
  show "(\<And>w. w \<in> set ws \<Longrightarrow> sound_writeback P w) \<Longrightarrow> wb_inv P e S (fold wb_deliver_writeback ws s)"
    using assms by (induction ws arbitrary: s) (simp_all add: wb_deliver_inv(2))
qed

lemma wb_inv_stats: "wb_inv P e S s \<Longrightarrow> wb_inv P e S (s\<lparr>wb_stats := st\<rparr>)"
  by (simp add: wb_inv_def account_inv_def messages_inv_def)

lemma wb_cluster_step_inv:
  assumes "wb_cluster_step P c c'" "wh_ok P" "wb_cluster_inv P c"
  shows "wb_cluster_inv P c'"
  using assms(1)
proof cases
  case (read_batch e d q raws cfg s)
  have inv: "wb_inv P e (wh_position P (wl_read c e)) (wl_executor c e)" using assms(3) by (simp add: wb_cluster_inv_def)
  obtain d' raws' where b: "wh_batches P ! wl_read c e = (d', raws')" by fastforce
  note batch = wb_batch_for_eq [OF read_batch(4) b]
  note pos = wh_txs_at [OF read_batch(3) b]
  have "\<exists>raw\<in>set raws'. wb_concerns (wh_partition P) e raw \<Longrightarrow> d = d'"
    using batch by (metis filter_empty_conv)
  then have "wb_inv P e (wh_position P (wl_read c e) + length raws') s"
    using read_batch(7) pos(2,3) batch(1)
    by (intro wb_handle_all_inv [where d' = d' and d = d, OF _ assms(2) inv _ _ _ read_batch(5,6)]) simp_all
  then show ?thesis
    using assms(3) pos(1) by (simp add: read_batch(1) wb_cluster_inv_def wb_cluster_put_def)
next
  case (take_writebacks e ws cfg s)
  have "wb_inv P e (wh_position P (wl_read c e)) (wl_executor c e)" using assms(3) by (simp add: wb_cluster_inv_def)
  then have "wb_inv P e (wh_position P (wl_read c e)) (fold wb_deliver_writeback ws (wl_executor c e))"
    using take_writebacks(3) sent_messages_sound(2) [OF assms(3)] by (intro wb_deliver_all_inv(2)) blast+
  then have "wb_inv P e (wh_position P (wl_read c e)) s" by (rule wb_process_incoming_inv(2) [OF assms(2) _ take_writebacks(6)])
  then show ?thesis unfolding take_writebacks(1) by (rule wb_cluster_put_inv [OF assms(3)])
next
  case (take_transfers e ts cfg s)
  have "wb_inv P e (wh_position P (wl_read c e)) (wl_executor c e)" using assms(3) by (simp add: wb_cluster_inv_def)
  then have "wb_inv P e (wh_position P (wl_read c e)) (fold wb_deliver_transfer ts (wl_executor c e))"
    using take_transfers(3) sent_messages_sound(1) [OF assms(3)] by (intro wb_deliver_all_inv(1)) blast+
  then have "wb_inv P e (wh_position P (wl_read c e)) s" by (rule wb_process_incoming_inv(1) [OF assms(2) _ take_transfers(6)])
  then show ?thesis unfolding take_transfers(1) by (intro wb_cluster_put_inv [OF assms(3)] wb_inv_stats)
qed

lemma wb_reachable_inv: "wb_reachable P c \<Longrightarrow> wh_ok P \<Longrightarrow> wb_cluster_inv P c"
  by (induction rule: wb_reachable.induct) (auto intro: wb_cluster_start_inv wb_cluster_step_inv)

text \<open>
  C34: The write-back executors of a validator are serializable for a well-formed history (transaction ids are not
  reused, every account of a transaction has an owner and no payment leaves the range of \<open>i64\<close>): whatever the interleaving of their
  steps and the delay, repetition or loss of the messages between them, the state of an account with no waiting
  transaction is that after executing, one after the other, all transactions that its executor has read; and
  every reply sent to a client is the one the sequential execution gives to this transaction.
\<close>

theorem writeback_executors_serializable:
  assumes "wh_ok P" "wb_reachable P c"
  shows "(\<forall>a e. wh_partition P a = Some e \<longrightarrow> wb_queue (wl_executor c e) a = [] \<longrightarrow>
       wb_store (wl_executor c e) a = wh_state P (wh_position P (wl_read c e)) a)
     \<and> (\<forall>e. \<forall>r\<in>set (wb_replies_out (wl_executor c e)). \<exists>n<length (wh_txs P). \<exists>t st x.
          wh_tx P n = Some t \<and> rq_tx_id r = wh_id P n \<and> rq_digest r = wh_digest P n
          \<and> wb_apply_payload t (wh_state P n) = Some (st, rq_success r, x)
          \<and> rq_account r = sb_account_id t \<and> rq_state r = Some x)"
proof -
  have inv: "wb_inv P e (wh_position P (wl_read c e)) (wl_executor c e)" for e
    using wb_reachable_inv [OF assms(2,1)] by (simp add: wb_cluster_inv_def)
  have "sound_reply P r" if "r \<in> set (wb_replies_out (wl_executor c e))" for e r
    using inv [of e] that by (simp add: wb_inv_def messages_inv_def)
  then show ?thesis using account_inv_empty [OF assms(1) inv] by (auto simp: sound_reply_def)
qed

end
