(* ===== verification/Executor_Cluster.thy ===== *)
theory Executor_Cluster
  imports Executor_Runs
begin

text \<open>
  The executors of a validator together: each runs the same batches at its own pace, and the accounts
  that one sends travel to another. Every account is in one place at any time.
\<close>

subsection \<open>Where an account can be\<close>

definition count_in :: "nat \<Rightarrow> state_transfer list \<Rightarrow> nat" where
  "count_in a ts = count_list (map st_account ts) a"

definition waiting_in :: "nat \<Rightarrow> transfers \<Rightarrow> nat" where
  "waiting_in a m = count_in a (concat (map snd m))"

text \<open>The copies of an account that an executor has: in its store, or arrived and not yet used.\<close>

definition held :: "executor \<Rightarrow> nat \<Rightarrow> nat" where
  "held s a = of_bool (account_store s a \<noteq> None) + waiting_in a (drained_transfers s) + waiting_in a (incoming_transfers s)"

definition sent_of :: "executor \<Rightarrow> nat \<Rightarrow> nat" where
  "sent_of s a = count_in a (map tr_transfer (transfers_out s))"

definition single :: "executor \<Rightarrow> bool" where
  "single s \<longleftrightarrow> distinct (map fst (drained_transfers s)) \<and> distinct (map fst (incoming_transfers s)) \<and> (\<forall>a. held s a \<le> 1)"

text \<open>What every operation keeps: the accounts held and sent, and at most one copy.\<close>

definition kept :: "executor \<Rightarrow> executor \<Rightarrow> bool" where
  "kept s s' \<longleftrightarrow> single s' \<and> (\<forall>a. held s' a + sent_of s' a = held s a + sent_of s a)
     \<and> (\<exists>new. transfers_out s' = transfers_out s @ new)"

lemma count_in_simps [simp]:
  "count_in a [] = 0" "count_in a (xs @ ys) = count_in a xs + count_in a ys"
  "count_in a (t # ts) = of_bool (st_account t = a) + count_in a ts"
  by (simp_all add: count_in_def)

lemma kept_refl: "single s \<Longrightarrow> kept s s"
  by (simp add: kept_def)

lemma kept_trans: "kept s t \<Longrightarrow> kept t u \<Longrightarrow> kept s u"
  by (auto simp: kept_def)

lemma kept_single: "kept s t \<Longrightarrow> single t"
  by (simp add: kept_def)

text \<open>Operations that leave the accounts where they are.\<close>

definition same_place :: "executor \<Rightarrow> executor \<Rightarrow> bool" where
  "same_place s s' \<longleftrightarrow> (\<forall>a. account_store s' a = None \<longleftrightarrow> account_store s a = None)
     \<and> drained_transfers s' = drained_transfers s \<and> incoming_transfers s' = incoming_transfers s
     \<and> transfers_out s' = transfers_out s"

lemma same_place_kept: "single s \<Longrightarrow> same_place s s' \<Longrightarrow> kept s s'"
  by (simp add: kept_def same_place_def single_def held_def sent_of_def)

lemma apply_payload_places:
  "apply_payload t store = Some (store', ok) \<Longrightarrow> store' a = None \<longleftrightarrow> store a = None"
  by (cases "sb_tx_type t") (auto simp: apply_payload_def Let_def case_prod_unfold split: option.splits if_splits)

lemma execute_single_places:
  "execute_single_local_transaction cfg d raw h s = Some (s', ok) \<Longrightarrow> same_place s s'"
  by (auto simp: same_place_def execute_single_local_transaction_def Let_def apply_payload_places
      split: option.splits if_splits bind_splits)

lemma enqueue_places: "lock_and_enqueue_transaction d raw h req l s = Some s' \<Longrightarrow> same_place s s'"
  by (auto simp: same_place_def lock_and_enqueue_transaction_def bump_def Let_def bind_eq_Some_conv)

lemma migrate_out_kept:
  assumes "execute_migrate_out tid as dest s = Some s'" "single s"
  shows "kept s s'"
  using assms
proof (induction as arbitrary: s)
  case (Cons a as)
  obtain x where x: "account_store s a = Some x" using Cons.prems(1) by (auto split: option.splits)
  let ?s = "s\<lparr>account_store := (account_store s)(a := None), transfers_out := transfers_out s @
      [\<lparr>tr_transfer = \<lparr>st_tx_id = tid, st_account = a, st_state = x\<rparr>, tr_dest = dest\<rparr>]\<rparr>"
  have "kept s ?s"
    using x Cons.prems(2) by (auto simp: kept_def single_def held_def sent_of_def le_Suc_eq)
  moreover have "single ?s" using calculation by (simp add: kept_def)
  then have "kept ?s s'" using Cons.IH Cons.prems(1) x by simp
  ultimately show ?case by (rule kept_trans)
qed (simp add: kept_refl)

lemma drain_step_kept:
  assumes "drain_step cfg a s = Some (Some (s', un))" "single s"
  shows "kept s s'"
  using assms(1)
proof (cases rule: drain_step_cases)
  case (migrate owned others dest required tid qs p)
  have "same_place s (s\<lparr>pending_queues := qs\<rparr>)" by (simp add: same_place_def)
  then have "kept s (s\<lparr>pending_queues := qs\<rparr>)" using assms(2) by (rule same_place_kept [rotated])
  then show ?thesis using migrate_out_kept [OF migrate(3)] by (blast intro: kept_trans dest: kept_single)
next
  case (local required tid qs p ok)
  have "same_place s s'" using execute_single_places [OF local(3)] by (simp add: same_place_def)
  then show ?thesis using assms(2) by (rule same_place_kept [rotated])
qed

lemma drain_loop_kept:
  assumes "drain_loop cfg wl s = Some s'" "single s"
  shows "kept s s'"
proof (rule drain_loop_keeps [where P = "kept s", OF assms(1) kept_refl [OF assms(2)]])
  show "kept s t'" if "kept s t" "drain_step cfg a t = Some (Some (t', un))" for a t t' un
    using that drain_step_kept by (blast intro: kept_trans dest: kept_single)
  show "kept s (t\<lparr>pending_queues := remove_if_empty a (pending_queues t)\<rparr>)" if "kept s t" for a t
  proof -
    have "same_place t (t\<lparr>pending_queues := remove_if_empty a (pending_queues t)\<rparr>)" by (simp add: same_place_def)
    moreover have "single t" using that by (simp add: kept_def)
    ultimately show ?thesis using that same_place_kept kept_trans by blast
  qed
qed

lemma handle_kept:
  assumes "handle_transaction_by_locality cfg d raw h req l s = Some s'" "single s"
  shows "kept s s'"
proof -
  have bump: "same_place s (bump f s)" for f by (simp add: same_place_def bump_def)
  have migrate: "kept s s'" if "execute_migrate_out tid as dest (bump f s) = Some s'" for tid as dest f
    using same_place_kept [OF assms(2) bump] migrate_out_kept [OF that] by (blast intro: kept_trans dest: kept_single)
  have execute: "same_place s s'" if "execute_single_local_transaction cfg d raw h (bump f s) = Some (s', ok)" for f ok
    using execute_single_places [OF that] bump [of f] by (simp add: same_place_def)
  show ?thesis
  proof (cases l)
    case Local
    have "same_place s s'"
      using assms(1) execute enqueue_places by (auto simp: Local handle_local_transaction_def split: if_splits)
    then show ?thesis by (rule same_place_kept [OF assms(2)])
  next
    case (MigrateOut owned others dest)
    then show ?thesis
      using assms(1) migrate enqueue_places same_place_kept [OF assms(2)]
      by (auto simp: handle_migrate_out_transaction_def split: if_splits option.splits)
  next
    case (MigrateIn accs)
    then show ?thesis using assms(1) enqueue_places same_place_kept [OF assms(2)] by auto
  next
    case (Others e)
    then have "same_place s s'" using assms(1) by (auto simp: same_place_def)
    then show ?thesis by (rule same_place_kept [OF assms(2)])
  qed
qed

lemma handle_all_kept: "handle_all cfg d txs s = Some s' \<Longrightarrow> single s \<Longrightarrow> kept s s'"
proof (induction cfg d txs s rule: handle_all.induct)
  case (2 cfg d raw h req x l txs s)
  let ?s = "bump total_transactions_update s"
  obtain s1 where s1: "handle_transaction_by_locality cfg d raw h req l ?s = Some s1" "handle_all cfg d txs s1 = Some s'"
    using "2.prems"(1) by (auto simp: bind_eq_Some_conv)
  have "kept s ?s" using "2.prems"(2) by (intro same_place_kept) (simp_all add: same_place_def bump_def)
  moreover have "kept ?s s1" using handle_kept [OF s1(1)] calculation by (simp add: kept_def)
  moreover have "kept s1 s'" using "2.IH" [OF s1] calculation(2) by (simp add: kept_def)
  ultimately show ?case using kept_trans by blast
qed (simp add: kept_refl)

subsection \<open>Arriving accounts\<close>

lemma count_concat_delete:
  assumes "distinct (map fst m)" "map_of m k = Some ts"
  shows "waiting_in a (AList.delete k m) + count_in a ts = waiting_in a m"
  using assms
proof (induction m)
  case (Cons e m)
  then have "AList.delete (fst e) m = m" by (intro delete_id) simp
  then show ?case using Cons by (cases e) (auto simp: waiting_in_def split: if_splits)
qed simp

lemma waiting_in_upsert:
  assumes "distinct (map fst m)"
  shows "waiting_in a (upsert [] k (\<lambda>l. l @ ts) m) = waiting_in a m + count_in a ts"
  using assms
proof (induction m)
  case (Cons e m)
  then show ?case by (cases e) (auto simp: waiting_in_def upsert_def get_or_def)
qed (simp add: waiting_in_def upsert_def get_or_def)

lemma fold_upsert_waiting:
  assumes "distinct (map fst m)"
  shows "distinct (map fst (fold (\<lambda>(tid, ts). upsert [] tid (\<lambda>l. l @ ts)) inc m))
    \<and> waiting_in a (fold (\<lambda>(tid, ts). upsert [] tid (\<lambda>l. l @ ts)) inc m) = waiting_in a m + waiting_in a inc"
  using assms
proof (induction inc arbitrary: m)
  case (Cons e inc)
  obtain tid ts where e: "e = (tid, ts)" by (cases e)
  have "distinct (map fst (upsert [] tid (\<lambda>l. l @ ts) m))" using Cons.prems by simp
  from Cons.IH [OF this] show ?case
    using waiting_in_upsert [OF Cons.prems, of a tid ts] by (simp add: e) (simp add: waiting_in_def)
qed (simp add: waiting_in_def)

lemma drain_incoming_kept:
  assumes "single s"
  shows "kept s (drain_incoming s)"
proof -
  have d: "distinct (map fst (drained_transfers s))" using assms by (simp add: single_def)
  note * = fold_upsert_waiting [OF d, of "incoming_transfers s"]
  have "held (drain_incoming s) a = held s a" for a
    using * [of a] by (simp add: held_def drain_incoming_def) (simp add: waiting_in_def)
  then show ?thesis
    using assms * by (simp add: kept_def single_def sent_of_def) (simp add: drain_incoming_def)
qed

lemma insert_states:
  "fold (\<lambda>t st. st(st_account t \<mapsto> st_state t)) ts st a = None \<longleftrightarrow> st a = None \<and> count_in a ts = 0"
  by (induction ts arbitrary: st) auto

lemma incoming_one_kept:
  assumes "incoming_one cfg tid s = Some (s', un)" "single s"
  shows "kept s s'"
  using assms(1)
proof (cases rule: incoming_one_cases)
  case later
  then show ?thesis using assms(2) by (simp add: kept_refl)
next
  case (execute t ts p q migrating qs p' ok)
  let ?s = "s\<lparr>drained_transfers := AList.delete tid (drained_transfers s), pending_queues := qs,
     account_store := fold (\<lambda>t st. st(st_account t \<mapsto> st_state t)) (t # ts) (account_store s)\<rparr>"
  have split: "waiting_in a (AList.delete tid (drained_transfers s)) + count_in a (t # ts) = waiting_in a (drained_transfers s)" for a
    using assms(2) execute(1) by (intro count_concat_delete) (simp_all add: single_def)
  have "held ?s a = held s a" for a
  proof -
    have "held s a \<le> 1" using assms(2) by (simp add: single_def)
    then have "of_bool (account_store ?s a \<noteq> None) = of_bool (account_store s a \<noteq> None) + count_in a (t # ts)"
      using split [of a] insert_states [of "t # ts" "account_store s" a] unfolding held_def
      by (cases "account_store s a = None") (auto simp del: count_in_simps fold_simps)
    then show ?thesis using split [of a] unfolding held_def by simp
  qed
  then have "kept s ?s" using assms(2) by (simp add: kept_def single_def sent_of_def distinct_delete)
  moreover have "kept ?s s'"
    using execute_single_places [OF execute(9)] calculation by (intro same_place_kept) (simp_all add: kept_def)
  ultimately show ?thesis by (rule kept_trans)
qed

lemma incoming_loop_kept: "incoming_loop cfg tids s = Some (s', un) \<Longrightarrow> single s \<Longrightarrow> kept s s'"
proof (induction tids arbitrary: s un)
  case (Cons tid tids)
  obtain s1 un1 un2 where s1: "incoming_one cfg tid s = Some (s1, un1)" "incoming_loop cfg tids s1 = Some (s', un2)"
    using Cons.prems(1) by (auto simp: bind_eq_Some_conv)
  have "kept s s1" by (rule incoming_one_kept [OF s1(1) Cons.prems(2)])
  then show ?case using Cons.IH [OF s1(2)] by (blast intro: kept_trans dest: kept_single)
qed (simp add: kept_refl)

lemma process_incoming_kept:
  assumes "process_incoming_transfers cfg s = Some s'" "single s"
  shows "kept s s'"
proof -
  obtain s1 un where s1: "incoming_loop cfg (arranged cfg (keys (drained_transfers (drain_incoming s)))) (drain_incoming s) = Some (s1, un)"
    "(if un = [] then Some s1 else drain_pending_queues cfg un s1) = Some s'"
    using assms(1) by (auto simp: process_incoming_transfers_def Let_def bind_eq_Some_conv)
  have k: "kept s (drain_incoming s)" by (rule drain_incoming_kept [OF assms(2)])
  then have k1: "kept s s1" using incoming_loop_kept [OF s1(1)] by (blast intro: kept_trans dest: kept_single)
  then have "kept s1 s'"
    using s1(2) drain_loop_kept [of cfg _ s1 s'] kept_refl [of s1] kept_single [OF k1]
    by (auto simp: drain_pending_queues_def split: if_splits)
  then show ?thesis by (rule kept_trans [OF k1])
qed

lemma add_transfers_waiting:
  assumes "distinct (map fst m)"
  shows "distinct (map fst (fold add_transfer ts m)) \<and> waiting_in a (fold add_transfer ts m) = waiting_in a m + count_in a ts"
  using assms
proof (induction ts arbitrary: m)
  case (Cons t ts)
  have "distinct (map fst (add_transfer t m))" using Cons.prems by (simp add: add_transfer_def)
  moreover have "waiting_in a (add_transfer t m) = waiting_in a m + count_in a [t]"
    unfolding add_transfer_def by (rule waiting_in_upsert [OF Cons.prems])
  ultimately show ?case using Cons.IH by simp
qed simp

text \<open>A batch, with the accounts \<open>ts\<close> that arrive while it runs.\<close>

lemma execute_batch_kept:
  assumes "execute_batch cfg ts d raws s = Some s'" "single s" "\<forall>a. held s a + count_in a ts \<le> 1"
  shows "single s' \<and> (\<forall>a. held s' a + sent_of s' a = held s a + sent_of s a + count_in a ts)
    \<and> (\<exists>new. transfers_out s' = transfers_out s @ new)"
proof -
  obtain txs ls part s1 s2 where r: "handle_all cfg d (zip txs ls)
      (s\<lparr>schedule_partition := part, scheduled_tx_count := scheduled_tx_count s + length txs\<rparr>) = Some s1"
    "process_incoming_transfers cfg (s1\<lparr>incoming_transfers := fold add_transfer ts (incoming_transfers s1)\<rparr>) = Some s2"
    "s' = s2\<lparr>lock_stats := update_queue_depths (pending_queues s2) (lock_stats s2)\<rparr>"
    using assms(1) by (auto simp: execute_batch_def bind_eq_Some_conv)
  let ?s0 = "s\<lparr>schedule_partition := part, scheduled_tx_count := scheduled_tx_count s + length txs\<rparr>"
  let ?s1 = "s1\<lparr>incoming_transfers := fold add_transfer ts (incoming_transfers s1)\<rparr>"
  have "kept s ?s0" using assms(2) by (intro same_place_kept) (simp_all add: same_place_def)
  then have k: "kept s s1" using handle_all_kept [OF r(1)] by (blast intro: kept_trans dest: kept_single)
  then have inc: "distinct (map fst (incoming_transfers s1))" by (simp add: kept_def single_def)
  note add = add_transfers_waiting [OF inc, of ts]
  have h: "held ?s1 a = held s1 a + count_in a ts" for a using add [of a] by (simp add: held_def)
  have "held ?s1 a \<le> 1" for a
  proof -
    obtain new where "transfers_out s1 = transfers_out s @ new" using k by (auto simp: kept_def)
    then have "sent_of s a \<le> sent_of s1 a" by (simp add: sent_of_def)
    moreover have "held s1 a + sent_of s1 a = held s a + sent_of s a" using k by (simp add: kept_def)
    ultimately have "held s1 a \<le> held s a" by simp
    then show ?thesis using assms(3) h [of a] by (metis add_le_mono1 le_trans)
  qed
  then have s1: "single ?s1" using k add by (simp add: kept_def single_def)
  have "kept ?s1 s2" by (rule process_incoming_kept [OF r(2) s1])
  moreover have "kept s2 s'"
    using calculation by (intro same_place_kept) (simp_all add: kept_def same_place_def r(3))
  ultimately have "kept ?s1 s'" by (rule kept_trans)
  then show ?thesis using k h by (auto simp: kept_def sent_of_def)
qed

lemma execute_next_kept:
  assumes "execute_next cfg (\<lambda>_. ts) b s = Some s'" "single s" "\<forall>a. held s a + count_in a ts \<le> 1"
  shows "single s' \<and> (\<forall>a. held s' a + sent_of s' a = held s a + sent_of s a + count_in a ts)
    \<and> (\<exists>new. transfers_out s' = transfers_out s @ new)"
proof -
  obtain s1 where s1: "execute_batch cfg ts (fst b) (snd b) s = Some s1"
    "s' = send_feedback_if_needed cfg (s1\<lparr>next_sequence := wadd 64 (next_sequence s1) 1\<rparr>)"
    using assms(1) by (auto simp: execute_next_def)
  have "account_store s' = account_store s1 \<and> drained_transfers s' = drained_transfers s1
    \<and> incoming_transfers s' = incoming_transfers s1 \<and> transfers_out s' = transfers_out s1"
    by (simp add: s1(2) send_feedback_if_needed_def Let_def)
  then show ?thesis
    using execute_batch_kept [OF s1(1) assms(2,3)] by (simp add: single_def held_def sent_of_def)
qed

subsection \<open>The executors of a validator\<close>

text \<open>The executors \<open>0\<close> to \<open>k - 1\<close> and the transfers that the network has not delivered.\<close>

record cluster =
  cl_executors :: "nat \<Rightarrow> executor"
  cl_flight :: "transfer_request multiset"

definition delivery :: "nat \<Rightarrow> state_transfer list \<Rightarrow> transfer_request multiset" where
  "delivery i ts = image_mset (\<lambda>t. \<lparr>tr_transfer = t, tr_dest = i\<rparr>) (mset ts)"

text \<open>An executor runs its next batch; transfers to it that were in flight arrive before it takes
  the shared buffer.\<close>

inductive cluster_step :: "(nat \<Rightarrow> executor_config) \<Rightarrow> (nat \<Rightarrow> digest \<times> bytes list) \<Rightarrow> nat \<Rightarrow> cluster \<Rightarrow> cluster \<Rightarrow> bool"
  for cfg batch k where
  run: "i < k \<Longrightarrow> delivery i ts \<subseteq># cl_flight c
    \<Longrightarrow> execute_next (cfg i) (\<lambda>_. ts) (batch (next_sequence (cl_executors c i))) (cl_executors c i) = Some s'
    \<Longrightarrow> transfers_out s' = transfers_out (cl_executors c i) @ new
    \<Longrightarrow> cluster_step cfg batch k c \<lparr>cl_executors = (cl_executors c)(i := s'), cl_flight = cl_flight c - delivery i ts + mset new\<rparr>"

inductive_cases cluster_stepE: "cluster_step cfg batch k c c'"

inductive cluster_reach :: "(nat \<Rightarrow> executor_config) \<Rightarrow> (nat \<Rightarrow> digest \<times> bytes list) \<Rightarrow> nat \<Rightarrow> cluster \<Rightarrow> cluster \<Rightarrow> bool"
  for cfg batch k c where
  start: "cluster_reach cfg batch k c c"
| step: "cluster_reach cfg batch k c c' \<Longrightarrow> cluster_step cfg batch k c' c'' \<Longrightarrow> cluster_reach cfg batch k c c''"

definition cluster_init :: "(nat \<Rightarrow> int \<Rightarrow> int \<Rightarrow> nat \<Rightarrow> int) \<Rightarrow> int \<Rightarrow> int \<Rightarrow> partition \<Rightarrow> cluster" where
  "cluster_init rng lo hi p = \<lparr>cl_executors = (\<lambda>i. executor_init rng lo hi i p), cl_flight = {#}\<rparr>"

definition in_flight :: "cluster \<Rightarrow> nat \<Rightarrow> nat" where
  "in_flight c a = count (image_mset (\<lambda>r. st_account (tr_transfer r)) (cl_flight c)) a"

definition copies :: "nat \<Rightarrow> cluster \<Rightarrow> nat \<Rightarrow> nat" where
  "copies k c a = (\<Sum>i<k. held (cl_executors c i) a) + in_flight c a"

definition cluster_inv :: "nat \<Rightarrow> (nat \<Rightarrow> nat) \<Rightarrow> cluster \<Rightarrow> bool" where
  "cluster_inv k n c \<longleftrightarrow> (\<forall>i<k. single (cl_executors c i)) \<and> (\<forall>a. copies k c a = n a)"

lemma count_in_mset: "count (image_mset st_account (mset ts)) a = count_in a ts"
  by (induction ts) auto

lemma in_flight_delivery:
  assumes "delivery i ts \<subseteq># cl_flight c"
  shows "in_flight c a = in_flight \<lparr>cl_executors = xs, cl_flight = cl_flight c - delivery i ts\<rparr> a + count_in a ts"
proof -
  obtain rest where "cl_flight c = delivery i ts + rest" using assms by (auto simp: mset_subset_eq_exists_conv)
  then show ?thesis
    by (simp add: in_flight_def delivery_def multiset.map_comp comp_def count_in_mset [symmetric])
qed

lemma cluster_step_inv:
  assumes "cluster_step cfg batch k c c'" "cluster_inv k n c" "\<forall>a. n a \<le> 1"
  shows "cluster_inv k n c'"
  using assms(1)
proof cases
  case (run i ts s' new)
  let ?s = "cl_executors c i" and ?f = "cl_flight c - delivery i ts"
  have sum: "(\<Sum>j<k. held (f j) a) = held (f i) a + (\<Sum>j\<in>{..<k} - {i}. held (f j) a)" for f a
    using run(2) by (simp add: sum.remove)
  have flight: "in_flight c a = in_flight \<lparr>cl_executors = cl_executors c, cl_flight = ?f\<rparr> a + count_in a ts" for a
    by (rule in_flight_delivery [OF run(3)])
  have one: "held ?s a + count_in a ts \<le> 1" for a
  proof -
    have "copies k c a \<le> 1" using assms(2,3) by (simp add: cluster_inv_def)
    then show ?thesis using flight [of a] unfolding copies_def sum [of "cl_executors c"] by simp
  qed
  have single: "single ?s" using assms(2) run(2) by (simp add: cluster_inv_def)
  note nx = execute_next_kept [OF run(4) single]
  have s': "single s'" "held s' a + count_in a (map tr_transfer new) = held ?s a + count_in a ts" for a
    using nx one run(5) by (simp_all add: sent_of_def)
  have "copies k c' a = copies k c a" for a
  proof -
    have "in_flight c' a = in_flight \<lparr>cl_executors = cl_executors c, cl_flight = ?f\<rparr> a + count_in a (map tr_transfer new)"
      by (simp add: run(1) in_flight_def count_in_mset [symmetric] multiset.map_comp comp_def)
    moreover have "(\<Sum>j\<in>{..<k} - {i}. held (cl_executors c' j) a) = (\<Sum>j\<in>{..<k} - {i}. held (cl_executors c j) a)"
      by (intro sum.cong) (simp_all add: run(1))
    ultimately show ?thesis
      using flight [of a] s'(2) [of a] unfolding copies_def sum [of "cl_executors c"] sum [of "cl_executors c'"]
      by (simp add: run(1))
  qed
  then show ?thesis using assms(2) s'(1) by (simp add: cluster_inv_def run(1))
qed

lemma cluster_reach_inv:
  assumes "cluster_reach cfg batch k c c'" "cluster_inv k n c" "\<forall>a. n a \<le> 1"
  shows "cluster_inv k n c'"
  using assms(1)
proof induction
  case start
  show ?case by (rule assms(2))
next
  case (step c' c'')
  show ?case by (rule cluster_step_inv [OF step.hyps(2) step.IH assms(3)])
qed

lemma held_init: "held (executor_init rng lo hi i p) a = of_bool (map_of p a = Some i)"
  by (simp add: held_def executor_init_def waiting_in_def)

lemma cluster_inv_init:
  "cluster_inv k (\<lambda>a. of_bool (\<exists>i<k. map_of p a = Some i)) (cluster_init rng lo hi p)"
proof -
  have "(\<Sum>i<k. of_bool (map_of p a = Some i)) = (of_bool (\<exists>i<k. map_of p a = Some i) :: nat)" for a
  proof (cases "map_of p a")
    case (Some j)
    then have "(\<Sum>i<k. of_bool (map_of p a = Some i)) = (\<Sum>i<k. if i = j then 1 else 0 :: nat)"
      by (intro sum.cong) auto
    then show ?thesis using Some by simp
  qed simp
  moreover have "single (executor_init rng lo hi i p)" for i
    unfolding single_def held_init by (simp add: executor_init_def)
  ultimately show ?thesis
    by (simp add: cluster_inv_def cluster_init_def copies_def held_init in_flight_def)
qed

text \<open>
  C33: No account is lost and none is duplicated: however the executors of a validator interleave
  and whenever the network delivers the transfers between them, an account that the initial
  partition gives to one of them is in exactly one place: in the store of one executor, in the
  buffers of one, or on the way in one message; and no other account ever appears.
\<close>

theorem no_account_lost_or_duplicated:
  assumes "cluster_reach cfg batch k (cluster_init rng lo hi p) c"
  shows "(\<Sum>i<k. held (cl_executors c i) a) + in_flight c a = of_bool (\<exists>i<k. map_of p a = Some i)"
  using cluster_reach_inv [OF assms cluster_inv_init] by (simp add: cluster_inv_def copies_def)

definition two_cluster :: cluster where
  "two_cluster = cluster_init (\<lambda>a lo hi k. 10) 0 100 [(3, 0), (4, 1)]"

lemma two_cluster_sends:
  "\<exists>s' x. execute_next (x_cfg False 2 1) (\<lambda>_. []) (7, [tx_raw 5 (payment 3 4)]) (cl_executors two_cluster 1) = Some s'
    \<and> transfers_out s' = [\<lparr>tr_transfer = \<lparr>st_tx_id = (0, 5), st_account = 4, st_state = x\<rparr>, tr_dest = 0\<rparr>]
    \<and> transfers_out (cl_executors two_cluster 1) = []"
proof -
  have out: "transfers_out (x_state p me) = []" for p me by (simp add: x_state_def executor_init_def)
  have init: "cl_executors two_cluster 1 = x_state [(3, 0), (4, 1)] 1"
    by (simp add: two_cluster_def cluster_init_def x_state_def)
  show ?thesis unfolding init
    by (simp add: execute_next_def execute_batch_def parse_and_schedule_def tx_raw_simps
      determine_locality_def handle_migrate_out_transaction_def is_ready_to_execute_def is_account_unlocked_or_head_def bump_def
      process_incoming_transfers_def drain_incoming_def keys_def send_feedback_if_needed_def Let_def out)
qed

theorem no_account_lost_or_duplicated_witness:
  "\<exists>c. cluster_reach (x_cfg False 2) (\<lambda>_. (7, [tx_raw 5 (payment 3 4)])) 2 two_cluster c
    \<and> in_flight c 4 = 1 \<and> (\<Sum>i<2. held (cl_executors c i) 4) + in_flight c 4 = 1"
proof -
  obtain s' x where s': "execute_next (x_cfg False 2 1) (\<lambda>_. []) (7, [tx_raw 5 (payment 3 4)]) (cl_executors two_cluster 1) = Some s'"
    "transfers_out s' = transfers_out (cl_executors two_cluster 1) @ [\<lparr>tr_transfer = \<lparr>st_tx_id = (0, 5), st_account = 4, st_state = x\<rparr>, tr_dest = 0\<rparr>]"
    using two_cluster_sends by auto
  let ?c = "\<lparr>cl_executors = (cl_executors two_cluster)(1 := s'), cl_flight = cl_flight two_cluster - delivery 1 []
    + mset [\<lparr>tr_transfer = \<lparr>st_tx_id = (0, 5), st_account = 4, st_state = x\<rparr>, tr_dest = 0\<rparr>]\<rparr>"
  have "cluster_step (x_cfg False 2) (\<lambda>_. (7, [tx_raw 5 (payment 3 4)])) 2 two_cluster ?c"
    by (rule cluster_step.run [where ts = "[]"]) (use s' in \<open>simp_all add: delivery_def\<close>)
  then have reach: "cluster_reach (x_cfg False 2) (\<lambda>_. (7, [tx_raw 5 (payment 3 4)])) 2 two_cluster ?c"
    by (rule cluster_reach.step [OF cluster_reach.start])
  have "in_flight ?c 4 = 1" by (simp add: in_flight_def delivery_def two_cluster_def cluster_init_def)
  moreover have "\<exists>i<2. map_of [(3, 0), (4, 1)] (4 :: nat) = Some (i :: nat)" by (rule exI [of _ 1]) simp
  then have "(\<Sum>i<2. held (cl_executors ?c i) 4) + in_flight ?c 4 = 1"
    using no_account_lost_or_duplicated [OF reach [unfolded two_cluster_def], of 4, folded two_cluster_def] by simp
  ultimately show ?thesis using reach by blast
qed

end
