(* ===== verification/Reused_Ids.thy ===== *)
theory Reused_Ids
  imports Executor_Cluster
begin

text \<open>
  What goes wrong when two transactions have the same identifier. A client chooses the identifier of a
  transaction (its region and counter), and nothing checks that it is new.
\<close>

definition poor_state :: executor where
  "poor_state = executor_init (\<lambda>a lo hi k. 3) 0 100 0 [(3, 0), (4, 1)]"

text \<open>The account 4 arrives for the payment.\<close>

definition arrival_of_4 :: state_transfer where
  "arrival_of_4 = \<lparr>st_tx_id = (0, 5), st_account = 4, st_state = account_new 3 3\<rparr>"

definition arrives_at :: "nat \<Rightarrow> nat \<Rightarrow> state_transfer list" where
  "arrives_at n q = (if q = n then [arrival_of_4] else [])"

definition two_transactions :: "nat \<Rightarrow> (digest \<times> bytes list) list" where
  "two_transactions n = [(7, [tx_raw 5 (payment 3 4)]), (8, [tx_raw n (deposit 3)])]"

definition balances :: "executor \<Rightarrow> int option \<times> int option" where
  "balances s = (map_option checking_balance (account_store s 3), map_option checking_balance (account_store s 4))"

lemma poor_sel [simp]:
  "next_sequence poor_state = 0" "x_buffer poor_state = []" "schedule_partition poor_state = map_of [(3, 0), (4, 1)]"
  "pending_queues poor_state = []" "incoming_transfers poor_state = []" "drained_transfers poor_state = []"
  "account_store poor_state = (\<lambda>a. if a = 3 then Some (account_new 3 3) else None)"
  by (simp_all add: poor_state_def executor_init_def create_account_with_seed_def fun_eq_iff)

lemma amount_5: "f_as_i64 (sb_amount (payment a b)) = 5" "f_as_i64 (sb_amount (deposit a)) = 5"
  using bits_5(1) by (simp_all add: sb_amount_def payment_def deposit_def bits_5_def)

lemma apply_deposit_5:
  "store a = Some x \<Longrightarrow> apply_payload (deposit a) store = Some (store(a \<mapsto> x\<lparr>checking_balance := sat64 (checking_balance x + 5)\<rparr>), True)"
  by (simp add: apply_payload_def execute_deposit_checking_def amount_5)

lemma apply_payment_5:
  "a \<noteq> b \<Longrightarrow> store a = Some x \<Longrightarrow> store b = Some y \<Longrightarrow> apply_payload (payment a b) store = Some
     (if wrap64 (checking_balance x - 5) < 0 then (store(a \<mapsto> x), False)
      else (store(a \<mapsto> x\<lparr>checking_balance := wrap64 (checking_balance x - 5)\<rparr>,
                  b \<mapsto> y\<lparr>checking_balance := sat64 (checking_balance y + 5)\<rparr>), True))"
  by (simp add: apply_payload_def execute_send_payment_debit_def execute_send_payment_credit_def amount_5 Let_def)

lemma wrap_sat_small: "wrap64 (- 2) = - 2" "wrap64 3 = 3" "sat64 8 = 8"
  by (simp_all add: wrap64_def sat64_def)

lemma drain_no_queues: "pending_queues s = [] \<Longrightarrow> drain_loop cfg wl s = Some s"
proof (induction cfg wl s rule: drain_loop.induct)
  case (1 cfg wl s)
  have idle: "drain_account cfg a s wl' = Some (s, wl')" for a wl'
    using "1.prems" by (subst drain_account.simps) (simp add: drain_step_def get_executable_queue_head_def)
  have same: "s\<lparr>pending_queues := remove_if_empty a (pending_queues s)\<rparr> = s" for a
    using "1.prems" by (simp add: remove_if_empty_def)
  show ?case
  proof (cases "wl = []")
    case False
    have "drain_loop cfg (removeAll (next_account cfg wl) wl) s = Some s"
      using "1.IH" [OF False refl idle refl, unfolded same] "1.prems" by simp
    then show ?thesis using False idle same by (subst drain_loop.simps) (simp add: Let_def)
  qed (simp add: drain_loop.simps)
qed

lemmas run_simps = wrap_sat_small account_new_def apply_deposit_5 apply_payment_5 execute_next_def execute_batch_def parse_and_schedule_def tx_raw_simps
  determine_locality_def lock_and_enqueue_transaction_def handle_local_transaction_def
  is_ready_to_execute_def is_account_unlocked_or_head_def bump_def upsert_def get_or_def
  process_incoming_transfers_def drain_incoming_def keys_def send_feedback_if_needed_def Let_def
  incoming_one_def add_transfer_def arranged_def is_enqueued_at_head_def pop_transaction_from_accounts_def set_insert_def
  drain_pending_queues_def drain_no_queues
  execute_single_local_transaction_def is_sample_def

text \<open>
  A transaction identifier that is used twice makes validators diverge: two runs of the
  same executor over the same two batches, a payment of five from an account with three and a deposit of
  five with the same identifier, end with different balances, depending only on whether the other
  account of the payment arrives before or after the deposit is scheduled: the deposit overtakes the
  payment that waits at the head of its queue, because the queue's head has \<open>its\<close> identifier.
\<close>

theorem reused_id_makes_validators_diverge:
  "map_option balances (execute_in_order (x_cfg False 2 0) (arrives_at 0) (two_transactions 5) poor_state) = Some (Some 8, Some 3)
   \<and> map_option balances (execute_in_order (x_cfg False 2 0) (arrives_at 1) (two_transactions 5) poor_state) = Some (Some 3, Some 8)"
  by (simp add: two_transactions_def arrives_at_def arrival_of_4_def run_simps balances_def wadd_def)

end
