(* ===== verification/Writeback_Runs.thy ===== *)
theory Writeback_Runs
  imports Writeback_Serial Reused_Ids
begin

text \<open>
  Runs of the write-back executors: a payment between two executors, and an executor that stops for ever.
\<close>

subsection \<open>A payment between two executors\<close>

definition wx_cfg :: "nat \<Rightarrow> partition \<Rightarrow> wb_config" where
  "wx_cfg e p = \<lparr>wc_committee = no_committee, wc_executor_id = e, wc_partition = map_of p, wc_pick = hd, wc_arrange = (\<lambda>xs. xs)\<rparr>"

definition wx_history :: wb_history where
  "wx_history = \<lparr>wh_partition = map_of [(3, 0), (4, 1)], wh_batches = [(7, [tx_raw 5 (payment 3 4)])],
     wh_accounts = (\<lambda>a. Some (account_new 10 10))\<rparr>"

lemma wx_txs: "wh_txs wx_history = [(7, tx_raw 5 (payment 3 4))]"
  by (simp add: wh_txs_def wx_history_def)

lemma wx_tx: "wh_tx wx_history 0 = Some (payment 3 4)" "wh_header wx_history 0 = \<lparr>th_tx_type = 1, th_id = (0, 5)\<rparr>"
  by (simp_all add: wh_tx_def wh_header_def wh_raw_def wx_txs tx_raw_simps)

lemma wx_sel [simp]:
  "wh_partition wx_history = map_of [(3, 0), (4, 1)]" "wh_accounts wx_history = (\<lambda>a. Some (account_new 10 10))"
  "wh_batches wx_history = [(7, [tx_raw 5 (payment 3 4)])]"
  by (simp_all add: wx_history_def)

lemma wx_ok: "wh_ok wx_history"
  by (simp add: wh_ok_def wx_txs wx_tx wh_state_def account_new_def amount_5 i64_range_def)

lemma wx_state: "wh_state wx_history 1 3 = Some \<lparr>checking_balance = 5, savings_balance = 10\<rparr>"
  "wh_state wx_history 1 4 = Some \<lparr>checking_balance = 15, savings_balance = 10\<rparr>"
  by (simp_all add: wh_state_def wx_txs sequential_step_def tx_raw_simps wb_apply_payload_def
      execute_send_payment_debit_def execute_send_payment_credit_def account_new_def amount_5 wrap64_def sat64_def Let_def)

definition wx_transfer :: state_transfer where
  "wx_transfer = \<lparr>st_tx_id = (0, 5), st_account = 3, st_state = account_new 10 10\<rparr>"

definition wx_writeback :: writeback_arrival where
  "wx_writeback = \<lparr>wa_tx_id = (0, 5), wa_src_account = 3, wa_state = account_new 5 10, wa_success = True\<rparr>"

lemma tx_raw_ids: "sb_wf t \<Longrightarrow> extract_account_ids (tx_raw n t) = (Some (sb_account_id t), Some (sb_dest_account_id t))"
  by (rule parsed_ids(1)) (rule tx_raw_payload)

lemmas wx_defs = wx_cfg_def wx_history_def wb_handle_transaction_def tx_raw_simps wb_determine_locality_def
  wb_lock_and_enqueue_def wb_bump_def wb_send_transfer_def upsert_def get_or_def

lemma wb_drain_no_queues [simp]: "wb_queues s = [] \<Longrightarrow> wb_drain_loop cfg wl s = Some s"
proof (induction cfg wl s rule: wb_drain_loop.induct)
  case (1 cfg wl s)
  have idle: "wb_drain_account cfg a s wl' = Some (s, wl')" for a wl'
    using "1.prems" by (subst wb_drain_account.simps) (simp add: wb_drain_step_def)
  show ?case
  proof (cases "wl = []")
    case False
    then show ?thesis using "1.IH" [OF False idle refl] "1.prems" by (subst wb_drain_loop.simps) (simp add: idle)
  qed (simp add: wb_drain_loop.simps)
qed

lemma wx_source:
  obtains s where
    "wb_handle_all (wx_cfg 0 [(3, 0), (4, 1)]) 7 [tx_raw 5 (payment 3 4)] (wb_start wx_history 0) = Some s"
    "wb_transfers_out s = [\<lparr>tr_transfer = wx_transfer, tr_dest = 1\<rparr>]" "wb_writebacks s = []" "wb_incoming_writebacks s = []"
    "\<exists>p. wb_queues s = [(3, [p])] \<and> wp_id p = (0, 5)"
proof -
  have "\<exists>s. wb_handle_all (wx_cfg 0 [(3, 0), (4, 1)]) 7 [tx_raw 5 (payment 3 4)] (wb_start wx_history 0) = Some s
     \<and> wb_transfers_out s = [\<lparr>tr_transfer = wx_transfer, tr_dest = 1\<rparr>] \<and> wb_writebacks s = [] \<and> wb_incoming_writebacks s = []
     \<and> (\<exists>p. wb_queues s = [(3, [p])] \<and> wp_id p = (0, 5))"
    by (simp add: wx_defs wb_start_def wx_transfer_def Let_def)
  then show ?thesis using that by blast
qed

lemma wx_dest:
  assumes "map_of p 3 = Some 0" "map_of p 4 = Some 1"
  obtains s s' where
    "wb_handle_all (wx_cfg 1 p) 7 [tx_raw 5 (payment 3 4)] (wb_start wx_history 1) = Some s"
    "wb_process_incoming_writebacks (wx_cfg 1 p) s = Some s"
    "wb_process_incoming_transfers (wx_cfg 1 p) (wb_deliver_transfer wx_transfer s) = Some s'"
    "wb_writebacks_out s' = [\<lparr>wr_writeback = wx_writeback, wr_src_executor = 0\<rparr>]" "wb_queues s' = []"
proof -
  have "\<exists>s. wb_handle_all (wx_cfg 1 p) 7 [tx_raw 5 (payment 3 4)] (wb_start wx_history 1) = Some s
     \<and> wb_process_incoming_writebacks (wx_cfg 1 p) s = Some s
     \<and> (\<exists>s'. wb_process_incoming_transfers (wx_cfg 1 p) (wb_deliver_transfer wx_transfer s) = Some s'
          \<and> wb_writebacks_out s' = [\<lparr>wr_writeback = wx_writeback, wr_src_executor = 0\<rparr>] \<and> wb_queues s' = [])"
    by (simp add: assms wx_defs wb_start_def wx_transfer_def wx_writeback_def Let_def wb_process_incoming_transfers_def wb_process_incoming_writebacks_def
      wb_drain_incoming_transfers_def wb_drain_incoming_writebacks_def hmap_extend_def keys_def wb_arrange_def wb_deliver_transfer_def
      wb_drain_pending_queues_def wb_transfer_one_def amount_5 account_new_def wb_remove_if_empty_def set_insert_def wrap64_def)
  then show ?thesis using that by blast
qed

lemma wx_return:
  assumes "wb_writebacks s = []" "wb_incoming_writebacks s = []" "\<exists>p. wb_queues s = [(3, [p])] \<and> wp_id p = (0, 5)"
  obtains s' where "wb_process_incoming_writebacks (wx_cfg 0 [(3, 0), (4, 1)]) (wb_deliver_writeback wx_writeback s) = Some s'"
    "wb_queues s' = []"
proof -
  obtain p where p: "wb_queues s = [(3, [p])]" "wp_id p = (0, 5)" using assms(3) by blast
  have "\<exists>s'. wb_process_incoming_writebacks (wx_cfg 0 [(3, 0), (4, 1)]) (wb_deliver_writeback wx_writeback s) = Some s' \<and> wb_queues s' = []"
    by (simp add: p assms wb_process_incoming_writebacks_def wb_deliver_writeback_def wx_writeback_def wb_drain_incoming_writebacks_def
        hmap_extend_def keys_def wb_arrange_def wb_writeback_one_def wb_remove_if_empty_def wb_drain_pending_queues_def Let_def)
  then show ?thesis using that by blast
qed

lemma wx_reachable:
  obtains c where "wb_reachable wx_history c" "wb_queues (wl_executor c 0) = []" "wb_queues (wl_executor c 1) = []"
    "wl_read c 0 = 1" "wl_read c 1 = 1"
proof -
  let ?P = wx_history and ?cfg = "\<lambda>e. wx_cfg e [(3, 0), (4, 1)]"
  have cfg: "wc_executor_id (?cfg e) = e" "wc_partition (?cfg e) = wh_partition ?P" for e by (simp_all add: wx_cfg_def)
  have batch: "wb_batch_for ?P e 0 = (7, 0, [tx_raw 5 (payment 3 4)])" if "e \<in> {0, 1}" for e
    using that by (auto simp: wb_batch_for_def wb_concerns_def tx_raw_ids message_for_def)
  obtain s0 where s0: "wb_handle_all (?cfg 0) 7 [tx_raw 5 (payment 3 4)] (wb_start ?P 0) = Some s0"
    "wb_transfers_out s0 = [\<lparr>tr_transfer = wx_transfer, tr_dest = 1\<rparr>]" "wb_writebacks s0 = []" "wb_incoming_writebacks s0 = []"
    "\<exists>p. wb_queues s0 = [(3, [p])] \<and> wp_id p = (0, 5)" using wx_source by blast
  obtain s1 s1' where s1: "wb_handle_all (?cfg 1) 7 [tx_raw 5 (payment 3 4)] (wb_start ?P 1) = Some s1"
    "wb_process_incoming_writebacks (?cfg 1) s1 = Some s1"
    "wb_process_incoming_transfers (?cfg 1) (wb_deliver_transfer wx_transfer s1) = Some s1'"
    "wb_writebacks_out s1' = [\<lparr>wr_writeback = wx_writeback, wr_src_executor = 0\<rparr>]" "wb_queues s1' = []"
    using wx_dest [of "[(3, 0), (4, 1)]"] by auto
  obtain s0' where s0': "wb_process_incoming_writebacks (?cfg 0) (wb_deliver_writeback wx_writeback s0) = Some s0'" "wb_queues s0' = []"
    using wx_return [OF s0(3-5)] by blast
  let ?c0 = "wb_cluster_start ?P"
  let ?c1 = "(wb_cluster_put 0 s0 TakingWritebacks ?c0)\<lparr>wl_read := (wl_read ?c0)(0 := Suc (wl_read ?c0 0))\<rparr>"
  let ?c2 = "(wb_cluster_put 1 s1 TakingWritebacks ?c1)\<lparr>wl_read := (wl_read ?c1)(1 := Suc (wl_read ?c1 1))\<rparr>"
  let ?c3 = "wb_cluster_put 1 s1 TakingTransfers ?c2"
  let ?c4 = "wb_cluster_put 1 (s1'\<lparr>wb_stats := wb_queue_metrics (wb_queues s1') (wb_stats s1')\<rparr>) Reading ?c3"
  let ?c5 = "wb_cluster_put 0 s0' TakingTransfers ?c4"
  have e: "wl_executor ?c0 0 = wb_start ?P 0" "wl_executor ?c1 1 = wb_start ?P 1"
    by (simp_all add: wb_cluster_start_def wb_cluster_put_def)
  have b: "wb_batch_for ?P 0 (wl_read ?c0 0) = (7, 0, [tx_raw 5 (payment 3 4)])"
    "wb_batch_for ?P 1 (wl_read ?c1 1) = (7, 0, [tx_raw 5 (payment 3 4)])"
    by (simp_all add: wb_cluster_start_def batch)
  have "wb_cluster_step ?P ?c0 ?c1"
    by (rule wb_cluster_step.read_batch [OF _ _ b(1) cfg s0(1) [folded e(1)]]) (simp_all add: wb_cluster_start_def)
  moreover have "wb_cluster_step ?P ?c1 ?c2"
    by (rule wb_cluster_step.read_batch [OF _ _ b(2) cfg s1(1) [folded e(2)]])
      (simp_all add: wb_cluster_start_def wb_cluster_put_def)
  moreover have "wb_cluster_step ?P ?c2 ?c3"
    by (rule wb_cluster_step.take_writebacks [where ws = "[]", OF _ _ cfg]) (use s1(2) in \<open>simp_all add: wb_cluster_put_def\<close>)
  moreover have "wb_cluster_step ?P ?c3 ?c4"
    by (rule wb_cluster_step.take_transfers [where ts = "[wx_transfer]", OF _ _ cfg])
      (use s1(3) s0(2) in \<open>auto simp: wb_cluster_put_def transfers_to_def intro!: exI [of _ 0]\<close>)
  moreover have "wb_cluster_step ?P ?c4 ?c5"
    by (rule wb_cluster_step.take_writebacks [where ws = "[wx_writeback]", OF _ _ cfg])
      (use s0'(1) s1(4) in \<open>auto simp: wb_cluster_put_def wb_cluster_start_def writebacks_to_def intro!: exI [of _ 1]\<close>)
  ultimately have "wb_reachable ?P ?c5" by (meson wb_reachable.intros)
  then show ?thesis
    by (rule that) (simp_all add: wb_cluster_put_def wb_cluster_start_def s0'(2) s1(5))
qed

theorem writeback_executors_serializable_witness:
  "\<exists>c. wb_reachable wx_history c
     \<and> wb_store (wl_executor c 0) 3 = Some \<lparr>checking_balance = 5, savings_balance = 10\<rparr>
     \<and> wb_store (wl_executor c 1) 4 = Some \<lparr>checking_balance = 15, savings_balance = 10\<rparr>"
proof -
  obtain c where c: "wb_reachable wx_history c" "wb_queues (wl_executor c 0) = []" "wb_queues (wl_executor c 1) = []"
    "wl_read c 0 = 1" "wl_read c 1 = 1" using wx_reachable by blast
  have "wh_position wx_history 1 = 1" by (simp add: wh_position_def)
  then show ?thesis
    using writeback_executors_serializable [OF wx_ok c(1)] c wx_state by (intro exI [of _ c]) (simp add: get_or_def)
qed

end
