(* ===== verification/Writeback_Stall.thy ===== *)
theory Writeback_Stall
  imports Writeback_Runs
begin

text \<open>
  A lock that is never released. \<open>lock_and_enqueue_transaction\<close> overwrites the owner of an account's lock
  with the transaction it puts at the end of the queue; a local payment at the head of two queues then waits
  for a lock whose owner waits behind it.
\<close>

subsection \<open>Blocked transactions\<close>

text \<open>The local transaction \<open>p\<close> is the first in the queue of account \<open>b\<close>, and the lock of \<open>b\<close> is that of
  another.\<close>

definition wb_blocked :: "wb_pending \<Rightarrow> nat \<Rightarrow> wb_executor \<Rightarrow> bool" where
  "wb_blocked p b s \<longleftrightarrow> wp_locality p = LocalTx \<and> b \<in> set (wp_required p) \<and> (\<exists>q. wb_queue s b = p # q)
     \<and> (\<exists>t. wb_locks s b = Some t \<and> t \<noteq> wp_id p)"

text \<open>What every step keeps: the invariant, the blocked transaction and the state \<open>v\<close> of the account.\<close>

definition wb_frozen :: "wb_history \<Rightarrow> nat \<Rightarrow> nat \<Rightarrow> wb_pending \<Rightarrow> nat \<Rightarrow> account_state option \<Rightarrow> wb_executor \<Rightarrow> bool" where
  "wb_frozen P e S p b v s \<longleftrightarrow> wb_inv P e S s \<and> wb_blocked p b s \<and> wb_store s b = v"




subsection \<open>No operation wakes it up\<close>









lemma wb_frozen_bump [simp]: "wb_frozen P e S p b v (wb_bump f s) = wb_frozen P e S p b v s"
  by (simp add: wb_frozen_def wb_blocked_def) (simp add: wb_bump_def)




subsection \<open>The executors together\<close>



subsection \<open>Three transactions that stop an executor\<close>

definition own_deposit :: "nat \<Rightarrow> sb_transaction" where
  "own_deposit a = \<lparr>sb_tx_type = DepositChecking, sb_account_id = a, sb_dest_account_id = a, sb_amount_bits = 4617315517961601024\<rparr>"

lemma own_deposit_sel [simp]:
  "sb_tx_type (own_deposit a) = DepositChecking" "sb_account_id (own_deposit a) = a" "sb_dest_account_id (own_deposit a) = a"
  "a < 2 ^ 64 \<Longrightarrow> sb_wf (own_deposit a)"
  by (simp_all add: own_deposit_def sb_wf_def)

definition stall_history :: wb_history where
  "stall_history = \<lparr>wh_partition = map_of [(3, 0), (4, 1), (5, 0)],
     wh_batches = [(7, [tx_raw 5 (payment 3 4), tx_raw 6 (payment 3 5), tx_raw 7 (own_deposit 5)])],
     wh_accounts = (\<lambda>a. Some (account_new 10 10))\<rparr>"

lemma stall_sel [simp]:
  "wh_partition stall_history = map_of [(3, 0), (4, 1), (5, 0)]" "wh_accounts stall_history = (\<lambda>a. Some (account_new 10 10))"
  "wh_batches stall_history = [(7, [tx_raw 5 (payment 3 4), tx_raw 6 (payment 3 5), tx_raw 7 (own_deposit 5)])]"
  by (simp_all add: stall_history_def)









end
