(* ===== verification/Network.thy ===== *)
theory Network
  imports Config
begin

text \<open>
  The network crate (\<^verbatim>\<open>network/src\<close>): the reliable sender, which keeps a connection for each peer
  and transmits every message until it is acknowledged or cancelled, the simple sender, and the receiver's
  runner of a connection. A task that loops over \<open>select!\<close> is a function of its state and of
  the next event; what TCP does (a connection succeeds or fails, bytes are written, a frame arrives) is part of the
  event.

  A oneshot channel is a number; \<open>closed\<close> holds the channels whose receiving end, the \<open>CancelHandler\<close>,
  was dropped by the caller. The channel of a connection has room for 1000 messages and makes the caller
  wait when it is full; here it is a list without a bound.
\<close>

subsection \<open>Errors\<close>

datatype network_error =
    FailedToConnect socket_addr nat
  | FailedToListen
  | FailedToSendMessage socket_addr
  | FailedToReceiveMessage socket_addr
  | FailedToReceiveAck socket_addr
  | UnexpectedAck socket_addr

subsection \<open>The reliable sender's connections\<close>

datatype inner_message = InnerMessage (im_data: bytes) (im_handler: nat)

text \<open>Where a connection's task is: trying to connect, in the loop \<open>'waiter\<close>, or in \<open>keep_alive\<close>.\<close>

datatype rc_phase = Connecting | Waiting | Alive

record connection =
  rc_address :: socket_addr
  rc_receiver :: "inner_message list"
  rc_retry_delay :: nat
  rc_buffer :: "inner_message list"
  rc_delay :: nat
  rc_retry :: nat
  rc_phase :: rc_phase
  rc_pending_replies :: "inner_message list"

text \<open>What happens to the task: the outcome of \<open>connect\<close>, the end of the delay, a message in the channel, the
  outcome of \<open>writer.send\<close> for the first message of the buffer, what \<open>reader.next\<close> returns.\<close>

datatype rc_event =
    ConnectOk
  | ConnectErr
  | DelayOver
  | TakeMessage
  | SendBuffered bool
  | ReadResponse "bytes option"

text \<open>What it does: a frame written, an acknowledgement handed to the caller, a warning.\<close>

datatype rc_effect =
    FrameWritten inner_message
  | HandlerNotified nat bytes
  | Warned network_error

definition connection_new :: "socket_addr \<Rightarrow> connection" where
  "connection_new address = \<lparr>rc_address = address, rc_receiver = [], rc_retry_delay = 200, rc_buffer = [],
     rc_delay = 200, rc_retry = 0, rc_phase = Connecting, rc_pending_replies = []\<rparr>"

text \<open>The loop that puts the messages without an acknowledgement back in front of the buffer.\<close>

function requeue :: "inner_message list \<Rightarrow> inner_message list \<Rightarrow> inner_message list" where
  "requeue [] b = b"
| "p \<noteq> [] \<Longrightarrow> requeue p b = requeue (butlast p) (List.last p # b)"
  by auto
termination by (relation "measure (\<lambda>(p, b). length p)") auto

definition connection_lost :: "network_error \<Rightarrow> connection \<Rightarrow> connection \<times> rc_effect list" where
  "connection_lost e c =
    (c\<lparr>rc_buffer := requeue (rc_pending_replies c) (rc_buffer c), rc_pending_replies := [], rc_phase := Connecting\<rparr>,
     [Warned e])"

definition connect_ok :: "connection \<Rightarrow> connection \<times> rc_effect list" where
  "connect_ok c =
    (c\<lparr>rc_delay := rc_retry_delay c, rc_retry := 0, rc_phase := Alive, rc_pending_replies := []\<rparr>, [])"

definition connect_err :: "connection \<Rightarrow> connection \<times> rc_effect list" where
  "connect_err c = (c\<lparr>rc_phase := Waiting\<rparr>, [Warned (FailedToConnect (rc_address c) (rc_retry c))])"

definition delay_over :: "connection \<Rightarrow> connection \<times> rc_effect list" where
  "delay_over c = (c\<lparr>rc_delay := min (2 * rc_delay c) 60000, rc_retry := wadd 16 (rc_retry c) 1, rc_phase := Connecting\<rparr>, [])"

definition wait_receive :: "nat set \<Rightarrow> inner_message \<Rightarrow> connection \<Rightarrow> connection \<times> rc_effect list" where
  "wait_receive closed m c =
    (c\<lparr>rc_buffer := filter (\<lambda>x. im_handler x \<notin> closed) (rc_buffer c @ [m])\<rparr>, [])"

definition keep_alive_receive :: "inner_message \<Rightarrow> connection \<Rightarrow> connection \<times> rc_effect list" where
  "keep_alive_receive m c = (c\<lparr>rc_buffer := rc_buffer c @ [m]\<rparr>, [])"

text \<open>One turn of the loop that empties the buffer.\<close>

fun send_first :: "nat set \<Rightarrow> bool \<Rightarrow> inner_message list \<Rightarrow> connection \<Rightarrow> (connection \<times> rc_effect list) option" where
  "send_first closed ok [] c = None"
| "send_first closed ok (m # b) c =
    (if im_handler m \<in> closed then Some (c\<lparr>rc_buffer := b\<rparr>, [])
     else if ok then Some (c\<lparr>rc_buffer := b, rc_pending_replies := rc_pending_replies c @ [m]\<rparr>, [FrameWritten m])
     else Some (connection_lost (FailedToSendMessage (rc_address c)) (c\<lparr>rc_buffer := m # b\<rparr>)))"

fun read_response :: "bytes option \<Rightarrow> inner_message list \<Rightarrow> connection \<Rightarrow> connection \<times> rc_effect list" where
  "read_response response [] c = connection_lost (UnexpectedAck (rc_address c)) c"
| "read_response (Some bytes) (m # p) c = (c\<lparr>rc_pending_replies := p\<rparr>, [HandlerNotified (im_handler m) bytes])"
| "read_response None (m # p) c =
    connection_lost (FailedToReceiveAck (rc_address c)) (c\<lparr>rc_pending_replies := m # p\<rparr>)"

text \<open>
  The task's loops. \<open>None\<close> is an event that cannot happen where the task is; the \<open>select!\<close> of
  \<open>keep_alive\<close> is reached when the buffer is empty.
\<close>

definition take_message :: "(inner_message \<Rightarrow> connection \<Rightarrow> connection \<times> rc_effect list) \<Rightarrow> connection
    \<Rightarrow> (connection \<times> rc_effect list) option" where
  "take_message f c = (case rc_receiver c of [] \<Rightarrow> None | m # ms \<Rightarrow> Some (f m (c\<lparr>rc_receiver := ms\<rparr>)))"

fun rc_step :: "nat set \<Rightarrow> rc_event \<Rightarrow> connection \<Rightarrow> (connection \<times> rc_effect list) option" where
  "rc_step closed ConnectOk c = (if rc_phase c = Connecting then Some (connect_ok c) else None)"
| "rc_step closed ConnectErr c = (if rc_phase c = Connecting then Some (connect_err c) else None)"
| "rc_step closed DelayOver c = (if rc_phase c = Waiting then Some (delay_over c) else None)"
| "rc_step closed TakeMessage c =
    (case rc_phase c of
       Connecting \<Rightarrow> None
     | Waiting \<Rightarrow> take_message (wait_receive closed) c
     | Alive \<Rightarrow> if rc_buffer c = [] then take_message keep_alive_receive c else None)"
| "rc_step closed (SendBuffered ok) c =
    (if rc_phase c = Alive then send_first closed ok (rc_buffer c) c else None)"
| "rc_step closed (ReadResponse r) c =
    (if rc_phase c = Alive \<and> rc_buffer c = [] then Some (read_response r (rc_pending_replies c) c) else None)"

subsection \<open>The reliable sender\<close>

text \<open>The connections by address; \<open>rs_handlers\<close> counts the oneshot channels made so far. The
  shuffle of \<open>lucky_broadcast\<close> is an argument.\<close>

record reliable_sender =
  rs_connections :: "(socket_addr, connection) hmap"
  rs_handlers :: nat

definition reliable_new :: reliable_sender where
  "reliable_new = \<lparr>rs_connections = [], rs_handlers = 0\<rparr>"

definition channel_push :: "inner_message \<Rightarrow> connection \<Rightarrow> connection" where
  "channel_push m c = c\<lparr>rc_receiver := rc_receiver c @ [m]\<rparr>"

definition reliable_send :: "socket_addr \<Rightarrow> bytes \<Rightarrow> reliable_sender \<Rightarrow> reliable_sender \<times> nat" where
  "reliable_send address data s =
    (s\<lparr>rs_connections := upsert (connection_new address) address
         (channel_push (InnerMessage data (rs_handlers s))) (rs_connections s),
       rs_handlers := Suc (rs_handlers s)\<rparr>, rs_handlers s)"

fun reliable_broadcast :: "socket_addr list \<Rightarrow> bytes \<Rightarrow> reliable_sender \<Rightarrow> reliable_sender \<times> nat list" where
  "reliable_broadcast [] data s = (s, [])"
| "reliable_broadcast (address # addresses) data s =
    (let (s1, handler) = reliable_send address data s;
         (s2, handlers) = reliable_broadcast addresses data s1
     in (s2, handler # handlers))"

definition reliable_lucky_broadcast :: "(socket_addr list \<Rightarrow> socket_addr list) \<Rightarrow> socket_addr list \<Rightarrow> bytes \<Rightarrow> nat
    \<Rightarrow> reliable_sender \<Rightarrow> reliable_sender \<times> nat list" where
  "reliable_lucky_broadcast shuffle addresses data nodes s = reliable_broadcast (take nodes (shuffle addresses)) data s"

subsection \<open>The simple sender\<close>

datatype sc_phase = ScConnecting | ScAlive | ScReturned

record simple_connection =
  sc_address :: socket_addr
  sc_receiver :: "bytes list"
  sc_phase :: sc_phase

datatype sc_event =
    ScConnect bool
  | ScSend bool
  | ScResponse bool

datatype sc_effect =
    ScWritten bytes
  | ScWarned network_error

definition simple_connection_new :: "socket_addr \<Rightarrow> simple_connection" where
  "simple_connection_new address = \<lparr>sc_address = address, sc_receiver = [], sc_phase = ScConnecting\<rparr>"

definition sc_return :: "network_error \<Rightarrow> simple_connection \<Rightarrow> simple_connection \<times> sc_effect list" where
  "sc_return e c = (c\<lparr>sc_receiver := [], sc_phase := ScReturned\<rparr>, [ScWarned e])"

fun sc_step :: "sc_event \<Rightarrow> simple_connection \<Rightarrow> (simple_connection \<times> sc_effect list) option" where
  "sc_step (ScConnect ok) c =
    (if sc_phase c = ScConnecting
     then Some (if ok then (c\<lparr>sc_phase := ScAlive\<rparr>, []) else sc_return (FailedToConnect (sc_address c) 0) c) else None)"
| "sc_step (ScSend ok) c =
    (case (sc_phase c, sc_receiver c) of
       (ScAlive, data # ds) \<Rightarrow> Some (if ok then (c\<lparr>sc_receiver := ds\<rparr>, [ScWritten data])
         else sc_return (FailedToSendMessage (sc_address c)) c)
     | _ \<Rightarrow> None)"
| "sc_step (ScResponse ok) c =
    (if sc_phase c = ScAlive then Some (if ok then (c, []) else sc_return (FailedToReceiveAck (sc_address c)) c) else None)"

type_synonym simple_sender = "(socket_addr, simple_connection) hmap"

definition sc_push :: "bytes \<Rightarrow> simple_connection \<Rightarrow> simple_connection" where
  "sc_push data c = c\<lparr>sc_receiver := sc_receiver c @ [data]\<rparr>"

text \<open>
  Sending on a channel fails when the task at its other end has returned; then a new connection is made.
  \<open>ready address\<close> tells whether the task of a connection that was just spawned is still there when the message is
  put in its channel (it may have failed to connect already).
\<close>

definition simple_connect :: "(socket_addr \<Rightarrow> bool) \<Rightarrow> socket_addr \<Rightarrow> bytes \<Rightarrow> simple_sender \<Rightarrow> simple_sender" where
  "simple_connect ready address data s =
    (if ready address then AList.update address (sc_push data (simple_connection_new address)) s else s)"

definition simple_send :: "(socket_addr \<Rightarrow> bool) \<Rightarrow> socket_addr \<Rightarrow> bytes \<Rightarrow> simple_sender \<Rightarrow> simple_sender" where
  "simple_send ready address data s =
    (case map_of s address of
       Some c \<Rightarrow> if sc_phase c \<noteq> ScReturned then AList.update address (sc_push data c) s
                 else simple_connect ready address data s
     | None \<Rightarrow> simple_connect ready address data s)"

fun simple_broadcast :: "(socket_addr \<Rightarrow> bool) \<Rightarrow> socket_addr list \<Rightarrow> bytes \<Rightarrow> simple_sender \<Rightarrow> simple_sender" where
  "simple_broadcast ready [] data s = s"
| "simple_broadcast ready (address # addresses) data s =
    simple_broadcast ready addresses data (simple_send ready address data s)"

definition simple_lucky_broadcast :: "(socket_addr \<Rightarrow> bool) \<Rightarrow> (socket_addr list \<Rightarrow> socket_addr list) \<Rightarrow> socket_addr list
    \<Rightarrow> bytes \<Rightarrow> nat \<Rightarrow> simple_sender \<Rightarrow> simple_sender" where
  "simple_lucky_broadcast ready shuffle addresses data nodes s =
    simple_broadcast ready (take nodes (shuffle addresses)) data s"

subsection \<open>The receiver\<close>

text \<open>
  The runner of one incoming connection: \<open>dispatch\<close> is the handler, a function of its state and the
  message that returns the new state, the replies it writes and whether it succeeded. The runner stops at the first
  error, of the codec or of the handler.
\<close>

type_synonym 's dispatch = "bytes \<Rightarrow> 's \<Rightarrow> 's \<times> bytes list \<times> bool"

fun spawn_runner :: "socket_addr \<Rightarrow> 's dispatch \<Rightarrow> bytes option list \<Rightarrow> 's \<Rightarrow> 's \<times> bytes list \<times> network_error option" where
  "spawn_runner peer dispatch [] s = (s, [], None)"
| "spawn_runner peer dispatch (None # frames) s = (s, [], Some (FailedToReceiveMessage peer))"
| "spawn_runner peer dispatch (Some message # frames) s =
    (let (s1, replies, ok) = dispatch message s in
     if ok then (let (s2, more, e) = spawn_runner peer dispatch frames s1 in (s2, replies @ more, e))
     else (s1, replies, None))"

text \<open>What the handlers of the primary and of the worker for their peers answer before anything else.\<close>

definition ack_reply :: bytes where
  "ack_reply = [65, 99, 107]"

subsection \<open>Facts about single operations\<close>

lemma requeue_append [simp]: "requeue p b = p @ b"
proof (induction p arbitrary: b rule: rev_induct)
  case (snoc x xs)
  then show ?case by simp
qed simp

text \<open>A handler for each address, in their order, none given out before.\<close>

lemma reliable_broadcast_handlers:
  "reliable_broadcast addresses data s = (s', handlers) \<Longrightarrow>
    handlers = [rs_handlers s ..< rs_handlers s + length addresses] \<and> rs_handlers s' = rs_handlers s + length addresses"
proof (induction addresses arbitrary: s s' handlers)
  case (Cons a addresses)
  obtain s1 h where 1: "reliable_send a data s = (s1, h)" by force
  obtain s2 hs where 2: "reliable_broadcast addresses data s1 = (s2, hs)" by force
  have "rs_handlers s1 = Suc (rs_handlers s)" "h = rs_handlers s" using 1 by (auto simp: reliable_send_def)
  moreover have "s' = s2" "handlers = h # hs" using Cons.prems 1 2 by simp_all
  ultimately show ?case using Cons.IH [OF 2] by (simp add: upt_conv_Cons del: upt_Suc)
qed simp

text \<open>The delay before the attempt after \<open>n\<close> failures.\<close>

lemma delay_doubles: "rc_delay (((\<lambda>c. fst (delay_over (fst (connect_err c)))) ^^ n) (connection_new address)) = min (200 * 2 ^ n) 60000"
  by (induction n) (auto simp: connection_new_def delay_over_def connect_err_def min_def)

text \<open>A simple connection that is alive writes what it was given, in order, until it returns.\<close>

lemma sc_step_written:
  "sc_step ev c = Some (c', fx) \<Longrightarrow> sc_phase c' \<noteq> ScReturned \<Longrightarrow>
    sc_receiver c = concat (List.map (\<lambda>f. case f of ScWritten d \<Rightarrow> [d] | _ \<Rightarrow> []) fx) @ sc_receiver c'"
  by (cases ev) (auto simp: sc_return_def split: if_splits sc_phase.splits list.splits)

text \<open>After a send the connection of the address is not one that has returned, and its message is the last in its channel.\<close>

lemma simple_send_queued:
  "ready address \<Longrightarrow> \<exists>c. map_of (simple_send ready address data s) address = Some c \<and> sc_phase c \<noteq> ScReturned
    \<and> sc_receiver c \<noteq> [] \<and> List.last (sc_receiver c) = data"
  by (auto simp: simple_send_def simple_connect_def al_simps sc_push_def simple_connection_new_def split: option.splits)

text \<open>A handler that answers every message answers as many as it was given, in order.\<close>

lemma runner_replies:
  assumes "\<And>m s. \<exists>s'. dispatch m s = (s', [ack_reply], True)"
  shows "fst (snd (spawn_runner peer dispatch (List.map Some ms) s)) = replicate (length ms) ack_reply"
proof (induction ms arbitrary: s)
  case (Cons m ms)
  obtain s' where "dispatch m s = (s', [ack_reply], True)" using assms by blast
  then show ?case using Cons [of s'] by (simp add: Let_def split_def)
qed simp

end
