(* ===== verification/Network_Link.thy ===== *)
theory Network_Link
  imports Network Worker_Tasks
begin

text \<open>
  A connection of the reliable sender together with the receiver's runners at the peer. TCP is the
  environment: a connection delivers frames in the order they were written, possibly not all of them, and the
  same holds for the acknowledgements on the way back. Frames of an older connection may still arrive after a new one
  was made.
\<close>

subsection \<open>A TCP connection\<close>

text \<open>Frames written that the runner has not read, acknowledgements written that the sender has not read, and
  whether the runner can still write.\<close>

record tcp =
  tcp_out :: "inner_message list"
  tcp_acks :: "bytes list"
  tcp_up :: bool

definition tcp_new :: tcp where
  "tcp_new = \<lparr>tcp_out = [], tcp_acks = [], tcp_up = True\<rparr>"

text \<open>The runner takes a frame and its handler answers before it does anything else; the answer gets through if \<open>ok\<close> and
  if no earlier one was lost.\<close>

definition tcp_read :: "bool \<Rightarrow> inner_message list \<Rightarrow> tcp \<Rightarrow> tcp" where
  "tcp_read ok ms t = t\<lparr>tcp_out := ms, tcp_acks := tcp_acks t @ (if ok \<and> tcp_up t then [ack_reply] else []),
     tcp_up := ok \<and> tcp_up t\<rparr>"

subsection \<open>The link\<close>

record link =
  lk_conn :: connection
  lk_tcp :: "tcp option"
  lk_old :: "tcp list"
  lk_closed :: "nat list"
  lk_sent :: "inner_message list"
  lk_delivered :: "inner_message list"
  lk_notified :: "nat list"

datatype lk_event =
    Put bytes
  | Cancel nat
  | Connection rc_event
  | WriteFailed bool
  | Deliver bool
  | DeliverOld nat

definition link_new :: "socket_addr \<Rightarrow> link" where
  "link_new address = \<lparr>lk_conn = connection_new address, lk_tcp = None, lk_old = [], lk_closed = [], lk_sent = [],
     lk_delivered = [], lk_notified = []\<rparr>"

fun lk_effect :: "rc_effect \<Rightarrow> link \<Rightarrow> link" where
  "lk_effect (FrameWritten m) k = k\<lparr>lk_tcp := map_option (\<lambda>t. t\<lparr>tcp_out := tcp_out t @ [m]\<rparr>) (lk_tcp k)\<rparr>"
| "lk_effect (HandlerNotified h bytes) k = k\<lparr>lk_notified := lk_notified k @ [h]\<rparr>"
| "lk_effect (Warned e) k = k"

text \<open>A connection that was lost leaves its frames behind.\<close>

definition lk_hang_up :: "link \<Rightarrow> link" where
  "lk_hang_up k = (if rc_phase (lk_conn k) = Alive then k
     else k\<lparr>lk_tcp := None, lk_old := lk_old k @ (case lk_tcp k of None \<Rightarrow> [] | Some t \<Rightarrow> [t])\<rparr>)"

lemma lk_hang_up_none [simp]: "lk_tcp k = None \<Longrightarrow> lk_hang_up k = k"
  by (cases k) (simp add: lk_hang_up_def)

definition lk_conn_step :: "rc_event \<Rightarrow> link \<Rightarrow> link option" where
  "lk_conn_step ev k =
    (case rc_step (set (lk_closed k)) ev (lk_conn k) of
       None \<Rightarrow> None
     | Some (c, fx) \<Rightarrow> Some (lk_hang_up (fold lk_effect fx (k\<lparr>lk_conn := c\<rparr>))))"

text \<open>
  \<open>WriteFailed w\<close> is a \<open>writer.send\<close> that reports an error; with \<open>w\<close> the frame was nevertheless handed to TCP in
  full. An acknowledgement can be read only if there is one.
\<close>

fun lk_step :: "lk_event \<Rightarrow> link \<Rightarrow> link option" where
  "lk_step (Put data) k =
    (let m = InnerMessage data (length (lk_sent k))
     in Some (k\<lparr>lk_conn := channel_push m (lk_conn k), lk_sent := lk_sent k @ [m]\<rparr>))"
| "lk_step (Cancel h) k = Some (k\<lparr>lk_closed := lk_closed k @ [h]\<rparr>)"
| "lk_step (Connection ConnectOk) k = map_option (\<lambda>k'. k'\<lparr>lk_tcp := Some tcp_new\<rparr>) (lk_conn_step ConnectOk k)"
| "lk_step (Connection (ReadResponse (Some bytes))) k =
    (case lk_tcp k of
       None \<Rightarrow> None
     | Some t \<Rightarrow> (case tcp_acks t of
          [] \<Rightarrow> None
        | a # as \<Rightarrow> if a = bytes then lk_conn_step (ReadResponse (Some bytes)) (k\<lparr>lk_tcp := Some (t\<lparr>tcp_acks := as\<rparr>)\<rparr>) else None))"
| "lk_step (Connection (SendBuffered False)) k = None"
| "lk_step (Connection ev) k = lk_conn_step ev k"
| "lk_step (WriteFailed w) k =
    (case rc_buffer (lk_conn k) of
       [] \<Rightarrow> None
     | m # ms \<Rightarrow>
        if im_handler m \<in> set (lk_closed k) then None
        else lk_conn_step (SendBuffered False) (if w then lk_effect (FrameWritten m) k else k))"
| "lk_step (Deliver ok) k =
    (case lk_tcp k of
       None \<Rightarrow> None
     | Some t \<Rightarrow> (case tcp_out t of
          [] \<Rightarrow> None
        | m # ms \<Rightarrow> Some (k\<lparr>lk_tcp := Some (tcp_read ok ms t), lk_delivered := lk_delivered k @ [m]\<rparr>)))"
| "lk_step (DeliverOld i) k =
    (if i < length (lk_old k) then
       (case tcp_out (lk_old k ! i) of
          [] \<Rightarrow> None
        | m # ms \<Rightarrow> Some (k\<lparr>lk_old := (lk_old k)[i := tcp_read False ms (lk_old k ! i)], lk_delivered := lk_delivered k @ [m]\<rparr>))
     else None)"

fun lk_run :: "lk_event list \<Rightarrow> link \<Rightarrow> link option" where
  "lk_run [] k = Some k"
| "lk_run (e # es) k = (case lk_step e k of None \<Rightarrow> None | Some k' \<Rightarrow> lk_run es k')"

subsection \<open>The invariant\<close>

text \<open>The messages that the connection's task still has, oldest first.\<close>

definition rc_queue :: "connection \<Rightarrow> inner_message list" where
  "rc_queue c = rc_pending_replies c @ rc_buffer c @ rc_receiver c"

abbreviation handlers :: "inner_message list \<Rightarrow> nat list" where
  "handlers \<equiv> List.map im_handler"

text \<open>A message may be delivered next if all before it were delivered, cancelled, or are in \<open>ms\<close> too.\<close>

definition in_turn :: "link \<Rightarrow> inner_message list \<Rightarrow> inner_message \<Rightarrow> bool" where
  "in_turn k ms m \<longleftrightarrow> (\<forall>i < im_handler m. i \<in> set (handlers (lk_delivered k)) \<or> i \<in> set (lk_closed k) \<or> i \<in> set (handlers ms))"

definition tcp_ok :: "link \<Rightarrow> tcp \<Rightarrow> bool" where
  "tcp_ok k t \<longleftrightarrow> set (tcp_out t) \<subseteq> set (lk_sent k) \<and> sorted_wrt (<) (handlers (tcp_out t))
     \<and> (\<forall>m\<in>set (tcp_out t). in_turn k (tcp_out t) m)"

text \<open>The replies still expected on a connection: for frames that were delivered, as many as there are
  acknowledgements under way or more, and for frames that were not.\<close>

definition replies_ok :: "link \<Rightarrow> bool" where
  "replies_ok k \<longleftrightarrow> (case lk_tcp k of
       None \<Rightarrow> rc_phase (lk_conn k) \<noteq> Alive \<and> rc_pending_replies (lk_conn k) = []
     | Some t \<Rightarrow> rc_phase (lk_conn k) = Alive \<and> (\<exists>d. rc_pending_replies (lk_conn k) = d @ tcp_out t
         \<and> set d \<subseteq> set (lk_delivered k) \<and> length (tcp_acks t) \<le> length d \<and> (tcp_up t \<longrightarrow> length (tcp_acks t) = length d)))"

definition queue_ok :: "link \<Rightarrow> bool" where
  "queue_ok k \<longleftrightarrow> set (rc_queue (lk_conn k)) \<subseteq> set (lk_sent k) \<and> sorted_wrt (<) (handlers (rc_queue (lk_conn k)))
     \<and> (\<forall>i < length (lk_sent k). i \<in> set (handlers (rc_queue (lk_conn k))) \<or> i \<in> set (lk_notified k) \<or> i \<in> set (lk_closed k))"

definition notified_ok :: "link \<Rightarrow> bool" where
  "notified_ok k \<longleftrightarrow> distinct (lk_notified k) \<and> set (lk_notified k) \<inter> set (handlers (rc_queue (lk_conn k))) = {}
     \<and> set (lk_notified k) \<subseteq> set (handlers (lk_delivered k))"

definition delivered_ok :: "link \<Rightarrow> bool" where
  "delivered_ok k \<longleftrightarrow> set (lk_delivered k) \<subseteq> set (lk_sent k) \<and> (\<forall>m\<in>set (lk_delivered k). in_turn k [] m)"

definition lk_inv :: "link \<Rightarrow> bool" where
  "lk_inv k \<longleftrightarrow> handlers (lk_sent k) = [0..<length (lk_sent k)] \<and> queue_ok k \<and> notified_ok k \<and> delivered_ok k \<and> replies_ok k
     \<and> (\<forall>t\<in>set (lk_old k). tcp_ok k t) \<and> (\<forall>t. lk_tcp k = Some t \<longrightarrow> tcp_ok k t)"

subsection \<open>The invariant is kept\<close>

lemma tcp_ok_mono:
  assumes "tcp_ok k t" "set (lk_sent k) \<subseteq> set (lk_sent k')" "set (lk_closed k) \<subseteq> set (lk_closed k')"
    "set (lk_delivered k) \<subseteq> set (lk_delivered k')"
  shows "tcp_ok k' t"
  using assms by (fastforce simp: tcp_ok_def in_turn_def)

text \<open>A step that leaves the history and the queue alone.\<close>

lemma lk_inv_frame:
  assumes "lk_inv k" "lk_sent k' = lk_sent k" "lk_closed k' = lk_closed k" "lk_delivered k' = lk_delivered k"
    and "lk_notified k' = lk_notified k" "rc_queue (lk_conn k') = rc_queue (lk_conn k)" "replies_ok k'"
    and "\<forall>t\<in>set (lk_old k') \<union> set_option (lk_tcp k'). tcp_ok k t"
  shows "lk_inv k'"
proof -
  have "\<forall>t\<in>set (lk_old k') \<union> set_option (lk_tcp k'). tcp_ok k' t"
    using assms(8) tcp_ok_mono [of k _ k'] assms(2-4) by auto
  then show ?thesis
    using assms(1-7) by (auto simp: lk_inv_def queue_ok_def notified_ok_def delivered_ok_def in_turn_def)
qed

text \<open>A step that only drops cancelled messages of the queue.\<close>

lemma lk_inv_drop:
  assumes "lk_inv k" "lk_sent k' = lk_sent k" "lk_closed k' = lk_closed k" "lk_delivered k' = lk_delivered k"
    and "lk_notified k' = lk_notified k" "lk_old k' = lk_old k" "lk_tcp k' = lk_tcp k" "replies_ok k'"
    and "rc_queue (lk_conn k) = p @ b @ r" "rc_queue (lk_conn k') = p @ filter (\<lambda>x. im_handler x \<notin> set (lk_closed k)) b @ r"
  shows "lk_inv k'"
proof -
  have "sorted_wrt (<) (handlers (rc_queue (lk_conn k')))"
    using assms(1,9,10) by (auto simp: lk_inv_def queue_ok_def sorted_wrt_append sorted_wrt_map sorted_wrt_filter)
  then have "queue_ok k'" using assms(1,2,3,5,9,10) by (auto simp: lk_inv_def queue_ok_def)
  moreover have "notified_ok k'" using assms(1,4,5,9,10) by (auto simp: lk_inv_def notified_ok_def)
  moreover have "\<forall>t\<in>set (lk_old k') \<union> set_option (lk_tcp k'). tcp_ok k' t"
    using assms(1,6,7) tcp_ok_mono [of k _ k'] assms(2-4) by (auto simp: lk_inv_def)
  ultimately show ?thesis using assms(1-5,8) by (auto simp: lk_inv_def delivered_ok_def in_turn_def)
qed

lemma lk_put_inv:
  assumes "lk_inv k"
  shows "lk_inv (k\<lparr>lk_conn := channel_push (InnerMessage data (length (lk_sent k))) (lk_conn k),
    lk_sent := lk_sent k @ [InnerMessage data (length (lk_sent k))]\<rparr>)" (is "lk_inv ?k")
proof -
  have sent: "m \<in> set (lk_sent k) \<Longrightarrow> im_handler m < length (lk_sent k)" for m
    using assms by (metis (no_types, lifting) atLeastLessThan_iff image_eqI lk_inv_def list.set_map set_upt)
  have q: "rc_queue (channel_push m c) = rc_queue c @ [m]" for m c by (simp add: rc_queue_def channel_push_def)
  have "queue_ok k" using assms by (simp add: lk_inv_def)
  moreover have "\<forall>h\<in>set (handlers (rc_queue (lk_conn k))). h < length (lk_sent k)"
    using \<open>queue_ok k\<close> sent by (auto simp: queue_ok_def)
  ultimately have "queue_ok ?k" by (auto simp: queue_ok_def q sorted_wrt_append less_Suc_eq)
  moreover have "notified_ok ?k"
  proof -
    have "notified_ok k" "delivered_ok k" using assms by (simp_all add: lk_inv_def)
    then have "length (lk_sent k) \<notin> set (lk_notified k)" using sent by (force simp: notified_ok_def delivered_ok_def)
    then show ?thesis using \<open>notified_ok k\<close> by (simp add: notified_ok_def q)
  qed
  moreover have "\<forall>t\<in>set (lk_old k) \<union> set_option (lk_tcp k). tcp_ok ?k t"
    using assms tcp_ok_mono [of k _ ?k] by (auto simp: lk_inv_def)
  moreover have "replies_ok ?k" using assms by (auto simp: lk_inv_def replies_ok_def channel_push_def split: option.splits)
  ultimately show ?thesis using assms by (auto simp: lk_inv_def delivered_ok_def in_turn_def)
qed

lemma lk_cancel_inv:
  assumes "lk_inv k"
  shows "lk_inv (k\<lparr>lk_closed := lk_closed k @ [h]\<rparr>)" (is "lk_inv ?k")
proof -
  have "\<forall>t\<in>set (lk_old k) \<union> set_option (lk_tcp k). tcp_ok ?k t"
    using assms tcp_ok_mono [of k _ ?k] by (auto simp: lk_inv_def)
  then show ?thesis using assms
    by (auto simp: lk_inv_def queue_ok_def notified_ok_def delivered_ok_def in_turn_def replies_ok_def split: option.splits)
qed

lemma lk_lost_inv:
  assumes "lk_inv k" "rc_queue c = rc_queue (lk_conn k)" "\<forall>t\<in>set_option tcp. tcp_ok k t" 
  shows "lk_inv (lk_hang_up (k\<lparr>lk_tcp := tcp, lk_conn := fst (connection_lost e c)\<rparr>))"
  by (rule lk_inv_frame [OF assms(1)])
    (use assms in \<open>auto simp: lk_hang_up_def connection_lost_def rc_queue_def replies_ok_def lk_inv_def split: option.splits\<close>)

text \<open>Delivering the next frame of a connection.\<close>

lemma deliver_ok:
  assumes "tcp_ok k t" "tcp_out t = m # ms" "delivered_ok k"
    and "lk_sent k' = lk_sent k" "lk_closed k' = lk_closed k" "lk_delivered k' = lk_delivered k @ [m]"
  shows "tcp_ok k' (tcp_read ok ms t)" "delivered_ok k'"
proof -
  have "in_turn k [] m" unfolding in_turn_def
  proof (intro allI impI)
    fix i assume i: "i < im_handler m"
    then have "i \<notin> set (handlers (m # ms))" using assms(1,2) by (fastforce simp: tcp_ok_def)
    then show "i \<in> set (handlers (lk_delivered k)) \<or> i \<in> set (lk_closed k) \<or> i \<in> set (handlers [])"
      using assms(1,2) i by (auto simp: tcp_ok_def in_turn_def)
  qed
  then show "delivered_ok k'" using assms by (fastforce simp: delivered_ok_def in_turn_def tcp_ok_def)
  show "tcp_ok k' (tcp_read ok ms t)" using assms by (fastforce simp: tcp_ok_def tcp_read_def in_turn_def)
qed

lemma lk_deliver_inv:
  assumes "lk_step (Deliver ok) k = Some k'" "lk_inv k"
  shows "lk_inv k'"
proof -
  obtain t m ms where t: "lk_tcp k = Some t" "tcp_out t = m # ms"
    "k' = k\<lparr>lk_tcp := Some (tcp_read ok ms t), lk_delivered := lk_delivered k @ [m]\<rparr>"
    using assms(1) by (auto split: option.splits list.splits)
  have "tcp_ok k t" "delivered_ok k" using assms(2) t(1) by (auto simp: lk_inv_def)
  then have "tcp_ok k' (tcp_read ok ms t)" "delivered_ok k'" using deliver_ok [OF _ t(2), of k k'] t(3) by auto
  moreover have "\<forall>t\<in>set (lk_old k). tcp_ok k' t" using assms(2) tcp_ok_mono [of k _ k'] t(3) by (auto simp: lk_inv_def)
  moreover have "replies_ok k'"
  proof -
    obtain d where "rc_phase (lk_conn k) = Alive" "rc_pending_replies (lk_conn k) = (d @ [m]) @ ms" "set d \<subseteq> set (lk_delivered k)"
      "length (tcp_acks t) \<le> length d" "tcp_up t \<longrightarrow> length (tcp_acks t) = length d"
      using assms(2) t(1,2) by (auto simp: lk_inv_def replies_ok_def)
    then show ?thesis unfolding t(3) replies_ok_def by (auto simp: tcp_read_def intro!: exI [of _ "d @ [m]"])
  qed
  ultimately show ?thesis using assms(2) t(3) by (auto simp: lk_inv_def queue_ok_def notified_ok_def)
qed

lemma lk_deliver_old_inv:
  assumes "lk_step (DeliverOld i) k = Some k'" "lk_inv k"
  shows "lk_inv k'"
proof -
  define t where "t = lk_old k ! i"
  obtain m ms where t: "i < length (lk_old k)" "tcp_out t = m # ms"
    "k' = k\<lparr>lk_old := (lk_old k)[i := tcp_read False ms t], lk_delivered := lk_delivered k @ [m]\<rparr>"
    using assms(1) by (auto simp: t_def split: if_splits list.splits)
  have "tcp_ok k t" "delivered_ok k" using assms(2) t(1) by (auto simp: lk_inv_def t_def)
  then have 1: "tcp_ok k' (tcp_read False ms t)" "delivered_ok k'" using deliver_ok [OF _ t(2), of k k'] t(3) by auto
  have "\<forall>t\<in>set (lk_old k) \<union> set_option (lk_tcp k). tcp_ok k' t"
    using assms(2) tcp_ok_mono [of k _ k'] t(3) by (auto simp: lk_inv_def)
  then have "\<forall>t\<in>set (lk_old k') \<union> set_option (lk_tcp k'). tcp_ok k' t"
    using 1 t(3) set_update_subset_insert [of "lk_old k" i] by auto
  moreover have "replies_ok k'" using assms(2) t(3) by (fastforce simp: lk_inv_def replies_ok_def split: option.splits)
  ultimately show ?thesis using 1 assms(2) t(3) by (auto simp: lk_inv_def queue_ok_def notified_ok_def)
qed

text \<open>Writing the first message of the buffer.\<close>

lemma frame_written_ok:
  assumes "lk_inv k" "lk_tcp k = Some t" "rc_buffer (lk_conn k) = m # b"
  shows "tcp_ok k (t\<lparr>tcp_out := tcp_out t @ [m]\<rparr>)"
proof -
  have q: "queue_ok k" "notified_ok k" "replies_ok k" "tcp_ok k t" using assms(1,2) by (auto simp: lk_inv_def)
  obtain d where d: "rc_pending_replies (lk_conn k) = d @ tcp_out t" "set d \<subseteq> set (lk_delivered k)"
    using q(3) assms(2) by (auto simp: replies_ok_def)
  have queue: "rc_queue (lk_conn k) = d @ tcp_out t @ m # b @ rc_receiver (lk_conn k)"
    using d(1) assms(3) by (simp add: rc_queue_def)
  have sub: "m \<in> set (lk_sent k)" and sorted: "sorted_wrt (<) (handlers (d @ tcp_out t @ m # b @ rc_receiver (lk_conn k)))"
    using q(1) unfolding queue_ok_def queue by auto
  have "i < length (lk_sent k)" if "i < im_handler m" for i
  proof -
    have "im_handler m \<in> set [0..<length (lk_sent k)]" using sub assms(1) by (metis image_eqI list.set_map lk_inv_def)
    then show ?thesis using that by simp
  qed
  then have "in_turn k (tcp_out t @ [m]) m"
  proof (unfold in_turn_def, intro allI impI)
    fix i assume i: "i < im_handler m"
    have "sorted_wrt (<) (handlers (m # b @ rc_receiver (lk_conn k)))" using sorted by (simp add: sorted_wrt_append)
    then have "\<forall>h\<in>set (handlers (m # b @ rc_receiver (lk_conn k))). im_handler m \<le> h" by (simp add: less_imp_le)
    then have "i \<notin> set (handlers (m # b @ rc_receiver (lk_conn k)))" using i leD by blast
    then consider "i \<in> set (handlers (d @ tcp_out t))" | "i \<in> set (lk_notified k)" | "i \<in> set (lk_closed k)"
      using q(1) \<open>i < im_handler m \<Longrightarrow> i < length (lk_sent k)\<close> i unfolding queue_ok_def queue by auto
    then show "i \<in> set (handlers (lk_delivered k)) \<or> i \<in> set (lk_closed k) \<or> i \<in> set (handlers (tcp_out t @ [m]))"
      using q(2) d(2) by cases (auto simp: notified_ok_def)
  qed
  then show ?thesis using q(4) sub sorted by (auto simp: tcp_ok_def in_turn_def sorted_wrt_append)
qed

lemma lk_send_inv:
  assumes "lk_conn_step (SendBuffered True) k = Some k'" "lk_inv k"
  shows "lk_inv k'"
proof -
  obtain m b where alive: "rc_phase (lk_conn k) = Alive" and b: "rc_buffer (lk_conn k) = m # b"
    using assms(1) by (cases "rc_buffer (lk_conn k)") (auto simp: lk_conn_step_def split: if_splits)
  obtain t where t: "lk_tcp k = Some t" using assms(2) alive by (auto simp: lk_inv_def replies_ok_def split: option.splits)
  show ?thesis
  proof (cases "im_handler m \<in> set (lk_closed k)")
    case True
    then have k': "k' = k\<lparr>lk_conn := lk_conn k\<lparr>rc_buffer := b\<rparr>\<rparr>"
      using assms(1) alive b by (simp add: lk_conn_step_def lk_hang_up_def)
    show ?thesis
      by (rule lk_inv_drop [OF assms(2), where p = "rc_pending_replies (lk_conn k)" and b = "[m]" and r = "b @ rc_receiver (lk_conn k)"])
        (use assms(2) True b in \<open>auto simp: k' lk_inv_def replies_ok_def rc_queue_def split: option.splits\<close>)
  next
    case False
    then have k': "k' = k\<lparr>lk_conn := lk_conn k\<lparr>rc_buffer := b, rc_pending_replies := rc_pending_replies (lk_conn k) @ [m]\<rparr>,
        lk_tcp := Some (t\<lparr>tcp_out := tcp_out t @ [m]\<rparr>)\<rparr>"
      using assms(1) alive b t by (simp add: lk_conn_step_def lk_hang_up_def)
    show ?thesis
      by (rule lk_inv_frame [OF assms(2)])
        (use assms(2) b t frame_written_ok [OF assms(2) t b] in \<open>auto simp: k' lk_inv_def replies_ok_def rc_queue_def\<close>)
  qed
qed

lemma lk_write_failed_inv:
  assumes "lk_step (WriteFailed w) k = Some k'" "lk_inv k"
  shows "lk_inv k'"
proof -
  define k1 where "k1 = (if w then lk_effect (FrameWritten (hd (rc_buffer (lk_conn k)))) k else k)"
  obtain m b where b: "rc_buffer (lk_conn k) = m # b" "im_handler m \<notin> set (lk_closed k)"
    and step: "lk_conn_step (SendBuffered False) k1 = Some k'"
    using assms(1) by (auto simp: k1_def split: list.splits if_splits)
  have alive: "rc_phase (lk_conn k) = Alive"
    using step by (auto simp: lk_conn_step_def k1_def split: if_splits)
  then obtain t where t: "lk_tcp k = Some t" using assms(2) by (auto simp: lk_inv_def replies_ok_def split: option.splits)
  define t1 where "t1 = (if w then t\<lparr>tcp_out := tcp_out t @ [m]\<rparr> else t)"
  have "k1 = k\<lparr>lk_tcp := Some t1\<rparr>" using t b by (simp add: k1_def t1_def)
  then have k': "k' = lk_hang_up (k\<lparr>lk_tcp := Some t1,
      lk_conn := fst (connection_lost (FailedToSendMessage (rc_address (lk_conn k))) (lk_conn k\<lparr>rc_buffer := m # b\<rparr>))\<rparr>)"
    using step b alive by (simp add: lk_conn_step_def connection_lost_def)
  have "tcp_ok k t1" using frame_written_ok [OF assms(2) t b(1)] assms(2) t by (simp add: t1_def lk_inv_def)
  then show ?thesis unfolding k' using b by (intro lk_lost_inv [OF assms(2)]) (auto simp: rc_queue_def)
qed

lemma lk_response_inv:
  assumes "lk_step (Connection (ReadResponse r)) k = Some k'" "lk_inv k"
  shows "lk_inv k'"
proof (cases r)
  case None
  then have step: "lk_conn_step (ReadResponse None) k = Some k'" using assms(1) by simp
  then have alive: "rc_phase (lk_conn k) = Alive" by (auto simp: lk_conn_step_def split: if_splits)
  obtain e where "read_response None (rc_pending_replies (lk_conn k)) (lk_conn k) = connection_lost e (lk_conn k)"
    by (cases "rc_pending_replies (lk_conn k)") (auto simp: connection_lost_def)
  moreover have "snd (connection_lost e (lk_conn k)) = [Warned e]" by (simp add: connection_lost_def)
  ultimately have "k' = lk_hang_up (k\<lparr>lk_tcp := lk_tcp k, lk_conn := fst (connection_lost e (lk_conn k))\<rparr>)"
    using step alive by (cases "connection_lost e (lk_conn k)") (simp add: lk_conn_step_def split: if_splits)
  moreover have "\<forall>t\<in>set_option (lk_tcp k). tcp_ok k t" using assms(2) by (simp add: lk_inv_def)
  ultimately show ?thesis using lk_lost_inv [OF assms(2) refl, of "lk_tcp k"] by blast
next
  case (Some bytes)
  obtain t as where t: "lk_tcp k = Some t" "tcp_acks t = bytes # as"
    and step: "lk_conn_step (ReadResponse (Some bytes)) (k\<lparr>lk_tcp := Some (t\<lparr>tcp_acks := as\<rparr>)\<rparr>) = Some k'"
    using assms(1) Some by (auto split: option.splits list.splits if_splits)
  obtain d where d: "rc_pending_replies (lk_conn k) = d @ tcp_out t" "set d \<subseteq> set (lk_delivered k)"
    "length (tcp_acks t) \<le> length d" "tcp_up t \<longrightarrow> length (tcp_acks t) = length d" and alive: "rc_phase (lk_conn k) = Alive"
    using assms(2) t(1) by (auto simp: lk_inv_def replies_ok_def)
  obtain m d' where m: "d = m # d'" using d(3) t(2) by (cases d) auto
  have k': "k' = k\<lparr>lk_conn := lk_conn k\<lparr>rc_pending_replies := d' @ tcp_out t\<rparr>, lk_tcp := Some (t\<lparr>tcp_acks := as\<rparr>),
      lk_notified := lk_notified k @ [im_handler m]\<rparr>"
    using step alive d(1) m by (auto simp: lk_conn_step_def lk_hang_up_def split: if_splits)
  have q: "rc_queue (lk_conn k) = m # rc_queue (lk_conn k')" using d(1) m by (simp add: k' rc_queue_def)
  have inv: "queue_ok k" "notified_ok k" using assms(2) by (simp_all add: lk_inv_def)
  have "queue_ok k'" using inv(1) unfolding queue_ok_def q by (auto simp: k')
  moreover have "notified_ok k'" using inv d(2) m unfolding notified_ok_def queue_ok_def q by (auto simp: k')
  moreover have "replies_ok k'" using d(2-4) m t(2) alive by (auto simp: k' replies_ok_def)
  moreover have "\<forall>t\<in>set (lk_old k') \<union> set_option (lk_tcp k'). tcp_ok k' t"
    using assms(2) t(1) by (auto simp: k' lk_inv_def tcp_ok_def in_turn_def)
  ultimately show ?thesis using assms(2) by (auto simp: lk_inv_def k' delivered_ok_def in_turn_def)
qed

lemma lk_take_inv:
  assumes "lk_conn_step TakeMessage k = Some k'" "lk_inv k"
  shows "lk_inv k'"
proof (cases "rc_phase (lk_conn k)")
  case Connecting
  then show ?thesis using assms(1) by (simp add: lk_conn_step_def)
next
  case Waiting
  then obtain m ms where m: "rc_receiver (lk_conn k) = m # ms" and none: "lk_tcp k = None" "rc_pending_replies (lk_conn k) = []"
    using assms by (auto simp: lk_conn_step_def take_message_def lk_inv_def replies_ok_def split: list.splits option.splits)
  have k': "k' = k\<lparr>lk_conn := lk_conn k\<lparr>rc_receiver := ms,
      rc_buffer := filter (\<lambda>x. im_handler x \<notin> set (lk_closed k)) (rc_buffer (lk_conn k) @ [m])\<rparr>\<rparr>"
    using assms(1) Waiting m none by (simp add: lk_conn_step_def take_message_def wait_receive_def)
  show ?thesis
    by (rule lk_inv_drop [OF assms(2), where p = "[]" and b = "rc_buffer (lk_conn k) @ [m]" and r = ms])
      (use assms(2) m none Waiting in \<open>auto simp: k' rc_queue_def replies_ok_def\<close>)
next
  case Alive
  then obtain m ms where m: "rc_receiver (lk_conn k) = m # ms" "rc_buffer (lk_conn k) = []"
    using assms by (auto simp: lk_conn_step_def take_message_def split: list.splits if_splits)
  have k': "k' = k\<lparr>lk_conn := lk_conn k\<lparr>rc_receiver := ms, rc_buffer := [m]\<rparr>\<rparr>"
    using assms(1) Alive m by (simp add: lk_conn_step_def take_message_def keep_alive_receive_def lk_hang_up_def)
  show ?thesis
    by (rule lk_inv_frame [OF assms(2)])
      (use assms(2) m in \<open>auto simp: k' lk_inv_def rc_queue_def replies_ok_def split: option.splits\<close>)
qed

lemma lk_connect_inv:
  assumes "lk_step (Connection ConnectOk) k = Some k'" "lk_inv k"
  shows "lk_inv k'"
proof -
  have connecting: "rc_phase (lk_conn k) = Connecting"
    and k': "k' = k\<lparr>lk_conn := fst (connect_ok (lk_conn k)), lk_tcp := Some tcp_new\<rparr>"
    using assms(1) by (auto simp: lk_conn_step_def connect_ok_def lk_hang_up_def split: if_splits)
  show ?thesis
    by (rule lk_inv_frame [OF assms(2)])
      (use assms(2) connecting in \<open>auto simp: k' lk_inv_def rc_queue_def replies_ok_def connect_ok_def tcp_new_def tcp_ok_def
        split: option.splits\<close>)
qed

lemma lk_delay_inv:
  assumes "lk_conn_step ev k = Some k'" "ev = ConnectErr \<or> ev = DelayOver" "lk_inv k"
  shows "lk_inv k'"
proof -
  have "\<exists>c. k' = k\<lparr>lk_conn := c\<rparr> \<and> rc_queue c = rc_queue (lk_conn k) \<and> rc_phase c \<noteq> Alive \<and> rc_phase (lk_conn k) \<noteq> Alive
      \<and> rc_pending_replies c = rc_pending_replies (lk_conn k)"
    using assms(2)
  proof
    assume ev: "ev = ConnectErr"
    then have "rc_phase (lk_conn k) = Connecting" using assms(1) by (auto simp: lk_conn_step_def split: if_splits)
    moreover from this have "lk_tcp k = None" using assms(3) by (auto simp: lk_inv_def replies_ok_def split: option.splits)
    ultimately show ?thesis using assms(1) ev
      by (intro exI [of _ "lk_conn k'"]) (auto simp: lk_conn_step_def lk_hang_up_def connect_err_def rc_queue_def)
  next
    assume ev: "ev = DelayOver"
    then have "rc_phase (lk_conn k) = Waiting" using assms(1) by (auto simp: lk_conn_step_def split: if_splits)
    moreover from this have "lk_tcp k = None" using assms(3) by (auto simp: lk_inv_def replies_ok_def split: option.splits)
    ultimately show ?thesis using assms(1) ev
      by (intro exI [of _ "lk_conn k'"]) (auto simp: lk_conn_step_def lk_hang_up_def delay_over_def rc_queue_def)
  qed
  then obtain c where c: "k' = k\<lparr>lk_conn := c\<rparr>" "rc_queue c = rc_queue (lk_conn k)" "rc_phase c \<noteq> Alive"
    "rc_phase (lk_conn k) \<noteq> Alive" "rc_pending_replies c = rc_pending_replies (lk_conn k)" by blast
  show ?thesis
    by (rule lk_inv_frame [OF assms(3)])
      (use assms(3) c in \<open>auto simp: lk_inv_def replies_ok_def split: option.splits\<close>)
qed

lemma lk_step_inv:
  assumes "lk_step e k = Some k'" "lk_inv k"
  shows "lk_inv k'"
proof (cases e)
  case (Connection ev)
  then show ?thesis
  proof (cases ev)
    case (SendBuffered ok)
    then show ?thesis using assms Connection lk_send_inv by (cases ok) auto
  next
    case TakeMessage
    then show ?thesis using assms Connection lk_take_inv by simp
  next
    case ConnectErr
    then show ?thesis using assms Connection lk_delay_inv by simp
  next
    case DelayOver
    then show ?thesis using assms Connection lk_delay_inv by simp
  qed (use assms Connection lk_connect_inv lk_response_inv in blast)+
next
  case (Put data)
  then show ?thesis using assms lk_put_inv by (auto simp: Let_def)
next
  case (Cancel h)
  then show ?thesis using assms lk_cancel_inv by auto
qed (use assms lk_deliver_inv lk_deliver_old_inv lk_write_failed_inv in blast)+

lemma lk_new_inv: "lk_inv (link_new address)"
  by (simp add: lk_inv_def queue_ok_def notified_ok_def delivered_ok_def replies_ok_def link_new_def connection_new_def rc_queue_def)

lemma lk_run_inv: "lk_run es k = Some k' \<Longrightarrow> lk_inv k \<Longrightarrow> lk_inv k'"
  by (induction es arbitrary: k) (auto split: option.splits dest: lk_step_inv)

subsection \<open>What the caller can rely on\<close>

text \<open>A handler is the position of its message.\<close>

lemma lk_sent_nth:
  assumes "lk_inv k" "m \<in> set (lk_sent k)"
  shows "lk_sent k ! im_handler m = m" "im_handler m < length (lk_sent k)"
proof -
  obtain i where i: "i < length (lk_sent k)" "lk_sent k ! i = m" using assms(2) by (auto simp: in_set_conv_nth)
  have "handlers (lk_sent k) ! i = i" using assms(1) i(1) by (simp add: lk_inv_def)
  then have "im_handler m = i" using i by simp
  then show "lk_sent k ! im_handler m = m" "im_handler m < length (lk_sent k)" using i by simp_all
qed

lemma lk_delivered_nth:
  assumes "lk_inv k" "i \<in> set (handlers (lk_delivered k))"
  shows "lk_sent k ! i \<in> set (lk_delivered k)"
  using assms lk_sent_nth(1) [OF assms(1)] by (auto simp: lk_inv_def delivered_ok_def)

text \<open>
  C20: An acknowledgement that the reliable sender hands to its caller is one for the caller's message: at any
  moment of any run of a connection, whatever frames and acknowledgements were lost with earlier connections, however
  late the frames of those arrive, and whatever was cancelled, each handler is notified at most once and only after the
  peer's receiver was given its message, and a message is given to the receiver for the first time only after all
  messages sent before it that were not cancelled.
\<close>

theorem acknowledged_message_was_delivered:
  assumes "lk_run es (link_new address) = Some k"
  shows "distinct (lk_notified k) \<and> (\<forall>h\<in>set (lk_notified k). lk_sent k ! h \<in> set (lk_delivered k))
    \<and> (\<forall>m\<in>set (lk_delivered k). \<forall>i < im_handler m. lk_sent k ! i \<in> set (lk_delivered k) \<or> i \<in> set (lk_closed k))"
proof -
  have inv: "lk_inv k" using lk_run_inv [OF assms lk_new_inv] .
  then have "distinct (lk_notified k)" "set (lk_notified k) \<subseteq> set (handlers (lk_delivered k))"
    and turn: "\<forall>m\<in>set (lk_delivered k). in_turn k [] m" by (simp_all add: lk_inv_def notified_ok_def delivered_ok_def)
  moreover have "lk_sent k ! i \<in> set (lk_delivered k) \<or> i \<in> set (lk_closed k)"
    if "m \<in> set (lk_delivered k)" "i < im_handler m" for m i
    using turn that lk_delivered_nth [OF inv, of i] unfolding in_turn_def by fastforce
  ultimately show ?thesis using lk_delivered_nth [OF inv] by blast
qed

text \<open>The events of a connection that stays up, and what they still have to do.\<close>

fun lk_progress :: "lk_event \<Rightarrow> bool" where
  "lk_progress (Connection TakeMessage) = True"
| "lk_progress (Connection (SendBuffered ok)) = ok"
| "lk_progress (Connection (ReadResponse r)) = (r \<noteq> None)"
| "lk_progress (Deliver ok) = ok"
| "lk_progress e = False"

definition lk_work :: "link \<Rightarrow> nat" where
  "lk_work k = 4 * length (rc_receiver (lk_conn k)) + 3 * length (rc_buffer (lk_conn k))
     + (case lk_tcp k of None \<Rightarrow> 0 | Some t \<Rightarrow> 2 * length (tcp_out t) + length (tcp_acks t))"

definition lk_up :: "link \<Rightarrow> bool" where
  "lk_up k \<longleftrightarrow> rc_phase (lk_conn k) = Alive \<and> (case lk_tcp k of None \<Rightarrow> False | Some t \<Rightarrow> tcp_up t)"

lemma lk_progress_step:
  assumes "lk_step e k = Some k'" "lk_progress e" "lk_up k" "lk_inv k"
  shows "lk_work k' < lk_work k" "lk_up k'" "lk_sent k' = lk_sent k" "lk_closed k' = lk_closed k"
proof -
  obtain t where t: "lk_tcp k = Some t" "tcp_up t" and alive: "rc_phase (lk_conn k) = Alive"
    using assms(3) by (auto simp: lk_up_def split: option.splits)
  have pending: "tcp_acks t = [] \<or> rc_pending_replies (lk_conn k) \<noteq> []"
    using assms(4) t(1) by (auto simp: lk_inv_def replies_ok_def)
  have "lk_work k' < lk_work k \<and> lk_up k' \<and> lk_sent k' = lk_sent k \<and> lk_closed k' = lk_closed k"
  proof (cases e)
    case (Deliver ok)
    then show ?thesis using assms(1,2) t alive by (auto simp: lk_work_def lk_up_def tcp_read_def split: list.splits)
  next
    case (Connection ev)
    show ?thesis
    proof (cases ev)
      case TakeMessage
      then show ?thesis using assms(1) Connection t alive
        by (auto simp: lk_conn_step_def lk_work_def lk_up_def take_message_def keep_alive_receive_def lk_hang_up_def
            split: list.splits if_splits)
    next
      case (SendBuffered ok)
      then show ?thesis using assms(1,2) Connection t alive
        by (cases "rc_buffer (lk_conn k)")
          (auto simp: lk_conn_step_def lk_work_def lk_up_def lk_hang_up_def split: if_splits)
    next
      case (ReadResponse r)
      obtain b where "r = Some b" using assms(2) ReadResponse Connection by auto
      then show ?thesis using assms(1) ReadResponse Connection t alive pending
        by (cases "rc_pending_replies (lk_conn k)")
          (auto simp: lk_conn_step_def lk_work_def lk_up_def lk_hang_up_def split: if_splits list.splits)
    qed (use assms(2) Connection in auto)
  qed (use assms(2) in auto)
  then show "lk_work k' < lk_work k" "lk_up k'" "lk_sent k' = lk_sent k" "lk_closed k' = lk_closed k" by simp_all
qed

lemma lk_progress_run:
  assumes "lk_run es k = Some k'" "list_all lk_progress es" "lk_up k" "lk_inv k"
  shows "length es + lk_work k' \<le> lk_work k" "lk_up k'" "lk_sent k' = lk_sent k" "lk_closed k' = lk_closed k" "lk_inv k'"
proof -
  have "length es + lk_work k' \<le> lk_work k \<and> lk_up k' \<and> lk_sent k' = lk_sent k \<and> lk_closed k' = lk_closed k \<and> lk_inv k'"
    using assms
  proof (induction es arbitrary: k)
    case (Cons e es)
    obtain k1 where k1: "lk_step e k = Some k1" "lk_run es k1 = Some k'" using Cons.prems(1) by (auto split: option.splits)
    have e: "lk_progress e" "list_all lk_progress es" using Cons.prems(2) by simp_all
    note step = lk_progress_step [OF k1(1) e(1) Cons.prems(3,4)]
    show ?case using Cons.IH [OF k1(2) e(2) step(2) lk_step_inv [OF k1(1) Cons.prems(4)]] step by simp
  qed simp
  then show "length es + lk_work k' \<le> lk_work k" "lk_up k'" "lk_sent k' = lk_sent k" "lk_closed k' = lk_closed k" "lk_inv k'"
    by simp_all
qed

text \<open>A connection that is up has something to do until its queue is empty.\<close>

lemma lk_idle:
  assumes "lk_up k" "lk_inv k" "\<forall>e. lk_progress e \<longrightarrow> lk_step e k = None"
  shows "rc_queue (lk_conn k) = []"
proof -
  obtain t where t: "lk_tcp k = Some t" "tcp_up t" and alive: "rc_phase (lk_conn k) = Alive"
    using assms(1) by (auto simp: lk_up_def split: option.splits)
  have buffer: "rc_buffer (lk_conn k) = []"
    using assms(3) [rule_format, of "Connection (SendBuffered True)"] alive
    by (cases "rc_buffer (lk_conn k)") (auto simp: lk_conn_step_def split: if_splits)
  have receiver: "rc_receiver (lk_conn k) = []"
    using assms(3) [rule_format, of "Connection TakeMessage"] alive buffer
    by (cases "rc_receiver (lk_conn k)") (auto simp: lk_conn_step_def take_message_def keep_alive_receive_def)
  have out: "tcp_out t = []"
    using assms(3) [rule_format, of "Deliver True"] t by (cases "tcp_out t") auto
  have "tcp_acks t = []"
  proof (cases "tcp_acks t")
    case (Cons a as)
    then show ?thesis
      using assms(3) [rule_format, of "Connection (ReadResponse (Some a))"] alive buffer t
      by (cases "rc_pending_replies (lk_conn k)") (simp_all add: lk_conn_step_def connection_lost_def)
  qed simp
  then have "rc_pending_replies (lk_conn k) = []" using assms(2) t out by (auto simp: lk_inv_def replies_ok_def)
  then show ?thesis using buffer receiver by (simp add: rc_queue_def)
qed

text \<open>
  C19: The reliable sender is reliable: from whatever state an earlier sequence of failures left the connection in, once
  TCP has a connection that stays up, the tasks do at most \<open>lk_work\<close> steps, in any order, and as long as a message
  that was sent is neither acknowledged nor cancelled one of them can do a step.
\<close>

theorem reliable_messages_get_through:
  assumes "lk_run es (link_new address) = Some k" "lk_up k" "list_all lk_progress fs" "lk_run fs k = Some k'"
  shows "length fs \<le> lk_work k \<and> ((\<exists>e. lk_progress e \<and> lk_step e k' \<noteq> None)
    \<or> (\<forall>i < length (lk_sent k). i \<in> set (lk_notified k') \<or> i \<in> set (lk_closed k)))"
proof -
  note run = lk_progress_run [OF assms(4,3,2) lk_run_inv [OF assms(1) lk_new_inv]]
  have "\<forall>i < length (lk_sent k). i \<in> set (lk_notified k') \<or> i \<in> set (lk_closed k)"
    if "\<forall>e. lk_progress e \<longrightarrow> lk_step e k' = None"
    using lk_idle [OF run(2,5) that] run(3,4,5) by (auto simp: lk_inv_def queue_ok_def)
  then show ?thesis using run(1) by auto
qed

subsection \<open>An example\<close>

text \<open>Three messages; the second is cancelled. The first connection is lost after the first message was delivered and
  before its acknowledgement was read, with the third still under way; both are sent again.\<close>

definition lx_before :: "lk_event list" where
  "lx_before = [Put [1], Put [2], Connection ConnectErr, Connection TakeMessage, Connection DelayOver, Connection ConnectOk,
     Cancel 1, Connection (SendBuffered True), Connection TakeMessage, Connection (SendBuffered True), Put [3],
     Connection TakeMessage, Connection (SendBuffered True), Deliver True, Connection (ReadResponse None),
     Connection ConnectOk, DeliverOld 0]"

definition lx_after :: "lk_event list" where
  "lx_after = [Connection (SendBuffered True), Connection (SendBuffered True), Deliver True, Deliver True,
     Connection (ReadResponse (Some ack_reply)), Connection (ReadResponse (Some ack_reply))]"

definition lx_state :: link where
  "lx_state = the (lk_run lx_before (link_new ''a''))"

lemmas lx_simps = lx_before_def lx_after_def lx_state_def link_new_def connection_new_def lk_conn_step_def lk_hang_up_def
  take_message_def connect_err_def connect_ok_def delay_over_def wait_receive_def keep_alive_receive_def connection_lost_def
  tcp_new_def tcp_read_def channel_push_def Let_def wadd_def

lemma lx_before_run: "lk_run lx_before (link_new ''a'') = Some lx_state"
  by (simp add: lx_simps)

lemma lx_after_run:
  "\<exists>k. lk_run lx_after lx_state = Some k \<and> lk_notified k = [0, 2] \<and> handlers (lk_delivered k) = [0, 2, 0, 2] \<and> lk_closed k = [1]"
  by (simp add: lx_simps)

theorem acknowledged_message_was_delivered_witness:
  "\<exists>k. lk_run (lx_before @ lx_after) (link_new ''a'') = Some k \<and> lk_notified k = [0, 2]
     \<and> (\<forall>h\<in>set (lk_notified k). lk_sent k ! h \<in> set (lk_delivered k))"
proof -
  have run: "lk_run (es @ fs) k = (case lk_run es k of None \<Rightarrow> None | Some k' \<Rightarrow> lk_run fs k')" for es fs k
    by (induction es arbitrary: k) (auto split: option.splits)
  obtain k where k: "lk_run lx_after lx_state = Some k" "lk_notified k = [0, 2]" using lx_after_run by blast
  then have "lk_run (lx_before @ lx_after) (link_new ''a'') = Some k" by (simp add: run lx_before_run)
  then show ?thesis using k(2) acknowledged_message_was_delivered by blast
qed

theorem reliable_messages_get_through_witness:
  "lk_up lx_state \<and> length lx_after \<le> lk_work lx_state \<and> length (lk_sent lx_state) = 3"
proof -
  have up: "lk_up lx_state" by (simp add: lx_simps lk_up_def)
  have sent: "length (lk_sent lx_state) = 3" by (simp add: lx_simps)
  obtain k where k: "lk_run lx_after lx_state = Some k" using lx_after_run by blast
  have "list_all lk_progress lx_after" by (simp add: lx_after_def)
  then show ?thesis using reliable_messages_get_through [OF lx_before_run up _ k] up sent by simp
qed

subsection \<open>A quorum of acknowledgements\<close>

text \<open>
  C18: A batch that a worker reports to its primary is held by authorities that share at least the validity threshold of
  stake with every quorum: when the quorum waiter returns, the acknowledgements it counted came from workers whose
  connections notified the handler of the batch, and the receivers of these workers were given the batch.
\<close>

theorem quorum_holds_batch:
  assumes "config_ok com" "wait_for_quorum com (stake com me) acks" "distinct (me # acks)"
    and "\<And>a. a \<in> set acks \<Longrightarrow> lk_run (es a) (link_new (address a)) = Some (k a)"
    and "\<And>a. a \<in> set acks \<Longrightarrow> h a \<in> set (lk_notified (k a)) \<and> im_data (lk_sent (k a) ! h a) = batch"
  shows "\<exists>H. finite H \<and> me \<in> H \<and> (\<forall>a\<in>H - {me}. batch \<in> im_data ` set (lk_delivered (k a)))
    \<and> (\<forall>Q. finite Q \<longrightarrow> quorum_threshold com \<le> weight com Q \<longrightarrow> validity_threshold com \<le> weight com (H \<inter> Q))"
proof (intro exI conjI ballI allI impI)
  show "finite (insert me (set acks))" "me \<in> insert me (set acks)" by simp_all
  fix a assume "a \<in> insert me (set acks) - {me}"
  then have a: "a \<in> set acks" by simp
  have inv: "lk_inv (k a)" using lk_run_inv [OF assms(4) [OF a] lk_new_inv] .
  then have "h a \<in> set (handlers (lk_delivered (k a)))" using assms(5) [OF a] by (auto simp: lk_inv_def notified_ok_def)
  then show "batch \<in> im_data ` set (lk_delivered (k a))" using lk_delivered_nth [OF inv] assms(5) [OF a] by force
next
  fix Q assume "finite Q" "quorum_threshold com \<le> weight com Q"
  then show "validity_threshold com \<le> weight com (insert me (set acks) \<inter> Q)"
    using reported_batch_is_available [OF assms(1-3)] by blast
qed

text \<open>Of a committee of four, two workers acknowledge the batch.\<close>

theorem quorum_holds_batch_witness:
  "\<exists>H (k::public_key \<Rightarrow> link). finite H \<and> (1::public_key) \<in> H \<and> (\<forall>a\<in>H - {1}. [7::byte] \<in> im_data ` set (lk_delivered (k a)))
    \<and> (\<forall>Q. finite Q \<longrightarrow> quorum_threshold committee4 \<le> weight committee4 Q \<longrightarrow> validity_threshold committee4 \<le> weight committee4 (H \<inter> Q))"
proof -
  define es where "es = [Put [7], Connection ConnectOk, Connection TakeMessage, Connection (SendBuffered True), Deliver True,
    Connection (ReadResponse (Some ack_reply))]"
  define k where "k = the (lk_run es (link_new ''a''))"
  define kk where "kk = (\<lambda>_::public_key. k)"
  have k: "lk_run es (link_new ''a'') = Some k" "lk_notified k = [0]" "im_data (lk_sent k ! 0) = [7]"
    by (simp_all add: es_def k_def lx_simps)
  have "wait_for_quorum committee4 (stake committee4 1) [3, 2]"
    by (simp add: quorum_threshold_committee4 stake_committee4 wadd_def)
  then obtain H where "finite H \<and> 1 \<in> H \<and> (\<forall>a\<in>H - {1}. [7] \<in> im_data ` set (lk_delivered (kk a)))
      \<and> (\<forall>Q. finite Q \<longrightarrow> quorum_threshold committee4 \<le> weight committee4 Q \<longrightarrow> validity_threshold committee4 \<le> weight committee4 (H \<inter> Q))"
    using k quorum_holds_batch [OF config_ok_committee4, of 1 "[3, 2]" "\<lambda>_. es" "\<lambda>_. ''a''" kk "\<lambda>_. 0" "[7]"]
    by (auto simp: kk_def)
  then show ?thesis by blast
qed

end
