(* ===== verification/Draws.thy ===== *)
theory Draws
  imports F64 Workload
begin

text \<open>
  Random draws of accounts, as the client of the benchmark and the generator of the replay make them: uniform in a
  range, or uniform in a part of it that is chosen by weights. The generator of random numbers is a
  parameter.
\<close>

text \<open>The generator \<open>StdRng\<close>: \<open>seed_from_u64\<close>, \<open>gen::<f64>\<close>, and \<open>gen_range(0, n)\<close>, which panics for an empty range.\<close>

record 'r rng =
  rng_seed :: "nat \<Rightarrow> 'r"
  rng_f64 :: "'r \<Rightarrow> f64 \<times> 'r"
  rng_below :: "nat \<Rightarrow> 'r \<Rightarrow> nat \<times> 'r"

definition gen_range0 :: "'r rng \<Rightarrow> nat \<Rightarrow> 'r \<Rightarrow> (nat \<times> 'r) option" where
  "gen_range0 R n r = (if n = 0 then None else Some (rng_below R n r))"

text \<open>A draw from a range is in the range.\<close>

definition rng_ok :: "'r rng \<Rightarrow> bool" where
  "rng_ok R \<longleftrightarrow> (\<forall>n r. 0 < n \<longrightarrow> fst (rng_below R n r) < n)"

fun cumulate :: "f64 \<Rightarrow> f64 \<Rightarrow> f64 list \<Rightarrow> f64 list" where
  "cumulate s cum [] = []"
| "cumulate s cum (w # ws) = (let c = f_add cum (f_div w s) in c # cumulate s c ws)"

definition cumulative_weights :: "f64 list \<Rightarrow> f64 list" where
  "cumulative_weights ws = cumulate (fold (\<lambda>w t. f_add t w) ws (Fin 0)) (Fin 0) ws"

fun position :: "('a \<Rightarrow> bool) \<Rightarrow> 'a list \<Rightarrow> nat option" where
  "position Q [] = None"
| "position Q (x # xs) = (if Q x then Some 0 else map_option Suc (position Q xs))"

text \<open>A number below \<open>n\<close>: with weights, from the shard that the first draw selects; the last shard has the rest.\<close>

definition draw_weighted :: "'r rng \<Rightarrow> f64 list \<Rightarrow> nat \<Rightarrow> 'r \<Rightarrow> (nat \<times> 'r) option" where
  "draw_weighted R ws n r =
    (let num_shards = length ws in
     if num_shards > 0 then
       (let (p, r1) = rng_f64 R r;
            shard_size = n div num_shards;
            shard_idx = (case position (\<lambda>c. f_lt p c) (cumulative_weights ws) of None \<Rightarrow> num_shards - 1 | Some i \<Rightarrow> i);
            shard_start = shard_idx * shard_size;
            shard_count = (if shard_idx = num_shards - 1 then n - shard_idx * shard_size else shard_size)
        in map_option (\<lambda>(k, r2). (shard_start + k, r2)) (gen_range0 R shard_count r1))
     else gen_range0 R n r)"

lemma gen_range0_less: "rng_ok R \<Longrightarrow> gen_range0 R n r = Some (k, r') \<Longrightarrow> k < n"
  unfolding gen_range0_def rng_ok_def by (metis fst_conv not_gr_zero option.distinct(1) option.inject)

lemma position_less: "position Q xs = Some i \<Longrightarrow> i < length xs"
  by (induction xs arbitrary: i) (auto split: if_splits)

lemma length_cumulate [simp]: "length (cumulate s c ws) = length ws"
  by (induction ws arbitrary: c) (simp_all add: Let_def)

lemma shard_bound: "i < k \<Longrightarrow> i * (n div k) + n div k \<le> (n::nat)"
proof -
  assume "i < k"
  then have "(i + 1) * (n div k) \<le> k * (n div k)" by (intro mult_le_mono1) simp
  also have "\<dots> \<le> n" by simp
  finally show ?thesis by (simp add: algebra_simps)
qed

lemma draw_weighted_less:
  assumes "rng_ok R" "draw_weighted R ws n r = Some (a, r')"
  shows "a < n"
proof (cases "ws = []")
  case True
  then show ?thesis using assms gen_range0_less by (auto simp: draw_weighted_def)
next
  case False
  let ?k = "length ws"
  obtain p r1 where p: "rng_f64 R r = (p, r1)" by force
  define i where "i = (case position (\<lambda>c. f_lt p c) (cumulative_weights ws) of None \<Rightarrow> ?k - 1 | Some i \<Rightarrow> i)"
  have i: "i < ?k" using False position_less by (fastforce simp: i_def cumulative_weights_def split: option.splits)
  have "map_option (\<lambda>(d, r2). (i * (n div ?k) + d, r2))
      (gen_range0 R (if i = ?k - 1 then n - i * (n div ?k) else n div ?k) r1) = draw_weighted R ws n r"
    using False by (simp add: draw_weighted_def p Let_def i_def)
  also note assms(2)
  finally obtain d where d: "gen_range0 R (if i = ?k - 1 then n - i * (n div ?k) else n div ?k) r1 = Some (d, r')"
    "a = i * (n div ?k) + d"
    by auto
  then have "d < (if i = ?k - 1 then n - i * (n div ?k) else n div ?k)" using gen_range0_less [OF assms(1)] by blast
  then show ?thesis using shard_bound [OF i, of n] d(2) by (auto split: if_splits)
qed

text \<open>The layout of a transaction: type, client or region, counter, payload, padding.\<close>

lemma tx_layout_parse:
  assumes "c < 2 ^ 64" "sb_wf t"
  shows "tx_header_parse ([ty, reg] @ be_bytes 8 c @ sb_to_bytes t @ pad) = Some \<lparr>th_tx_type = ty, th_id = (reg, c)\<rparr>"
    "parse_smallbank_payload ([ty, reg] @ be_bytes 8 c @ sb_to_bytes t @ pad) = Some t"
proof -
  show "tx_header_parse ([ty, reg] @ be_bytes 8 c @ sb_to_bytes t @ pad) = Some \<lparr>th_tx_type = ty, th_id = (reg, c)\<rparr>"
    using be64_append [of "[ty, reg]" 2 c "sb_to_bytes t @ pad"] assms(1) by (simp add: tx_header_parse_def)
  show "parse_smallbank_payload ([ty, reg] @ be_bytes 8 c @ sb_to_bytes t @ pad) = Some t"
    using sb_from_to_bytes [OF assms(2), of "[]"] by (simp add: parse_smallbank_payload_def)
qed

end
