(* ===== verification/Replay.thy ===== *)
theory Replay
  imports Pipeline Draws
begin

text \<open>
  The replay harness (\<^verbatim>\<open>executor-replay/\<close>): instead of running consensus, the primary of a validator replays a
  recording. Every worker reads the recording, a CSV file of times and batch sizes, generates its batches of
  SmallBank transactions, stores them and reports their digests; the primary's sequencer waits for all of them and
  then sends the batches for execution in the recorded order, at the recorded pace. Router and executors are those of the
  main program.

  The generator of random numbers is a parameter; a panic is \<open>None\<close>, and so is a draw that is repeated without end.
\<close>

subsection \<open>The recording (\<^verbatim>\<open>config/src/replay.rs\<close>)\<close>

record replay_entry =
  re_timestamp_ms :: nat
  re_size_bytes :: nat

record replay_assignment =
  ra_batch_index :: nat
  ra_worker_id :: worker_id
  ra_num_tx :: nat
  ra_timestamp_ms :: nat

datatype parse_int_error = EmptyInt | InvalidDigit | PosOverflow

text \<open>\<open>u64::from_str\<close>.\<close>

fun parse_digits :: "nat \<Rightarrow> string \<Rightarrow> parse_int_error + nat" where
  "parse_digits acc [] = Inr acc"
| "parse_digits acc (c # cs) =
    (if \<not> (48 \<le> (of_char c :: nat) \<and> (of_char c :: nat) \<le> 57) then Inl InvalidDigit
     else let n = 10 * acc + (of_char c - 48) in if n < 2 ^ 64 then parse_digits n cs else Inl PosOverflow)"

definition parse_u64 :: "string \<Rightarrow> parse_int_error + nat" where
  "parse_u64 s = (case s of [] \<Rightarrow> Inl EmptyInt | c # cs \<Rightarrow> if c = CHR ''+'' \<and> cs \<noteq> [] then parse_digits 0 cs else parse_digits 0 s)"

fun split_on :: "char \<Rightarrow> string \<Rightarrow> string list" where
  "split_on c [] = [[]]"
| "split_on c (x # xs) =
    (case split_on c xs of
       [] \<Rightarrow> []
     | p # ps \<Rightarrow> if x = c then [] # p # ps else (x # p) # ps)"

definition is_space :: "char \<Rightarrow> bool" where
  "is_space c \<longleftrightarrow> (let n = of_char c :: nat in n = 32 \<or> (9 \<le> n \<and> n \<le> 13))"

definition trim :: "string \<Rightarrow> string" where
  "trim s = rev (dropWhile is_space (rev (dropWhile is_space s)))"

text \<open>The lines after the header. A line of fewer than two fields fails the assertion; a carriage return at the end of a
  line goes with \<open>trim\<close>.\<close>

definition parse_line :: "string \<Rightarrow> (parse_int_error + replay_entry) option" where
  "parse_line line =
    (case split_on CHR '','' line of
       t # z # rest \<Rightarrow> Some (case parse_u64 t of Inl e \<Rightarrow> Inl e | Inr t' \<Rightarrow>
         (case parse_u64 z of Inl e \<Rightarrow> Inl e | Inr z' \<Rightarrow> Inr \<lparr>re_timestamp_ms = t', re_size_bytes = z'\<rparr>))
     | _ \<Rightarrow> None)"

fun parse_lines :: "string list \<Rightarrow> (parse_int_error + replay_entry list) option" where
  "parse_lines [] = Some (Inr [])"
| "parse_lines (line # ls) =
    (if trim line = [] then parse_lines ls
     else case parse_line (trim line) of
       None \<Rightarrow> None
     | Some (Inl e) \<Rightarrow> Some (Inl e)
     | Some (Inr x) \<Rightarrow> map_option (map_sum (\<lambda>e. e) (\<lambda>xs. x # xs)) (parse_lines ls))"

definition parse_replay_csv :: "string \<Rightarrow> (parse_int_error + replay_entry list) option" where
  "parse_replay_csv content = parse_lines (tl (split_on (CHR 0x0A) content))"

definition assign_batch :: "nat \<Rightarrow> nat \<Rightarrow> nat \<Rightarrow> replay_entry \<Rightarrow> replay_assignment" where
  "assign_batch num_workers tx_size i entry = \<lparr>ra_batch_index = i, ra_worker_id = i mod 2 ^ 32 mod num_workers,
     ra_num_tx = max 1 (re_size_bytes entry div tx_size), ra_timestamp_ms = re_timestamp_ms entry\<rparr>"

definition assign_batches_round_robin :: "replay_entry list \<Rightarrow> nat \<Rightarrow> nat \<Rightarrow> replay_assignment list option" where
  "assign_batches_round_robin entries num_workers tx_size =
    (if entries \<noteq> [] \<and> (num_workers = 0 \<or> tx_size = 0) then None
     else Some (List.map (\<lambda>i. assign_batch num_workers tx_size i (entries ! i)) [0..<length entries]))"

subsection \<open>The generator of batches (\<^verbatim>\<open>worker/src/replay_batch_generator.rs\<close>)\<close>

record replay_params =
  rp_tx_size :: nat
  rp_num_accounts :: nat
  rp_distributed_tx_rate :: f64
  rp_skew_weights :: "f64 list"

text \<open>The assertions before the first batch.\<close>

definition params_ok :: "replay_params \<Rightarrow> bool" where
  "params_ok P \<longleftrightarrow> 0 < rp_num_accounts P \<and> list_all (\<lambda>w. f_lt (Fin 0) w) (rp_skew_weights P)"

definition select_account :: "'r rng \<Rightarrow> replay_params \<Rightarrow> 'r \<Rightarrow> (nat \<times> 'r) option" where
  "select_account R P r = draw_weighted R (rp_skew_weights P) (rp_num_accounts P) r"

partial_function (option) pick_dest :: "'r rng \<Rightarrow> nat \<Rightarrow> nat \<Rightarrow> 'r \<Rightarrow> (nat \<times> 'r) option" where
  "pick_dest R num_accounts src r =
    (case gen_range0 R num_accounts r of
       None \<Rightarrow> None
     | Some (d, r') \<Rightarrow> if d \<noteq> src \<or> num_accounts \<le> 1 then Some (d, r') else pick_dest R num_accounts src r')"

text \<open>The bits of the amounts 1.3, 20.20, 5.0, 5.0 and 0.0.\<close>

definition replay_amount_bits :: "sb_tx_type \<Rightarrow> nat" where
  "replay_amount_bits t =
    (case t of DepositChecking \<Rightarrow> 4608533498688228557 | TransactSavings \<Rightarrow> 4626379012211684147
     | WriteCheck \<Rightarrow> 4617315517961601024 | SendPayment \<Rightarrow> 4617315517961601024 | Balance \<Rightarrow> 0)"

text \<open>The types in the order in which they are cycled through.\<close>

definition cycle_type :: "nat \<Rightarrow> sb_tx_type" where
  "cycle_type n = [Balance, DepositChecking, TransactSavings, WriteCheck] ! (n mod 4)"

definition replay_tx_bytes :: "nat \<Rightarrow> nat \<Rightarrow> sb_transaction \<Rightarrow> bytes option" where
  "replay_tx_bytes tx_size tx_counter t =
    (if tx_size < 35 then None
     else Some ([1, 0] @ be_bytes 8 tx_counter @ sb_to_bytes t @ replicate (tx_size - 35) 0))"

definition generate_tx :: "'r rng \<Rightarrow> replay_params \<Rightarrow> nat \<Rightarrow> 'r \<times> nat \<Rightarrow> (bytes \<times> 'r \<times> nat) option" where
  "generate_tx R P tx_counter = (\<lambda>(r, non_dist_idx).
     do {
       (src, r1) \<leftarrow> select_account R P r;
       (x, r2) \<leftarrow> Some (rng_f64 R r1);
       (ty, dest, r3, idx) \<leftarrow>
         (if f_lt x (rp_distributed_tx_rate P)
          then map_option (\<lambda>(d, r3). (SendPayment, d, r3, non_dist_idx)) (pick_dest R (rp_num_accounts P) src r2)
          else Some (cycle_type non_dist_idx, src, r2, wadd 8 non_dist_idx 1));
       tx \<leftarrow> replay_tx_bytes (rp_tx_size P) tx_counter \<lparr>sb_tx_type = ty, sb_account_id = src, sb_dest_account_id = dest,
         sb_amount_bits = replay_amount_bits ty\<rparr>;
       Some (tx, r3, idx)
     })"

fun generate_txs :: "'r rng \<Rightarrow> replay_params \<Rightarrow> nat list \<Rightarrow> 'r \<times> nat \<Rightarrow> bytes list option" where
  "generate_txs R P [] s = Some []"
| "generate_txs R P (tx_counter # cs) s =
    do { (tx, s') \<leftarrow> generate_tx R P tx_counter s; txs \<leftarrow> generate_txs R P cs s'; Some (tx # txs) }"

definition tx_counters :: "replay_assignment \<Rightarrow> nat list" where
  "tx_counters a = List.map (\<lambda>tx_index. wadd 64 (wmul 64 (ra_batch_index a) (ra_num_tx a)) tx_index) [0..<ra_num_tx a]"

definition generate_batch :: "'r rng \<Rightarrow> replay_params \<Rightarrow> replay_assignment \<Rightarrow> bytes list option" where
  "generate_batch R P a = generate_txs R P (tx_counters a) (rng_seed R (ra_batch_index a), 0)"

datatype replay_ready = ReplayBatchReady nat digest worker_id

text \<open>What the generator of worker \<open>wid\<close> writes to the store and tells the primary.\<close>

fun generate_batches :: "crypto \<Rightarrow> worker_codec \<Rightarrow> 'r rng \<Rightarrow> replay_params \<Rightarrow> worker_id \<Rightarrow> replay_assignment list \<Rightarrow> store
    \<Rightarrow> (store \<times> replay_ready list) option" where
  "generate_batches C K R P wid [] st = Some (st, [])"
| "generate_batches C K R P wid (a # as) st =
    do { txs \<leftarrow> generate_batch R P a;
         serialized \<leftarrow> Some (ser_message K (Batch txs));
         (st', ready) \<leftarrow> generate_batches C K R P wid as (AList.update (bytes32 (sha C serialized)) serialized st);
         Some (st', ReplayBatchReady (ra_batch_index a) (sha C serialized) wid # ready) }"

definition replay_batch_generator :: "crypto \<Rightarrow> worker_codec \<Rightarrow> 'r rng \<Rightarrow> replay_params \<Rightarrow> worker_id \<Rightarrow> replay_assignment list
    \<Rightarrow> store \<Rightarrow> (store \<times> replay_ready list) option" where
  "replay_batch_generator C K R P wid assignments st =
    (if params_ok P then generate_batches C K R P wid (filter (\<lambda>a. ra_worker_id a = wid) assignments) st else None)"

subsection \<open>The sequencer (\<^verbatim>\<open>primary/src/replay_sequencer.rs\<close>)\<close>

text \<open>The first phase ends when as many digests as batches are known.\<close>

fun collect_ready :: "nat \<Rightarrow> replay_ready list \<Rightarrow> (nat, worker_id \<times> digest) hmap \<Rightarrow> (nat, worker_id \<times> digest) hmap option" where
  "collect_ready n ready ds =
    (if n \<le> length ds then Some ds
     else case ready of
       [] \<Rightarrow> None
     | ReplayBatchReady i d w # ms \<Rightarrow> collect_ready n ms (AList.update i (w, d) ds))"

text \<open>The second: \<open>elapsed\<close> gives the time since its start when the batch with a sequence number is reached; what is
  sent is recorded with the time slept before.\<close>

fun replay_loop :: "committee \<Rightarrow> public_key \<Rightarrow> nat \<Rightarrow> (nat, worker_id \<times> digest) hmap \<Rightarrow> (nat \<Rightarrow> nat) \<Rightarrow> replay_assignment list \<Rightarrow> nat
    \<Rightarrow> (nat \<times> socket_addr \<times> primary_worker_message) list option" where
  "replay_loop com name base ds elapsed [] sequence = Some []"
| "replay_loop com name base ds elapsed (a # as) sequence =
    (case map_of ds (ra_batch_index a) of
       None \<Rightarrow> None
     | Some (w, d) \<Rightarrow> (case worker com name w of
          Inl e \<Rightarrow> None
        | Inr x \<Rightarrow> map_option (\<lambda>out. (wsub 64 (ra_timestamp_ms a) base - elapsed sequence, primary_to_worker x, Execute d w sequence) # out)
            (replay_loop com name base ds elapsed as (wadd 64 sequence 1))))"

definition replay_sequencer :: "committee \<Rightarrow> public_key \<Rightarrow> replay_assignment list \<Rightarrow> replay_ready list \<Rightarrow> (nat \<Rightarrow> nat)
    \<Rightarrow> (nat \<times> socket_addr \<times> primary_worker_message) list option" where
  "replay_sequencer com name assignments ready elapsed =
    (case assignments of
       [] \<Rightarrow> Some []
     | a # as \<Rightarrow> (case collect_ready (length assignments) ready [] of
          None \<Rightarrow> Some []
        | Some ds \<Rightarrow> replay_loop com name (ra_timestamp_ms a) ds elapsed assignments 0))"

subsection \<open>What is generated\<close>

lemma select_account_less: "rng_ok R \<Longrightarrow> select_account R P r = Some (a, r') \<Longrightarrow> a < rp_num_accounts P"
  unfolding select_account_def by (rule draw_weighted_less)

lemma pick_dest_result:
  assumes "rng_ok R" "pick_dest R n src r = Some (d, r')"
  shows "d < n \<and> (d \<noteq> src \<or> n \<le> 1)"
proof -
  have "rng_ok R \<longrightarrow> fst (d, r') < n \<and> (fst (d, r') \<noteq> src \<or> n \<le> 1)"
  proof (rule pick_dest.raw_induct [OF _ assms(2)])
    fix pick :: "'a rng \<Rightarrow> nat \<Rightarrow> nat \<Rightarrow> 'a \<Rightarrow> (nat \<times> 'a) option" and R n src r y
    assume IH: "\<And>R n src r y. pick R n src r = Some y \<Longrightarrow> rng_ok R \<longrightarrow> fst y < n \<and> (fst y \<noteq> src \<or> n \<le> 1)"
      and step: "(case gen_range0 R n r of None \<Rightarrow> None
        | Some (d, r') \<Rightarrow> if d \<noteq> src \<or> n \<le> 1 then Some (d, r') else pick R n src r') = Some y"
    obtain d r' where d: "gen_range0 R n r = Some (d, r')" using step by (auto split: option.splits)
    show "rng_ok R \<longrightarrow> fst y < n \<and> (fst y \<noteq> src \<or> n \<le> 1)"
    proof (cases "d \<noteq> src \<or> n \<le> 1")
      case True
      then show ?thesis using step gen_range0_less [OF _ d] by (auto simp: d)
    next
      case False
      then have "pick R n src r' = Some y" using step by (simp add: d)
      then show ?thesis by (rule IH)
    qed
  qed
  then show ?thesis using assms(1) by simp
qed

definition replay_tx_ok :: "replay_params \<Rightarrow> nat \<Rightarrow> bytes \<Rightarrow> bool" where
  "replay_tx_ok P tx_counter tx \<longleftrightarrow> tx_header_parse tx = Some \<lparr>th_tx_type = 1, th_id = (0, tx_counter)\<rparr>
    \<and> (case parse_smallbank_payload tx of None \<Rightarrow> False
       | Some t \<Rightarrow> sb_account_id t < rp_num_accounts P \<and> sb_dest_account_id t < rp_num_accounts P
           \<and> sb_amount_bits t = replay_amount_bits (sb_tx_type t)
           \<and> (sb_tx_type t = SendPayment \<and> 1 < rp_num_accounts P \<longleftrightarrow> sb_dest_account_id t \<noteq> sb_account_id t))"

lemma replay_tx_bytes_parse:
  assumes "replay_tx_bytes n c t = Some tx" "c < 2 ^ 64" "sb_wf t"
  shows "tx_header_parse tx = Some \<lparr>th_tx_type = 1, th_id = (0, c)\<rparr>" "parse_smallbank_payload tx = Some t"
  using assms(1) tx_layout_parse [OF assms(2,3)] by (auto simp: replay_tx_bytes_def split: if_splits)

lemma replay_amount_bits_less: "replay_amount_bits t < 2 ^ 64"
  by (cases t) (simp_all add: replay_amount_bits_def)

lemma cycle_type_not_payment: "cycle_type n \<noteq> SendPayment"
proof -
  have "n mod 4 \<in> {0, 1, 2, 3}" by auto
  then show ?thesis by (auto simp: cycle_type_def)
qed

lemma generate_tx_ok:
  assumes "generate_tx R P c s = Some (tx, s')" "rng_ok R" "c < 2 ^ 64" "rp_num_accounts P < 2 ^ 64"
  shows "replay_tx_ok P c tx"
proof -
  obtain r k where s: "s = (r, k)" by (cases s)
  obtain src r1 ty dest r3 i where src: "select_account R P r = Some (src, r1)"
    and ty: "(ty = SendPayment \<and> (\<exists>r2. pick_dest R (rp_num_accounts P) src r2 = Some (dest, r3))) \<or> (ty = cycle_type k \<and> dest = src)"
    and tx: "replay_tx_bytes (rp_tx_size P) c \<lparr>sb_tx_type = ty, sb_account_id = src, sb_dest_account_id = dest,
         sb_amount_bits = replay_amount_bits ty\<rparr> = Some tx"
  proof -
    obtain src r1 where 1: "select_account R P r = Some (src, r1)" using assms(1) by (auto simp: generate_tx_def s split: bind_splits)
    obtain x r2 where 2: "rng_f64 R r1 = (x, r2)" by force
    show ?thesis
    proof (cases "f_lt x (rp_distributed_tx_rate P)")
      case True
      then obtain dest r3 where "pick_dest R (rp_num_accounts P) src r2 = Some (dest, r3)"
        "replay_tx_bytes (rp_tx_size P) c \<lparr>sb_tx_type = SendPayment, sb_account_id = src, sb_dest_account_id = dest,
          sb_amount_bits = replay_amount_bits SendPayment\<rparr> = Some tx"
        using assms(1) by (auto simp: generate_tx_def s 1 2 split: bind_splits)
      then show ?thesis using that [OF 1, of SendPayment dest] by blast
    next
      case False
      then show ?thesis using assms(1) that [OF 1, of "cycle_type k" src] by (auto simp: generate_tx_def s 1 2 split: bind_splits)
    qed
  qed
  have src_less: "src < rp_num_accounts P" using select_account_less [OF assms(2) src] .
  have dest: "dest < rp_num_accounts P" "(ty = SendPayment \<and> 1 < rp_num_accounts P) = (dest \<noteq> src)"
    using ty src_less pick_dest_result [OF assms(2)] cycle_type_not_payment [of k] by fastforce+
  have "sb_wf \<lparr>sb_tx_type = ty, sb_account_id = src, sb_dest_account_id = dest, sb_amount_bits = replay_amount_bits ty\<rparr>"
    using src_less dest(1) assms(4) replay_amount_bits_less by (simp add: sb_wf_def)
  from replay_tx_bytes_parse [OF tx assms(3) this] show ?thesis using src_less dest by (simp add: replay_tx_ok_def)
qed

lemma generate_txs_ok:
  assumes "generate_txs R P cs s = Some txs" "rng_ok R" "\<forall>c\<in>set cs. c < 2 ^ 64" "rp_num_accounts P < 2 ^ 64"
  shows "list_all2 (replay_tx_ok P) cs txs"
  using assms(1,3)
proof (induction cs arbitrary: s txs)
  case (Cons c cs)
  obtain tx s' txs' where 1: "generate_tx R P c s = Some (tx, s')" "generate_txs R P cs s' = Some txs'" "txs = tx # txs'"
    using Cons.prems(1) by (auto split: bind_splits)
  have "replay_tx_ok P c tx" using Cons.prems(2) by (intro generate_tx_ok [OF 1(1) assms(2) _ assms(4)]) simp
  moreover have "list_all2 (replay_tx_ok P) cs txs'" using Cons.prems(2) by (intro Cons.IH [OF 1(2)]) simp
  ultimately show ?case by (simp add: 1(3))
qed simp

lemma tx_counters_less: "c \<in> set (tx_counters a) \<Longrightarrow> c < 2 ^ 64"
  unfolding tx_counters_def using wadd_less [of 64] by (auto simp only: set_map image_iff)

lemma generate_batch_ok:
  assumes "generate_batch R P a = Some txs" "rng_ok R" "rp_num_accounts P < 2 ^ 64"
  shows "list_all2 (replay_tx_ok P) (tx_counters a) txs"
  using generate_txs_ok [OF assms(1) [unfolded generate_batch_def] assms(2) _ assms(3)] tx_counters_less by blast

text \<open>
  Every transaction of a generated batch is one the executors accept: it parses as a SmallBank operation on existing
  accounts, with the amount of its type, and its destination differs from its source exactly if it is a payment and
  there is more than one account; the batch has as many transactions as the recording asks for.
\<close>

theorem replay_transactions_valid:
  assumes "generate_batch R P a = Some txs" "rng_ok R" "rp_num_accounts P < 2 ^ 64"
  shows "length txs = ra_num_tx a \<and> (\<forall>tx\<in>set txs. \<exists>h t. tx_header_parse tx = Some h \<and> \<not> is_sample h
    \<and> parse_smallbank_payload tx = Some t \<and> sb_account_id t < rp_num_accounts P \<and> sb_dest_account_id t < rp_num_accounts P
    \<and> sb_amount_bits t = replay_amount_bits (sb_tx_type t)
    \<and> (sb_tx_type t = SendPayment \<and> 1 < rp_num_accounts P \<longleftrightarrow> sb_dest_account_id t \<noteq> sb_account_id t))"
proof -
  note all2 = generate_batch_ok [OF assms]
  have "length txs = ra_num_tx a" using list_all2_lengthD [OF all2] by (simp add: tx_counters_def)
  moreover have "\<exists>c. replay_tx_ok P c tx" if "tx \<in> set txs" for tx using all2 that by (auto simp: list_all2_conv_all_nth in_set_conv_nth)
  ultimately show ?thesis by (fastforce simp: replay_tx_ok_def is_sample_def split: option.splits)
qed

text \<open>
  The identifiers of generated transactions are not unique: the counter of the transaction \<open>j\<close> of batch \<open>i\<close> is
  \<open>i * num_tx + j\<close> with the number of transactions of that batch, so two batches of different sizes have transactions
  with the same identifier, for instance batch 1 with ten transactions and batch 3 with five.
\<close>

theorem replay_ids_collide:
  assumes "generate_batch R P a = Some txs" "generate_batch R P b = Some txs'" "rng_ok R" "rp_num_accounts P < 2 ^ 64"
    and "i < ra_num_tx a" "j < ra_num_tx b"
    and "wadd 64 (wmul 64 (ra_batch_index a) (ra_num_tx a)) i = wadd 64 (wmul 64 (ra_batch_index b) (ra_num_tx b)) j"
  shows "tx_header_parse (txs ! i) \<noteq> None \<and> tx_header_parse (txs ! i) = tx_header_parse (txs' ! j)"
proof -
  have "replay_tx_ok P (tx_counters a ! i) (txs ! i)" "replay_tx_ok P (tx_counters b ! j) (txs' ! j)"
    using generate_batch_ok [OF assms(1,3,4)] generate_batch_ok [OF assms(2,3,4)] assms(5,6)
    by (auto simp: list_all2_conv_all_nth tx_counters_def)
  then show ?thesis using assms(5-7) by (simp add: replay_tx_ok_def tx_counters_def)
qed

subsection \<open>From the recording to the executors\<close>

abbreviation batch_bytes :: "worker_codec \<Rightarrow> bytes list \<Rightarrow> bytes" where
  "batch_bytes K txs \<equiv> ser_message K (Batch txs)"

lemma generate_batches_result:
  "generate_batches C K R P w as st = Some (st', ready) \<Longrightarrow>
    \<exists>bs. List.map (generate_batch R P) as = List.map Some bs
      \<and> ready = map2 (\<lambda>a txs. ReplayBatchReady (ra_batch_index a) (sha C (batch_bytes K txs)) w) as bs
      \<and> st' = fold (\<lambda>txs. AList.update (bytes32 (sha C (batch_bytes K txs))) (batch_bytes K txs)) bs st"
proof (induction as arbitrary: st ready)
  case (Cons a as)
  obtain txs ready1 where 1: "generate_batch R P a = Some txs" "ready = ReplayBatchReady (ra_batch_index a) (sha C (batch_bytes K txs)) w # ready1"
    "generate_batches C K R P w as (AList.update (bytes32 (sha C (batch_bytes K txs))) (batch_bytes K txs) st) = Some (st', ready1)"
    using Cons.prems by (auto split: bind_splits)
  obtain bs where "List.map (generate_batch R P) as = List.map Some bs"
    "ready1 = map2 (\<lambda>a txs. ReplayBatchReady (ra_batch_index a) (sha C (batch_bytes K txs)) w) as bs"
    "st' = fold (\<lambda>txs. AList.update (bytes32 (sha C (batch_bytes K txs))) (batch_bytes K txs)) bs
      (AList.update (bytes32 (sha C (batch_bytes K txs))) (batch_bytes K txs) st)"
    using Cons.IH [OF 1(3)] by blast
  then show ?case using 1 by (intro exI [of _ "txs # bs"]) simp
qed simp

lemma stored_batches:
  assumes "inj_on (sha C) (batch_bytes K ` set bs)" "txs \<in> set bs"
  shows "map_of (fold (\<lambda>txs. AList.update (bytes32 (sha C (batch_bytes K txs))) (batch_bytes K txs)) bs st)
    (bytes32 (sha C (batch_bytes K txs))) = Some (batch_bytes K txs)"
  using assms
proof (induction bs rule: rev_induct)
  case (snoc x bs)
  then show ?case by (auto simp: al_simps inj_on_def)
qed simp

lemma collect_ready_all:
  assumes "n = length ds + length ready" "distinct (keys ds @ List.map (\<lambda>m. case m of ReplayBatchReady i d w \<Rightarrow> i) ready)"
  shows "\<exists>ds'. collect_ready n ready ds = Some ds'
    \<and> (\<forall>i d w. ReplayBatchReady i d w \<in> set ready \<or> map_of ds i = Some (w, d) \<longrightarrow> map_of ds' i = Some (w, d))"
  using assms
proof (induction ready arbitrary: ds)
  case (Cons m ready)
  obtain i d w where m: "m = ReplayBatchReady i d w" by (cases m)
  have i: "i \<notin> fst ` set ds" using Cons.prems(2) by (simp add: m keys_def)
  then have upd: "AList.update i (w, d) ds = ds @ [(i, w, d)]" by (induction ds) auto
  obtain ds' where ds': "collect_ready n ready (ds @ [(i, w, d)]) = Some ds'"
    "\<And>i' d' w'. ReplayBatchReady i' d' w' \<in> set ready \<or> map_of (ds @ [(i, w, d)]) i' = Some (w', d') \<Longrightarrow> map_of ds' i' = Some (w', d')"
  proof -
    have "n = length (ds @ [(i, w, d)]) + length ready" using Cons.prems(1) by simp
    moreover have "distinct (keys (ds @ [(i, w, d)]) @ List.map (\<lambda>m. case m of ReplayBatchReady i d w \<Rightarrow> i) ready)"
      using Cons.prems(2) by (auto simp: m keys_def)
    ultimately show ?thesis using Cons.IH [of "ds @ [(i, w, d)]"] that by blast
  qed
  have "map_of ds i = None" using i by (simp add: map_of_eq_None_iff)
  then have "map_of ds' i' = Some (w', d')" if "ReplayBatchReady i' d' w' \<in> set (m # ready) \<or> map_of ds i' = Some (w', d')" for i' d' w'
    using that ds'(2) [of i' d' w'] by (auto simp: m map_add_def)
  moreover have "collect_ready n (m # ready) ds = collect_ready n ready (AList.update i (w, d) ds)"
    using Cons.prems(1) by (subst collect_ready.simps) (simp add: m del: collect_ready.simps)
  then have "collect_ready n (m # ready) ds = Some ds'" unfolding upd using ds'(1) by simp
  ultimately show ?case by blast
qed auto

lemma replay_loop_result:
  assumes "list_all2 (\<lambda>a d. map_of ds (ra_batch_index a) = Some (ra_worker_id a, d)) as dl"
    and "\<forall>a\<in>set as. worker com name (ra_worker_id a) = Inr (x (ra_worker_id a))" "n + length as < 2 ^ 64"
  shows "\<exists>out. replay_loop com name base ds elapsed as n = Some out \<and> length out = length as
    \<and> List.map snd out = List.map (\<lambda>i. (primary_to_worker (x (ra_worker_id (as ! i))), Execute (dl ! i) (ra_worker_id (as ! i)) (n + i)))
        [0..<length as]
    \<and> (\<forall>i<length as. base \<le> ra_timestamp_ms (as ! i) \<longrightarrow> ra_timestamp_ms (as ! i) - base \<le> elapsed (n + i) + fst (out ! i))"
  using assms
proof (induction arbitrary: n rule: list_all2_induct)
  case (Cons a as d dl)
  have n: "wadd 64 n 1 = Suc n" using Cons.prems by (simp add: wadd_exact)
  obtain out where out: "replay_loop com name base ds elapsed as (Suc n) = Some out" "length out = length as"
    "List.map snd out = List.map (\<lambda>i. (primary_to_worker (x (ra_worker_id (as ! i))), Execute (dl ! i) (ra_worker_id (as ! i)) (Suc n + i)))
        [0..<length as]"
    "\<forall>i<length as. base \<le> ra_timestamp_ms (as ! i) \<longrightarrow> ra_timestamp_ms (as ! i) - base \<le> elapsed (Suc n + i) + fst (out ! i)"
    using Cons.IH [of "Suc n"] Cons.prems by auto
  let ?out = "(wsub 64 (ra_timestamp_ms a) base - elapsed n, primary_to_worker (x (ra_worker_id a)), Execute d (ra_worker_id a) n) # out"
  have "replay_loop com name base ds elapsed (a # as) n = Some ?out"
    using Cons.hyps(1) Cons.prems(1) out(1) n by simp
  moreover have "List.map snd ?out = List.map (\<lambda>i. (primary_to_worker (x (ra_worker_id ((a # as) ! i))),
      Execute ((d # dl) ! i) (ra_worker_id ((a # as) ! i)) (n + i))) [0..<length (a # as)]"
    using out(3) by (simp add: map_upt_Suc del: upt_Suc)
  moreover have "base \<le> ra_timestamp_ms ((a # as) ! i) \<longrightarrow> ra_timestamp_ms ((a # as) ! i) - base \<le> elapsed (n + i) + fst (?out ! i)"
    if "i < length (a # as)" for i
  proof (cases i)
    case 0
    have "x - base \<le> e + (x - base - e)" for x e :: nat by arith
    then show ?thesis using 0 by (simp add: wsub_exact del: diff_diff_left)
  qed (use out(4) that in simp)
  ultimately show ?case using out(2) by (intro exI [of _ ?out]) simp
qed simp

text \<open>The batches of the recording, generated in its order.\<close>

definition replay_batches :: "'r rng \<Rightarrow> replay_params \<Rightarrow> replay_assignment list \<Rightarrow> bytes list list option" where
  "replay_batches R P as = those (List.map (generate_batch R P) as)"

lemma those_map_Some [simp]: "those (List.map Some xs) = Some xs"
  by (induction xs) simp_all

lemma commands_for_worker:
  assumes "\<And>i. i \<in> set is \<Longrightarrow> (addr (part i) = a) = (part i = w)"
  shows "router_commands (filter (\<lambda>m. fst m = a) (List.map (\<lambda>i. (addr (part i), Execute (dl ! i) (part i) i)) is))
    = filter (\<lambda>(d, n). part n = w) (List.map (\<lambda>i. (dl ! i, i)) is)"
  using assms by (induction "is") (simp_all add: router_commands_def map_filter_simps)

text \<open>What the sequencer sends when all digests have arrived, in any order.\<close>

lemma replay_sequencer_result:
  assumes "List.map ra_batch_index as = [0..<length as]" "as \<noteq> []" "length dl = length as" "length as < 2 ^ 64"
    and "mset ready = mset (map2 (\<lambda>a d. ReplayBatchReady (ra_batch_index a) d (ra_worker_id a)) as dl)"
    and "\<forall>a\<in>set as. worker com name (ra_worker_id a) = Inr (x (ra_worker_id a))"
  shows "\<exists>out. replay_sequencer com name as ready elapsed = Some out
    \<and> List.map snd out = List.map (\<lambda>i. (primary_to_worker (x (ra_worker_id (as ! i))), Execute (dl ! i) (ra_worker_id (as ! i)) i)) [0..<length as]
    \<and> (\<forall>i<length as. ra_timestamp_ms (hd as) \<le> ra_timestamp_ms (as ! i) \<longrightarrow>
        ra_timestamp_ms (as ! i) - ra_timestamp_ms (hd as) \<le> elapsed i + fst (out ! i))"
proof -
  let ?ready = "map2 (\<lambda>a d. ReplayBatchReady (ra_batch_index a) d (ra_worker_id a)) as dl"
  let ?idx = "\<lambda>m. case m of ReplayBatchReady i d w \<Rightarrow> i"
  have "List.map ?idx ?ready = List.map ra_batch_index (List.map fst (zip as dl))" by (simp add: split_def)
  then have "List.map ?idx ?ready = [0..<length as]" using assms(1,3) by simp
  moreover have "mset (List.map ?idx ready) = mset (List.map ?idx ?ready)" unfolding mset_map assms(5) by (rule refl)
  ultimately have eq: "mset (List.map ?idx ready) = mset [0..<length as]" by (simp only:)
  have "distinct (List.map ?idx ready)" using mset_eq_imp_distinct_iff [OF eq] by simp
  moreover have "length ready = length as" using mset_eq_length [OF assms(5)] assms(3) by simp
  ultimately obtain ds where ds: "collect_ready (length as) ready [] = Some ds"
    "\<And>i d w. ReplayBatchReady i d w \<in> set ready \<Longrightarrow> map_of ds i = Some (w, d)"
    using collect_ready_all [of "length as" "[]" ready] by (auto simp: keys_def)
  have "list_all2 (\<lambda>a d. map_of ds (ra_batch_index a) = Some (ra_worker_id a, d)) as dl"
  proof (rule list_all2_all_nthI)
    fix i assume i: "i < length as"
    then have "?ready ! i \<in> set ?ready" by (intro nth_mem) (simp add: assms(3))
    then have "ReplayBatchReady (ra_batch_index (as ! i)) (dl ! i) (ra_worker_id (as ! i)) \<in> set ready"
      using mset_eq_setD [OF assms(5)] i assms(3) by simp
    then show "map_of ds (ra_batch_index (as ! i)) = Some (ra_worker_id (as ! i), dl ! i)" by (rule ds(2))
  qed (simp add: assms(3))
  from replay_loop_result [OF this assms(6), of 0 "ra_timestamp_ms (hd as)" elapsed] assms(2,4)
  show ?thesis using ds(1) by (cases as) (auto simp: replay_sequencer_def)
qed

lemma assigned_round_robin:
  assumes "assign_batches_round_robin entries W tx_size = Some as" "entries \<noteq> []"
  shows "length as = length entries" "List.map ra_batch_index as = [0..<length as]"
    "\<And>i. i < length as \<Longrightarrow> ra_worker_id (as ! i) < W" "\<And>a. a \<in> set as \<Longrightarrow> ra_worker_id a < W \<and> 0 < ra_num_tx a"
  using assms by (auto simp: assign_batches_round_robin_def assign_batch_def comp_def split: if_splits)

text \<open>The generators of the workers, together.\<close>

abbreviation batch_of :: "'r rng \<Rightarrow> replay_params \<Rightarrow> replay_assignment \<Rightarrow> bytes list" where
  "batch_of R P a \<equiv> the (generate_batch R P a)"

lemma replay_generated:
  assumes "replay_batch_generator C K R P w as st = Some (st', ready)" "inj_on (sha C) (batch_bytes K ` batch_of R P ` set as)"
  shows "ready = List.map (\<lambda>a. ReplayBatchReady (ra_batch_index a) (sha C (batch_bytes K (batch_of R P a))) (ra_worker_id a))
      (filter (\<lambda>a. ra_worker_id a = w) as)"
    and "\<And>a. a \<in> set as \<Longrightarrow> ra_worker_id a = w \<Longrightarrow>
      map_of st' (bytes32 (sha C (batch_bytes K (batch_of R P a)))) = Some (batch_bytes K (batch_of R P a))"
proof -
  let ?as = "filter (\<lambda>a. ra_worker_id a = w) as"
  obtain bs where gen: "List.map (generate_batch R P) ?as = List.map Some bs"
    "ready = map2 (\<lambda>a txs. ReplayBatchReady (ra_batch_index a) (sha C (batch_bytes K txs)) w) ?as bs"
    "st' = fold (\<lambda>txs. AList.update (bytes32 (sha C (batch_bytes K txs))) (batch_bytes K txs)) bs st"
    using generate_batches_result [of C K R P w ?as st st' ready] assms(1) by (auto simp: replay_batch_generator_def split: if_splits)
  have bs: "bs = List.map (batch_of R P) ?as"
    using arg_cong [OF gen(1), of "List.map the"] by (simp add: comp_def)
  have "map2 (\<lambda>a txs. ReplayBatchReady (ra_batch_index a) (sha C (batch_bytes K txs)) w) xs (List.map (batch_of R P) xs)
      = List.map (\<lambda>a. ReplayBatchReady (ra_batch_index a) (sha C (batch_bytes K (batch_of R P a))) (ra_worker_id a)) xs"
    if "\<forall>a\<in>set xs. ra_worker_id a = w" for xs using that by (induction xs) simp_all
  then show "ready = List.map (\<lambda>a. ReplayBatchReady (ra_batch_index a) (sha C (batch_bytes K (batch_of R P a))) (ra_worker_id a)) ?as"
    using gen(2) bs by simp
  show "map_of st' (bytes32 (sha C (batch_bytes K (batch_of R P a)))) = Some (batch_bytes K (batch_of R P a))"
    if "a \<in> set as" "ra_worker_id a = w" for a
  proof -
    have "inj_on (sha C) (batch_bytes K ` set bs)" by (rule inj_on_subset [OF assms(2)]) (auto simp: bs)
    moreover have "batch_of R P a \<in> set bs" using that by (simp add: bs)
    ultimately show ?thesis using stored_batches gen(3) by blast
  qed
qed

lemma all_ready:
  assumes "\<And>w. w < W \<Longrightarrow> ready w = List.map f (filter (\<lambda>a. ra_worker_id a = w) as)" "\<And>a. a \<in> set as \<Longrightarrow> ra_worker_id a < W"
  shows "(\<Sum>w<W. mset (ready w)) = mset (List.map f as)"
proof -
  have "(\<Sum>w<W. mset (ready w)) = (\<Sum>w<W. image_mset f (filter_mset (\<lambda>a. ra_worker_id a = w) (mset as)))"
    using assms(1) by simp
  also have "\<dots> = image_mset f (\<Sum>w<W. filter_mset (\<lambda>a. ra_worker_id a = w) (mset as))" by (rule image_mset_sum_lessThan [symmetric])
  also have "\<dots> = image_mset f (mset as)" using assms(2) by (subst sum_filter_mset) auto
  finally show ?thesis by simp
qed

lemma generated_batches:
  assumes "replay_batches R P as = Some bs"
  shows "bs = List.map (batch_of R P) as" "\<And>a. a \<in> set as \<Longrightarrow> generate_batch R P a = Some (batch_of R P a)"
proof -
  have "bs = List.map the (List.map f as) \<and> (\<forall>a\<in>set as. f a \<noteq> None)" if "those (List.map f as) = Some bs" for f :: "replay_assignment \<Rightarrow> bytes list option"
    using that by (induction as arbitrary: bs) (auto split: option.splits)
  then show "bs = List.map (batch_of R P) as" "\<And>a. a \<in> set as \<Longrightarrow> generate_batch R P a = Some (batch_of R P a)"
    using assms by (fastforce simp: replay_batches_def)+
qed

text \<open>Routers and executors, when the stores have the batches and the sequencer numbered them.\<close>

lemma replay_routed:
  fixes W :: nat
  assumes "\<And>w. w < W \<Longrightarrow> router_run K addrs (\<lambda>d. Inr (map_of (st w) (bytes32 d)))
      (filter (\<lambda>(d, n). part n = w) (zip (List.map (\<lambda>txs. sha C (batch_bytes K txs)) bs) [0..<length bs])) = (left w, msgs w)"
    and "\<And>n. n < length bs \<Longrightarrow> part n < W
      \<and> map_of (st (part n)) (bytes32 (sha C (batch_bytes K (bs ! n)))) = Some (batch_bytes K (bs ! n))"
    and "inj_on (sha C) (batch_bytes K ` set bs)" "\<forall>txs\<in>set bs. txs \<noteq> [] \<and> de_message K (batch_bytes K txs) = Some (Batch txs)"
    and "length bs < 2 ^ 64" "(e, addr) \<in> set addrs" "distinct (List.map snd addrs)"
    and "mset delivered = (\<Sum>w<W. mset (List.map receive_router_message (messages_to addr (msgs w))))" "within_buffer delivered"
  shows "(\<forall>w<W. left w = []) \<and> executor_run cfg arr delivered (executor_init rng lo hi me p)
    = execute_in_order cfg arr (List.map (\<lambda>txs. (sha C (batch_bytes K txs), txs)) bs) (executor_init rng lo hi me p)"
proof -
  let ?id = "\<lambda>txs. sha C (batch_bytes K txs)"
  let ?dl = "List.map ?id bs"
  define content where "content = inv_into (set bs) ?id"
  have "inj_on (batch_bytes K) (set bs)"
  proof (rule inj_onI)
    fix x y assume xy: "x \<in> set bs" "y \<in> set bs" "batch_bytes K x = batch_bytes K y"
    then have "Some (Batch x) = Some (Batch y)" using assms(4) by metis
    then show "x = y" by simp
  qed
  from comp_inj_on [OF this assms(3)] have "inj_on ?id (set bs)" by (simp add: comp_def)
  have content: "content (?id txs) = txs" if "txs \<in> set bs" for txs using inv_into_f_f [OF \<open>inj_on ?id (set bs)\<close> that] by (simp add: content_def)
  have stored: "batches_stored K (\<lambda>d. Inr (map_of (st w) (bytes32 d))) content
      (List.map fst (filter (\<lambda>(d, n). part n = w) (zip ?dl [0..<length ?dl])))" for w
    using assms(2,4) content nth_mem by (fastforce simp: batches_stored_def in_set_zip)
  have cmds: "\<And>w. w < W \<Longrightarrow> router_run K addrs (\<lambda>d. Inr (map_of (st w) (bytes32 d)))
      (filter (\<lambda>(d, n). part n = w) (zip ?dl [0..<length ?dl])) = (left w, msgs w)"
    and part: "\<And>n. n < length ?dl \<Longrightarrow> part n < W" using assms(1,2) by simp_all
  note r = routed_by_workers [where part = part and ds = ?dl and W = W, OF cmds stored part assms(6,7)]
  have "executor_run cfg arr delivered (executor_init rng lo hi me p)
      = execute_in_order cfg arr (List.map (\<lambda>d. (d, content d)) ?dl) (executor_init rng lo hi me p)"
  proof (rule numbered_in_order [OF _ assms(9)])
    show "mset delivered = mset (List.map (\<lambda>i. (?dl ! i, i, content (?dl ! i))) [0..<length ?dl])"
      unfolding assms(8) by (rule r(2))
    show "\<forall>d\<in>set ?dl. content d \<noteq> []" using assms(4) content by simp
    show "length ?dl < 2 ^ 64" using assms(5) by simp
  qed (simp_all add: executor_init_def)
  moreover have "List.map (\<lambda>d. (d, content d)) ?dl = List.map (\<lambda>txs. (?id txs, txs)) bs" using content by simp
  ultimately show ?thesis using r(1) by (simp only:) simp
qed

text \<open>
  C27: A replay runs the recording, for any number of workers: when the workers' generators have stored their batches and reported them, in
  whatever order the reports arrive, the sequencer sends every batch once, to its worker, none before its recorded time; the
  workers' routers send all of them, and the executors, in whatever order the messages of the routers reach them as long as
  none is overtaken by one more than 5000 behind it, do what executing the generated batches one after the
  other in the recorded order does.
\<close>

theorem replay_executes_recording:
  assumes "assign_batches_round_robin entries W tx_size = Some as" "entries \<noteq> []" "length entries < 2 ^ 64"
    and "\<forall>w<W. replay_batch_generator C K R P w as (st w) = Some (st' w, ready w)" "mset ready' = (\<Sum>w<W. mset (ready w))"
    and "replay_batches R P as = Some bs" "inj_on (sha C) (batch_bytes K ` set bs)"
    and "\<forall>txs\<in>set bs. de_message K (batch_bytes K txs) = Some (Batch txs)"
    and "\<forall>w<W. worker com name w = Inr (x w)" "inj_on (\<lambda>w. primary_to_worker (x w)) {..<W}"
    and "(e, addr) \<in> set addrs" "distinct (List.map snd addrs)" "rng_ok R" "rp_num_accounts P < 2 ^ 64"
  shows "\<exists>out. replay_sequencer com name as ready' elapsed = Some out \<and> length out = length entries
    \<and> (\<forall>i<length as. ra_timestamp_ms (hd as) \<le> ra_timestamp_ms (as ! i) \<longrightarrow>
        ra_timestamp_ms (as ! i) - ra_timestamp_ms (hd as) \<le> elapsed i + fst (out ! i))
    \<and> (\<forall>left msgs delivered.
        (\<forall>w<W. router_run K addrs (\<lambda>d. Inr (map_of (st' w) (bytes32 d)))
            (router_commands (filter (\<lambda>m. fst m = primary_to_worker (x w)) (List.map snd out))) = (left w, msgs w))
        \<longrightarrow> mset delivered = (\<Sum>w<W. mset (List.map receive_router_message (messages_to addr (msgs w)))) \<longrightarrow> within_buffer delivered
        \<longrightarrow> (\<forall>w<W. left w = []) \<and> executor_run cfg arr delivered (executor_init rng lo hi me p)
          = execute_in_order cfg arr (List.map (\<lambda>txs. (sha C (batch_bytes K txs), txs)) bs) (executor_init rng lo hi me p))"
proof -
  let ?dl = "List.map (\<lambda>txs. sha C (batch_bytes K txs)) bs" and ?part = "\<lambda>i. ra_worker_id (as ! i)"
  note as = assigned_round_robin [OF assms(1,2)]
  note bs = generated_batches [OF assms(6)]
  have inj: "inj_on (sha C) (batch_bytes K ` batch_of R P ` set as)" using assms(7) by (simp add: bs(1))
  note gen = replay_generated [OF assms(4) [rule_format] inj]
  have len: "length ?dl = length as" "length bs = length as" by (simp_all add: bs(1))
  have "mset ready' = mset (List.map (\<lambda>a. ReplayBatchReady (ra_batch_index a) (sha C (batch_bytes K (batch_of R P a))) (ra_worker_id a)) as)"
    unfolding assms(5) using gen(1) as(4) by (intro all_ready) blast+
  also have "List.map (\<lambda>a. ReplayBatchReady (ra_batch_index a) (sha C (batch_bytes K (batch_of R P a))) (ra_worker_id a)) as
      = map2 (\<lambda>a d. ReplayBatchReady (ra_batch_index a) d (ra_worker_id a)) as ?dl"
    by (rule nth_equalityI) (simp_all add: bs(1))
  finally obtain out where out: "replay_sequencer com name as ready' elapsed = Some out"
    "List.map snd out = List.map (\<lambda>i. (primary_to_worker (x (?part i)), Execute (?dl ! i) (?part i) i)) [0..<length as]"
    "\<forall>i<length as. ra_timestamp_ms (hd as) \<le> ra_timestamp_ms (as ! i) \<longrightarrow>
        ra_timestamp_ms (as ! i) - ra_timestamp_ms (hd as) \<le> elapsed i + fst (out ! i)"
    using replay_sequencer_result [OF as(2) _ len(1), of ready' com name x elapsed] as(1,4) assms(2,3,9) by fastforce
  have zip: "List.map (\<lambda>i. (?dl ! i, i)) [0..<length as] = zip ?dl [0..<length bs]"
    using len by (intro nth_equalityI) simp_all
  have cmds: "router_commands (filter (\<lambda>m. fst m = primary_to_worker (x w)) (List.map snd out))
      = filter (\<lambda>(d, n). ?part n = w) (zip ?dl [0..<length bs])" if "w < W" for w
    unfolding out(2) zip [symmetric] using as(3) inj_onD [OF assms(10)] that
    by (intro commands_for_worker [where addr = "\<lambda>w. primary_to_worker (x w)"]) auto
  have stored: "?part n < W \<and> map_of (st' (?part n)) (bytes32 (sha C (batch_bytes K (bs ! n)))) = Some (batch_bytes K (bs ! n))"
    if "n < length bs" for n
    using as(3) gen(2) [of "?part n" "as ! n"] that by (simp add: bs(1))
  have "txs \<noteq> []" if mem: "txs \<in> set bs" for txs
  proof -
    obtain a where a: "a \<in> set as" "txs = batch_of R P a" using mem unfolding bs(1) set_map by blast
    then have "list_all2 (replay_tx_ok P) (tx_counters a) txs" using generate_batch_ok [OF _ assms(13,14)] bs(2) by simp
    then show ?thesis using as(4) [OF a(1)] by (auto simp: tx_counters_def)
  qed
  then have ok: "\<forall>txs\<in>set bs. txs \<noteq> [] \<and> de_message K (batch_bytes K txs) = Some (Batch txs)" using assms(8) by blast
  have few: "length bs < 2 ^ 64" using as(1) assms(3) len(2) by simp
  have routed: "(\<forall>w<W. left w = []) \<and> executor_run cfg arr delivered (executor_init rng lo hi me p)
      = execute_in_order cfg arr (List.map (\<lambda>txs. (sha C (batch_bytes K txs), txs)) bs) (executor_init rng lo hi me p)"
    if "\<forall>w<W. router_run K addrs (\<lambda>d. Inr (map_of (st' w) (bytes32 d)))
        (router_commands (filter (\<lambda>m. fst m = primary_to_worker (x w)) (List.map snd out))) = (left w, msgs w)"
      "mset delivered = (\<Sum>w<W. mset (List.map receive_router_message (messages_to addr (msgs w))))" "within_buffer delivered"
    for left msgs delivered
    by (rule replay_routed [where part = ?part, OF _ stored assms(7) ok few assms(11,12) that(2,3)]) (use that(1) cmds in simp)
  have "length out = length entries" using arg_cong [OF out(2), of length] as(1) by simp
  then show ?thesis using out(1,3) routed by (intro exI [of _ out] conjI allI impI) blast+
qed

subsection \<open>An example\<close>

text \<open>Three batches of one, two and one transactions over two accounts, on two workers.\<close>

definition rx_rng :: "nat rng" where
  "rx_rng = \<lparr>rng_seed = (\<lambda>n. n), rng_f64 = (\<lambda>r. (if even r then Fin 0 else Fin 1, Suc r)), rng_below = (\<lambda>n r. (r mod n, Suc r))\<rparr>"

definition rx_params :: replay_params where
  "rx_params = \<lparr>rp_tx_size = 35, rp_num_accounts = 2, rp_distributed_tx_rate = Fin (1 / 2), rp_skew_weights = []\<rparr>"

definition rx_recording :: string where
  "rx_recording = ''t,bytes'' @ [CHR 0x0A] @ ''10,35'' @ [CHR 0x0A] @ '' 15,70'' @ [CHR 0x0A] @ ''19,40,x'' @ [CHR 0x0A]"

definition rx_entries :: "replay_entry list" where
  "rx_entries = [\<lparr>re_timestamp_ms = 10, re_size_bytes = 35\<rparr>, \<lparr>re_timestamp_ms = 15, re_size_bytes = 70\<rparr>,
     \<lparr>re_timestamp_ms = 19, re_size_bytes = 40\<rparr>]"

definition rx_assignments :: "replay_assignment list" where
  "rx_assignments = [\<lparr>ra_batch_index = 0, ra_worker_id = 0, ra_num_tx = 1, ra_timestamp_ms = 10\<rparr>,
     \<lparr>ra_batch_index = 1, ra_worker_id = 1, ra_num_tx = 2, ra_timestamp_ms = 15\<rparr>,
     \<lparr>ra_batch_index = 2, ra_worker_id = 0, ra_num_tx = 1, ra_timestamp_ms = 19\<rparr>]"

definition rx_tx :: "nat \<Rightarrow> sb_tx_type \<Rightarrow> nat \<Rightarrow> nat \<Rightarrow> bytes" where
  "rx_tx c ty src dest = [1, 0] @ be_bytes 8 c @ sb_to_bytes \<lparr>sb_tx_type = ty, sb_account_id = src, sb_dest_account_id = dest,
     sb_amount_bits = replay_amount_bits ty\<rparr>"

lemma rx_parsed: "parse_replay_csv rx_recording = Some (Inr rx_entries)"
  by (simp add: parse_replay_csv_def rx_recording_def rx_entries_def parse_line_def parse_u64_def trim_def is_space_def Let_def)

lemma rx_assigned: "assign_batches_round_robin rx_entries 2 35 = Some rx_assignments"
  by (simp add: assign_batches_round_robin_def assign_batch_def rx_entries_def rx_assignments_def upt_rec)

lemma rx_rng_ok: "rng_ok rx_rng"
  by (simp add: rng_ok_def rx_rng_def)

lemma rx_generated:
  "List.map (generate_batch rx_rng rx_params) rx_assignments = List.map Some
    [[rx_tx 0 Balance 0 0], [rx_tx 2 SendPayment 1 0, rx_tx 3 SendPayment 1 0], [rx_tx 2 Balance 0 0]]"
  by (simp add: rx_assignments_def generate_batch_def tx_counters_def generate_tx_def select_account_def draw_weighted_def pick_dest.simps gen_range0_def
    rx_rng_def rx_params_def wadd_def wmul_def upt_rec f_lt_def cycle_type_def replay_tx_bytes_def rx_tx_def numeral_2_eq_2 [symmetric])

definition rx_batches :: "bytes list list" where
  "rx_batches = [[rx_tx 0 Balance 0 0], [rx_tx 2 SendPayment 1 0, rx_tx 3 SendPayment 1 0], [rx_tx 2 Balance 0 0]]"

theorem replay_transactions_valid_witness:
  "length (rx_batches ! 1) = 2 \<and> (\<forall>tx\<in>set (rx_batches ! 1). \<exists>t. parse_smallbank_payload tx = Some t
    \<and> sb_account_id t < 2 \<and> sb_dest_account_id t < 2)"
proof -
  have "generate_batch rx_rng rx_params (rx_assignments ! 1) = Some (rx_batches ! 1)"
    using arg_cong [OF rx_generated, of "\<lambda>xs. xs ! 1"] by (simp add: rx_assignments_def rx_batches_def)
  from replay_transactions_valid [OF this rx_rng_ok] show ?thesis
    by (fastforce simp: rx_params_def rx_assignments_def)
qed

theorem replay_ids_collide_witness:
  "tx_header_parse (rx_batches ! 1 ! 0) \<noteq> None \<and> tx_header_parse (rx_batches ! 1 ! 0) = tx_header_parse (rx_batches ! 2 ! 0)"
proof -
  have "generate_batch rx_rng rx_params (rx_assignments ! 1) = Some (rx_batches ! 1)"
    "generate_batch rx_rng rx_params (rx_assignments ! 2) = Some (rx_batches ! 2)"
    using arg_cong [OF rx_generated, of "\<lambda>xs. xs ! 1"] arg_cong [OF rx_generated, of "\<lambda>xs. xs ! 2"]
    by (simp_all add: rx_assignments_def rx_batches_def)
  from replay_ids_collide [OF this rx_rng_ok, of 0 0] show ?thesis
    by (simp add: rx_params_def rx_assignments_def wmul_def) metis
qed

text \<open>A codec and a hash for the example.\<close>

definition rx_codec :: worker_codec where
  "rx_codec = \<lparr>ser_message = (\<lambda>m. case m of Batch txs \<Rightarrow> concat txs | _ \<Rightarrow> []),
     de_message = (\<lambda>b. map_option Batch (find (\<lambda>txs. concat txs = b) rx_batches))\<rparr>"

definition rx_crypto :: crypto where
  "rx_crypto = \<lparr>sha = (\<lambda>b. case find (\<lambda>(i, txs). concat txs = b) (zip [0, 1, 2] rx_batches) of None \<Rightarrow> 9 | Some (i, _) \<Rightarrow> i),
     verify_strict = (\<lambda>_ _ _. True), dalek_verify_batch = (\<lambda>_ _. True), sign = (\<lambda>_. (0, 0))\<rparr>"

lemma length_rx_tx [simp]: "length (rx_tx c ty src dest) = 35"
  by (simp add: rx_tx_def)

lemma rx_different: "concat (rx_batches ! 0) \<noteq> concat (rx_batches ! 1)" "concat (rx_batches ! 0) \<noteq> concat (rx_batches ! 2)"
  "concat (rx_batches ! 1) \<noteq> concat (rx_batches ! 2)"
proof -
  have "length (concat (rx_batches ! 0)) = 35" "length (concat (rx_batches ! 1)) = 70" "length (concat (rx_batches ! 2)) = 35"
    by (simp_all add: rx_batches_def)
  then show "concat (rx_batches ! 0) \<noteq> concat (rx_batches ! 1)" "concat (rx_batches ! 1) \<noteq> concat (rx_batches ! 2)" by force+
  show "concat (rx_batches ! 0) \<noteq> concat (rx_batches ! 2)" by (simp add: rx_batches_def rx_tx_def be_bytes_def le_bytes_numeral)
qed

lemma rx_batches_nth: "rx_batches = [rx_batches ! 0, rx_batches ! 1, rx_batches ! 2]"
  by (simp add: rx_batches_def)

lemma rx_coded: "\<forall>txs\<in>set rx_batches. de_message rx_codec (batch_bytes rx_codec txs) = Some (Batch txs)"
  unfolding rx_codec_def using rx_different by (subst (1 2) rx_batches_nth) auto

lemma rx_hashed: "inj_on (sha rx_crypto) (batch_bytes rx_codec ` set rx_batches)"
proof -
  have "sha rx_crypto (concat (rx_batches ! 0)) = 0" "sha rx_crypto (concat (rx_batches ! 1)) = 1" "sha rx_crypto (concat (rx_batches ! 2)) = 2"
    unfolding rx_crypto_def by (subst rx_batches_nth; use rx_different in simp)+
  moreover have "batch_bytes rx_codec ` set rx_batches = {concat (rx_batches ! 0), concat (rx_batches ! 1), concat (rx_batches ! 2)}"
    by (subst rx_batches_nth) (simp add: rx_codec_def)
  ultimately show ?thesis by (auto simp: inj_on_def)
qed

lemma generate_batches_total:
  "(\<And>a. a \<in> set as \<Longrightarrow> generate_batch R P a \<noteq> None) \<Longrightarrow> \<exists>st' ready. generate_batches C K R P w as st = Some (st', ready)"
proof (induction as arbitrary: st)
  case (Cons a as)
  then obtain b where b: "generate_batch R P a = Some b" by fastforce
  then show ?case
    using Cons.IH [of "AList.update (bytes32 (sha C (batch_bytes K b))) (batch_bytes K b) st"] Cons.prems by auto
qed simp

definition rx_worker :: "worker_id \<Rightarrow> worker_addresses" where
  "rx_worker w = \<lparr>transactions = ''t'', worker_to_worker = ''u'', primary_to_worker = (if w = 0 then ''v'' else ''w'')\<rparr>"

definition rx_committee :: committee where
  "rx_committee = committee4\<lparr>authorities := [(1, (example_authority 1)\<lparr>a_workers := [(0, rx_worker 0), (1, rx_worker 1)]\<rparr>)]\<rparr>"

theorem replay_executes_recording_witness:
  "\<exists>st ready out. (\<forall>w<2. replay_batch_generator rx_crypto rx_codec rx_rng rx_params w rx_assignments [] = Some (st w, ready w))
     \<and> replay_sequencer rx_committee 1 rx_assignments (ready 1 @ ready 0) (\<lambda>i. 3) = Some out \<and> length out = 3
     \<and> (\<forall>i<3. ra_timestamp_ms (rx_assignments ! i) - 10 \<le> 3 + fst (out ! i))"
proof -
  let ?gen = "\<lambda>w. replay_batch_generator rx_crypto rx_codec rx_rng rx_params w rx_assignments []"
  have bs: "replay_batches rx_rng rx_params rx_assignments = Some rx_batches"
    unfolding replay_batches_def rx_generated rx_batches_def by (rule those_map_Some)
  have "params_ok rx_params" by (simp add: params_ok_def rx_params_def)
  then have "\<exists>p. ?gen w = Some p" for w
    using generate_batches_total [of "filter (\<lambda>a. ra_worker_id a = w) rx_assignments" rx_rng rx_params rx_crypto rx_codec w "[]"]
      generated_batches(2) [OF bs] by (auto simp: replay_batch_generator_def)
  then have "?gen w = Some (fst (the (?gen w)), snd (the (?gen w)))" for w by (metis option.sel prod.collapse)
  then obtain st ready where gen: "\<forall>w<2. ?gen w = Some (st w, ready w)"
    using that [of "\<lambda>w. fst (the (?gen w))" "\<lambda>w. snd (the (?gen w))"] by blast
  have ready: "mset (ready 1 @ ready 0) = (\<Sum>w<2. mset (ready w))" by (simp add: numeral_2_eq_2)
  have few: "rx_entries \<noteq> []" "length rx_entries < 2 ^ 64" "rp_num_accounts rx_params < 2 ^ 64" by (simp_all add: rx_entries_def rx_params_def)
  have addrs: "(0, ''e'') \<in> set [(0, ''e'')]" "distinct (List.map snd [(0, ''e'')])" by simp_all
  have workers: "\<forall>w<2. worker rx_committee 1 w = Inr (rx_worker w)" "inj_on (\<lambda>w. primary_to_worker (rx_worker w)) {..<2}"
    by (auto simp: worker_def rx_committee_def committee4_def example_authority_def rx_worker_def less_2_cases_iff inj_on_def)
  obtain out where "replay_sequencer rx_committee 1 rx_assignments (ready 1 @ ready 0) (\<lambda>i. 3) = Some out" "length out = length rx_entries"
    "\<forall>i<length rx_assignments. ra_timestamp_ms (hd rx_assignments) \<le> ra_timestamp_ms (rx_assignments ! i) \<longrightarrow>
      ra_timestamp_ms (rx_assignments ! i) - ra_timestamp_ms (hd rx_assignments) \<le> 3 + fst (out ! i)"
    using replay_executes_recording [OF rx_assigned few(1,2) gen ready bs rx_hashed rx_coded workers addrs rx_rng_ok few(3), of "\<lambda>i. 3"]
    by blast
  then show ?thesis using gen
    by (intro exI [of _ st] exI [of _ ready] exI [of _ out]) (auto simp: rx_entries_def rx_assignments_def nth_Cons' split: if_splits)
qed

end
