(* ===== verification/Client.thy ===== *)
theory Client
  imports Draws Executor_Tasks
begin

text \<open>
  The client (\<^verbatim>\<open>node/src/benchmark_client.rs\<close>): it sends the transactions of the accounts of its region, each to
  the validator that its routing table gives for the account, and changes the table when enough validators have sent it
  the same migration notice; it counts the executors' replies. Connections, the parsing of the command line, the end of the client when a connection breaks, and
  log lines are left out.
\<close>

subsection \<open>The configuration\<close>

text \<open>\<open>f_plus_one\<close>, and the regions: the validators by the start of their account ranges.\<close>

definition client_f_plus_one :: "nat \<Rightarrow> nat" where
  "client_f_plus_one num_validators = (num_validators - 1) div 3 + 1"

definition region_ids :: "(public_key, nat \<times> nat) hmap \<Rightarrow> (public_key, nat) hmap" where
  "region_ids ranges =
    (let entries = sort_key fst (List.map (\<lambda>(pk, (start, n)). (start, pk)) ranges)
     in List.map (\<lambda>i. (snd (entries ! i), i mod 256)) [0..<length entries])"

subsection \<open>The migration listener\<close>

record client_routing =
  cl_votes :: "(nat \<times> public_key, public_key list) hmap"
  cl_tables :: "(public_key, (nat, public_key) hmap) hmap"

definition find_region_for_account :: "nat \<Rightarrow> (nat \<times> nat \<times> public_key) list \<Rightarrow> public_key option" where
  "find_region_for_account a ranges =
    map_option (\<lambda>(start, n, pk). pk) (find (\<lambda>(start, n, pk). start \<le> a \<and> a < min (start + n) (2 ^ 64 - 1)) ranges)"

text \<open>A vote; a key that has enough of them is confirmed.\<close>

definition vote_notice :: "nat \<Rightarrow> public_key \<Rightarrow> migration_notice
    \<Rightarrow> (nat \<times> public_key, public_key list) hmap \<times> (nat \<times> public_key) list
    \<Rightarrow> (nat \<times> public_key, public_key list) hmap \<times> (nat \<times> public_key) list" where
  "vote_notice f1 sender n = (\<lambda>(votes, confirmed).
    (let key = (account_id n, new_target n); entry = set_insert sender (get_or [] votes key)
     in (AList.update key entry votes, if f1 \<le> length entry then confirmed @ [key] else confirmed)))"

text \<open>The updates of the tables, region by region; updates of one region keep their order, those of different regions
  are to different tables.\<close>

definition update_route :: "(nat \<times> nat \<times> public_key) list \<Rightarrow> nat \<times> public_key
    \<Rightarrow> (public_key, (nat, public_key) hmap) hmap \<Rightarrow> (public_key, (nat, public_key) hmap) hmap" where
  "update_route ranges = (\<lambda>(a, target) tables.
    (case find_region_for_account a ranges of
       None \<Rightarrow> tables
     | Some region \<Rightarrow> (case map_of tables region of
          None \<Rightarrow> tables
        | Some table \<Rightarrow> AList.update region (AList.update a target table) tables)))"

text \<open>The listener counts the votes of a message under one lock and then, for the keys that are confirmed, changes the tables under
  theirs.\<close>

definition tally_message :: "nat \<Rightarrow> migration_message \<Rightarrow> (nat \<times> public_key, public_key list) hmap
    \<Rightarrow> (nat \<times> public_key, public_key list) hmap \<times> (nat \<times> public_key) list" where
  "tally_message f1 msg votes =
    (let (votes', confirmed) = fold (vote_notice f1 (mm_sender msg)) (mm_notices msg) (votes, [])
     in (fold AList.delete confirmed votes', confirmed))"

definition apply_confirmed :: "(nat \<times> nat \<times> public_key) list \<Rightarrow> (nat \<times> public_key) list
    \<Rightarrow> (public_key, (nat, public_key) hmap) hmap \<Rightarrow> (public_key, (nat, public_key) hmap) hmap" where
  "apply_confirmed ranges confirmed tables = fold (update_route ranges) confirmed tables"

definition handle_migration_message :: "nat \<Rightarrow> (nat \<times> nat \<times> public_key) list \<Rightarrow> migration_message \<Rightarrow> client_routing \<Rightarrow> client_routing" where
  "handle_migration_message f1 ranges msg s =
    (let (votes, confirmed) = tally_message f1 msg (cl_votes s)
     in s\<lparr>cl_votes := votes, cl_tables := apply_confirmed ranges confirmed (cl_tables s)\<rparr>)"

text \<open>The tables of different regions have locks of their own; an account is in the table of one region only, so a step
  that changes all of them stands for the changes in any order.

  Every connection has a task of its own: between the two parts of one task the others go on. A task handles one message
  at a time; \<open>ls_pending\<close> has the confirmed keys of the tasks that are between the two parts.\<close>

record listener =
  ls_routing :: client_routing
  ls_pending :: "(nat, (nat \<times> public_key) list) hmap"

datatype listener_event = Tally nat migration_message | Apply nat

fun listener_step :: "nat \<Rightarrow> (nat \<times> nat \<times> public_key) list \<Rightarrow> listener_event \<Rightarrow> listener \<Rightarrow> listener option" where
  "listener_step f1 ranges (Tally c msg) l =
    (case map_of (ls_pending l) c of
       Some confirmed \<Rightarrow> None
     | None \<Rightarrow> (let (votes, confirmed) = tally_message f1 msg (cl_votes (ls_routing l))
         in Some (l\<lparr>ls_routing := (ls_routing l)\<lparr>cl_votes := votes\<rparr>, ls_pending := AList.update c confirmed (ls_pending l)\<rparr>)))"
| "listener_step f1 ranges (Apply c) l =
    (case map_of (ls_pending l) c of
       None \<Rightarrow> None
     | Some confirmed \<Rightarrow> Some (l\<lparr>ls_routing := (ls_routing l)\<lparr>cl_tables := apply_confirmed ranges confirmed (cl_tables (ls_routing l))\<rparr>,
         ls_pending := AList.delete c (ls_pending l)\<rparr>))"

fun listener_run :: "nat \<Rightarrow> (nat \<times> nat \<times> public_key) list \<Rightarrow> listener_event list \<Rightarrow> listener \<Rightarrow> listener option" where
  "listener_run f1 ranges [] l = Some l"
| "listener_run f1 ranges (e # es) l = do { l1 \<leftarrow> listener_step f1 ranges e l; listener_run f1 ranges es l1 }"

definition client_routing_init :: "public_key list \<Rightarrow> client_routing" where
  "client_routing_init validators = \<lparr>cl_votes = [], cl_tables = List.map (\<lambda>pk. (pk, [])) validators\<rparr>"

text \<open>What \<open>send_shard\<close> reads; the table is that of the account's region.\<close>

definition route_in :: "(nat \<times> nat \<times> public_key) list \<Rightarrow> (public_key, (nat, public_key) hmap) hmap \<Rightarrow> nat \<Rightarrow> public_key option" where
  "route_in ranges tables a =
    (case find_region_for_account a ranges of
       None \<Rightarrow> None
     | Some region \<Rightarrow> (case map_of tables region of None \<Rightarrow> None | Some table \<Rightarrow> map_of table a))"

definition client_route :: "(nat \<times> nat \<times> public_key) list \<Rightarrow> client_routing \<Rightarrow> nat \<Rightarrow> public_key option" where
  "client_route ranges s = route_in ranges (cl_tables s)"

subsection \<open>The listener for execution replies\<close>

text \<open>A reply to a sample transaction; the flag tells that the transaction is reported as completed.\<close>

definition handle_client_reply :: "nat \<Rightarrow> client_reply_message \<Rightarrow> (tx_id, public_key list) hmap \<Rightarrow> (tx_id, public_key list) hmap \<times> bool" where
  "handle_client_reply f1 reply counts =
    (if cr_tx_type reply \<noteq> 0 then (counts, False)
     else let key = (cr_region_id reply, cr_tx_counter reply); entry = set_insert (cr_primary_name reply) (get_or [] counts key)
       in (AList.update key entry counts, length entry = f1))"

subsection \<open>Sending\<close>

record client_config =
  cc_own_validator :: public_key
  cc_validators :: "public_key list"
  cc_num_workers :: nat
  cc_round_robin :: bool
  cc_account_start :: nat
  cc_num_accounts :: nat
  cc_total_accounts :: nat
  cc_rate :: nat
  cc_balanced_rate :: nat
  cc_size :: nat
  cc_region_id :: nat
  cc_num_tx_types :: nat
  cc_skew_weights :: "f64 list"
  cc_rampup_secs :: nat

definition PRECISION :: nat where
  "PRECISION = 20"

text \<open>The number of transactions to have been sent after the tick \<open>c\<close>, in the arithmetic of \<open>u64\<close>.\<close>

definition next_total :: "nat \<Rightarrow> nat \<Rightarrow> nat \<Rightarrow> nat \<Rightarrow> nat" where
  "next_total balanced_rate rate rampup_secs c =
    (let rampup_ticks = wmul 64 rampup_secs PRECISION; ramp1_ticks = rampup_ticks div 10 in
     if 0 < rampup_ticks \<and> c < ramp1_ticks then
       wmul 64 (wmul 64 balanced_rate (wadd 64 c 1)) (wadd 64 c 1) div wmul 64 (wmul 64 2 ramp1_ticks) PRECISION
     else if 0 < rampup_ticks \<and> c < rampup_ticks then
       wadd 64 (wmul 64 balanced_rate ramp1_ticks div (2 * PRECISION))
         (wmul 64 balanced_rate (wsub 64 (wadd 64 c 1) ramp1_ticks) div PRECISION)
     else
       wadd 64 (wmul 64 balanced_rate (wsub 64 rampup_ticks (ramp1_ticks div 2)) div PRECISION)
         (wmul 64 rate (wsub 64 (wadd 64 c 1) rampup_ticks) div PRECISION))"

record 'r shard =
  sh_counter :: nat
  sh_r :: nat
  sh_worker_rr :: "(nat, nat) hmap"
  sh_validator_rr :: "(nat, nat) hmap"
  sh_total_sent :: nat
  sh_burst_count :: nat
  sh_rng :: 'r

record client_tx =
  ct_validator :: public_key
  ct_worker :: nat
  ct_bytes :: bytes

text \<open>The bits of the amounts, and the type of the next transaction.\<close>

definition client_amount_bits :: "sb_tx_type \<Rightarrow> nat" where
  "client_amount_bits t =
    (case t of Balance \<Rightarrow> 0 | DepositChecking \<Rightarrow> 4608533498688228557 | TransactSavings \<Rightarrow> 4626379012211684147
     | WriteCheck \<Rightarrow> 4617315517961601024 | SendPayment \<Rightarrow> 4617315517961601024)"

definition client_tx_type :: "nat \<Rightarrow> nat \<Rightarrow> sb_tx_type" where
  "client_tx_type num_tx_types burst_count =
    [Balance, DepositChecking, TransactSavings, WriteCheck, SendPayment] ! (burst_count mod num_tx_types)"

partial_function (option) client_dest :: "'r rng \<Rightarrow> nat \<Rightarrow> nat \<Rightarrow> 'r \<Rightarrow> (nat \<times> 'r) option" where
  "client_dest R n src r =
    (case gen_range0 R n r of
       None \<Rightarrow> None
     | Some (d, r') \<Rightarrow> if d \<noteq> src then Some (d, r') else client_dest R n src r')"

text \<open>The validator that gets the transaction: round robin, or the one of the routing table. The entry of the round
  robin is advanced.\<close>

definition client_target :: "client_config \<Rightarrow> (nat \<Rightarrow> public_key option) \<Rightarrow> nat \<Rightarrow> (nat, nat) hmap \<Rightarrow> public_key \<times> (nat, nat) hmap" where
  "client_target cfg route src rr =
    (if cc_round_robin cfg then
       (let n = length (cc_validators cfg); idx = get_or (src mod n) rr src
        in (cc_validators cfg ! idx, AList.update src ((idx + 1) mod n) rr))
     else (case route src of
         None \<Rightarrow> cc_own_validator cfg
       | Some pk \<Rightarrow> if pk \<in> set (cc_validators cfg) then pk else cc_own_validator cfg, rr))"

definition client_worker :: "client_config \<Rightarrow> nat \<Rightarrow> (nat, nat) hmap \<Rightarrow> nat \<times> (nat, nat) hmap" where
  "client_worker cfg src rr =
    (let w = get_or (src mod cc_num_workers cfg) rr src
     in (w, AList.update src ((w + 1) mod cc_num_workers cfg) rr))"

definition client_tx_bytes :: "client_config \<Rightarrow> bool \<Rightarrow> nat \<Rightarrow> sb_transaction \<Rightarrow> bytes" where
  "client_tx_bytes cfg sample tx_counter t =
    (let tx = [if sample then 0 else 1, word_of_nat (cc_region_id cfg)] @ be_bytes 8 tx_counter @ sb_to_bytes t
     in take (cc_size cfg) (tx @ replicate (cc_size cfg) 0))"

text \<open>The transaction \<open>x\<close> of a burst.\<close>

definition send_one :: "client_config \<Rightarrow> 'r rng \<Rightarrow> (nat \<Rightarrow> public_key option) \<Rightarrow> nat \<Rightarrow> nat \<Rightarrow> 'r shard \<Rightarrow> (client_tx \<times> 'r shard) option" where
  "send_one cfg R route burst x s =
     do {
       (k, r1) \<leftarrow> draw_weighted R (cc_skew_weights cfg) (cc_num_accounts cfg) (sh_rng s);
       src \<leftarrow> Some (cc_account_start cfg + k);
       ty \<leftarrow> Some (client_tx_type (cc_num_tx_types cfg) (sh_burst_count s));
       (dest, r2) \<leftarrow> (if ty = SendPayment then client_dest R (cc_total_accounts cfg) src r1 else Some (src, r1));
       (target, vrr) \<leftarrow> Some (client_target cfg route src (sh_validator_rr s));
       (w, wrr) \<leftarrow> Some (client_worker cfg src (sh_worker_rr s));
       sample \<leftarrow> Some (0 < burst \<and> x = sh_counter s mod burst);
       r \<leftarrow> Some (if sample then sh_r s else wadd 64 (sh_r s) 1);
       Some (\<lparr>ct_validator = target, ct_worker = w, ct_bytes = client_tx_bytes cfg sample (if sample then sh_counter s else r)
           \<lparr>sb_tx_type = ty, sb_account_id = src, sb_dest_account_id = dest, sb_amount_bits = client_amount_bits ty\<rparr>\<rparr>,
         s\<lparr>sh_r := r, sh_worker_rr := wrr, sh_validator_rr := vrr, sh_burst_count := wadd 64 (sh_burst_count s) 1, sh_rng := r2\<rparr>)
     }"

text \<open>The routing table may change between two transactions of a burst: \<open>route x\<close> is what is read for the transaction \<open>x\<close>.\<close>

fun send_burst :: "client_config \<Rightarrow> 'r rng \<Rightarrow> (nat \<Rightarrow> nat \<Rightarrow> public_key option) \<Rightarrow> nat \<Rightarrow> nat list \<Rightarrow> 'r shard \<Rightarrow> (client_tx list \<times> 'r shard) option" where
  "send_burst cfg R route burst [] s = Some ([], s)"
| "send_burst cfg R route burst (x # xs) s =
    do { (t, s1) \<leftarrow> send_one cfg R (route x) burst x s; (ts, s2) \<leftarrow> send_burst cfg R route burst xs s1; Some (t # ts, s2) }"

definition send_tick :: "client_config \<Rightarrow> 'r rng \<Rightarrow> (nat \<Rightarrow> nat \<Rightarrow> public_key option) \<Rightarrow> 'r shard \<Rightarrow> (client_tx list \<times> 'r shard) option" where
  "send_tick cfg R route s =
    (let n = next_total (cc_balanced_rate cfg) (cc_rate cfg) (cc_rampup_secs cfg) (sh_counter s);
         burst = wsub 64 n (sh_total_sent s)
     in map_option (\<lambda>(ts, s'). (ts, s'\<lparr>sh_total_sent := n, sh_counter := wadd 64 (sh_counter s) 1\<rparr>))
          (send_burst cfg R route burst [0..<burst] s))"

fun send_ticks :: "client_config \<Rightarrow> 'r rng \<Rightarrow> (nat \<Rightarrow> nat \<Rightarrow> public_key option) list \<Rightarrow> 'r shard \<Rightarrow> (client_tx list list \<times> 'r shard) option" where
  "send_ticks cfg R [] s = Some ([], s)"
| "send_ticks cfg R (route # routes) s =
    do { (ts, s1) \<leftarrow> send_tick cfg R route s; (rest, s2) \<leftarrow> send_ticks cfg R routes s1; Some (ts # rest, s2) }"

definition shard_start_state :: "'r \<Rightarrow> nat \<Rightarrow> 'r shard" where
  "shard_start_state rng r = \<lparr>sh_counter = 0, sh_r = r, sh_worker_rr = [], sh_validator_rr = [], sh_total_sent = 0,
     sh_burst_count = 0, sh_rng = rng\<rparr>"

end
