(* ===== verification/Client_Routing.thy ===== *)
theory Client_Routing
  imports Client
begin

text \<open>
  The routing table of the client: who must agree for a route to change, and that the client follows the notices
  when all validators send the same ones.
\<close>

subsection \<open>One account\<close>

text \<open>The listener as one account sees it: an event is a sender with the target of its notice; the state is the votes of each
  target and the route.\<close>

type_synonym account_votes = "(public_key \<Rightarrow> public_key set) \<times> public_key option"

definition account_vote :: "nat \<Rightarrow> public_key \<times> public_key \<Rightarrow> account_votes \<Rightarrow> account_votes" where
  "account_vote f1 = (\<lambda>(v, t) (V, route).
    (let V' = insert v (V t) in if f1 \<le> card V' then (V(t := {}), Some t) else (V(t := V'), route)))"

text \<open>How often a target was confirmed, when each sender votes for it once.\<close>

definition voters :: "(public_key \<times> public_key) list \<Rightarrow> public_key \<Rightarrow> public_key set" where
  "voters es t = {v. (v, t) \<in> set es}"

lemma finite_voters [simp]: "finite (voters es t)"
  by (rule finite_subset [of _ "fst ` set es"]) (force simp: voters_def)+

lemma voters_snoc: "voters (es @ [(v, t)]) t' = (if t' = t then insert v (voters es t) else voters es t')"
  by (auto simp: voters_def)

definition account_votes_inv :: "nat \<Rightarrow> public_key list \<Rightarrow> (public_key \<times> public_key) list \<Rightarrow> account_votes \<Rightarrow> bool" where
  "account_votes_inv f1 ts es = (\<lambda>(V, route).
    (\<forall>t. V t \<subseteq> voters es t \<and> card (V t) = card (voters es t) mod f1)
    \<and> (case route of None \<Rightarrow> \<forall>t. card (voters es t) div f1 = 0
       | Some t \<Rightarrow> t \<in> set ts \<and> 0 < card (voters es t) div f1
           \<and> (\<forall>xs ys. ts = xs @ t # ys \<longrightarrow> (\<forall>t'\<in>set ys. card (voters es t') div f1 < card (voters es t) div f1))))"

text \<open>Each sender's targets, so far, are the first of \<open>ts\<close>.\<close>

definition in_sequence :: "public_key list \<Rightarrow> (public_key \<times> public_key) list \<Rightarrow> bool" where
  "in_sequence ts es \<longleftrightarrow> (\<forall>v. \<exists>rest. List.map snd (filter (\<lambda>e. fst e = v) es) @ rest = ts)"

lemma in_sequence_prefix: "in_sequence ts (es @ fs) \<Longrightarrow> in_sequence ts es"
  by (fastforce simp: in_sequence_def)

lemma voters_filter: "v \<in> voters es t \<longleftrightarrow> t \<in> set (List.map snd (filter (\<lambda>e. fst e = v) es))"
  by (force simp: voters_def)

lemma split_before:
  assumes "distinct (xs @ t # ys)" "p @ rest = xs @ t # ys" "t' \<in> set p" "t' \<in> set ys"
  shows "t \<in> set p"
proof (rule ccontr)
  assume "t \<notin> set p"
  from assms(2) consider us where "p = xs @ us" "us @ rest = t # ys" | us where "p @ us = xs" "rest = us @ t # ys"
    by (auto simp: append_eq_append_conv2)
  then show False
  proof cases
    case 1
    then show ?thesis using \<open>t \<notin> set p\<close> assms by (cases us) auto
  next
    case 2
    then show ?thesis using assms by auto
  qed
qed

lemma voters_earlier:
  assumes "in_sequence ts es" "distinct ts" "ts = xs @ t # ys" "t' \<in> set ys"
  shows "voters es t' \<subseteq> voters es t"
proof
  fix v assume v: "v \<in> voters es t'"
  obtain rest where "List.map snd (filter (\<lambda>e. fst e = v) es) @ rest = ts" using assms(1) by (auto simp: in_sequence_def)
  then show "v \<in> voters es t" using split_before [of xs t ys _ rest t'] assms(2-4) v by (auto simp only: voters_filter)
qed

lemma voters_next:
  assumes "in_sequence ts (es @ [(v, t)])" "distinct ts"
  shows "v \<notin> voters es t" "t \<in> set ts"
proof -
  obtain rest where r: "List.map snd (filter (\<lambda>e. fst e = v) es) @ t # rest = ts"
    using assms(1) by (auto simp: in_sequence_def dest: spec [of _ v])
  then have "distinct (List.map snd (filter (\<lambda>e. fst e = v) es) @ t # rest)" using assms(2) by simp
  then have "set (List.map snd (filter (\<lambda>e. fst e = v) es)) \<inter> set (t # rest) = {}" by (simp only: distinct_append)
  then have "t \<notin> set (List.map snd (filter (\<lambda>e. fst e = v) es))" by (meson disjoint_iff list.set_intros(1))
  then show "v \<notin> voters es t" by (simp only: voters_filter not_False_eq_True)
  show "t \<in> set ts" using r by auto
qed

lemma account_vote_inv:
  assumes "account_votes_inv f1 ts es s" "in_sequence ts (es @ [(v, t)])" "distinct ts" "0 < f1"
  shows "account_votes_inv f1 ts (es @ [(v, t)]) (account_vote f1 (v, t) s)"
proof -
  obtain V route where s: "s = (V, route)" by (cases s)
  note inv = assms(1) [unfolded s account_votes_inv_def, simplified]
  let ?n = "\<lambda>t. card (voters es t)"
  have new: "v \<notin> voters es t" "t \<in> set ts" using voters_next [OF assms(2,3)] .
  have sub: "V t \<subseteq> voters es t" and fin: "finite (V t)" using inv finite_subset [OF _ finite_voters] by blast+
  then have V: "card (insert v (V t)) = Suc (?n t mod f1)" using new(1) inv by (simp add: subset_eq card_insert_if) blast
  have n: "card (voters (es @ [(v, t)]) t') = (if t' = t then Suc (?n t) else ?n t')" for t'
    using new(1) by (simp add: voters_snoc)
  show ?thesis
  proof (cases "f1 \<le> Suc (?n t mod f1)")
    case True
    then have f1: "Suc (?n t mod f1) = f1" using assms(4) mod_less_divisor [of f1 "?n t"] by linarith
    have "?n t' div f1 < Suc (?n t) div f1" if "ts = xs @ t # ys" "t' \<in> set ys" for xs ys t'
    proof -
      have "?n t' \<le> ?n t" using voters_earlier [OF in_sequence_prefix [OF assms(2)] assms(3) that] by (simp add: card_mono)
      then have "?n t' div f1 \<le> ?n t div f1" by (rule div_le_mono)
      then show ?thesis using f1 by (simp add: div_Suc mod_Suc)
    qed
    moreover have "t' \<noteq> t" if "ts = xs @ t # ys" "t' \<in> set ys" for xs ys t' using that assms(3) by auto
    moreover have "0 < Suc (?n t) div f1" using f1 by (simp add: div_Suc mod_Suc)
    moreover have "(V(t := {})) t' \<subseteq> voters (es @ [(v, t)]) t'
        \<and> card ((V(t := {})) t') = card (voters (es @ [(v, t)]) t') mod f1" for t'
      using inv f1 unfolding n by (simp add: voters_snoc mod_Suc)
    moreover have "account_vote f1 (v, t) s = (V(t := {}), Some t)" using V f1 by (simp add: account_vote_def s)
    ultimately show ?thesis using new(2) by (simp add: account_votes_inv_def n)
  next
    case False
    then have same: "Suc (?n t) div f1 = ?n t div f1" "Suc (?n t) mod f1 = Suc (?n t mod f1)" by (simp_all add: div_Suc mod_Suc)
    then have d: "card (voters (es @ [(v, t)]) t') div f1 = ?n t' div f1" for t' by (simp add: n)
    have "\<forall>t'. (V(t := insert v (V t))) t' \<subseteq> voters (es @ [(v, t)]) t'
        \<and> card ((V(t := insert v (V t))) t') = card (voters (es @ [(v, t)]) t') mod f1"
      using inv V same(2) unfolding n by (auto simp: voters_snoc)
    then show ?thesis using False V inv by (cases route) (simp_all add: account_vote_def s account_votes_inv_def Let_def d)
  qed
qed

lemma account_votes_run_inv:
  assumes "in_sequence ts es" "distinct ts" "0 < f1"
  shows "account_votes_inv f1 ts es (fold (account_vote f1) es (\<lambda>_. {}, None))"
  using assms(1)
proof (induction es rule: rev_induct)
  case Nil
  then show ?case by (simp add: account_votes_inv_def voters_def)
next
  case (snoc e es)
  obtain v t where e: "e = (v, t)" by (cases e)
  show ?case
    using account_vote_inv [OF snoc.IH [OF in_sequence_prefix [OF snoc.prems]] snoc.prems [unfolded e] assms(2,3)] by (simp add: e)
qed

text \<open>When all have voted for all targets, the route is the last target.\<close>

lemma account_votes_last:
  assumes "\<And>v. v \<in> vs \<Longrightarrow> List.map snd (filter (\<lambda>e. fst e = v) es) = ts" "fst ` set es \<subseteq> vs" "finite vs"
    and "distinct ts" "ts \<noteq> []" "0 < f1" "f1 \<le> card vs"
  shows "snd (fold (account_vote f1) es (\<lambda>_. {}, None)) = Some (List.last ts)"
proof -
  have "filter (\<lambda>e. fst e = v) es = []" if "v \<notin> vs" for v using assms(2) that by (force simp: filter_empty_conv)
  then have "in_sequence ts es" using assms(1) unfolding in_sequence_def by (metis append_Nil append_Nil2 list.simps(8))
  from account_votes_run_inv [OF this assms(4,6)] obtain V route
    where run: "fold (account_vote f1) es (\<lambda>_. {}, None) = (V, route)" and inv: "account_votes_inv f1 ts es (V, route)"
    by (cases "fold (account_vote f1) es (\<lambda>_. {}, None)") auto
  have voters: "voters es t = vs" if "t \<in> set ts" for t
  proof
    show "voters es t \<subseteq> vs" using assms(2) by (force simp: voters_def)
    show "vs \<subseteq> voters es t" using assms(1) that by (auto simp only: voters_filter)
  qed
  have pos: "0 < card vs div f1" using assms(6,7) by (simp add: div_greater_zero_iff)
  obtain t where t: "route = Some t"
  proof (cases route)
    case None
    then have "card (voters es (hd ts)) div f1 = 0" using inv by (simp add: account_votes_inv_def)
    then show ?thesis using pos voters [of "hd ts"] assms(5) by simp
  qed
  then have "t \<in> set ts" and later: "\<And>xs ys t'. ts = xs @ t # ys \<Longrightarrow> t' \<in> set ys \<Longrightarrow>
      card (voters es t') div f1 < card (voters es t) div f1"
    using inv by (auto simp: account_votes_inv_def)
  obtain xs ys where ts: "ts = xs @ t # ys" using split_list [OF \<open>t \<in> set ts\<close>] by blast
  have "ys = []"
  proof (rule ccontr)
    assume "ys \<noteq> []"
    then have "card (voters es (hd ys)) div f1 < card (voters es t) div f1" using later [OF ts] by simp
    then show False using voters \<open>ys \<noteq> []\<close> ts by simp
  qed
  then show ?thesis using run t ts by simp
qed

subsection \<open>The listener, one account at a time\<close>

definition account_events :: "nat \<Rightarrow> migration_message \<Rightarrow> (public_key \<times> public_key) list" where
  "account_events a msg = List.map (\<lambda>n. (mm_sender msg, new_target n)) (filter (\<lambda>n. account_id n = a) (mm_notices msg))"

definition account_view :: "(nat \<times> nat \<times> public_key) list \<Rightarrow> nat \<Rightarrow> client_routing \<Rightarrow> account_votes" where
  "account_view ranges a s = ((\<lambda>t. set (get_or [] (cl_votes s) (a, t))), client_route ranges s a)"

definition has_table :: "(nat \<times> nat \<times> public_key) list \<Rightarrow> (public_key, (nat, public_key) hmap) hmap \<Rightarrow> nat \<Rightarrow> bool" where
  "has_table ranges tables a \<longleftrightarrow> (\<exists>region table. find_region_for_account a ranges = Some region \<and> map_of tables region = Some table)"

definition distinct_votes :: "(nat \<times> public_key, public_key list) hmap \<Rightarrow> bool" where
  "distinct_votes votes \<longleftrightarrow> (\<forall>k. distinct (get_or [] votes k))"

lemma update_route_other: "a' \<noteq> a \<Longrightarrow> route_in ranges (update_route ranges (a', t) tables) a = route_in ranges tables a"
  by (auto simp: update_route_def route_in_def al_simps split: option.splits)

lemma update_route_same: "has_table ranges tables a \<Longrightarrow> route_in ranges (update_route ranges (a, t) tables) a = Some t"
  by (auto simp: update_route_def route_in_def has_table_def al_simps)

lemma has_table_update [simp]: "has_table ranges (update_route ranges k tables) a = has_table ranges tables a"
  by (cases k) (auto simp: update_route_def has_table_def al_simps split: option.splits)

lemma has_table_updates [simp]: "has_table ranges (fold (update_route ranges) ks tables) a = has_table ranges tables a"
  by (induction ks arbitrary: tables) simp_all

lemma get_or_deletes: "get_or [] (fold AList.delete ks m) k = (if k \<in> set ks then [] else get_or [] m k)"
  by (induction ks arbitrary: m) (auto simp: get_or_def al_simps)

lemma distinct_votes_vote: "distinct_votes (fst s) \<Longrightarrow> distinct_votes (fst (vote_notice f1 v n s))"
  by (auto simp: distinct_votes_def vote_notice_def Let_def al_simps split: prod.splits)

lemma distinct_votes_fold: "distinct_votes (fst s) \<Longrightarrow> distinct_votes (fst (fold (vote_notice f1 v) ns s))"
  by (induction ns arbitrary: s) (simp_all add: distinct_votes_vote)

lemma confirmed_keys:
  "set (snd (fold (vote_notice f1 v) ns (votes, []))) \<subseteq> (\<lambda>n. (account_id n, new_target n)) ` set ns"
  by (induction ns rule: rev_induct) (auto simp: vote_notice_def Let_def split: prod.splits)

lemma message_votes:
  assumes "distinct_votes votes" "has_table ranges tables a" "distinct (List.map new_target (filter (\<lambda>n. account_id n = a) ns))"
    and "fold (vote_notice f1 v) ns (votes, []) = (votes', confirmed)"
  shows "fold (account_vote f1) (List.map (\<lambda>n. (v, new_target n)) (filter (\<lambda>n. account_id n = a) ns))
      ((\<lambda>t. set (get_or [] votes (a, t))), route_in ranges tables a)
    = ((\<lambda>t. if (a, t) \<in> set confirmed then {} else set (get_or [] votes' (a, t))),
       route_in ranges (fold (update_route ranges) confirmed tables) a)"
  using assms(3,4)
proof (induction ns arbitrary: votes' confirmed rule: rev_induct)
  case (snoc n ns)
  obtain votes1 confirmed1 where 1: "fold (vote_notice f1 v) ns (votes, []) = (votes1, confirmed1)" by force
  have IH: "fold (account_vote f1) (List.map (\<lambda>n. (v, new_target n)) (filter (\<lambda>n. account_id n = a) ns))
      ((\<lambda>t. set (get_or [] votes (a, t))), route_in ranges tables a)
    = ((\<lambda>t. if (a, t) \<in> set confirmed1 then {} else set (get_or [] votes1 (a, t))),
       route_in ranges (fold (update_route ranges) confirmed1 tables) a)"
    by (rule snoc.IH [OF _ 1]) (use snoc.prems(1) in \<open>auto split: if_splits\<close>)
  define entry where "entry = set_insert v (get_or [] votes1 (account_id n, new_target n))"
  have 2: "votes' = AList.update (account_id n, new_target n) entry votes1"
    "confirmed = (if f1 \<le> length entry then confirmed1 @ [(account_id n, new_target n)] else confirmed1)"
  proof -
    have "vote_notice f1 v n (votes1, confirmed1) = (votes', confirmed)" using snoc.prems(2) by (simp add: 1)
    then show "votes' = AList.update (account_id n, new_target n) entry votes1"
      "confirmed = (if f1 \<le> length entry then confirmed1 @ [(account_id n, new_target n)] else confirmed1)"
      by (auto simp: vote_notice_def entry_def Let_def)
  qed
  show ?case
  proof (cases "account_id n = a")
    case False
    then show ?thesis using IH by (auto simp: 2 al_simps update_route_other fun_eq_iff)
  next
    case True
    have "(a, new_target n) \<notin> set confirmed1"
      using confirmed_keys [of f1 v ns votes] snoc.prems(1) True by (auto simp: 1)
    moreover have "length entry = card (insert v (set (get_or [] votes1 (a, new_target n))))"
      using distinct_votes_fold [of "(votes, [])" f1 v ns] assms(1)
      by (simp add: 1 entry_def True distinct_votes_def distinct_card [symmetric])
    ultimately show ?thesis
      using IH True by (auto simp: 2 account_vote_def Let_def al_simps update_route_same assms(2) entry_def fun_eq_iff)
  qed
qed simp

lemma handle_migration_message_eq:
  "fold (vote_notice f1 (mm_sender msg)) (mm_notices msg) (cl_votes s, []) = (votes, confirmed)
    \<Longrightarrow> handle_migration_message f1 ranges msg s
      = s\<lparr>cl_votes := fold AList.delete confirmed votes, cl_tables := fold (update_route ranges) confirmed (cl_tables s)\<rparr>"
  by (simp add: handle_migration_message_def tally_message_def apply_confirmed_def)

lemma handle_message_view:
  assumes "distinct_votes (cl_votes s)" "has_table ranges (cl_tables s) a"
    and "distinct (List.map new_target (filter (\<lambda>n. account_id n = a) (mm_notices msg)))"
  shows "account_view ranges a (handle_migration_message f1 ranges msg s)
      = fold (account_vote f1) (account_events a msg) (account_view ranges a s)"
    and "distinct_votes (cl_votes (handle_migration_message f1 ranges msg s))"
    and "has_table ranges (cl_tables (handle_migration_message f1 ranges msg s)) a"
proof -
  obtain votes confirmed where 1: "fold (vote_notice f1 (mm_sender msg)) (mm_notices msg) (cl_votes s, []) = (votes, confirmed)" by force
  have "distinct_votes votes" using distinct_votes_fold [of "(cl_votes s, [])" f1 "mm_sender msg" "mm_notices msg"] assms(1) by (simp add: 1)
  then show "distinct_votes (cl_votes (handle_migration_message f1 ranges msg s))"
    by (simp add: handle_migration_message_eq [OF 1] distinct_votes_def get_or_deletes)
  show "has_table ranges (cl_tables (handle_migration_message f1 ranges msg s)) a"
    using assms(2) by (simp add: handle_migration_message_eq [OF 1])
  show "account_view ranges a (handle_migration_message f1 ranges msg s)
      = fold (account_vote f1) (account_events a msg) (account_view ranges a s)"
    using message_votes [OF assms 1] 
    by (auto simp: account_view_def account_events_def client_route_def handle_migration_message_eq [OF 1] get_or_deletes fun_eq_iff)
qed

lemma handle_messages_view:
  assumes "distinct_votes (cl_votes s)" "has_table ranges (cl_tables s) a"
    and "\<forall>m\<in>set ms. distinct (List.map new_target (filter (\<lambda>n. account_id n = a) (mm_notices m)))"
  shows "account_view ranges a (fold (handle_migration_message f1 ranges) ms s)
    = fold (account_vote f1) (concat (List.map (account_events a) ms)) (account_view ranges a s)"
  using assms
proof (induction ms arbitrary: s)
  case (Cons m ms)
  then show ?case using handle_message_view [of s ranges a m f1] by simp
qed simp

subsection \<open>The routing table\<close>

definition notices_from :: "public_key \<Rightarrow> migration_message list \<Rightarrow> migration_notice list" where
  "notices_from v ms = concat (List.map mm_notices (filter (\<lambda>m. mm_sender m = v) ms))"

definition targets_of :: "nat \<Rightarrow> migration_notice list \<Rightarrow> public_key list" where
  "targets_of a ns = List.map new_target (filter (\<lambda>n. account_id n = a) ns)"

lemma events_from:
  "List.map snd (filter (\<lambda>e. fst e = v) (concat (List.map (account_events a) ms))) = targets_of a (notices_from v ms)"
proof (induction ms)
  case (Cons m ms)
  have "List.map snd (filter (\<lambda>e. fst e = v) (account_events a m))
      = (if mm_sender m = v then targets_of a (mm_notices m) else [])"
    by (simp add: account_events_def targets_of_def filter_map comp_def)
  then show ?case using Cons by (simp add: notices_from_def targets_of_def)
qed (simp add: notices_from_def targets_of_def)

lemma distinct_in_message:
  assumes "distinct (targets_of a (notices_from (mm_sender m) ms))" "m \<in> set ms"
  shows "distinct (List.map new_target (filter (\<lambda>n. account_id n = a) (mm_notices m)))"
  using assms by (induction ms) (auto simp: notices_from_def targets_of_def split: if_splits)

lemma client_init_view:
  assumes "find_region_for_account a ranges = Some region" "region \<in> set validators"
  shows "has_table ranges (cl_tables (client_routing_init validators)) a"
    "account_view ranges a (client_routing_init validators) = (\<lambda>_. {}, None)"
proof -
  have "map_of (List.map (\<lambda>pk. (pk, [] :: (nat, public_key) hmap)) validators) region = Some []" using assms(2) by (induction validators) auto
  then show "has_table ranges (cl_tables (client_routing_init validators)) a"
    "account_view ranges a (client_routing_init validators) = (\<lambda>_. {}, None)"
    using assms(1) by (simp_all add: has_table_def client_routing_init_def account_view_def client_route_def route_in_def get_or_def)
qed

text \<open>The route of an account is what its own votes make it.\<close>

lemma client_route_view:
  assumes "find_region_for_account a ranges = Some region" "region \<in> set validators"
    and "\<forall>m\<in>set ms. distinct (List.map new_target (filter (\<lambda>n. account_id n = a) (mm_notices m)))"
  shows "client_route ranges (fold (handle_migration_message f1 ranges) ms (client_routing_init validators)) a
    = snd (fold (account_vote f1) (concat (List.map (account_events a) ms)) (\<lambda>_. {}, None))"
proof -
  note init = client_init_view [OF assms(1,2)]
  have "distinct_votes (cl_votes (client_routing_init validators))"
    by (simp add: distinct_votes_def client_routing_init_def get_or_def)
  from handle_messages_view [OF this init(1) assms(3), of f1]
  have "snd (account_view ranges a (fold (handle_migration_message f1 ranges) ms (client_routing_init validators)))
    = snd (fold (account_vote f1) (concat (List.map (account_events a) ms)) (\<lambda>_. {}, None))"
    unfolding init(2) by (rule arg_cong)
  then show ?thesis by (simp add: account_view_def)
qed

text \<open>
  C28: The client follows the validators when its listener handles one message after the other: when \<open>f + 1\<close> validators or more, of \<open>n\<close>, send
  the client the same migration notices in the same order, each cut into messages and mixed with the messages of the others in any way,
  while the rest send nothing, and no account is moved to the same validator twice, then after the last message the client's route of an
  account is the target of its last notice. The two theorems on misrouting below show that both conditions are needed.
\<close>

theorem client_follows_notices:
  assumes "distinct vs" "client_f_plus_one n \<le> length vs" "\<forall>m\<in>set ms. mm_sender m \<in> set vs" "\<forall>v\<in>set vs. notices_from v ms = ns"
    and "distinct (targets_of a ns)" "targets_of a ns \<noteq> []"
    and "find_region_for_account a ranges = Some region" "region \<in> set validators"
  shows "client_route ranges (fold (handle_migration_message (client_f_plus_one n) ranges) ms (client_routing_init validators)) a
    = Some (List.last (targets_of a ns))"
proof -
  let ?f1 = "client_f_plus_one n" and ?es = "concat (List.map (account_events a) ms)"
  have "\<forall>m\<in>set ms. distinct (List.map new_target (filter (\<lambda>n. account_id n = a) (mm_notices m)))"
    using distinct_in_message [of a _ ms] assms(3-5) by metis
  note client_route_view [OF assms(7,8) this, of ?f1]
  moreover have "snd (fold (account_vote ?f1) ?es (\<lambda>_. {}, None)) = Some (List.last (targets_of a ns))"
  proof (rule account_votes_last)
    show "List.map snd (filter (\<lambda>e. fst e = v) ?es) = targets_of a ns" if "v \<in> set vs" for v
      using assms(4) that by (simp only: events_from)
    show "fst ` set ?es \<subseteq> set vs" using assms(3) by (auto simp: account_events_def)
    show "0 < ?f1" by (simp add: client_f_plus_one_def)
    show "?f1 \<le> card (set vs)" using assms(1,2) by (simp add: distinct_card)
  qed (use assms(5,6) in simp_all)
  ultimately show ?thesis by (simp only:)
qed

text \<open>Four validators move the account 5 from 1 to 2 and then to 3; the client gets everything from the first two before
  anything from the others.\<close>

definition rerouting_notices :: "migration_notice list" where
  "rerouting_notices = [\<lparr>account_id = 5, new_target = 2\<rparr>, \<lparr>account_id = 6, new_target = 4\<rparr>, \<lparr>account_id = 5, new_target = 3\<rparr>]"

definition one_by_one :: "public_key \<Rightarrow> migration_notice list \<Rightarrow> migration_message list" where
  "one_by_one v ns = List.map (\<lambda>n. \<lparr>mm_sender = v, mm_notices = [n]\<rparr>) ns"

definition rerouting_messages :: "migration_message list" where
  "rerouting_messages = \<lparr>mm_sender = 1, mm_notices = rerouting_notices\<rparr> # one_by_one 2 rerouting_notices
     @ one_by_one 4 rerouting_notices @ [\<lparr>mm_sender = 3, mm_notices = rerouting_notices\<rparr>]"

theorem client_follows_notices_witness:
  "client_route [(0, 10, 1)] (fold (handle_migration_message (client_f_plus_one 4) [(0, 10, 1)])
     rerouting_messages (client_routing_init [1, 2, 3, 4])) 5 = Some 3"
proof -
  have "client_route [(0, 10, 1)] (fold (handle_migration_message (client_f_plus_one 4) [(0, 10, 1)])
     rerouting_messages (client_routing_init [1, 2, 3, 4])) 5 = Some (List.last (targets_of 5 rerouting_notices))"
    by (rule client_follows_notices [where region = 1 and vs = "[1, 2, 3, 4]"])
      (simp_all add: client_f_plus_one_def rerouting_messages_def one_by_one_def rerouting_notices_def notices_from_def targets_of_def find_region_for_account_def)
  then show ?thesis by (simp add: rerouting_notices_def targets_of_def)
qed

text \<open>
  C31: The condition on repeated targets is needed: the votes of a notice that is confirmed by some of the validators stay and are
  counted for a later notice with the same target, so a client to which four validators send the same three notices, for
  an account that moves to 2, to 3 and back to 2, can end with the route 3.
\<close>

theorem repeated_target_misroutes:
  "\<exists>ms ns. notices_from 1 ms = ns \<and> notices_from 2 ms = ns \<and> notices_from 3 ms = ns \<and> notices_from 4 ms = ns \<and> targets_of 5 ns = [2, 3, 2]
    \<and> client_route [(0, 10, 1)] (fold (handle_migration_message (client_f_plus_one 4) [(0, 10, 1)]) ms
        (client_routing_init [1, 2, 3, 4])) 5 = Some 3"
proof -
  define ns where "ns = [\<lparr>account_id = 5, new_target = 2\<rparr>, \<lparr>account_id = 5, new_target = 3\<rparr>, \<lparr>account_id = 5, new_target = (2::public_key)\<rparr>]"
  define ms where "ms = one_by_one 1 ns @ one_by_one 2 ns @ one_by_one 3 ns @ one_by_one 4 ns"
  have "notices_from 1 ms = ns" "notices_from 2 ms = ns" "notices_from 3 ms = ns" "notices_from 4 ms = ns"
    by (simp_all add: ms_def ns_def one_by_one_def notices_from_def)
  moreover have "targets_of 5 ns = [2, 3, 2]" by (simp add: ns_def targets_of_def)
  moreover have "client_route [(0, 10, 1)] (fold (handle_migration_message (client_f_plus_one 4) [(0, 10, 1)]) ms
        (client_routing_init [1, 2, 3, 4])) 5 = Some 3"
  proof -
    have region: "find_region_for_account 5 [(0, 10, 1)] = Some 1" "1 \<in> set [1, 2, 3, 4 :: public_key]"
      by (simp_all add: find_region_for_account_def)
    have "\<forall>m\<in>set ms. distinct (List.map new_target (filter (\<lambda>n. account_id n = 5) (mm_notices m)))"
      by (simp add: ms_def ns_def one_by_one_def)
    note client_route_view [OF region this]
    moreover have "concat (List.map (account_events 5) ms)
        = [(1, 2), (1, 3), (1, 2), (2, 2), (2, 3), (2, 2), (3, 2), (3, 3), (3, 2), (4, 2), (4, 3), (4, 2)]"
      by (simp add: ms_def ns_def one_by_one_def account_events_def)
    ultimately show ?thesis by (simp add: account_vote_def Let_def client_f_plus_one_def)
  qed
  ultimately show ?thesis by blast
qed

subsection \<open>Who can change a route\<close>

definition supporters :: "migration_message list \<Rightarrow> nat \<times> public_key \<Rightarrow> public_key set" where
  "supporters ms k = {v. \<exists>m\<in>set ms. mm_sender m = v \<and> k \<in> (\<lambda>n. (account_id n, new_target n)) ` set (mm_notices m)}"

lemma finite_supporters [simp]: "finite (supporters ms k)"
  by (rule finite_subset [of _ "mm_sender ` set ms"]) (auto simp: supporters_def)

lemma supporters_snoc: "supporters (ms @ [m]) k
  = supporters ms k \<union> (if k \<in> (\<lambda>n. (account_id n, new_target n)) ` set (mm_notices m) then {mm_sender m} else {})"
  by (auto simp: supporters_def)

lemma message_supported:
  assumes "distinct_votes votes" "\<And>k. set (get_or [] votes k) \<subseteq> S k" "\<And>k. finite (S k)"
    and "fold (vote_notice f1 v) ns (votes, []) = (votes', confirmed)"
  defines "S' \<equiv> \<lambda>k. S k \<union> (if k \<in> (\<lambda>n. (account_id n, new_target n)) ` set ns then {v} else {})"
  shows "\<And>k. set (get_or [] votes' k) \<subseteq> S' k" "\<And>k. k \<in> set confirmed \<Longrightarrow> f1 \<le> card (S' k)"
proof -
  have "(\<forall>k. set (get_or [] votes' k) \<subseteq> S' k) \<and> (\<forall>k\<in>set confirmed. f1 \<le> card (S' k))"
    using assms(4) unfolding S'_def
  proof (induction ns arbitrary: votes' confirmed rule: rev_induct)
    case Nil
    then show ?case using assms(2) by auto
  next
    case (snoc n ns)
    obtain votes1 confirmed1 where 1: "fold (vote_notice f1 v) ns (votes, []) = (votes1, confirmed1)" by force
    let ?k = "(account_id n, new_target n)" and ?entry = "set_insert v (get_or [] votes1 (account_id n, new_target n))"
    let ?S = "\<lambda>ns k. S k \<union> (if k \<in> (\<lambda>n. (account_id n, new_target n)) ` set ns then {v} else {})"
    have "vote_notice f1 v n (votes1, confirmed1) = (votes', confirmed)" using snoc.prems by (simp add: 1)
    then have 2: "votes' = AList.update ?k ?entry votes1" "confirmed = (if f1 \<le> length ?entry then confirmed1 @ [?k] else confirmed1)"
      by (auto simp: vote_notice_def Let_def)
    have IH: "\<And>k. set (get_or [] votes1 k) \<subseteq> ?S ns k" "\<And>k. k \<in> set confirmed1 \<Longrightarrow> f1 \<le> card (?S ns k)"
      using snoc.IH [OF 1] by blast+
    have grow: "?S ns k \<subseteq> ?S (ns @ [n]) k" "finite (?S (ns @ [n]) k)" for k using assms(3) by auto
    have entry: "set ?entry \<subseteq> ?S (ns @ [n]) ?k" using IH(1) [of ?k] by (fastforce split: if_splits)
    have dist: "distinct ?entry"
      using distinct_votes_fold [of "(votes, [])" f1 v ns] assms(1) by (simp add: 1 distinct_votes_def)
    have "length ?entry \<le> card (?S (ns @ [n]) ?k)"
      unfolding distinct_card [OF dist, symmetric] by (rule card_mono [OF grow(2) entry])
    moreover have "f1 \<le> card (?S (ns @ [n]) k)" if "k \<in> set confirmed1" for k
      by (rule le_trans [OF IH(2) [OF that] card_mono [OF grow(2,1)]])
    moreover have "set (get_or [] votes' k) \<subseteq> ?S (ns @ [n]) k" for k
      using entry IH(1) [of k] grow(1) [of k] by (auto simp: 2 al_simps)
    moreover have "f1 \<le> card (?S (ns @ [n]) k)" if "k \<in> set confirmed" for k
    proof -
      consider "k \<in> set confirmed1" | "k = ?k" "f1 \<le> length ?entry" using \<open>k \<in> set confirmed\<close> by (auto simp: 2(2) split: if_splits)
      then show ?thesis
      proof cases
        case 1
        then show ?thesis by fact
      next
        case 2
        then show ?thesis using \<open>length ?entry \<le> card (?S (ns @ [n]) ?k)\<close> le_trans by blast
      qed
    qed
    ultimately show ?case by blast
  qed
  then show "\<And>k. set (get_or [] votes' k) \<subseteq> S' k" "\<And>k. k \<in> set confirmed \<Longrightarrow> f1 \<le> card (S' k)" by blast+
qed

lemma updated_routes:
  "route_in ranges (fold (update_route ranges) ks tables) a = Some t \<Longrightarrow> (a, t) \<in> set ks \<or> route_in ranges tables a = Some t"
proof (induction ks rule: rev_induct)
  case (snoc k ks)
  obtain a' t' where k: "k = (a', t')" by (cases k)
  show ?case
  proof (cases "a' = a \<and> has_table ranges tables a")
    case True
    then show ?thesis using snoc.prems by (simp add: k update_route_same)
  next
    case False
    then have "route_in ranges (update_route ranges k (fold (update_route ranges) ks tables)) a
        = route_in ranges (fold (update_route ranges) ks tables) a"
      using update_route_other [of a' a] has_table_updates [of ranges ks tables a]
      by (cases "a' = a") (auto simp: k route_in_def update_route_def has_table_def split: option.splits)
    then show ?thesis using snoc by simp
  qed
qed simp

definition tallied :: "listener_event list \<Rightarrow> migration_message list" where
  "tallied es = concat (List.map (\<lambda>e. case e of Tally c m \<Rightarrow> [m] | Apply c \<Rightarrow> []) es)"

definition listener_start :: "public_key list \<Rightarrow> listener" where
  "listener_start validators = \<lparr>ls_routing = client_routing_init validators, ls_pending = []\<rparr>"

definition listener_inv :: "nat \<Rightarrow> (nat \<times> nat \<times> public_key) list \<Rightarrow> migration_message list \<Rightarrow> listener \<Rightarrow> bool" where
  "listener_inv f1 ranges ms l \<longleftrightarrow> distinct_votes (cl_votes (ls_routing l))
    \<and> (\<forall>k. set (get_or [] (cl_votes (ls_routing l)) k) \<subseteq> supporters ms k)
    \<and> (\<forall>c ks. map_of (ls_pending l) c = Some ks \<longrightarrow> (\<forall>k\<in>set ks. f1 \<le> card (supporters ms k)))
    \<and> (\<forall>a t. client_route ranges (ls_routing l) a = Some t \<longrightarrow> f1 \<le> card (supporters ms (a, t)))"

lemma supporters_grow: "f1 \<le> card (supporters ms k) \<Longrightarrow> f1 \<le> card (supporters (ms @ [m]) k)"
  by (erule le_trans, rule card_mono) (auto simp: supporters_snoc)

lemma listener_start_inv: "listener_inv f1 ranges [] (listener_start validators)"
proof -
  have empty: "map_of (List.map (\<lambda>pk. (pk, [] :: (nat, public_key) hmap)) validators) region = None
      \<or> map_of (List.map (\<lambda>pk. (pk, [] :: (nat, public_key) hmap)) validators) region = Some []" for region
    by (induction validators) auto
  have "client_route ranges (client_routing_init validators) a = None" for a
  proof (cases "find_region_for_account a ranges")
    case (Some region)
    then show ?thesis using empty [of region] by (auto simp: client_routing_init_def client_route_def route_in_def)
  qed (simp add: client_route_def route_in_def)
  then show ?thesis by (simp add: listener_inv_def listener_start_def distinct_votes_def get_or_def) (simp add: client_routing_init_def)
qed

lemma listener_tally_inv:
  assumes "listener_inv f1 ranges ms l" "listener_step f1 ranges (Tally c m) l = Some l'"
  shows "listener_inv f1 ranges (ms @ [m]) l'"
proof -
  let ?votes = "cl_votes (ls_routing l)"
  obtain votes confirmed where 1: "fold (vote_notice f1 (mm_sender m)) (mm_notices m) (?votes, []) = (votes, confirmed)" by force
  have l': "l' = l\<lparr>ls_routing := (ls_routing l)\<lparr>cl_votes := fold AList.delete confirmed votes\<rparr>,
      ls_pending := AList.update c confirmed (ls_pending l)\<rparr>"
    using assms(2) by (simp add: tally_message_def 1 split: option.splits)
  have inv: "distinct_votes ?votes" "\<And>k. set (get_or [] ?votes k) \<subseteq> supporters ms k"
    "\<And>c ks k. map_of (ls_pending l) c = Some ks \<Longrightarrow> k \<in> set ks \<Longrightarrow> f1 \<le> card (supporters ms k)"
    "\<And>a t. client_route ranges (ls_routing l) a = Some t \<Longrightarrow> f1 \<le> card (supporters ms (a, t))"
    using assms(1) unfolding listener_inv_def by blast+
  note sup = message_supported [OF inv(1,2) finite_supporters 1, folded supporters_snoc]
  have "distinct_votes votes" using distinct_votes_fold [of "(?votes, [])" f1 "mm_sender m" "mm_notices m"] inv(1) by (simp add: 1)
  then have "distinct_votes (cl_votes (ls_routing l'))" by (simp add: l' distinct_votes_def get_or_deletes)
  moreover have "set (get_or [] (cl_votes (ls_routing l')) k) \<subseteq> supporters (ms @ [m]) k" for k
    using sup(1) [of k] by (simp add: l' get_or_deletes)
  moreover have "f1 \<le> card (supporters (ms @ [m]) k)" if "map_of (ls_pending l') c' = Some ks" "k \<in> set ks" for c' ks k
    using that sup(2) inv(3) supporters_grow by (auto simp: l' al_simps split: if_splits)
  moreover have "f1 \<le> card (supporters (ms @ [m]) (a, t))" if "client_route ranges (ls_routing l') a = Some t" for a t
    using that inv(4) supporters_grow by (simp add: l' client_route_def)
  ultimately show ?thesis unfolding listener_inv_def by blast
qed

lemma listener_apply_inv:
  assumes "listener_inv f1 ranges ms l" "listener_step f1 ranges (Apply c) l = Some l'"
  shows "listener_inv f1 ranges ms l'"
proof -
  obtain ks where ks: "map_of (ls_pending l) c = Some ks" using assms(2) by (auto split: option.splits)
  then have l': "l' = l\<lparr>ls_routing := (ls_routing l)\<lparr>cl_tables := fold (update_route ranges) ks (cl_tables (ls_routing l))\<rparr>,
      ls_pending := AList.delete c (ls_pending l)\<rparr>"
    using assms(2) by (simp add: apply_confirmed_def)
  have "f1 \<le> card (supporters ms (a, t))" if "client_route ranges (ls_routing l') a = Some t" for a t
    using updated_routes [of ranges ks "cl_tables (ls_routing l)" a t] that assms(1) ks
    by (auto simp: l' client_route_def listener_inv_def)
  then show ?thesis using assms(1) by (auto simp: l' listener_inv_def al_simps split: if_splits)
qed

lemma listener_run_inv:
  "listener_inv f1 ranges ms l \<Longrightarrow> listener_run f1 ranges es l = Some l' \<Longrightarrow> listener_inv f1 ranges (ms @ tallied es) l'"
proof (induction es arbitrary: ms l)
  case (Cons e es)
  obtain l1 where 1: "listener_step f1 ranges e l = Some l1" "listener_run f1 ranges es l1 = Some l'"
    using Cons.prems(2) by (auto split: bind_splits)
  show ?case
  proof (cases e)
    case (Tally c m)
    then show ?thesis using Cons.IH [OF listener_tally_inv [OF Cons.prems(1) 1(1) [unfolded Tally]] 1(2)] by (simp add: tallied_def)
  next
    case (Apply c)
    then show ?thesis using Cons.IH [OF listener_apply_inv [OF Cons.prems(1) 1(1) [unfolded Apply]] 1(2)] by (simp add: tallied_def)
  qed
qed (simp add: tallied_def)

text \<open>
  C29: A route of the client is never made by faulty validators alone, if the sender that a message names is the validator
  that sent it, which the code does not check: whatever such messages the client gets, in whatever
  order and however the tasks of its connections interleave, if fewer than a third of the validators are faulty, then for every route in
  its table a message of a validator that is not faulty has a notice with this account and target.
\<close>

theorem routes_have_honest_support:
  assumes "\<forall>m\<in>set (tallied es). mm_sender m \<in> set vs" "faulty \<subseteq> set vs" "3 * card faulty < length vs"
    and "listener_run (client_f_plus_one (length vs)) ranges es (listener_start validators) = Some l"
    and "client_route ranges (ls_routing l) a = Some t"
  shows "\<exists>v\<in>set vs - faulty. \<lparr>account_id = a, new_target = t\<rparr> \<in> set (notices_from v (tallied es))"
proof -
  have "client_f_plus_one (length vs) \<le> card (supporters (tallied es) (a, t))"
    using listener_run_inv [OF listener_start_inv assms(4)] assms(5) by (simp add: listener_inv_def)
  moreover have "card faulty < client_f_plus_one (length vs)" using assms(3) by (simp add: client_f_plus_one_def)
  moreover have "finite faulty" using assms(2) finite_subset by blast
  ultimately have "\<not> supporters (tallied es) (a, t) \<subseteq> faulty" using card_mono [of faulty "supporters (tallied es) (a, t)"] by linarith
  then obtain v where v: "v \<in> supporters (tallied es) (a, t)" "v \<notin> faulty" by blast
  then obtain m n where m: "m \<in> set (tallied es)" "mm_sender m = v" "n \<in> set (mm_notices m)" "account_id n = a" "new_target n = t"
    by (auto simp: supporters_def)
  then have "n \<in> set (notices_from v (tallied es))" by (auto simp: notices_from_def)
  moreover have "n = \<lparr>account_id = a, new_target = t\<rparr>" using m(4,5) by (cases n) simp
  ultimately have "\<lparr>account_id = a, new_target = t\<rparr> \<in> set (notices_from v (tallied es))" by (simp only:)
  moreover have "v \<in> set vs - faulty" using assms(1) m(1,2) v(2) by blast
  ultimately show ?thesis by blast
qed

text \<open>Three of four validators send the notices of an account that moves to 2 and then to 3. The task of the second validator's connection has the
  confirmed move to 2 in hand while the others handle the move to 3.\<close>

definition moves_to :: "public_key list \<Rightarrow> migration_notice list" where
  "moves_to ts = List.map (\<lambda>t. \<lparr>account_id = 5, new_target = t\<rparr>) ts"

definition move_by :: "public_key \<Rightarrow> public_key \<Rightarrow> migration_message" where
  "move_by v t = \<lparr>mm_sender = v, mm_notices = moves_to [t]\<rparr>"

definition racing_events :: "listener_event list" where
  "racing_events = [Tally 1 (move_by 1 2), Apply 1, Tally 2 (move_by 2 2), Tally 3 (move_by 3 2), Apply 3,
     Tally 1 (move_by 1 3), Apply 1, Tally 3 (move_by 3 3), Apply 3, Apply 2, Tally 2 (move_by 2 3), Apply 2]"

definition racing_state :: "(nat \<times> public_key, public_key list) hmap \<Rightarrow> (nat, (nat \<times> public_key) list) hmap
    \<Rightarrow> (nat, public_key) hmap \<Rightarrow> listener" where
  "racing_state votes pending table =
    \<lparr>ls_routing = \<lparr>cl_votes = votes, cl_tables = [(1, table), (2, []), (3, []), (4, [])]\<rparr>, ls_pending = pending\<rparr>"

lemma racing_tally:
  assumes "map_of pending c = None" "set_insert v (get_or [] votes (5, t)) = entry"
  shows "listener_run 2 [(0, 10, 1)] (Tally c (move_by v t) # es) (racing_state votes pending table)
    = listener_run 2 [(0, 10, 1)] es
        (if 2 \<le> length entry then racing_state (AList.delete (5, t) (AList.update (5, t) entry votes)) (AList.update c [(5, t)] pending) table
         else racing_state (AList.update (5, t) entry votes) (AList.update c [] pending) table)"
  using assms by (simp add: racing_state_def move_by_def moves_to_def tally_message_def vote_notice_def Let_def)

lemma racing_apply:
  assumes "map_of pending c = Some ks" "set ks \<subseteq> {(5, 2), (5, 3)}"
  shows "listener_run 2 [(0, 10, 1)] (Apply c # es) (racing_state votes pending table)
    = listener_run 2 [(0, 10, 1)] es (racing_state votes (AList.delete c pending) (fold (\<lambda>(a, t). AList.update a t) ks table))"
proof -
  have "fold (update_route [(0, 10, 1)]) ks [(1, table), (2, []), (3, []), (4, [])]
      = [(1, fold (\<lambda>(a, t). AList.update a t) ks table), (2, []), (3, []), (4, [])]"
    using assms(2) by (induction ks arbitrary: table) (auto simp: update_route_def find_region_for_account_def)
  then show ?thesis using assms(1) by (simp add: racing_state_def apply_confirmed_def)
qed

lemma racing_result:
  "listener_run 2 [(0, 10, 1)] racing_events (racing_state [] [] []) = Some (racing_state [((5, 2), [3]), ((5, 3), [2])] [] [(5, 2)])"
  unfolding racing_events_def by (simp add: racing_tally racing_apply get_or_def set_insert_def del: listener_run.simps(2))

lemma racing_run:
  "\<exists>l. listener_run (client_f_plus_one 4) [(0, 10, 1)] racing_events (listener_start [1, 2, 3, 4]) = Some l
     \<and> ls_pending l = [] \<and> client_route [(0, 10, 1)] (ls_routing l) 5 = Some 2"
proof -
  have start: "listener_start [1, 2, 3, 4] = racing_state [] [] []" "client_f_plus_one 4 = 2"
    by (simp_all add: listener_start_def client_routing_init_def racing_state_def client_f_plus_one_def)
  show ?thesis unfolding start racing_result
    by (simp add: racing_state_def client_route_def route_in_def find_region_for_account_def)
qed

theorem routes_have_honest_support_witness:
  "\<exists>v\<in>set [1, 2, 3, 4 :: public_key] - {1}. \<lparr>account_id = 5, new_target = 2\<rparr> \<in> set (notices_from v (tallied racing_events))"
proof -
  obtain l where l: "listener_run (client_f_plus_one 4) [(0, 10, 1)] racing_events (listener_start [1, 2, 3, 4]) = Some l"
    "client_route [(0, 10, 1)] (ls_routing l) 5 = Some 2"
    using racing_run by blast
  have len: "length [1, 2, 3, 4 :: public_key] = 4" by simp
  show ?thesis
  proof (rule routes_have_honest_support [OF _ _ _ _ l(2)])
    show "listener_run (client_f_plus_one (length [1, 2, 3, 4 :: public_key])) [(0, 10, 1)] racing_events (listener_start [1, 2, 3, 4]) = Some l"
      unfolding len by (rule l(1))
  qed (simp_all add: tallied_def racing_events_def move_by_def)
qed

text \<open>
  C30: The handling of one message after the other is needed: the votes are counted under one lock and the tables
  changed under another, so the tasks of two connections can change the tables in the other order than the votes were
  confirmed. Three of four validators send the moves of an account to 2 and then to 3, all
  messages are handled to their end, and the client's route is 2; the last vote for 3 is one of too few to repair it.
\<close>

theorem interleaved_handlers_misroute:
  "\<exists>es l ns. listener_run (client_f_plus_one 4) [(0, 10, 1)] es (listener_start [1, 2, 3, 4]) = Some l \<and> ls_pending l = []
    \<and> notices_from 1 (tallied es) = ns \<and> notices_from 2 (tallied es) = ns \<and> notices_from 3 (tallied es) = ns \<and> targets_of 5 ns = [2, 3]
    \<and> client_route [(0, 10, 1)] (ls_routing l) 5 = Some 2"
proof -
  have "notices_from 1 (tallied racing_events) = moves_to [2, 3]" "notices_from 2 (tallied racing_events) = moves_to [2, 3]"
    "notices_from 3 (tallied racing_events) = moves_to [2, 3]"
    by (simp_all add: tallied_def racing_events_def move_by_def moves_to_def notices_from_def)
  moreover have "targets_of 5 (moves_to [2, 3]) = [2, 3]" by (simp add: moves_to_def targets_of_def)
  ultimately show ?thesis using racing_run by blast
qed

subsection \<open>Replies\<close>

text \<open>A transaction is reported when the validators that replied are \<open>f + 1\<close>; a second reply of one of them is reported again.\<close>

lemma repeated_reply_reported_again:
  "handle_client_reply f1 r counts = (counts', True) \<Longrightarrow> snd (handle_client_reply f1 r counts')"
  by (auto simp: handle_client_reply_def Let_def al_simps set_insert_def split: if_splits)

end
