(* ===== verification/Client_Sending.thy ===== *)
theory Client_Sending
  imports Client
begin

text \<open>
  What the client sends: the number of transactions of every tick, one sample in each burst, the bytes of a
  transaction and its way to a validator and a worker.
\<close>

subsection \<open>The pace\<close>

text \<open>Numbers that keep the products in \<open>u64\<close>.\<close>

definition pace_ok :: "nat \<Rightarrow> nat \<Rightarrow> nat \<Rightarrow> nat \<Rightarrow> bool" where
  "pace_ok balanced_rate rate rampup_secs c \<longleftrightarrow> balanced_rate < 2 ^ 20 \<and> rate < 2 ^ 20 \<and> rampup_secs < 2 ^ 16 \<and> c < 2 ^ 21"

lemma pace_bounds:
  assumes "pace_ok B R s c"
  shows "B * (c + 1) * (c + 1) < 2 ^ 64" "R * (c + 1) < 2 ^ 42" "B * (20 * s) < 2 ^ 42" "B * (c + 1) < 2 ^ 42" "20 * s < 2 ^ 21"
proof -
  have b: "B \<le> 2 ^ 20" "R \<le> 2 ^ 20" "20 * s \<le> 2 ^ 21" "c + 1 \<le> 2 ^ 21" "B < 2 ^ 20" "R < 2 ^ 20" "20 * s < 2 ^ 21"
    using assms by (auto simp: pace_ok_def)
  show "20 * s < 2 ^ 21" by fact
  have "B * (c + 1) \<le> 2 ^ 20 * 2 ^ 21" by (intro mult_le_mono b)
  then show 1: "B * (c + 1) < 2 ^ 42" by simp
  have "R * (c + 1) \<le> 2 ^ 20 * 2 ^ 21" by (intro mult_le_mono b)
  then show "R * (c + 1) < 2 ^ 42" by simp
  have "B * (20 * s) \<le> 2 ^ 20 * 2 ^ 21" by (intro mult_le_mono b)
  then show "B * (20 * s) < 2 ^ 42" by simp
  have "B * (c + 1) * (c + 1) \<le> (2 ^ 20 * 2 ^ 21) * 2 ^ 21" by (intro mult_le_mono b)
  then show "B * (c + 1) * (c + 1) < 2 ^ 64" by simp
qed

definition exact_total :: "nat \<Rightarrow> nat \<Rightarrow> nat \<Rightarrow> nat \<Rightarrow> nat" where
  "exact_total B R s c =
    (if c < 2 * s then B * (c + 1) * (c + 1) div (80 * s)
     else if c < 20 * s then B * (2 * s) div 40 + B * (c + 1 - 2 * s) div 20
     else B * (19 * s) div 20 + R * (c + 1 - 20 * s) div 20)"

lemma next_total_exact:
  assumes "pace_ok B R s c"
  shows "next_total B R s c = exact_total B R s c" "exact_total B R s c < 2 ^ 64"
proof -
  note b = pace_bounds [OF assms]
  have c: "c + 1 < 2 ^ 64" using assms by (simp add: pace_ok_def)
  have T: "wmul 64 s PRECISION = 20 * s" using b(5) by (simp add: PRECISION_def wmul_exact)
  have le: "B * (2 * s) \<le> B * (20 * s)" "B * (19 * s) \<le> B * (20 * s)" "B * (c + 1 - 2 * s) \<le> B * (c + 1)"
    "R * (c + 1 - 20 * s) \<le> R * (c + 1)" by (rule mult_le_mono2; simp)+
  have small: "B * (2 * s) < 2 ^ 64" "B * (19 * s) < 2 ^ 64" "B * (c + 1 - 2 * s) < 2 ^ 64" "R * (c + 1 - 20 * s) < 2 ^ 64" "B * (c + 1) < 2 ^ 64"
    using le b(2-4) by simp_all
  have sums: "B * (2 * s) div 40 + B * (c + 1 - 2 * s) div 20 < 2 ^ 64" "B * (19 * s) div 20 + R * (c + 1 - 20 * s) div 20 < 2 ^ 64"
    using le b(2-4) div_le_dividend [of "B * (2 * s)" 40] div_le_dividend [of "B * (c + 1 - 2 * s)" 20]
      div_le_dividend [of "B * (19 * s)" 20] div_le_dividend [of "R * (c + 1 - 20 * s)" 20] by simp_all
  have den: "wmul 64 (wmul 64 2 (2 * s)) PRECISION = 80 * s"
    using b(5) by (simp add: PRECISION_def wmul_exact)
  have quad: "wmul 64 (wmul 64 B (wadd 64 c 1)) (wadd 64 c 1) = B * (c + 1) * (c + 1)"
    using b(1) small(5) c by (simp only: wadd_exact wmul_exact)
  show "next_total B R s c = exact_total B R s c"
  proof -
    have ramp: "20 * s div 10 = 2 * s" "2 * s div 2 = s" by simp_all
    have w: "wadd 64 c 1 = c + 1" using c by (simp only: wadd_exact)
    have E: "next_total B R s c =
      (if 0 < 20 * s \<and> c < 2 * s then B * (c + 1) * (c + 1) div (80 * s)
       else if 0 < 20 * s \<and> c < 20 * s then
         wadd 64 (wmul 64 B (2 * s) div (2 * PRECISION)) (wmul 64 B (wsub 64 (c + 1) (2 * s)) div PRECISION)
       else wadd 64 (wmul 64 B (wsub 64 (20 * s) s) div PRECISION) (wmul 64 R (wsub 64 (c + 1) (20 * s)) div PRECISION))"
      unfolding next_total_def Let_def T ramp den [symmetric] quad [symmetric] w ..
    consider "c < 2 * s" | "2 * s \<le> c" "c < 20 * s" | "20 * s \<le> c" by linarith
    then show ?thesis
    proof cases
      case 1
      then show ?thesis by (simp add: E exact_total_def)
    next
      case 2
      then have sub: "wsub 64 (c + 1) (2 * s) = c + 1 - 2 * s" by (intro wsub_exact) simp
      have "wmul 64 B (2 * s) = B * (2 * s)" "wmul 64 B (c + 1 - 2 * s) = B * (c + 1 - 2 * s)"
        using small(1,3) by (simp_all only: wmul_exact)
      moreover have "wadd 64 (B * (2 * s) div 40) (B * (c + 1 - 2 * s) div 20) = B * (2 * s) div 40 + B * (c + 1 - 2 * s) div 20"
        using sums(1) by (rule wadd_exact)
      ultimately show ?thesis using 2 by (simp only: E sub exact_total_def PRECISION_def) simp
    next
      case 3
      then have sub: "wsub 64 (c + 1) (20 * s) = c + 1 - 20 * s" "wsub 64 (20 * s) s = 19 * s" by (simp_all add: wsub_exact)
      have "wmul 64 B (19 * s) = B * (19 * s)" "wmul 64 R (c + 1 - 20 * s) = R * (c + 1 - 20 * s)"
        using small(2,4) by (simp_all only: wmul_exact)
      moreover have "wadd 64 (B * (19 * s) div 20) (R * (c + 1 - 20 * s) div 20) = B * (19 * s) div 20 + R * (c + 1 - 20 * s) div 20"
        using sums(2) by (rule wadd_exact)
      ultimately show ?thesis using 3 by (simp only: E sub exact_total_def PRECISION_def) simp
    qed
  qed
  show "exact_total B R s c < 2 ^ 64"
    using sums le_less_trans [OF div_le_dividend b(1), of "80 * s"] by (simp add: exact_total_def)
qed

lemma exact_total_mono: "exact_total B R s c \<le> exact_total B R s (Suc c)"
proof -
  consider "Suc c < 2 * s" | "Suc c = 2 * s" | "2 * s \<le> c" "Suc c < 20 * s" | "Suc c = 20 * s" "2 * s \<le> c" | "20 * s \<le> c" by linarith
  then show ?thesis
  proof cases
    case 1
    have "B * (c + 1) * (c + 1) \<le> B * (Suc c + 1) * (Suc c + 1)" by (intro mult_le_mono) simp_all
    then show ?thesis using 1 by (simp add: exact_total_def div_le_mono)
  next
    case 2
    have "B * (c + 1) * (c + 1) div (80 * s) = (B * s * (4 * s)) div (20 * (4 * s))" using 2 by (simp add: algebra_simps)
    also have "\<dots> = B * s div 20" using 2 by (subst div_mult_mult2) auto
    also have "\<dots> = B * (2 * s) div 40" using div_mult_mult2 [of 2 "B * s" 20] by (simp add: algebra_simps)
    finally show ?thesis using 2 by (simp add: exact_total_def)
  next
    case 3
    then have "B * (c + 1 - 2 * s) \<le> B * (Suc c + 1 - 2 * s)" by (intro mult_le_mono) simp_all
    then show ?thesis using 3 by (simp add: exact_total_def div_le_mono)
  next
    case 4
    have "B * (2 * s) div 40 + B * (18 * s) div 20 = B * s div 20 + B * (18 * s) div 20"
      using div_mult_mult2 [of 2 "B * s" 20] by (simp add: algebra_simps)
    also have "\<dots> \<le> (B * s + B * (18 * s)) div 20" by (simp add: div_add1_eq [of "B * s"])
    also have "\<dots> = B * (19 * s) div 20" by (simp add: algebra_simps)
    finally have "B * (2 * s) div 40 + B * (18 * s) div 20 \<le> B * (19 * s) div 20" .
    moreover have "c + 1 - 2 * s = 18 * s" using 4 by linarith
    ultimately show ?thesis using 4 by (simp add: exact_total_def)
  next
    case 5
    then have "R * (c + 1 - 20 * s) \<le> R * (Suc c + 1 - 20 * s)" by (intro mult_le_mono) simp_all
    then show ?thesis using 5 by (simp add: exact_total_def div_le_mono)
  qed
qed

subsection \<open>One transaction\<close>

text \<open>A configuration: transactions have room for their fields, there are four or five types of them, workers and
  validators, and two accounts or more, in whose range every weighted part has an account.\<close>

definition client_ok :: "client_config \<Rightarrow> bool" where
  "client_ok cfg \<longleftrightarrow> 35 \<le> cc_size cfg \<and> cc_num_tx_types cfg \<in> {4, 5} \<and> 0 < cc_num_workers cfg \<and> cc_validators cfg \<noteq> []
     \<and> cc_own_validator cfg \<in> set (cc_validators cfg)
     \<and> cc_account_start cfg + cc_num_accounts cfg \<le> cc_total_accounts cfg \<and> cc_total_accounts cfg < 2 ^ 64
     \<and> 0 < cc_num_accounts cfg \<and> length (cc_skew_weights cfg) \<le> cc_num_accounts cfg \<and> 1 < cc_total_accounts cfg"

definition shard_inv :: "client_config \<Rightarrow> 'r shard \<Rightarrow> bool" where
  "shard_inv cfg s \<longleftrightarrow> sh_counter s < 2 ^ 64 \<and> sh_r s < 2 ^ 64
     \<and> (\<forall>k w. map_of (sh_worker_rr s) k = Some w \<longrightarrow> w < cc_num_workers cfg)
     \<and> (\<forall>k v. map_of (sh_validator_rr s) k = Some v \<longrightarrow> v < length (cc_validators cfg))"

lemma client_dest_result:
  assumes "rng_ok R" "client_dest R n src r = Some (d, r')"
  shows "d < n \<and> d \<noteq> src"
proof -
  have "rng_ok R \<longrightarrow> fst (d, r') < n \<and> fst (d, r') \<noteq> src"
  proof (rule client_dest.raw_induct [OF _ assms(2)])
    fix pick :: "'a rng \<Rightarrow> nat \<Rightarrow> nat \<Rightarrow> 'a \<Rightarrow> (nat \<times> 'a) option" and R n src r y
    assume IH: "\<And>R n src r y. pick R n src r = Some y \<Longrightarrow> rng_ok R \<longrightarrow> fst y < n \<and> fst y \<noteq> src"
      and step: "(case gen_range0 R n r of None \<Rightarrow> None
        | Some (d, r') \<Rightarrow> if d \<noteq> src then Some (d, r') else pick R n src r') = Some y"
    obtain d r' where d: "gen_range0 R n r = Some (d, r')" using step by (auto split: option.splits)
    show "rng_ok R \<longrightarrow> fst y < n \<and> fst y \<noteq> src"
    proof (cases "d \<noteq> src")
      case True
      then show ?thesis using step gen_range0_less [OF _ d] by (auto simp: d)
    next
      case False
      then have "pick R n src r' = Some y" using step by (simp add: d)
      then show ?thesis by (rule IH)
    qed
  qed
  then show ?thesis using assms(1) by simp
qed

lemma client_tx_type_cases:
  assumes "n \<in> {4, 5}"
  shows "client_tx_type n k = SendPayment \<Longrightarrow> n = 5"
proof -
  have "k mod 4 \<in> {0, 1, 2, 3}" by auto
  then show "client_tx_type n k = SendPayment \<Longrightarrow> n = 5" using assms by (auto simp: client_tx_type_def)
qed

text \<open>What is said of the transaction \<open>x\<close> of a burst in which the tick counter is \<open>c\<close>.\<close>

definition tx_sent_ok :: "client_config \<Rightarrow> (nat \<Rightarrow> public_key option) \<Rightarrow> bool \<Rightarrow> nat \<Rightarrow> client_tx \<Rightarrow> bool" where
  "tx_sent_ok cfg route sample c t \<longleftrightarrow> (\<exists>h p. tx_header_parse (ct_bytes t) = Some h \<and> parse_smallbank_payload (ct_bytes t) = Some p
     \<and> is_sample h = sample \<and> fst (th_id h) = word_of_nat (cc_region_id cfg) \<and> (sample \<longrightarrow> snd (th_id h) = c)
     \<and> cc_account_start cfg \<le> sb_account_id p \<and> sb_account_id p < cc_account_start cfg + cc_num_accounts cfg
     \<and> sb_dest_account_id p < cc_total_accounts cfg \<and> (sb_dest_account_id p \<noteq> sb_account_id p \<longleftrightarrow> sb_tx_type p = SendPayment)
     \<and> sb_amount_bits p = client_amount_bits (sb_tx_type p)
     \<and> ct_worker t < cc_num_workers cfg \<and> ct_validator t \<in> set (cc_validators cfg)
     \<and> (\<not> cc_round_robin cfg \<longrightarrow> ct_validator t = (case route (sb_account_id p) of
           Some pk \<Rightarrow> if pk \<in> set (cc_validators cfg) then pk else cc_own_validator cfg | None \<Rightarrow> cc_own_validator cfg)))"

lemma client_amount_bits_less: "client_amount_bits t < 2 ^ 64"
  by (cases t) (simp_all add: client_amount_bits_def)

lemma client_tx_bytes_layout:
  "35 \<le> cc_size cfg \<Longrightarrow> client_tx_bytes cfg sample c t = [if sample then 0 else 1, word_of_nat (cc_region_id cfg)] @ be_bytes 8 c
     @ sb_to_bytes t @ replicate (cc_size cfg - 35) 0"
  by (simp add: client_tx_bytes_def Let_def take_Cons')

lemma client_target_ok:
  assumes "client_target cfg route src rr = (target, rr')" "client_ok cfg"
    and "\<forall>k v. map_of rr k = Some v \<longrightarrow> v < length (cc_validators cfg)"
  shows "target \<in> set (cc_validators cfg)" "\<forall>k v. map_of rr' k = Some v \<longrightarrow> v < length (cc_validators cfg)"
    "\<not> cc_round_robin cfg \<Longrightarrow> target = (case route src of
           Some pk \<Rightarrow> if pk \<in> set (cc_validators cfg) then pk else cc_own_validator cfg | None \<Rightarrow> cc_own_validator cfg)"
proof -
  have n: "0 < length (cc_validators cfg)" using assms(2) by (simp add: client_ok_def)
  have "get_or (src mod length (cc_validators cfg)) rr src < length (cc_validators cfg)"
    using assms(3) n by (auto simp: get_or_def split: option.splits)
  then show "target \<in> set (cc_validators cfg)" "\<forall>k v. map_of rr' k = Some v \<longrightarrow> v < length (cc_validators cfg)"
    "\<not> cc_round_robin cfg \<Longrightarrow> target = (case route src of
           Some pk \<Rightarrow> if pk \<in> set (cc_validators cfg) then pk else cc_own_validator cfg | None \<Rightarrow> cc_own_validator cfg)"
    using assms n by (auto simp: client_target_def Let_def client_ok_def al_simps split: if_splits option.splits)
qed

lemma client_worker_ok:
  assumes "client_worker cfg src rr = (w, rr')" "0 < cc_num_workers cfg" "\<forall>k v. map_of rr k = Some v \<longrightarrow> v < cc_num_workers cfg"
  shows "w < cc_num_workers cfg" "\<forall>k v. map_of rr' k = Some v \<longrightarrow> v < cc_num_workers cfg"
  using assms by (auto simp: client_worker_def Let_def al_simps get_or_def split: if_splits option.splits)

lemma send_one_ok:
  assumes "send_one cfg R route burst x s = Some (t, s')" "client_ok cfg" "rng_ok R" "shard_inv cfg s"
  shows "tx_sent_ok cfg route (0 < burst \<and> x = sh_counter s mod burst) (sh_counter s) t"
    "shard_inv cfg s'" "sh_counter s' = sh_counter s" "sh_total_sent s' = sh_total_sent s"
proof -
  let ?sample = "0 < burst \<and> x = sh_counter s mod burst" and ?ty = "client_tx_type (cc_num_tx_types cfg) (sh_burst_count s)"
  obtain k r1 where k: "draw_weighted R (cc_skew_weights cfg) (cc_num_accounts cfg) (sh_rng s) = Some (k, r1)"
    using assms(1) by (auto simp: send_one_def split: bind_splits)
  let ?src = "cc_account_start cfg + k"
  obtain dest r2 where dest: "(if ?ty = SendPayment then client_dest R (cc_total_accounts cfg) ?src r1 else Some (?src, r1)) = Some (dest, r2)"
    using assms(1) k by (auto simp: send_one_def split: bind_splits)
  obtain target vrr where target: "client_target cfg route ?src (sh_validator_rr s) = (target, vrr)" by force
  obtain w wrr where w: "client_worker cfg ?src (sh_worker_rr s) = (w, wrr)" by force
  define r where "r = (if ?sample then sh_r s else wadd 64 (sh_r s) 1)"
  define c where "c = (if ?sample then sh_counter s else r)"
  define p where "p = \<lparr>sb_tx_type = ?ty, sb_account_id = ?src, sb_dest_account_id = dest, sb_amount_bits = client_amount_bits ?ty\<rparr>"
  have t: "t = \<lparr>ct_validator = target, ct_worker = w, ct_bytes = client_tx_bytes cfg ?sample c p\<rparr>"
    and s': "s' = s\<lparr>sh_r := r, sh_worker_rr := wrr, sh_validator_rr := vrr, sh_burst_count := wadd 64 (sh_burst_count s) 1, sh_rng := r2\<rparr>"
    using assms(1) dest target w by (auto simp: send_one_def k c_def r_def p_def split: if_splits)
  have inv: "sh_counter s < 2 ^ 64" "sh_r s < 2 ^ 64" using assms(4) by (simp_all add: shard_inv_def)
  then have r64: "r < 2 ^ 64" "c < 2 ^ 64" using wadd_less [of 64 "sh_r s" 1] by (auto simp only: r_def c_def split: if_splits)
  have k_less: "k < cc_num_accounts cfg" using draw_weighted_less [OF assms(3) k] .
  then have src: "?src < cc_total_accounts cfg" using assms(2) by (simp add: client_ok_def)
  have dest_ok: "dest < cc_total_accounts cfg" "dest \<noteq> ?src \<longleftrightarrow> ?ty = SendPayment"
    using dest src client_dest_result [OF assms(3), of "cc_total_accounts cfg" ?src r1 dest r2] by (auto split: if_splits)
  have "sb_wf p" using src dest_ok(1) assms(2) client_amount_bits_less by (auto simp: sb_wf_def p_def client_ok_def)
  note parsed = tx_layout_parse [OF r64(2) this, of "if ?sample then 0 else 1" "word_of_nat (cc_region_id cfg)" "replicate (cc_size cfg - 35) 0"]
  have bytes: "ct_bytes t = [if ?sample then 0 else 1, word_of_nat (cc_region_id cfg)] @ be_bytes 8 c @ sb_to_bytes p @ replicate (cc_size cfg - 35) 0"
    using client_tx_bytes_layout [of cfg ?sample c p] assms(2) by (simp add: t client_ok_def)
  note tok = client_target_ok [OF target assms(2)]
  have "0 < cc_num_workers cfg" using assms(2) by (simp add: client_ok_def)
  moreover have "\<forall>k v. map_of (sh_worker_rr s) k = Some v \<longrightarrow> v < cc_num_workers cfg" using assms(4) by (simp add: shard_inv_def)
  ultimately have wok: "w < cc_num_workers cfg" "\<forall>k v. map_of wrr k = Some v \<longrightarrow> v < cc_num_workers cfg"
    by (fact client_worker_ok [OF w])+
  have vrr: "\<forall>k v. map_of (sh_validator_rr s) k = Some v \<longrightarrow> v < length (cc_validators cfg)" using assms(4) by (simp add: shard_inv_def)
  show "tx_sent_ok cfg route ?sample (sh_counter s) t"
    unfolding tx_sent_ok_def bytes
  proof (rule exI [of _ "\<lparr>th_tx_type = (if ?sample then 0 else 1), th_id = (word_of_nat (cc_region_id cfg), c)\<rparr>"],
      rule exI [of _ p], intro conjI parsed)
    show "\<not> cc_round_robin cfg \<longrightarrow> ct_validator t = (case route (sb_account_id p) of
           Some pk \<Rightarrow> if pk \<in> set (cc_validators cfg) then pk else cc_own_validator cfg | None \<Rightarrow> cc_own_validator cfg)"
      using tok(3) [OF vrr] by (simp add: p_def t)
    show "ct_validator t \<in> set (cc_validators cfg)" using tok(1) [OF vrr] by (simp add: t)
    show "(sb_dest_account_id p \<noteq> sb_account_id p) = (sb_tx_type p = SendPayment)" using dest_ok(2) by (simp add: p_def)
  qed (use k_less dest_ok(1) wok(1) in \<open>simp_all add: is_sample_def c_def p_def t\<close>)
  show "shard_inv cfg s'" using tok(2) [OF vrr] wok(2) r64(1) assms(4) by (simp add: s' shard_inv_def)
  show "sh_counter s' = sh_counter s" "sh_total_sent s' = sh_total_sent s" by (simp_all add: s')
qed

subsection \<open>Every transaction is made\<close>

text \<open>The generator does not give the same number forever.\<close>

definition rng_varied :: "'r rng \<Rightarrow> bool" where
  "rng_varied R \<longleftrightarrow> (\<forall>n src r. 1 < n \<longrightarrow> (\<exists>j. fst (rng_below R n (((\<lambda>q. snd (rng_below R n q)) ^^ j) r)) \<noteq> src))"

lemma client_dest_returns:
  assumes "rng_varied R" "1 < n"
  shows "\<exists>d r'. client_dest R n src r = Some (d, r')"
proof -
  obtain j where "fst (rng_below R n (((\<lambda>q. snd (rng_below R n q)) ^^ j) r)) \<noteq> src"
    using assms unfolding rng_varied_def by blast
  then show ?thesis
  proof (induction j arbitrary: r)
    case 0
    then show ?case using assms(2) by (subst client_dest.simps) (auto simp: gen_range0_def split: prod.splits)
  next
    case (Suc j)
    have "\<exists>d r'. client_dest R n src (snd (rng_below R n r)) = Some (d, r')"
      using Suc.prems by (intro Suc.IH) (simp add: funpow_Suc_right del: funpow.simps)
    then show ?case using assms(2) by (subst client_dest.simps) (auto simp: gen_range0_def split: prod.splits)
  qed
qed

lemma draw_weighted_returns:
  assumes "0 < n" "length ws \<le> n"
  shows "\<exists>k r'. draw_weighted R ws n r = Some (k, r')"
proof (cases "ws = []")
  case True
  then show ?thesis using assms(1) by (simp add: draw_weighted_def gen_range0_def)
next
  case False
  let ?k = "length ws"
  have size: "0 < n div ?k" using False assms by (simp add: div_greater_zero_iff)
  have "(?k - 1) * (n div ?k) + n div ?k \<le> n" using False by (intro shard_bound) simp
  then have last: "(?k - 1) * (n div ?k) < n" using size by linarith
  show ?thesis
    using False size last by (auto simp: draw_weighted_def gen_range0_def Let_def split: prod.splits) (metis surj_pair)+
qed

lemma send_one_returns:
  assumes "client_ok cfg" "rng_varied R"
  shows "\<exists>t s'. send_one cfg R route burst x s = Some (t, s')"
proof -
  have ok: "0 < cc_num_accounts cfg" "length (cc_skew_weights cfg) \<le> cc_num_accounts cfg" "1 < cc_total_accounts cfg"
    using assms(1) by (simp_all add: client_ok_def)
  obtain k r1 where k: "draw_weighted R (cc_skew_weights cfg) (cc_num_accounts cfg) (sh_rng s) = Some (k, r1)"
    using draw_weighted_returns [OF ok(1,2), of R "sh_rng s"] by blast
  obtain d r2 where "client_dest R (cc_total_accounts cfg) (cc_account_start cfg + k) r1 = Some (d, r2)"
    using client_dest_returns [OF assms(2) ok(3)] by blast
  then show ?thesis by (auto simp: send_one_def k split: prod.splits)
qed

lemma send_burst_ok:
  assumes "client_ok cfg" "rng_ok R" "rng_varied R" "shard_inv cfg s"
  shows "\<exists>ts s'. send_burst cfg R route burst xs s = Some (ts, s') \<and> length ts = length xs \<and> shard_inv cfg s'
    \<and> sh_counter s' = sh_counter s \<and> sh_total_sent s' = sh_total_sent s
    \<and> (\<forall>i<length xs. tx_sent_ok cfg (route (xs ! i)) (0 < burst \<and> xs ! i = sh_counter s mod burst) (sh_counter s) (ts ! i))"
  using assms(4)
proof (induction xs arbitrary: s)
  case Nil
  then show ?case by simp
next
  case (Cons x xs)
  obtain t s1 where one: "send_one cfg R (route x) burst x s = Some (t, s1)" using send_one_returns [OF assms(1,3)] by blast
  note first = send_one_ok [OF one assms(1,2) Cons.prems]
  obtain ts s2 where rest: "send_burst cfg R route burst xs s1 = Some (ts, s2)" "length ts = length xs" "shard_inv cfg s2"
    "sh_counter s2 = sh_counter s" "sh_total_sent s2 = sh_total_sent s"
    "\<forall>i<length xs. tx_sent_ok cfg (route (xs ! i)) (0 < burst \<and> xs ! i = sh_counter s mod burst) (sh_counter s) (ts ! i)"
    using Cons.IH [OF first(2)] by (auto simp: first(3,4))
  have "tx_sent_ok cfg (route ((x # xs) ! i)) (0 < burst \<and> (x # xs) ! i = sh_counter s mod burst) (sh_counter s) ((t # ts) ! i)"
    if "i < length (x # xs)" for i
    using that rest(6) first(1) by (cases i) auto
  then show ?case using rest(2-5) by (simp add: one rest(1))
qed

text \<open>The transactions of a run of ticks that begins at tick \<open>c\<close>.\<close>

definition sent_before :: "client_config \<Rightarrow> nat \<Rightarrow> nat" where
  "sent_before cfg c =
    (case c of 0 \<Rightarrow> 0 | Suc d \<Rightarrow> exact_total (cc_balanced_rate cfg) (cc_rate cfg) (cc_rampup_secs cfg) d)"

lemma sent_before_mono: "sent_before cfg c \<le> sent_before cfg (Suc c)"
  by (cases c) (simp_all add: sent_before_def exact_total_mono)

lemma send_tick_ok:
  assumes "client_ok cfg" "rng_ok R" "rng_varied R" "shard_inv cfg s" "sh_counter s = c" "sh_total_sent s = sent_before cfg c"
    and "pace_ok (cc_balanced_rate cfg) (cc_rate cfg) (cc_rampup_secs cfg) c"
  shows "\<exists>ts s'. send_tick cfg R route s = Some (ts, s') \<and> length ts = sent_before cfg (Suc c) - sent_before cfg c
    \<and> shard_inv cfg s' \<and> sh_counter s' = Suc c \<and> sh_total_sent s' = sent_before cfg (Suc c)
    \<and> (\<forall>i<length ts. tx_sent_ok cfg (route i) (i = c mod length ts) c (ts ! i))"
proof -
  define burst where "burst = sent_before cfg (Suc c) - sent_before cfg c"
  note total = next_total_exact [OF assms(7)]
  have "wsub 64 (sent_before cfg (Suc c)) (sent_before cfg c) = burst"
    unfolding burst_def using sent_before_mono total(2) by (intro wsub_exact) (simp_all add: sent_before_def)
  then have burst: "wsub 64 (exact_total (cc_balanced_rate cfg) (cc_rate cfg) (cc_rampup_secs cfg) c) (sent_before cfg c) = burst"
    by (simp add: sent_before_def)
  have c: "wadd 64 c (Suc 0) = Suc c" "Suc c < 2 ^ 64" using assms(7) by (simp_all add: pace_ok_def wadd_exact)
  obtain ts s1 where run: "send_burst cfg R route burst [0..<burst] s = Some (ts, s1)" "length ts = burst" "shard_inv cfg s1"
    and txs: "\<forall>i<burst. tx_sent_ok cfg (route i) (i = c mod burst) c (ts ! i)"
    using send_burst_ok [OF assms(1-4), of route burst "[0..<burst]"] by (auto simp: assms(5))
  have "send_tick cfg R route s = Some (ts, s1\<lparr>sh_total_sent := sent_before cfg (Suc c), sh_counter := Suc c\<rparr>)"
    by (simp add: send_tick_def Let_def assms(5,6) total(1) burst run(1) c(1)) (simp add: sent_before_def)
  moreover have "shard_inv cfg (s1\<lparr>sh_total_sent := sent_before cfg (Suc c), sh_counter := Suc c\<rparr>)"
    using run(3) c(2) by (simp add: shard_inv_def)
  ultimately show ?thesis using run(2) txs by (simp add: burst_def)
qed

lemma send_ticks_ok:
  assumes "client_ok cfg" "rng_ok R" "rng_varied R"
    and "pace_ok (cc_balanced_rate cfg) (cc_rate cfg) (cc_rampup_secs cfg) (c + length routes)"
    and "shard_inv cfg s" "sh_counter s = c" "sh_total_sent s = sent_before cfg c"
  shows "\<exists>tss s'. send_ticks cfg R routes s = Some (tss, s') \<and> length tss = length routes
    \<and> (\<forall>k\<le>length routes. length (concat (take k tss)) + sent_before cfg c = sent_before cfg (c + k))
    \<and> (\<forall>k<length routes. \<forall>i<length (tss ! k). tx_sent_ok cfg ((routes ! k) i) (i = (c + k) mod length (tss ! k)) (c + k) (tss ! k ! i))"
  using assms(4-7)
proof (induction routes arbitrary: c s)
  case Nil
  then show ?case by simp
next
  case (Cons route routes)
  have pace: "pace_ok (cc_balanced_rate cfg) (cc_rate cfg) (cc_rampup_secs cfg) c"
    "pace_ok (cc_balanced_rate cfg) (cc_rate cfg) (cc_rampup_secs cfg) (Suc c + length routes)"
    using Cons.prems(1) by (simp_all add: pace_ok_def)
  obtain ts s1 where tick: "send_tick cfg R route s = Some (ts, s1)" "length ts = sent_before cfg (Suc c) - sent_before cfg c"
    "shard_inv cfg s1" "sh_counter s1 = Suc c" "sh_total_sent s1 = sent_before cfg (Suc c)"
    and first: "\<forall>i<length ts. tx_sent_ok cfg (route i) (i = c mod length ts) c (ts ! i)"
    using send_tick_ok [OF assms(1-3) Cons.prems(2-4) pace(1)] by blast
  obtain tss s2 where rest: "send_ticks cfg R routes s1 = Some (tss, s2)" "length tss = length routes"
    and sums: "\<forall>k\<le>length routes. length (concat (take k tss)) + sent_before cfg (Suc c) = sent_before cfg (Suc c + k)"
    and later: "\<forall>k<length routes. \<forall>i<length (tss ! k). tx_sent_ok cfg ((routes ! k) i) (i = (Suc c + k) mod length (tss ! k)) (Suc c + k) (tss ! k ! i)"
    using Cons.IH [OF pace(2) tick(3-5)] by blast
  have "length (concat (take k (ts # tss))) + sent_before cfg c = sent_before cfg (c + k)" if "k \<le> Suc (length routes)" for k
  proof (cases k)
    case (Suc j)
    then have "length (concat (take j tss)) + sent_before cfg (Suc c) = sent_before cfg (Suc c + j)" using sums that by simp
    then show ?thesis using Suc tick(2) sent_before_mono [of cfg c] by simp
  qed simp
  moreover have "tx_sent_ok cfg (((route # routes) ! k) i) (i = (c + k) mod length ((ts # tss) ! k)) (c + k) ((ts # tss) ! k ! i)"
    if "k < Suc (length routes)" "i < length ((ts # tss) ! k)" for k i
    using that first later by (cases k) auto
  ultimately show ?case using rest(2) by (simp add: tick(1) rest(1))
qed

text \<open>C32: The client's bursts follow its schedule, and its transactions are well formed. From the start of a shard, for any
  number of ticks with rates below \<open>2\<^sup>20\<close>, the sending of every burst comes to its end; the number of transactions sent
  after each tick is the quadratic ramp, the constant balanced rate or the configured rate of the schedule, exactly and with no wrap-around
  in \<open>u64\<close> (so no burst is the difference of a smaller number and a larger one). Every transaction
  parses, with a source account of the client's range, a destination that is another account for a payment and the
  source for the other types, and goes to the validator in the routing table and to an existing worker; the one of index \<open>k mod burst\<close>
  of the burst of tick \<open>k\<close> is its only sample and carries \<open>k\<close> as its counter.\<close>

theorem client_sends_at_pace:
  fixes R :: "'r rng"
  assumes "client_ok cfg" "rng_ok R" "rng_varied R" "r < 2 ^ 64"
    and "pace_ok (cc_balanced_rate cfg) (cc_rate cfg) (cc_rampup_secs cfg) (length routes)"
  shows "\<exists>tss s'. send_ticks cfg R routes (shard_start_state g r) = Some (tss, s') \<and> length tss = length routes
    \<and> (\<forall>k<length routes. length (concat (take (Suc k) tss)) = exact_total (cc_balanced_rate cfg) (cc_rate cfg) (cc_rampup_secs cfg) k
       \<and> (\<forall>i<length (tss ! k). tx_sent_ok cfg ((routes ! k) i) (i = k mod length (tss ! k)) k (tss ! k ! i)))"
proof -
  have start: "shard_inv cfg (shard_start_state g r)" "sh_counter (shard_start_state g r) = 0"
    "sh_total_sent (shard_start_state g r) = sent_before cfg 0"
    using assms(4) by (simp_all add: shard_inv_def shard_start_state_def sent_before_def)
  obtain tss s' where run: "send_ticks cfg R routes (shard_start_state g r) = Some (tss, s')" "length tss = length routes"
    and sums: "\<forall>k\<le>length routes. length (concat (take k tss)) + sent_before cfg 0 = sent_before cfg (0 + k)"
    and txs: "\<forall>k<length routes. \<forall>i<length (tss ! k). tx_sent_ok cfg ((routes ! k) i) (i = (0 + k) mod length (tss ! k)) (0 + k) (tss ! k ! i)"
    using send_ticks_ok [OF assms(1-3) _ start, of routes, unfolded add_0_left, OF assms(5)] unfolding add_0_left by blast
  have "length (concat (take (Suc k) tss)) = exact_total (cc_balanced_rate cfg) (cc_rate cfg) (cc_rampup_secs cfg) k"
    if "k < length routes" for k
    using sums [rule_format, of "Suc k"] that by (simp add: sent_before_def)
  then show ?thesis using run txs by auto
qed

definition counting_rng :: "nat rng" where
  "counting_rng = \<lparr>rng_seed = (\<lambda>n. n), rng_f64 = (\<lambda>r. (Fin 0, r)), rng_below = (\<lambda>n r. (r mod n, Suc r))\<rparr>"

definition small_client :: client_config where
  "small_client = \<lparr>cc_own_validator = 7, cc_validators = [5, 7], cc_num_workers = 1, cc_round_robin = False, cc_account_start = 10,
     cc_num_accounts = 10, cc_total_accounts = 20, cc_rate = 60, cc_balanced_rate = 40, cc_size = 64, cc_region_id = 1,
     cc_num_tx_types = 5, cc_skew_weights = [], cc_rampup_secs = 1\<rparr>"

lemma counting_rng_ok: "rng_ok counting_rng" "rng_varied counting_rng"
proof -
  show "rng_ok counting_rng" by (simp add: rng_ok_def counting_rng_def)
  have "\<exists>j. fst (rng_below counting_rng n (((\<lambda>q. snd (rng_below counting_rng n q)) ^^ j) r)) \<noteq> src" if "1 < n" for n src r
  proof (cases "r mod n = src")
    case True
    then have "Suc r mod n \<noteq> src" using that by (auto simp: mod_Suc)
    then show ?thesis by (intro exI [of _ 1]) (simp add: counting_rng_def)
  next
    case False
    then show ?thesis by (intro exI [of _ 0]) (simp add: counting_rng_def)
  qed
  then show "rng_varied counting_rng" unfolding rng_varied_def by blast
qed

theorem client_sends_at_pace_witness:
  "\<exists>tss s'. send_ticks small_client counting_rng (replicate 3 (\<lambda>x a. None)) (shard_start_state 0 0) = Some (tss, s')
     \<and> length (tss ! 2) = 2"
proof -
  have "\<exists>tss s'. send_ticks small_client counting_rng (replicate 3 (\<lambda>x a. None)) (shard_start_state 0 0) = Some (tss, s')
      \<and> length tss = length (replicate 3 (\<lambda>(x::nat) (a::nat). None :: public_key option))
      \<and> (\<forall>k<length (replicate 3 (\<lambda>(x::nat) (a::nat). None :: public_key option)).
         length (concat (take (Suc k) tss)) = exact_total (cc_balanced_rate small_client) (cc_rate small_client) (cc_rampup_secs small_client) k
       \<and> (\<forall>i<length (tss ! k). tx_sent_ok small_client ((replicate 3 (\<lambda>x a. None) ! k) i) (i = k mod length (tss ! k)) k (tss ! k ! i)))"
    by (rule client_sends_at_pace) (simp_all add: counting_rng_ok client_ok_def small_client_def pace_ok_def)
  then obtain tss s' where run: "send_ticks small_client counting_rng (replicate 3 (\<lambda>x a. None)) (shard_start_state 0 0) = Some (tss, s')"
    "length tss = 3" and sums: "\<forall>k<3. length (concat (take (Suc k) tss)) = exact_total 40 60 1 k"
    by (auto simp: small_client_def)
  obtain a b d where "tss = [a, b, d]" using run(2) by (auto simp: length_Suc_conv eval_nat_numeral)
  then have "length (tss ! 2) = 2" using sums [rule_format, of 1] sums [rule_format, of 2] by (simp add: exact_total_def)
  then show ?thesis using run(1) by blast
qed

end
