(* ===== verification/Spec2Isabelle.thy ===== *)
theory Spec2Isabelle
  imports Consensus_Runs Primary_Runs Header_Waiter Store Load_Runs Pipeline Worker_Sync Writeback_Stall Network_Link Replay
    Client_Routing Client_Sending
begin

text \<open>
  \<^bold>\<open>A model of the DAG-based BFT system of this repository.\<close>

  A validator is a primary, its workers and its executors. Clients send SmallBank transactions to
  a worker, which seals them in batches and broadcasts them to the workers of the other validators; a
  quorum of acknowledgements makes a batch available. The primary puts the digests of its
  workers' batches in a header for each round, the other primaries vote for it, and a quorum of votes
  makes it a certificate, a vertex of the dag. Consensus (Tusk) commits sub-dags of elected
  leaders. The committed batches are numbered, routed to the executors and run there; accounts migrate
  between the executors. A load balancer watches the committed certificates and moves accounts
  between validators with migration notices that the workers forward to the clients.

  \<^bold>\<open>Theories and code\<close> (file names are relative to \<^verbatim>\<open>src/\<close>; a definition has the name of
  the Rust function or structure where Isabelle allows it):

  \<^item> \<open>Prelude\<close>: \<open>u32\<close>/\<open>u64\<close> arithmetic of the release profile, hash maps as
    association lists, byte strings, panics as \<open>None\<close>, errors as the left side of a sum.
  \<^item> \<open>Config\<close> (\<^verbatim>\<open>config/src/lib.rs\<close>): committee, thresholds, addresses, the initial partition of
    the accounts; the locale \<open>weighted_quorum\<close> and its instance for the committee.
  \<^item> \<open>Messages\<close> (\<^verbatim>\<open>primary/src/messages.rs\<close>, \<^verbatim>\<open>primary/src/error.rs\<close>, \<^verbatim>\<open>crypto/src/lib.rs\<close>):
    headers, votes, certificates, their digests and verification.
  \<^item> \<open>Aggregators\<close> (\<^verbatim>\<open>primary/src/aggregators.rs\<close>): votes and certificates counted up to a
    quorum; the locale \<open>quorum_counter\<close>, with both aggregators as its instances.
  \<^item> \<open>Synchronizer\<close>, \<open>Core\<close> (\<^verbatim>\<open>primary/src/synchronizer.rs\<close>, \<^verbatim>\<open>primary/src/core.rs\<close>), with \<open>Core_Props\<close>
    (at most one vote for an author and round, votes only for checked headers, the fuel of
    the mutually recursive handlers: \<open>core_fuel\<close> is eight, proved enough), \<open>Core_Causal\<close> (consensus
    gets parents first) and \<open>Core_Runs\<close> (runs, and a second vote after garbage collection).
  \<^item> \<open>Proposer\<close> (\<^verbatim>\<open>primary/src/proposer.rs\<close>), \<open>Primary_Tasks\<close> and \<open>Primary_Runs\<close> (receivers, payload
    receiver, helper, garbage collector, certificate waiter), \<open>Header_Waiter\<close>
    (\<^verbatim>\<open>primary/src/header_waiter.rs\<close>, a step relation).
  \<^item> \<open>Consensus\<close> (\<^verbatim>\<open>consensus/src/lib.rs\<close>), \<open>Consensus_Order\<close> (the linearisation of a sub-dag is
    sorted, closed and complete), \<open>Consensus_Safety\<close> (the state invariant, no certificate
    committed twice when none arrives late), \<open>Consensus_Runs\<close>.
  \<^item> \<open>F64\<close> (binary64 as rounded rationals), \<open>Load_Tracking\<close>, \<open>Rerouting\<close>, \<open>Rerouting_Props\<close>,
    \<open>Load_Balancing\<close>, \<open>Load_Totality\<close>, \<open>Load_Runs\<close> (\<^verbatim>\<open>consensus/src/lib.rs\<close>, the load balancer):
    it refines an abstract ownership of accounts, never panics, and keeps migrations apart.
  \<^item> \<open>Store\<close> (\<^verbatim>\<open>store/src/lib.rs\<close>): the two command loops; the one in memory is the instance of the locale
    \<open>command_loop\<close>, and the one on a database is proved equivalent to it.
  \<^item> \<open>Worker_Tasks\<close> (\<^verbatim>\<open>worker/src\<close>: \<^verbatim>\<open>worker.rs\<close>, \<^verbatim>\<open>batch_maker.rs\<close>, \<^verbatim>\<open>quorum_waiter.rs\<close>,
    \<^verbatim>\<open>processor.rs\<close>, \<^verbatim>\<open>helper.rs\<close>): from transactions to reported batches, and on to the vote of another
    primary; \<open>Worker_Sync\<close> (\<^verbatim>\<open>synchronizer.rs\<close>): fetching batches, garbage collection.
  \<^item> \<open>Sequencer\<close> (\<open>analyze\<close> of \<^verbatim>\<open>node/src/main.rs\<close>): numbering the committed batches.
  \<^item> \<open>Workload\<close> (\<^verbatim>\<open>workload.rs\<close>, \<^verbatim>\<open>transaction.rs\<close>), \<open>Batch_Executor\<close> (\<^verbatim>\<open>batch_executor.rs\<close>),
    \<open>Executor_Tasks\<close> (\<^verbatim>\<open>router.rs\<close>, \<^verbatim>\<open>executor.rs\<close>, \<^verbatim>\<open>state_helper.rs\<close>, \<^verbatim>\<open>client_replier.rs\<close>): the executors;
    \<open>Executor_Order\<close> (batches run in sequence), \<open>Executor_Routing\<close> (all executors compute the same
    partition, what one sends another awaits, the load bound of the scheduler), \<open>Executor_Props\<close>
    (conservation of money, sequential execution by one executor), \<open>Executor_Cluster\<close> (no
    account is lost or duplicated between executors), \<open>Executor_Runs\<close> (examples), \<open>Reused_Ids\<close>.
  \<^item> The write-back executor (\<^verbatim>\<open>worker/src/writeback_*.rs\<close>), where accounts stay with their owner
    and a payment runs on a copy: \<open>Writeback_Executor\<close> (\<^verbatim>\<open>writeback_batch_executor.rs\<close>),
    \<open>Writeback_Tasks\<close> (\<^verbatim>\<open>writeback_router.rs\<close>, \<^verbatim>\<open>writeback_state_helper.rs\<close>),
    \<open>Writeback_History\<close> (the sequential execution of a history, and what a well-formed history is),
    \<open>Writeback_Cluster\<close> (the invariant of all executors and of the messages between them, and that every
    operation keeps it), \<open>Writeback_Serial\<close> (in every reachable state of a cluster each account
    has the value that the sequential execution gives it), \<open>Writeback_Runs\<close> (an example),
    \<open>Writeback_Stall\<close> (a lock that its owner no longer waits for blocks a payment for ever).
  \<^item> \<open>Network\<close> (\<^verbatim>\<open>network/src\<close>): the reliable sender, the simple sender and the receiver's runner;
    \<open>Network_Link\<close>: a connection of the reliable sender and the receiver over TCP connections that fail
    (acknowledged messages were delivered, messages get through, deliveries are in order).
  \<^item> \<open>Pipeline\<close>: from the output of consensus through \<open>analyze\<close>, router and network to the executors. The
    buffer of an executor holds 5000 batches, so batches may arrive in any order in which none is overtaken by one that is
    more than 5000 behind it (\<open>within_buffer\<close>).
  \<^item> The client (\<^verbatim>\<open>node/src/benchmark_client.rs\<close>): \<open>Draws\<close> (random accounts, also of the replay), \<open>Client\<close>,
    \<open>Client_Routing\<close> (who can change a route, when the client follows the validators' migrations, and two
    ways in which it does not), \<open>Client_Sending\<close> (the schedule, and the contents and targets of the transactions).
  \<^item> \<open>Replay\<close> (\<^verbatim>\<open>executor-replay/\<close>: \<^verbatim>\<open>config/src/replay.rs\<close>, \<^verbatim>\<open>worker/src/replay_batch_generator.rs\<close>,
    \<^verbatim>\<open>primary/src/replay_sequencer.rs\<close>): the harness that runs a recording through the routers of any number of workers and the executors.

  \<^bold>\<open>How code is translated.\<close> A task's \<open>select!\<close> loop is a function of its state and the next
  event, and a run is a list of events, so every interleaving is a list. Messages sent are returned in the
  order of sending. A hash map's iteration order is either that of the list that represents the map or
  an explicit argument (\<open>ec_pick\<close>, \<open>ec_arrange\<close>, \<open>iterations\<close>), so a statement holds for
  every order; within one run equal contents iterate equally. The steps of a cluster of executors are whole batches:
  a transfer is not answered within the batch in which it was sent. Waiting for a batch is a result of its own (\<open>Waits\<close>, or \<open>None\<close> of
  \<open>route_command\<close>). Loops terminate by a measure; only the handlers of the primary's core use fuel.

  \<^bold>\<open>Parameters\<close> that stand for code that is not in the repository: \<open>crypto\<close> (SHA-512, ed25519),
  \<open>codec\<close> and \<open>worker_codec\<close> (bincode), \<open>rocks\<close> (RocksDB), the seeded generator of the initial
  balances and those of the client and the replay, the contents of messages that the network delivers.

  \<^bold>\<open>Not modelled.\<close> TCP itself and the framing of messages (environment of the network crate), the bounds of
  channels, reading configuration and key files,
  the connections of the client and the command lines of \<^verbatim>\<open>node/\<close>, log lines, and the text form of keys. The
  protocol crates of the replay harness \<^verbatim>\<open>executor-replay/\<close> are near-copies of those modelled here (its client and load balancer are variants), and its
  \<^verbatim>\<open>stratus.rs\<close> is not part of any crate.
  The serializability of the write-back executor is stated for well-formed histories (\<open>wh_ok\<close>):
  transfers whose accounts exist and differ, and with a locality that agrees with the partition; the
  theorem of \<open>Writeback_Stall\<close> shows that termination of the lock queues is not to be had in general.

  The properties that are checked are the theorems after the text blocks that begin with
  their number; the theorems whose names end in \<open>_witness\<close> apply them to concrete inputs.
\<close>

end
